(* ===== verification/Prelude.thy ===== *)
theory Prelude
  imports Main "HOL-Library.Word" "HOL-Library.AList" "HOL-Library.Monad_Syntax"
begin

text \<open>
  The shared vocabulary of the development: the machine integers of the Rust sources, the result
  type of fallible operations, hash maps and hash sets, big-endian byte strings, and the generic
  lemmas on them that the component theories use through the collections declared here.
\<close>

section \<open>Collections of facts\<close>

named_theorems byte_simps \<open>lengths and round trips of big-endian byte strings\<close>
named_theorems result_simps \<open>unfolding of the result combinators\<close>
named_theorems alist_simps \<open>look-ups and keys of association lists after an update\<close>

section \<open>Machine integers\<close>

text \<open>
  \<open>u64\<close> and \<open>i64\<close> are both 64-bit words: an \<open>as\<close> cast between them keeps the bits, and a signed
  value is read with \<^const>\<open>sint\<close>.  Checked and saturating arithmetic is written out.
\<close>

type_synonym u8 = "8 word"
type_synonym u64 = "64 word"
type_synonym i64 = "64 word"

definition i64_min :: int where "i64_min = - (2 ^ 63)"
definition i64_max :: int where "i64_max = 2 ^ 63 - 1"
definition u64_max :: int where "u64_max = 2 ^ 64 - 1"

lemmas int_bounds = i64_min_def i64_max_def u64_max_def

definition u64_checked_add :: "u64 \<Rightarrow> u64 \<Rightarrow> u64 option" where
  "u64_checked_add a b = (if uint a + uint b \<le> u64_max then Some (a + b) else None)"

definition u64_checked_sub :: "u64 \<Rightarrow> u64 \<Rightarrow> u64 option" where
  "u64_checked_sub a b = (if uint b \<le> uint a then Some (a - b) else None)"

definition i64_checked_add :: "i64 \<Rightarrow> i64 \<Rightarrow> i64 option" where
  "i64_checked_add a b =
     (if i64_min \<le> sint a + sint b \<and> sint a + sint b \<le> i64_max then Some (a + b) else None)"

definition i64_checked_sub :: "i64 \<Rightarrow> i64 \<Rightarrow> i64 option" where
  "i64_checked_sub a b =
     (if i64_min \<le> sint a - sint b \<and> sint a - sint b \<le> i64_max then Some (a - b) else None)"

definition u64_saturating_add :: "u64 \<Rightarrow> u64 \<Rightarrow> u64" where
  "u64_saturating_add a b = (case u64_checked_add a b of Some c \<Rightarrow> c | None \<Rightarrow> - 1)"

definition u64_saturating_sub :: "u64 \<Rightarrow> u64 \<Rightarrow> u64" where
  "u64_saturating_sub a b = (case u64_checked_sub a b of Some c \<Rightarrow> c | None \<Rightarrow> 0)"

definition i64_saturating_add :: "i64 \<Rightarrow> i64 \<Rightarrow> i64" where
  "i64_saturating_add a b =
     (case i64_checked_add a b of Some c \<Rightarrow> c
      | None \<Rightarrow> if sint b < 0 then word_of_int i64_min else word_of_int i64_max)"

definition i64_saturating_sub :: "i64 \<Rightarrow> i64 \<Rightarrow> i64" where
  "i64_saturating_sub a b =
     (case i64_checked_sub a b of Some c \<Rightarrow> c
      | None \<Rightarrow> if sint b < 0 then word_of_int i64_max else word_of_int i64_min)"

text \<open>Counters of type \<open>usize\<close> are naturals below \<open>2 ^ 64\<close>; \<open>saturating_add(1)\<close> stops there.\<close>

definition usize_max :: nat where "usize_max = 2 ^ 64 - 1"

definition usize_saturating_inc :: "nat \<Rightarrow> nat" where
  "usize_saturating_inc n = (if n < usize_max then Suc n else n)"

lemma usize_saturating_inc_code [code]:
  "usize_saturating_inc n = (if int n < 18446744073709551615 then Suc n else n)"
proof -
  have "n < usize_max \<longleftrightarrow> int n < int usize_max" by simp
  also have "int usize_max = 18446744073709551615" by (simp add: usize_max_def of_nat_diff)
  finally show ?thesis by (simp add: usize_saturating_inc_def)
qed

lemma sint_range64: "i64_min \<le> sint (w :: i64)" "sint (w :: i64) \<le> i64_max"
  using sint_ge [of w] sint_lt [of w] by (simp_all add: int_bounds)

lemma sint_word_of_int64:
  "i64_min \<le> k \<Longrightarrow> k \<le> i64_max \<Longrightarrow> sint (word_of_int k :: i64) = k"
  by (simp add: int_bounds sint_sbintrunc' signed_take_bit_int_eq_self_iff)

lemma uint_u64_checked_add: "u64_checked_add a b = Some c \<Longrightarrow> uint c = uint a + uint b"
  by (auto simp: u64_checked_add_def u64_max_def uint_plus_if' split: if_splits)

lemma uint_u64_checked_sub: "u64_checked_sub a b = Some c \<Longrightarrow> uint c = uint a - uint b"
  by (auto simp: u64_checked_sub_def uint_sub_lem split: if_splits)

lemma sint_i64_checked_add: "i64_checked_add a b = Some c \<Longrightarrow> sint c = sint a + sint b"
  by (auto simp: i64_checked_add_def int_bounds sint_word_ariths
      signed_take_bit_int_eq_self_iff split: if_splits)

lemma sint_i64_checked_sub: "i64_checked_sub a b = Some c \<Longrightarrow> sint c = sint a - sint b"
  by (auto simp: i64_checked_sub_def int_bounds sint_word_ariths
      signed_take_bit_int_eq_self_iff split: if_splits)

section \<open>Results\<close>

text \<open>
  A fallible operation returns \<open>'e + 'a\<close>.  \<open>rbind\<close> is the \<open>?\<close> operator; \<open>require r k\<close> is the early
  return \<open>if !r? { return Ok(false) }\<close> followed by \<open>k\<close>.
\<close>

definition rbind :: "'e + 'a \<Rightarrow> ('a \<Rightarrow> 'e + 'b) \<Rightarrow> 'e + 'b" where
  "rbind r k = (case r of Inl e \<Rightarrow> Inl e | Inr a \<Rightarrow> k a)"

definition require :: "'e + bool \<Rightarrow> 'e + bool \<Rightarrow> 'e + bool" where
  "require r k = (case r of Inl e \<Rightarrow> Inl e | Inr b \<Rightarrow> if b then k else Inr False)"

definition ok_or :: "'e \<Rightarrow> 'a option \<Rightarrow> 'e + 'a" where
  "ok_or e x = (case x of None \<Rightarrow> Inl e | Some a \<Rightarrow> Inr a)"

lemma rbind_Inr [result_simps]: "rbind r k = Inr b \<longleftrightarrow> (\<exists>a. r = Inr a \<and> k a = Inr b)"
  by (cases r) (auto simp: rbind_def)

lemma rbind_Inl [result_simps]:
  "rbind r k = Inl e \<longleftrightarrow> r = Inl e \<or> (\<exists>a. r = Inr a \<and> k a = Inl e)"
  by (cases r) (auto simp: rbind_def)

lemma rbind_simps [simp]: "rbind (Inl e) k = Inl e" "rbind (Inr a) k = k a"
  by (auto simp: rbind_def)

lemma require_True [result_simps]: "require r k = Inr True \<longleftrightarrow> r = Inr True \<and> k = Inr True"
  by (cases r) (auto simp: require_def)

lemma require_Inl [result_simps]:
  "require r k = Inl e \<longleftrightarrow> r = Inl e \<or> r = Inr True \<and> k = Inl e"
  by (cases r) (auto simp: require_def)

lemma require_simps [simp]:
  "require (Inl e) k = Inl e" "require (Inr True) k = k" "require (Inr False) k = Inr False"
  by (auto simp: require_def)

lemma ok_or_Inr [result_simps]: "ok_or e x = Inr a \<longleftrightarrow> x = Some a"
  by (cases x) (auto simp: ok_or_def)

lemma ok_or_Inl [result_simps]: "ok_or e x = Inl e' \<longleftrightarrow> x = None \<and> e' = e"
  by (cases x) (auto simp: ok_or_def)

lemma ok_or_simps [simp]: "ok_or e None = Inl e" "ok_or e (Some a) = Inr a"
  by (auto simp: ok_or_def)

section \<open>Big-endian bytes\<close>

unbundle bit_operations_syntax

text \<open>
  \<open>to_be_bytes\<close> and \<open>from_be_bytes\<close> of the 64-bit integers.  \<open>from_be_bytes\<close> takes an array of eight
  bytes; a slice of another length is refused by the conversion before it (\<open>try_into\<close>), which
  \<open>u64_from_bytes\<close> models.
\<close>

definition to_be_bytes :: "u64 \<Rightarrow> u8 list" where
  "to_be_bytes w = map (\<lambda>i. ucast (drop_bit (8 * i) w)) [7, 6, 5, 4, 3, 2, 1, 0]"

definition from_be_bytes :: "u8 list \<Rightarrow> u64" where
  "from_be_bytes bs = foldl (\<lambda>acc b. push_bit 8 acc OR ucast b) 0 bs"

definition u64_from_bytes :: "u8 list \<Rightarrow> u64 option" where
  "u64_from_bytes bs = (if length bs = 8 then Some (from_be_bytes bs) else None)"

lemma length_to_be_bytes [simp, byte_simps]: "length (to_be_bytes w) = 8"
  by (simp add: to_be_bytes_def)

lemma push_drop_byte:
  "push_bit 8 (drop_bit (m + 8) w) OR ucast (ucast (drop_bit m w) :: u8) = drop_bit m (w :: u64)"
proof (rule bit_word_eqI)
  fix n assume "n < LENGTH(64)"
  then show "bit (push_bit 8 (drop_bit (m + 8) w) OR ucast (ucast (drop_bit m w) :: u8)) n =
    bit (drop_bit m w) n"
    by (cases "n < 8") (auto simp: bit_simps add.assoc)
qed

lemma bit_u8_beyond [simp]: "8 \<le> n \<Longrightarrow> \<not> bit (b :: u8) n"
  by (auto dest: bit_imp_le_length)

lemma drop_bit_64 [simp]: "drop_bit 64 (w :: u64) = 0"
  by (rule bit_word_eqI) (auto simp: bit_simps dest: bit_imp_le_length)

lemma from_to_be_bytes [simp, byte_simps]: "from_be_bytes (to_be_bytes w) = w"
  using push_drop_byte [of 56 w] push_drop_byte [of 48 w] push_drop_byte [of 40 w]
    push_drop_byte [of 32 w] push_drop_byte [of 24 w] push_drop_byte [of 16 w]
    push_drop_byte [of 8 w] push_drop_byte [of 0 w]
  by (simp add: from_be_bytes_def to_be_bytes_def)

lemma length_8_conv: "length bs = 8 \<longleftrightarrow> (\<exists>a b c d e f g h. bs = [a, b, c, d, e, f, g, h])"
  by (auto simp: eval_nat_numeral length_Suc_conv)

lemma to_from_be_bytes [byte_simps]: "length bs = 8 \<Longrightarrow> to_be_bytes (from_be_bytes bs) = bs"
  by (auto simp: length_8_conv from_be_bytes_def to_be_bytes_def bit_simps
      intro!: bit_word_eqI)

lemma to_be_bytes_inject [simp]: "to_be_bytes v = to_be_bytes w \<longleftrightarrow> v = w"
  by (metis from_to_be_bytes)

lemma u64_from_to_bytes [simp, byte_simps]: "u64_from_bytes (to_be_bytes w) = Some w"
  by (simp add: u64_from_bytes_def)

section \<open>Hash maps and hash sets\<close>

text \<open>
  A \<open>HashMap\<close> is an association list with distinct keys, a \<open>HashSet\<close> a list with distinct elements; the
  list order is one of the iteration orders the Rust collection may have.  Where the result of an
  operation must not depend on that order, a theorem says so.
\<close>

type_synonym ('k, 'v) hash_map = "('k \<times> 'v) list"
type_synonym 'a hash_set = "'a list"

abbreviation hm_insert :: "'k \<Rightarrow> 'v \<Rightarrow> ('k, 'v) hash_map \<Rightarrow> ('k, 'v) hash_map" where
  "hm_insert \<equiv> AList.update"

abbreviation hm_keys :: "('k, 'v) hash_map \<Rightarrow> 'k list" where
  "hm_keys m \<equiv> map fst m"

abbreviation hm_ok :: "('k, 'v) hash_map \<Rightarrow> bool" where
  "hm_ok m \<equiv> distinct (hm_keys m)"

text \<open>\<open>entry(k).or_insert(d)\<close> followed by an update in place.\<close>

definition hm_modify :: "'k \<Rightarrow> 'v \<Rightarrow> ('v \<Rightarrow> 'v) \<Rightarrow> ('k, 'v) hash_map \<Rightarrow> ('k, 'v) hash_map" where
  "hm_modify k d f m = hm_insert k (f (case map_of m k of None \<Rightarrow> d | Some v \<Rightarrow> v)) m"

definition hs_insert :: "'a \<Rightarrow> 'a hash_set \<Rightarrow> 'a hash_set" where
  "hs_insert x xs = (if x \<in> set xs then xs else xs @ [x])"

definition hs_extend :: "'a list \<Rightarrow> 'a hash_set \<Rightarrow> 'a hash_set" where
  "hs_extend ys xs = fold hs_insert ys xs"

definition hs_remove :: "'a \<Rightarrow> 'a hash_set \<Rightarrow> 'a hash_set" where
  "hs_remove x xs = filter (\<lambda>y. y \<noteq> x) xs"

text \<open>\<open>a.extend(b)\<close> on maps: the entries of \<open>b\<close> win.\<close>

definition hm_extend :: "('k, 'v) hash_map \<Rightarrow> ('k, 'v) hash_map \<Rightarrow> ('k, 'v) hash_map" where
  "hm_extend b a = fold (\<lambda>(k, v). hm_insert k v) b a"

lemma map_of_hm_insert [simp, alist_simps]: "map_of (hm_insert k v m) = (map_of m) (k \<mapsto> v)"
  by (rule update_conv')

lemma keys_hm_insert [simp, alist_simps]: "fst ` set (hm_insert k v m) = insert k (fst ` set m)"
  by (simp add: dom_map_of_conv_image_fst [symmetric])

lemma hm_ok_insert [simp, alist_simps]: "hm_ok m \<Longrightarrow> hm_ok (hm_insert k v m)"
  by (rule distinct_update)

lemma map_of_hm_modify [simp, alist_simps]:
  "map_of (hm_modify k d f m) =
     (map_of m) (k \<mapsto> f (case map_of m k of None \<Rightarrow> d | Some v \<Rightarrow> v))"
  by (simp add: hm_modify_def)

lemma keys_hm_modify [simp, alist_simps]: "fst ` set (hm_modify k d f m) = insert k (fst ` set m)"
  by (simp add: hm_modify_def)

lemma hm_ok_modify [simp, alist_simps]: "hm_ok m \<Longrightarrow> hm_ok (hm_modify k d f m)"
  by (simp add: hm_modify_def)

lemma set_hs_insert [simp, alist_simps]: "set (hs_insert x xs) = insert x (set xs)"
  by (auto simp: hs_insert_def)

lemma distinct_hs_insert [simp, alist_simps]: "distinct (hs_insert x xs) \<longleftrightarrow> distinct xs"
  by (auto simp: hs_insert_def)

lemma set_hs_extend [simp, alist_simps]: "set (hs_extend ys xs) = set ys \<union> set xs"
  by (induction ys arbitrary: xs) (auto simp: hs_extend_def)

lemma distinct_hs_extend [simp, alist_simps]: "distinct (hs_extend ys xs) \<longleftrightarrow> distinct xs"
  by (induction ys arbitrary: xs) (auto simp: hs_extend_def)

lemma set_hs_remove [simp, alist_simps]: "set (hs_remove x xs) = set xs - {x}"
  by (auto simp: hs_remove_def)

lemma distinct_hs_remove [simp, alist_simps]: "distinct xs \<Longrightarrow> distinct (hs_remove x xs)"
  by (simp add: hs_remove_def)

lemma hm_ok_extend [simp, alist_simps]: "hm_ok a \<Longrightarrow> hm_ok (hm_extend b a)"
  by (induction b arbitrary: a) (auto simp: hm_extend_def)

lemma map_of_hm_extend [alist_simps]: "hm_ok b \<Longrightarrow> map_of (hm_extend b a) = map_of a ++ map_of b"
proof (induction b arbitrary: a)
  case (Cons p b)
  obtain k v where p: "p = (k, v)" by (cases p)
  with Cons.prems have "map_of b k = None" by (simp add: map_of_eq_None_iff)
  with Cons p show ?case
    by (auto simp: hm_extend_def map_add_def fun_eq_iff split: option.splits)
qed (simp add: hm_extend_def)

lemma map_of_hm_ok: "hm_ok m \<Longrightarrow> map_of m k = Some v \<longleftrightarrow> (k, v) \<in> set m"
  by (auto intro: map_of_is_SomeI dest: map_of_SomeD)

section \<open>Least-recently-used caches\<close>

text \<open>
  The crate \<open>lru_cache\<close> is third-party code and a parameter: \<open>lru_get\<close> is \<open>get_mut\<close>, which may reorder the
  entries, \<open>lru_insert\<close> is \<open>insert\<close>, which may drop some.  \<open>lru_view\<close> is the content of a cache; \<open>lru_laws\<close>
  states what the crate documents: a look-up answers from the content, and the content only ever
  shrinks or takes the inserted entry.
\<close>

record ('k, 'v, 'c) lru =
  lru_get :: "'k \<Rightarrow> 'c \<Rightarrow> 'v option \<times> 'c"
  lru_insert :: "'k \<Rightarrow> 'v \<Rightarrow> 'c \<Rightarrow> 'c"
  lru_view :: "'c \<Rightarrow> 'k \<Rightarrow> 'v option"

definition lru_laws :: "('k, 'v, 'c) lru \<Rightarrow> bool" where
  "lru_laws L \<longleftrightarrow>
     (\<forall>k c. fst (lru_get L k c) = lru_view L c k \<and> lru_view L (snd (lru_get L k c)) \<subseteq>\<^sub>m lru_view L c)
     \<and> (\<forall>k v c. lru_view L (lru_insert L k v c) \<subseteq>\<^sub>m (lru_view L c)(k \<mapsto> v))"

text \<open>What is in a cache satisfies \<open>P\<close>; this is kept by look-ups and by inserting what satisfies it.\<close>

definition lru_all :: "('k, 'v, 'c) lru \<Rightarrow> ('k \<Rightarrow> 'v \<Rightarrow> bool) \<Rightarrow> 'c \<Rightarrow> bool" where
  "lru_all L P c \<longleftrightarrow> (\<forall>k v. lru_view L c k = Some v \<longrightarrow> P k v)"

lemma lru_all_mono: "lru_all L P c \<Longrightarrow> (\<And>k v. P k v \<Longrightarrow> Q k v) \<Longrightarrow> lru_all L Q c"
  unfolding lru_all_def by blast

lemma lru_all_get:
  assumes "lru_laws L" "lru_all L P c" "lru_get L k c = (r, c')"
  shows "lru_all L P c'" "r = Some v \<Longrightarrow> P k v"
proof -
  have *: "r = lru_view L c k" "lru_view L c' \<subseteq>\<^sub>m lru_view L c"
    using assms(1,3) unfolding lru_laws_def by (metis fst_conv, metis snd_conv)
  show "lru_all L P c'" using *(2) assms(2) unfolding lru_all_def by (metis domI map_le_def)
  show "r = Some v \<Longrightarrow> P k v" using *(1) assms(2) unfolding lru_all_def by simp
qed

lemma lru_all_insert:
  assumes "lru_laws L" "lru_all L P c" "P k v"
  shows "lru_all L P (lru_insert L k v c)"
proof -
  have "lru_view L (lru_insert L k v c) \<subseteq>\<^sub>m (lru_view L c)(k \<mapsto> v)"
    using assms(1) by (simp add: lru_laws_def)
  then show ?thesis using assms(2,3) unfolding lru_all_def
    by (metis domI fun_upd_apply map_le_def option.inject)
qed

text \<open>A cache that forgets nothing.\<close>

definition map_cache :: "('k, 'v, 'k \<Rightarrow> 'v option) lru" where
  "map_cache = \<lparr> lru_get = (\<lambda>k c. (c k, c)), lru_insert = (\<lambda>k v c. c(k \<mapsto> v)), lru_view = (\<lambda>c. c) \<rparr>"

lemma map_cache_laws: "lru_laws map_cache"
  by (simp add: map_cache_def lru_laws_def)

end
