(* ===== verification/PduId.thy ===== *)
theory PduId
  imports Prelude "HOL-Library.List_Lexorder"
begin

text \<open>
  Event sequence numbers and the keys under which the timeline stores events:
  \<^verbatim>\<open>src/core/matrix/pdu/count.rs\<close>, \<^verbatim>\<open>id.rs\<close> and \<^verbatim>\<open>raw_id.rs\<close>.  A count is a 64-bit number that
  is positive for events received live and at most zero for backfilled ones; a raw id is the byte
  string of a short room id and a count.  The theorems say that both encodings round-trip, what
  stepping a count does at its boundaries, and that the byte order of the keys is the order of the
  counts, which is what makes a key scan a timeline scan.
\<close>

section \<open>Counts\<close>

datatype Count = Normal u64 | Backfilled i64

datatype Direction = Forward | Backward

datatype Ordering = Less | Equal | Greater

datatype count_error = ArithmeticError

definition from_signed :: "i64 \<Rightarrow> Count" where
  "from_signed s = (if sint s \<le> 0 then Backfilled s else Normal s)"

definition from_unsigned :: "u64 \<Rightarrow> Count" where
  "from_unsigned u = from_signed u"

fun into_unsigned :: "Count \<Rightarrow> u64" where
  "into_unsigned (Normal i) = i"
| "into_unsigned (Backfilled i) = i"

fun into_signed :: "Count \<Rightarrow> i64" where
  "into_signed (Normal i) = i"
| "into_signed (Backfilled i) = i"

fun into_normal :: "Count \<Rightarrow> Count" where
  "into_normal (Normal i) = Normal i"
| "into_normal (Backfilled i) = Normal 0"

fun count_checked_add :: "Count \<Rightarrow> u64 \<Rightarrow> count_error + Count" where
  "count_checked_add (Normal i) add =
     rbind (ok_or ArithmeticError (u64_checked_add i add)) (\<lambda>j. Inr (Normal j))"
| "count_checked_add (Backfilled i) add =
     rbind (ok_or ArithmeticError (i64_checked_add i add)) (\<lambda>j. Inr (Backfilled j))"

fun count_checked_sub :: "Count \<Rightarrow> u64 \<Rightarrow> count_error + Count" where
  "count_checked_sub (Normal i) s =
     rbind (ok_or ArithmeticError (u64_checked_sub i s)) (\<lambda>j. Inr (Normal j))"
| "count_checked_sub (Backfilled i) s =
     rbind (ok_or ArithmeticError (i64_checked_sub i s)) (\<lambda>j. Inr (Backfilled j))"

fun checked_inc :: "Count \<Rightarrow> Direction \<Rightarrow> count_error + Count" where
  "checked_inc c Forward = count_checked_add c 1"
| "checked_inc c Backward = count_checked_sub c 1"

fun count_saturating_add :: "Count \<Rightarrow> u64 \<Rightarrow> Count" where
  "count_saturating_add (Normal i) add = Normal (u64_saturating_add i add)"
| "count_saturating_add (Backfilled i) add = Backfilled (i64_saturating_add i add)"

fun count_saturating_sub :: "Count \<Rightarrow> u64 \<Rightarrow> Count" where
  "count_saturating_sub (Normal i) s = Normal (u64_saturating_sub i s)"
| "count_saturating_sub (Backfilled i) s = Backfilled (i64_saturating_sub i s)"

fun saturating_inc :: "Count \<Rightarrow> Direction \<Rightarrow> Count" where
  "saturating_inc c Forward = count_saturating_add c 1"
| "saturating_inc c Backward = count_saturating_sub c 1"

definition count_min :: Count where "count_min = Backfilled (word_of_int i64_min)"
definition count_max :: Count where "count_max = Normal (word_of_int i64_max)"
definition count_default :: Count where "count_default = Normal 0"

text \<open>The condition of \<open>debug_assert_valid\<close>; a release build does not test it.\<close>

fun debug_assert_valid :: "Count \<Rightarrow> bool" where
  "debug_assert_valid (Normal i) = True"
| "debug_assert_valid (Backfilled i) = (sint i \<le> 0)"

definition count_cmp :: "Count \<Rightarrow> Count \<Rightarrow> Ordering" where
  "count_cmp a b =
     (if sint (into_signed a) < sint (into_signed b) then Less
      else if sint (into_signed a) = sint (into_signed b) then Equal else Greater)"

text \<open>
  The counts the two conversions produce: positive ones are \<open>Normal\<close>, the others \<open>Backfilled\<close>.
\<close>

fun canonical :: "Count \<Rightarrow> bool" where
  "canonical (Normal i) = (0 < sint i)"
| "canonical (Backfilled i) = (sint i \<le> 0)"

lemma canonical_from_signed [simp]: "canonical (from_signed s)"
  by (simp add: from_signed_def)

lemma into_from_signed [simp]: "into_signed (from_signed s) = s"
  by (simp add: from_signed_def)

lemma from_into_signed: "canonical c \<Longrightarrow> from_signed (into_signed c) = c"
  by (cases c) (auto simp: from_signed_def)

lemma into_unsigned_eq_signed: "into_unsigned c = into_signed c"
  by (cases c) auto

lemma canonical_valid: "canonical c \<Longrightarrow> debug_assert_valid c"
  by (cases c) auto

lemma canonical_eqI:
  assumes "canonical a" "canonical b" "into_signed a = into_signed b"
  shows "a = b"
  by (metis assms from_into_signed)

lemma sint_step [simp]: "sint (1 :: i64) = 1"
  by simp

section \<open>Raw ids\<close>

record Id =
  shortroomid :: u64
  shorteventid :: Count

datatype RawId = RawNormal "u8 list" | RawBackfilled "u8 list"

definition INT_LEN :: nat where "INT_LEN = 8"
definition NORMAL_LEN :: nat where "NORMAL_LEN = 8 + 8"
definition BACKFILLED_LEN :: nat where "BACKFILLED_LEN = 8 + INT_LEN + 8"

lemmas raw_lens = INT_LEN_def NORMAL_LEN_def BACKFILLED_LEN_def

fun as_bytes :: "RawId \<Rightarrow> u8 list" where
  "as_bytes (RawNormal raw) = raw"
| "as_bytes (RawBackfilled raw) = raw"

definition raw_shortroomid :: "RawId \<Rightarrow> u8 list" where
  "raw_shortroomid r = take INT_LEN (as_bytes r)"

fun raw_shorteventid :: "RawId \<Rightarrow> u8 list" where
  "raw_shorteventid (RawNormal raw) = take INT_LEN (drop INT_LEN raw)"
| "raw_shorteventid (RawBackfilled raw) = take INT_LEN (drop (INT_LEN * 2) raw)"

text \<open>A slice whose length is neither of the two array lengths is a panic, the value \<^const>\<open>None\<close>.\<close>

definition raw_from_bytes :: "u8 list \<Rightarrow> RawId option" where
  "raw_from_bytes bs =
     (if length bs = NORMAL_LEN then Some (RawNormal (take NORMAL_LEN bs))
      else if length bs = BACKFILLED_LEN then Some (RawBackfilled (take BACKFILLED_LEN bs))
      else None)"

definition raw_from_id :: "Id \<Rightarrow> RawId" where
  "raw_from_id d =
     (case shorteventid d of
        Normal i \<Rightarrow> RawNormal (to_be_bytes (shortroomid d) @ to_be_bytes i)
      | Backfilled i \<Rightarrow>
          RawBackfilled (to_be_bytes (shortroomid d) @ to_be_bytes 0 @ to_be_bytes i))"

definition id_from_raw :: "RawId \<Rightarrow> Id" where
  "id_from_raw r = \<lparr> shortroomid = from_be_bytes (raw_shortroomid r),
     shorteventid = from_unsigned (from_be_bytes (raw_shorteventid r)) \<rparr>"

definition pdu_count :: "RawId \<Rightarrow> Count" where
  "pdu_count r = shorteventid (id_from_raw r)"

text \<open>The array lengths of the two variants.\<close>

fun rawid_wf :: "RawId \<Rightarrow> bool" where
  "rawid_wf (RawNormal raw) = (length raw = NORMAL_LEN)"
| "rawid_wf (RawBackfilled raw) = (length raw = BACKFILLED_LEN)"

lemma rawid_wf_from_id [simp]: "rawid_wf (raw_from_id d)"
  by (auto simp: raw_from_id_def raw_lens split: Count.split)

lemma raw_from_bytes_wf: "raw_from_bytes bs = Some r \<Longrightarrow> rawid_wf r \<and> as_bytes r = bs"
  by (auto simp: raw_from_bytes_def split: if_splits)

section \<open>The numeric value of big-endian bytes\<close>

definition be_value :: "u8 list \<Rightarrow> nat" where
  "be_value bs = foldl (\<lambda>a b. a * 256 + unat b) 0 bs"

lemma foldl_be_value:
  "foldl (\<lambda>a b. a * 256 + unat b) n bs = n * 256 ^ length bs + be_value bs"
proof (induction bs arbitrary: n)
  case Nil
  then show ?case by (simp add: be_value_def)
next
  case (Cons b bs)
  have "be_value (b # bs) = unat b * 256 ^ length bs + be_value bs"
    using Cons.IH [of "unat b"] by (simp add: be_value_def)
  then show ?case using Cons.IH [of "n * 256 + unat b"] by (simp add: algebra_simps)
qed

lemma be_value_Nil [simp]: "be_value [] = 0"
  by (simp add: be_value_def)

lemma be_value_Cons [simp]: "be_value (b # bs) = unat b * 256 ^ length bs + be_value bs"
  using foldl_be_value [of "unat b" bs] by (simp add: be_value_def)

lemma be_value_bound: "be_value bs < 256 ^ length bs"
proof (induction bs)
  case (Cons b bs)
  have "unat b \<le> 255" using unsigned_less [of b, where 'a = nat] by simp
  then have "unat b * 256 ^ length bs \<le> 255 * 256 ^ length bs" by (rule mult_le_mono1)
  with Cons.IH show ?case unfolding be_value_Cons length_Cons power_Suc by linarith
qed simp


lemma be_value_less_iff:
  "length xs = length ys \<Longrightarrow> xs < ys \<longleftrightarrow> be_value xs < be_value ys"
proof (induction xs ys rule: list_induct2)
  case (Cons x xs y ys)
  let ?p = "(256 :: nat) ^ length ys"
  have b: "be_value xs < ?p" "be_value ys < ?p"
    using be_value_bound [of xs] be_value_bound [of ys] Cons.hyps by simp_all
  consider "x < y" | "x = y" | "y < x" by (rule linorder_cases)
  then show ?case
  proof cases
    case 1
    then have "Suc (unat x) * ?p \<le> unat y * ?p"
      by (intro mult_le_mono1) (simp add: word_less_nat_alt Suc_leI)
    with 1 b Cons.hyps show ?thesis by simp
  next
    case 2
    with Cons show ?thesis by simp
  next
    case 3
    then have "Suc (unat y) * ?p \<le> unat x * ?p"
      by (intro mult_le_mono1) (simp add: word_less_nat_alt Suc_leI)
    with 3 b Cons.hyps show ?thesis by auto
  qed
qed simp

lemma unat_append_byte:
  assumes "unat (acc :: u64) < 2 ^ 56"
  shows "unat (push_bit 8 acc OR ucast (b :: u8)) = unat acc * 256 + unat b"
proof -
  have "push_bit 8 acc OR ucast b = push_bit 8 acc + (ucast b :: u64)"
    by (rule disjunctive_add_eq_or [symmetric]) (auto simp: bit_eq_iff bit_simps)
  moreover have "unat (push_bit 8 acc) = unat acc * 256"
    using assms by (simp add: push_bit_eq_mult unat_word_ariths)
  moreover have "unat (ucast b :: u64) = unat b"
    by (rule unsigned_ucast_eq [THEN trans])
      (use unsigned_less [of b, where 'a = nat] in \<open>simp add: take_bit_nat_eq_self\<close>)
  moreover have "unat b < 256" using unsigned_less [of b, where 'a = nat] by simp
  ultimately show ?thesis using assms by (simp add: unat_word_ariths)
qed

lemma unat_from_be_bytes: "length bs \<le> 8 \<Longrightarrow> unat (from_be_bytes bs) = be_value bs"
proof (induction bs rule: rev_induct)
  case (snoc b bs)
  have "be_value bs < 256 ^ length bs" by (rule be_value_bound)
  also have "\<dots> \<le> 256 ^ 7" using snoc.prems by (intro power_increasing) auto
  finally have "unat (from_be_bytes bs) < 2 ^ 56" using snoc by simp
  then have "unat (from_be_bytes (bs @ [b])) = unat (from_be_bytes bs) * 256 + unat b"
    by (simp add: from_be_bytes_def unat_append_byte)
  with snoc show ?case by (simp add: be_value_def)
qed (simp add: from_be_bytes_def)

lemma be_value_to_be_bytes: "be_value (to_be_bytes w) = unat w"
  using unat_from_be_bytes [of "to_be_bytes w"] by simp

lemma to_be_bytes_less [byte_simps]: "to_be_bytes v < to_be_bytes w \<longleftrightarrow> v < w"
  by (simp add: be_value_less_iff be_value_to_be_bytes word_less_nat_alt)


section \<open>Properties\<close>

lemma id_from_raw_from_id:
  "id_from_raw (raw_from_id d) =
     d\<lparr>shorteventid := from_signed (into_signed (shorteventid d))\<rparr>"
  by (auto simp: id_from_raw_def raw_from_id_def raw_shortroomid_def raw_lens
      from_unsigned_def split: Count.split)

lemma raw_from_as_bytes: "rawid_wf r \<Longrightarrow> raw_from_bytes (as_bytes r) = Some r"
  by (cases r) (auto simp: raw_from_bytes_def raw_lens)

text \<open>
  An event id written to its database key and read back is the same id, and the key's bytes are
  recognised again as the same raw id, for every room and every canonical count.
\<close>

lemma id_raw_roundtrip:
  assumes "canonical (shorteventid d)"
  shows "id_from_raw (raw_from_id d) = d \<and>
         raw_from_bytes (as_bytes (raw_from_id d)) = Some (raw_from_id d) \<and>
         pdu_count (raw_from_id d) = shorteventid d"
  using assms
  by (simp add: id_from_raw_from_id from_into_signed raw_from_as_bytes pdu_count_def)

lemma uint_via_sint: "uint (w :: u64) = (if 0 \<le> sint w then sint w else sint w + 2 ^ 64)"
proof (cases "0 \<le> sint w")
  case True
  then show ?thesis
    using sint_range64 [of w] by (simp add: uint_sint take_bit_eq_mod int_bounds)
next
  case False
  then have "(sint w + 2 ^ 64) mod 2 ^ 64 = sint w + 2 ^ 64"
    using sint_range64 [of w] by (intro mod_pos_pos_trivial) (simp_all add: int_bounds)
  with False show ?thesis by (simp add: uint_sint take_bit_eq_mod)
qed

lemma append_less_append:
  "length xs = length ys \<Longrightarrow>
   xs @ us < ys @ vs \<longleftrightarrow> xs < ys \<or> (xs = ys \<and> us < (vs :: 'a :: linorder list))"
  by (induction xs ys rule: list_induct2) auto

lemmas append_less_simps = append_less_append append_less_append [where us = "[]", simplified]
  append_less_append [where vs = "[]", simplified]

lemma to_be_bytes_zero_less: "to_be_bytes 0 < to_be_bytes w \<longleftrightarrow> w \<noteq> 0"
  by (simp add: to_be_bytes_less word_gt_0)

lemma word_less_same_sign:
  "0 < sint v \<and> 0 < sint w \<or> sint v < 0 \<and> sint w < 0 \<Longrightarrow> v < w \<longleftrightarrow> sint v < sint (w :: u64)"
  by (auto simp: word_less_def uint_via_sint)

text \<open>
  Within a room, the byte order of the database keys is the order of the counts, for all
  canonical counts but zero: backfilled events sort before live ones, and each kind sorts by its
  number.  A forward scan of the keys is therefore a forward scan of the timeline.
\<close>

lemma raw_key_order:
  assumes "canonical c" and "canonical d" and "into_signed c \<noteq> 0" and "into_signed d \<noteq> 0"
  shows "as_bytes (raw_from_id \<lparr>shortroomid = r, shorteventid = c\<rparr>)
           < as_bytes (raw_from_id \<lparr>shortroomid = r, shorteventid = d\<rparr>)
         \<longleftrightarrow> count_cmp c d = Less"
proof -
  have nz: "sint w \<noteq> 0" if "w \<noteq> 0" for w :: u64
    using that by (metis signed_0 signed_word_eqI)
  show ?thesis
    using assms nz [of "into_signed c"] nz [of "into_signed d"]
    by (cases c; cases d)
      (auto simp: raw_from_id_def append_less_simps to_be_bytes_less to_be_bytes_zero_less
        word_less_same_sign word_gt_0 count_cmp_def)
qed

text \<open>
  Stepping a canonical count forward moves it by one, except at the largest count; the result is
  canonical again exactly when the step does not leave \<open>Backfilled 0\<close>, where the next count is the
  invalid \<open>Backfilled 1\<close> instead of \<open>Normal 1\<close>.
\<close>

lemma checked_inc_forward:
  assumes "canonical c" and "c \<noteq> count_max"
  shows "\<exists>c'. checked_inc c Forward = Inr c' \<and>
           sint (into_signed c') = sint (into_signed c) + 1 \<and>
           (canonical c' \<longleftrightarrow> c \<noteq> Backfilled 0)"
proof -
  let ?i = "into_signed c"
  have lt: "sint ?i < i64_max"
  proof (cases c)
    case (Normal i)
    have "sint i \<noteq> i64_max"
    proof
      assume "sint i = i64_max"
      then have "i = word_of_int i64_max"
        by (intro signed_word_eqI) (simp add: sint_word_of_int64 int_bounds)
      with Normal assms(2) show False by (simp add: count_max_def)
    qed
    with sint_range64(2) [of i] Normal show ?thesis by simp
  qed (use assms(1) in \<open>simp add: i64_max_def\<close>)
  with sint_range64(1) [of ?i] have "i64_checked_add ?i 1 = Some (?i + 1)"
    by (simp add: i64_checked_add_def)
  then have s: "sint (?i + 1) = sint ?i + 1" by (simp add: sint_i64_checked_add)
  show ?thesis
  proof (cases c)
    case (Normal i)
    with assms(1) have "uint i = sint i" by (simp add: uint_via_sint)
    with lt Normal have "u64_checked_add i 1 = Some (i + 1)"
      by (simp add: u64_checked_add_def int_bounds)
    with Normal s assms(1) show ?thesis by simp
  next
    case (Backfilled i)
    have "i = 0 \<longleftrightarrow> sint i = 0" by (metis signed_0 signed_word_eqI)
    with Backfilled s assms(1) \<open>i64_checked_add ?i 1 = Some (?i + 1)\<close> show ?thesis by auto
  qed
qed

text \<open>
  On canonical counts the ordering agrees with equality; it does not on all counts: the default
  count and the count of zero compare equal and differ.
\<close>

lemma count_cmp_equality:
  "(\<forall>a b. canonical a \<and> canonical b \<longrightarrow> (count_cmp a b = Equal \<longleftrightarrow> a = b)) \<and>
   count_cmp count_default (from_signed 0) = Equal \<and> count_default \<noteq> from_signed 0"
proof -
  have "count_cmp a b = Equal \<longleftrightarrow> a = b" if "canonical a" "canonical b" for a b
    using that by (auto simp: count_cmp_def intro: canonical_eqI signed_word_eqI)
  then show ?thesis by (auto simp: count_cmp_def count_default_def from_signed_def)
qed

end
