(* ===== verification/RoomVersion.thy ===== *)
theory RoomVersion
  imports Prelude
begin

text \<open>
  The feature flags of the Matrix room versions, \<^verbatim>\<open>src/core/matrix/state_res/room_version.rs\<close>, and
  the errors of state resolution, \<^verbatim>\<open>src/core/matrix/state_res/error.rs\<close>.  Error messages are left
  out; \<open>Panic\<close> stands for a Rust panic (\<open>unwrap\<close>, \<open>expect\<close>).
\<close>

datatype Error = SerdeJson | Unsupported | NotFound | InvalidPdu | Panic

datatype RoomVersionId =
  V1 | V2 | V3 | V4 | V5 | V6 | V7 | V8 | V9 | V10 | V11 | V12 | CustomVersion string

datatype RoomDisposition = Stable | Unstable

datatype EventFormatVersion = FormatV1 | FormatV2 | FormatV3

datatype StateResolutionVersion = StateResV1 | StateResV2 | StateResV2_1

record RoomVersion =
  disposition :: RoomDisposition
  event_format :: EventFormatVersion
  state_res :: StateResolutionVersion
  enforce_key_validity :: bool
  special_case_aliases_auth :: bool
  strict_canonicaljson :: bool
  limit_notifications_power_levels :: bool
  extra_redaction_checks :: bool
  allow_knocking :: bool
  restricted_join_rules :: bool
  knock_restricted_join_rule :: bool
  integer_power_levels :: bool
  use_room_create_sender :: bool
  explicitly_privilege_room_creators :: bool
  room_ids_as_hashes :: bool

definition RoomVersion_V1 :: RoomVersion where
  "RoomVersion_V1 = \<lparr>
     disposition = Stable,
     event_format = FormatV1,
     state_res = StateResV1,
     enforce_key_validity = False,
     special_case_aliases_auth = True,
     strict_canonicaljson = False,
     limit_notifications_power_levels = False,
     extra_redaction_checks = True,
     allow_knocking = False,
     restricted_join_rules = False,
     knock_restricted_join_rule = False,
     integer_power_levels = False,
     use_room_create_sender = False,
     explicitly_privilege_room_creators = False,
     room_ids_as_hashes = False \<rparr>"

definition RoomVersion_V2 :: RoomVersion where
  "RoomVersion_V2 = RoomVersion_V1\<lparr>state_res := StateResV2\<rparr>"

definition RoomVersion_V3 :: RoomVersion where
  "RoomVersion_V3 = RoomVersion_V2\<lparr>event_format := FormatV2, extra_redaction_checks := False\<rparr>"

definition RoomVersion_V4 :: RoomVersion where
  "RoomVersion_V4 = RoomVersion_V3\<lparr>event_format := FormatV3\<rparr>"

definition RoomVersion_V5 :: RoomVersion where
  "RoomVersion_V5 = RoomVersion_V4\<lparr>enforce_key_validity := True\<rparr>"

definition RoomVersion_V6 :: RoomVersion where
  "RoomVersion_V6 = RoomVersion_V5\<lparr>special_case_aliases_auth := False,
     strict_canonicaljson := True, limit_notifications_power_levels := True\<rparr>"

definition RoomVersion_V7 :: RoomVersion where
  "RoomVersion_V7 = RoomVersion_V6\<lparr>allow_knocking := True\<rparr>"

definition RoomVersion_V8 :: RoomVersion where
  "RoomVersion_V8 = RoomVersion_V7\<lparr>restricted_join_rules := True\<rparr>"

definition RoomVersion_V9 :: RoomVersion where
  "RoomVersion_V9 = RoomVersion_V8"

definition RoomVersion_V10 :: RoomVersion where
  "RoomVersion_V10 = RoomVersion_V9\<lparr>knock_restricted_join_rule := True,
     integer_power_levels := True\<rparr>"

definition RoomVersion_V11 :: RoomVersion where
  "RoomVersion_V11 = RoomVersion_V10\<lparr>use_room_create_sender := True\<rparr>"

definition RoomVersion_V12 :: RoomVersion where
  "RoomVersion_V12 = RoomVersion_V11\<lparr>explicitly_privilege_room_creators := True,
     room_ids_as_hashes := True\<rparr>"

lemmas room_version_defs =
  RoomVersion_V1_def RoomVersion_V2_def RoomVersion_V3_def RoomVersion_V4_def
  RoomVersion_V5_def RoomVersion_V6_def RoomVersion_V7_def RoomVersion_V8_def
  RoomVersion_V9_def RoomVersion_V10_def RoomVersion_V11_def RoomVersion_V12_def

fun RoomVersion_new :: "RoomVersionId \<Rightarrow> Error + RoomVersion" where
  "RoomVersion_new V1 = Inr RoomVersion_V1"
| "RoomVersion_new V2 = Inr RoomVersion_V2"
| "RoomVersion_new V3 = Inr RoomVersion_V3"
| "RoomVersion_new V4 = Inr RoomVersion_V4"
| "RoomVersion_new V5 = Inr RoomVersion_V5"
| "RoomVersion_new V6 = Inr RoomVersion_V6"
| "RoomVersion_new V7 = Inr RoomVersion_V7"
| "RoomVersion_new V8 = Inr RoomVersion_V8"
| "RoomVersion_new V9 = Inr RoomVersion_V9"
| "RoomVersion_new V10 = Inr RoomVersion_V10"
| "RoomVersion_new V11 = Inr RoomVersion_V11"
| "RoomVersion_new V12 = Inr RoomVersion_V12"
| "RoomVersion_new (CustomVersion v) = Inl Unsupported"

section \<open>Properties\<close>

text \<open>The number of a known room version, for stating from where on a flag is set.\<close>

fun version_number :: "RoomVersionId \<Rightarrow> nat" where
  "version_number V1 = 1" | "version_number V2 = 2" | "version_number V3 = 3"
| "version_number V4 = 4" | "version_number V5 = 5" | "version_number V6 = 6"
| "version_number V7 = 7" | "version_number V8 = 8" | "version_number V9 = 9"
| "version_number V10 = 10" | "version_number V11 = 11" | "version_number V12 = 12"
| "version_number (CustomVersion v) = 0"

end
