(* ===== verification/Events.thy ===== *)
theory Events
  imports RoomVersion "HOL-Library.List_Lexorder" "HOL-Library.Char_ord"
begin

text \<open>
  Persistent data units (\<^verbatim>\<open>src/core/matrix/pdu.rs\<close>), the shapes their contents are read at
  (\<^verbatim>\<open>src/core/matrix/state_res/event_auth.rs\<close>, \<^verbatim>\<open>power_levels.rs\<close>), and the record of functions that
  stands for the third-party crates the sources call: ruma's identifiers and content types,
  serde's generated deserialisers, base64.

  Identifiers are strings; an event's content is its raw JSON text.  A value of type \<open>'a raw\<close> is a
  JSON value kept undecoded: \<^term>\<open>Some v\<close> when decoding it gives \<^term>\<open>v\<close>, \<^const>\<open>None\<close> when decoding fails.
\<close>

section \<open>Data\<close>

type_synonym UserId = string
type_synonym RoomId = string
type_synonym EventId = string
type_synonym ServerName = string
type_synonym StateKey = string
type_synonym RawJson = string
type_synonym js_int = int
type_synonym 'a raw = "'a option"

text \<open>ruma's \<open>Int\<close> (here \<open>js_int\<close>) is a 54-bit integer whose largest value is \<open>2 ^ 53 - 1\<close>.\<close>

definition INT_MAX :: js_int where "INT_MAX = 2 ^ 53 - 1"

text \<open>
  Event types: the ones the sources distinguish, and every other by its name.  A state event type
  and the timeline event type of the same name are the same value here.
\<close>

datatype EventType =
  RoomCreate | RoomMember | RoomPowerLevels | RoomJoinRules | RoomThirdPartyInvite
| RoomAliases | RoomRedaction | OtherType string

datatype MembershipState = Ban | Invite | Join | Knock | Leave | CustomMembership string

datatype JoinRule =
  RuleInvite | RuleKnock | RuleKnockRestricted | RuleRestricted | RulePublic | RuleOther string

record Pdu =
  event_id :: EventId
  room_id :: "RoomId option"
  sender :: UserId
  origin :: "ServerName option"
  origin_server_ts :: nat
  kind :: EventType
  content :: RawJson
  state_key :: "StateKey option"
  prev_events :: "EventId list"
  depth :: nat
  auth_events :: "EventId list"
  redacts :: "EventId option"
  unsigned_data :: "RawJson option"
  hashes :: string
  signatures :: "RawJson option"

record ThirdPartyInvite =
  signed_mxid :: UserId
  signed_token :: string

record RoomMemberContentFields =
  membership_field :: "MembershipState raw option"
  join_authorised_via_users_server :: "UserId raw option"

record RoomMemberAuthFields = RoomMemberContentFields +
  third_party_invite_field :: "ThirdPartyInvite raw option"

record RoomCreateContentFields =
  room_version_field :: "RoomVersionId raw option"
  creator_field :: bool
  additional_creators :: "UserId raw list option"
  federate :: bool

record RoomThirdPartyInviteEventContent =
  tpi_public_key :: string
  tpi_public_keys :: "string list option"

record RoomPowerLevelsEventContent =
  pl_ban :: js_int
  pl_events :: "(EventType \<times> js_int) list"
  pl_events_default :: js_int
  pl_invite :: js_int
  pl_kick :: js_int
  pl_redact :: js_int
  pl_state_default :: js_int
  pl_users :: "(UserId \<times> js_int) list"
  pl_users_default :: js_int
  pl_notifications_room :: js_int

text \<open>The fields of a power levels content that are present in its JSON, before defaults.\<close>

record PowerLevelsPresent =
  some_ban :: "js_int option"
  some_events :: "(EventType \<times> js_int) list option"
  some_events_default :: "js_int option"
  some_invite :: "js_int option"
  some_kick :: "js_int option"
  some_redact :: "js_int option"
  some_state_default :: "js_int option"
  some_users :: "(UserId \<times> js_int) list option"
  some_users_default :: "js_int option"
  some_notifications :: "js_int option option"

record PowerLevelsContentFields =
  plf_users :: "(UserId \<times> js_int) list"
  plf_users_default :: js_int

record PowerLevelsFieldsPresent =
  some_plf_users :: "(UserId \<times> js_int) list option"
  some_plf_users_default :: "js_int option"

section \<open>The third-party crates\<close>

text \<open>
  The places where state resolution awaits many fetches at once and takes the results as they come: the
  search for the power levels event among the auth events of an event
  (\<^verbatim>\<open>get_power_level_for_sender\<close>) and the events that are to be checked
  (\<^verbatim>\<open>iterative_auth_check\<close>).
\<close>

datatype concurrent_fetch = FetchSenderPower EventId | FetchToCheck "EventId list"

text \<open>
  Every function of this record is code the sources call and do not contain.  A deserialiser
  returns \<^const>\<open>None\<close> for \<open>serde_json::Error\<close>.
  \<^item> \<open>user_server_name\<close>, \<open>room_server_name\<close>, \<open>event_server_name\<close>: ruma's \<open>server_name()\<close> methods;
  \<^item> \<open>is_user_id\<close>, \<open>is_room_id\<close>, \<open>is_event_id\<close>: whether ruma's identifier parsers accept a string;
  \<^item> \<open>de_\<dots>\<close>: \<open>serde_json::from_str\<close> at one of the content types;
  \<^item> \<open>pl_default\<close>, \<open>default_power_level\<close>: ruma's \<open>RoomPowerLevelsEventContent::default()\<close> and default
    level;
  \<^item> \<open>pl_to_value\<close>: the integer under a key of ruma's JSON serialisation of a power levels content;
  \<^item> \<open>base64_parse\<close>: \<open>Base64::parse\<close>;
  \<^item> \<open>completion\<close>: the order in which the runtime completes concurrent fetches, which \<open>unordered\<close> applies.
\<close>

record ruma =
  user_server_name :: "UserId \<Rightarrow> ServerName"
  room_server_name :: "RoomId \<Rightarrow> ServerName option"
  event_server_name :: "EventId \<Rightarrow> ServerName option"
  is_user_id :: "string \<Rightarrow> bool"
  is_room_id :: "string \<Rightarrow> bool"
  is_event_id :: "string \<Rightarrow> bool"
  base64_parse :: "string \<Rightarrow> string option"
  de_create_fields :: "RawJson \<Rightarrow> RoomCreateContentFields option"
  de_create_content :: "RawJson \<Rightarrow> UserId option option"
  de_member_fields :: "RawJson \<Rightarrow> RoomMemberContentFields option"
  de_member_auth_fields :: "RawJson \<Rightarrow> RoomMemberAuthFields option"
  de_get_membership :: "RawJson \<Rightarrow> MembershipState option"
  de_get_third_party_invite :: "RawJson \<Rightarrow> ThirdPartyInvite raw option option"
  de_member_content :: "RawJson \<Rightarrow> MembershipState option"
  de_join_rules :: "RawJson \<Rightarrow> JoinRule option"
  de_third_party_invite :: "RawJson \<Rightarrow> RoomThirdPartyInviteEventContent option"
  de_power_levels :: "RawJson \<Rightarrow> RoomPowerLevelsEventContent option"
  de_int_power_levels :: "RawJson \<Rightarrow> PowerLevelsPresent option"
  de_legacy_fields :: "RawJson \<Rightarrow> PowerLevelsFieldsPresent option"
  de_int_fields :: "RawJson \<Rightarrow> PowerLevelsFieldsPresent option"
  de_legacy_invite :: "RawJson \<Rightarrow> js_int option option"
  de_int_invite :: "RawJson \<Rightarrow> js_int option option"
  de_legacy_redact :: "RawJson \<Rightarrow> js_int option option"
  de_int_redact :: "RawJson \<Rightarrow> js_int option option"
  pl_default :: RoomPowerLevelsEventContent
  default_power_level :: js_int
  pl_to_value :: "RoomPowerLevelsEventContent \<Rightarrow> string \<Rightarrow> js_int option"
  completion :: "concurrent_fetch \<Rightarrow> nat \<Rightarrow> nat"

definition from_json :: "'a option \<Rightarrow> Error + 'a" where
  "from_json r = ok_or SerdeJson r"

lemma from_json_Inr [result_simps]: "from_json r = Inr a \<longleftrightarrow> r = Some a"
  by (simp add: from_json_def result_simps)

lemma from_json_Inl [result_simps]: "from_json r = Inl e \<longleftrightarrow> r = None \<and> e = SerdeJson"
  by (auto simp: from_json_def result_simps)

lemma from_json_simps [simp]: "from_json None = Inl SerdeJson" "from_json (Some a) = Inr a"
  by (simp_all add: from_json_def)

section \<open>Events\<close>

text \<open>
  \<open>room_id_or_hash\<close>: the room of an event; a create event without a room id names its room by its
  own id with the sigil changed.  Both \<open>expect\<close> calls are panics.
\<close>

definition replace_char :: "char \<Rightarrow> char \<Rightarrow> string \<Rightarrow> string" where
  "replace_char a b s = map (\<lambda>c. if c = a then b else c) s"

definition room_id_or_hash :: "ruma \<Rightarrow> Pdu \<Rightarrow> Error + RoomId" where
  "room_id_or_hash R ev =
     (if kind ev \<noteq> RoomCreate then ok_or Panic (room_id ev)
      else case room_id ev of
        Some rid \<Rightarrow> Inr rid
      | None \<Rightarrow>
          (let constructed_hash = replace_char (CHR ''$'') (CHR ''!'') (event_id ev)
           in if is_room_id R constructed_hash then Inr constructed_hash else Inl Panic))"

type_synonym TypeStateKey = "EventType \<times> StateKey"

definition with_state_key :: "EventType \<Rightarrow> StateKey \<Rightarrow> TypeStateKey" where
  "with_state_key ty key = (ty, key)"

definition is_type_and_key :: "Pdu \<Rightarrow> EventType \<Rightarrow> StateKey \<Rightarrow> bool" where
  "is_type_and_key ev ev_type key \<longleftrightarrow> kind ev = ev_type \<and> state_key ev = Some key"

definition is_power_event :: "ruma \<Rightarrow> Pdu \<Rightarrow> bool" where
  "is_power_event R ev =
     (case kind ev of
        RoomPowerLevels \<Rightarrow> state_key ev = Some []
      | RoomJoinRules \<Rightarrow> state_key ev = Some []
      | RoomCreate \<Rightarrow> state_key ev = Some []
      | RoomMember \<Rightarrow>
          (case de_member_content R (content ev) of
             Some m \<Rightarrow> m \<in> {Leave, Ban} \<and> Some (sender ev) \<noteq> state_key ev
           | None \<Rightarrow> False)
      | _ \<Rightarrow> False)"

section \<open>Power levels\<close>

definition int_power_levels_content :: "ruma \<Rightarrow> PowerLevelsPresent \<Rightarrow> RoomPowerLevelsEventContent" where
  "int_power_levels_content R p = \<lparr>
     pl_ban = (case some_ban p of None \<Rightarrow> default_power_level R | Some l \<Rightarrow> l),
     pl_events = (case some_events p of None \<Rightarrow> [] | Some l \<Rightarrow> l),
     pl_events_default = (case some_events_default p of None \<Rightarrow> 0 | Some l \<Rightarrow> l),
     pl_invite = (case some_invite p of None \<Rightarrow> 0 | Some l \<Rightarrow> l),
     pl_kick = (case some_kick p of None \<Rightarrow> default_power_level R | Some l \<Rightarrow> l),
     pl_redact = (case some_redact p of None \<Rightarrow> default_power_level R | Some l \<Rightarrow> l),
     pl_state_default = (case some_state_default p of None \<Rightarrow> default_power_level R | Some l \<Rightarrow> l),
     pl_users = (case some_users p of None \<Rightarrow> [] | Some l \<Rightarrow> l),
     pl_users_default = (case some_users_default p of None \<Rightarrow> 0 | Some l \<Rightarrow> l),
     pl_notifications_room =
       (case some_notifications p of None \<Rightarrow> default_power_level R
        | Some None \<Rightarrow> default_power_level R | Some (Some l) \<Rightarrow> l) \<rparr>"

definition deserialize_integer_power_levels ::
    "ruma \<Rightarrow> RawJson \<Rightarrow> RoomPowerLevelsEventContent option" where
  "deserialize_integer_power_levels R c =
     map_option (int_power_levels_content R) (de_int_power_levels R c)"

definition deserialize_legacy_power_levels ::
    "ruma \<Rightarrow> RawJson \<Rightarrow> RoomPowerLevelsEventContent option" where
  "deserialize_legacy_power_levels R c = de_power_levels R c"

definition deserialize_power_levels ::
    "ruma \<Rightarrow> RawJson \<Rightarrow> RoomVersion \<Rightarrow> RoomPowerLevelsEventContent option" where
  "deserialize_power_levels R c v =
     (if integer_power_levels v then deserialize_integer_power_levels R c
      else deserialize_legacy_power_levels R c)"

definition power_levels_fields :: "PowerLevelsFieldsPresent \<Rightarrow> PowerLevelsContentFields" where
  "power_levels_fields p = \<lparr>
     plf_users = (case some_plf_users p of None \<Rightarrow> [] | Some l \<Rightarrow> l),
     plf_users_default = (case some_plf_users_default p of None \<Rightarrow> 0 | Some l \<Rightarrow> l) \<rparr>"

definition deserialize_legacy_power_levels_content_fields ::
    "ruma \<Rightarrow> RawJson \<Rightarrow> Error + PowerLevelsContentFields" where
  "deserialize_legacy_power_levels_content_fields R c =
     from_json (map_option power_levels_fields (de_legacy_fields R c))"

definition deserialize_integer_power_levels_content_fields ::
    "ruma \<Rightarrow> RawJson \<Rightarrow> Error + PowerLevelsContentFields" where
  "deserialize_integer_power_levels_content_fields R c =
     from_json (map_option power_levels_fields (de_int_fields R c))"

definition deserialize_power_levels_content_fields ::
    "ruma \<Rightarrow> RawJson \<Rightarrow> RoomVersion \<Rightarrow> Error + PowerLevelsContentFields" where
  "deserialize_power_levels_content_fields R c v =
     (if integer_power_levels v then deserialize_integer_power_levels_content_fields R c
      else deserialize_legacy_power_levels_content_fields R c)"

definition deserialize_power_levels_content_invite ::
    "ruma \<Rightarrow> RawJson \<Rightarrow> RoomVersion \<Rightarrow> Error + js_int" where
  "deserialize_power_levels_content_invite R c v =
     from_json (map_option (\<lambda>p. case p of None \<Rightarrow> 0 | Some l \<Rightarrow> l)
       (if integer_power_levels v then de_int_invite R c else de_legacy_invite R c))"

definition deserialize_power_levels_content_redact ::
    "ruma \<Rightarrow> RawJson \<Rightarrow> RoomVersion \<Rightarrow> Error + js_int" where
  "deserialize_power_levels_content_redact R c v =
     from_json (map_option (\<lambda>p. case p of None \<Rightarrow> default_power_level R | Some l \<Rightarrow> l)
       (if integer_power_levels v then de_int_redact R c else de_legacy_redact R c))"

subsection \<open>Looking a user up by binary search\<close>

text \<open>
  \<open>slice::binary_search_by\<close> of the Rust standard library: \<open>base\<close> moves to \<open>mid\<close> unless the element
  there is greater, and \<open>sz\<close> shrinks by half until one candidate is left.
\<close>

function binary_search_base :: "('k :: linorder \<times> 'v) list \<Rightarrow> 'k \<Rightarrow> nat \<Rightarrow> nat \<Rightarrow> nat" where
  "binary_search_base xs k sz base =
     (if sz > 1 then
        (let half = sz div 2; mid = base + half in
         binary_search_base xs k (sz - half) (if fst (xs ! mid) > k then base else mid))
      else base)"
  by pat_completeness auto
termination
  by (relation "measure (\<lambda>(xs, k, sz, base). sz)") auto

declare binary_search_base.simps [simp del]

definition binary_search_by :: "('k :: linorder \<times> 'v) list \<Rightarrow> 'k \<Rightarrow> nat option" where
  "binary_search_by xs k =
     (if xs = [] then None
      else let base = binary_search_base xs k (length xs) 0
           in if fst (xs ! base) = k then Some base else None)"

definition get_user_power :: "PowerLevelsContentFields \<Rightarrow> UserId \<Rightarrow> js_int option" where
  "get_user_power c user =
     map_option (\<lambda>i. snd (plf_users c ! i)) (binary_search_by (plf_users c) user)"

text \<open>The search keeps the key, if it is there, between \<open>base\<close> and \<open>base + sz\<close>.\<close>

lemma binary_search_base_bounds:
  "1 \<le> sz \<Longrightarrow> base + sz \<le> length xs \<Longrightarrow>
   base \<le> binary_search_base xs k sz base \<and> binary_search_base xs k sz base < length xs"
proof (induction xs k sz base rule: binary_search_base.induct)
  case (1 xs k sz base)
  show ?case
  proof (cases "sz > 1")
    case True
    let ?mid = "base + sz div 2"
    let ?b = "if fst (xs ! ?mid) > k then base else ?mid"
    have "?b \<le> binary_search_base xs k (sz - sz div 2) ?b \<and>
        binary_search_base xs k (sz - sz div 2) ?b < length xs"
      using True "1.prems" by (intro "1.IH") auto
    with True show ?thesis
      by (subst (1 2) binary_search_base.simps) (auto simp: Let_def split: if_splits)
  next
    case False
    with "1.prems" show ?thesis by (simp add: binary_search_base.simps)
  qed
qed

lemma binary_search_base_finds:
  assumes "sorted_wrt (<) (map fst xs)" "i < length xs" "fst (xs ! i) = k"
    "1 \<le> sz" "base \<le> i" "i < base + sz" "base + sz \<le> length xs"
  shows "binary_search_base xs k sz base = i"
  using assms
proof (induction xs k sz base rule: binary_search_base.induct)
  case (1 xs k sz base)
  show ?case
  proof (cases "sz > 1")
    case True
    let ?mid = "base + sz div 2"
    have mid: "?mid < length xs" using True "1.prems" by auto
    have less: "fst (xs ! a) < fst (xs ! b)" if "a < b" "b < length xs" for a b
      using sorted_wrt_nth_less [OF "1.prems"(1), of a b] that by simp
    have gt: "fst (xs ! ?mid) > k \<longleftrightarrow> i < ?mid"
      using less [of i ?mid] less [of ?mid i] "1.prems"(2,3) mid
      by (metis linorder_neqE_nat order_less_imp_not_less order_less_irrefl)
    have "binary_search_base xs k (sz - sz div 2) (if fst (xs ! ?mid) > k then base else ?mid) = i"
      using True "1.prems" gt by (intro "1.IH") auto
    with True show ?thesis by (subst binary_search_base.simps) (simp add: Let_def)
  next
    case False
    with "1.prems" show ?thesis by (simp add: binary_search_base.simps)
  qed
qed

lemma binary_search_by_correct:
  assumes "sorted_wrt (<) (map fst xs)"
  shows "map_option (\<lambda>i. snd (xs ! i)) (binary_search_by xs k) = map_of xs k"
proof (cases "xs = []")
  case False
  let ?b = "binary_search_base xs k (length xs) 0"
  have b: "?b < length xs"
    using False binary_search_base_bounds [of "length xs" 0 xs k] by (simp add: Suc_le_eq)
  have d: "distinct (map fst xs)" using assms by (simp add: strict_sorted_iff)
  show ?thesis
  proof (cases "k \<in> fst ` set xs")
    case True
    then obtain i where i: "i < length xs" "fst (xs ! i) = k" by (auto simp: in_set_conv_nth)
    with assms False have "?b = i" by (intro binary_search_base_finds) (auto simp: Suc_le_eq)
    moreover have "map_of xs k = Some (snd (xs ! i))"
      using i d by (metis map_of_is_SomeI nth_mem prod.collapse)
    ultimately show ?thesis using False i by (simp add: binary_search_by_def)
  next
    case not_in: False
    then have "map_of xs k = None" by (simp add: map_of_eq_None_iff)
    moreover have "fst (xs ! ?b) \<noteq> k" using b not_in by (metis imageI nth_mem)
    ultimately show ?thesis by (simp add: binary_search_by_def)
  qed
qed (simp add: binary_search_by_def)

end
