(* ===== verification/EventAuth.thy ===== *)
theory EventAuth
  imports Events "HOL-Library.Option_ord"
begin

text \<open>
  The authorisation rules of Matrix events, \<^verbatim>\<open>src/core/matrix/state_res/event_auth.rs\<close>: which state
  an event is checked against (\<open>auth_types_for_event\<close>), the check itself (\<open>auth_check\<close>) and its parts
  for membership changes, power levels, redactions and third-party invites.  A check returns
  \<^term>\<open>Inr True\<close> (allowed), \<^term>\<open>Inr False\<close> (rejected) or an error.  The asynchronous \<open>fetch_state\<close>
  closure is a function from a type and a state key to an event.  Comparisons of optional levels use
  the ordering of Rust's \<open>Option\<close>, with \<^const>\<open>None\<close> below every value.
\<close>

section \<open>The auth types of an event\<close>

definition push_unique :: "'a \<Rightarrow> 'a list \<Rightarrow> 'a list" where
  "push_unique k ks = (if k \<in> set ks then ks else ks @ [k])"

definition member_auth_types ::
    "RoomMemberAuthFields \<Rightarrow> StateKey \<Rightarrow> TypeStateKey list \<Rightarrow> TypeStateKey list" where
  "member_auth_types c key auth_types =
     (case membership_field c of
        Some (Some m) \<Rightarrow>
          (let a = (if m = Join \<or> m = Invite \<or> m = Knock then
                      (let b = push_unique (RoomJoinRules, []) auth_types in
                       case join_authorised_via_users_server c of
                         Some (Some u) \<Rightarrow> push_unique (RoomMember, u) b
                       | _ \<Rightarrow> b)
                    else auth_types);
               d = push_unique (RoomMember, key) a
           in if m = Invite then
                (case third_party_invite_field c of
                   Some (Some t) \<Rightarrow> push_unique (RoomThirdPartyInvite, signed_token t) d
                 | _ \<Rightarrow> d)
              else d)
      | _ \<Rightarrow> auth_types)"

definition auth_types_for_event ::
    "ruma \<Rightarrow> EventType \<Rightarrow> UserId \<Rightarrow> StateKey option \<Rightarrow> RawJson \<Rightarrow> RoomVersion
     \<Rightarrow> Error + TypeStateKey list" where
  "auth_types_for_event R ty sndr key c v =
     (if ty = RoomCreate then Inr []
      else
        let auth_types =
          (if room_ids_as_hashes v then [(RoomPowerLevels, []), (RoomMember, sndr)]
           else [(RoomPowerLevels, []), (RoomMember, sndr), (RoomCreate, [])])
        in if ty = RoomMember then
             (case key of
                Some k \<Rightarrow> rbind (from_json (de_member_auth_fields R c))
                            (\<lambda>f. Inr (member_auth_types f k auth_types))
              | None \<Rightarrow> Inr auth_types)
           else Inr auth_types)"

section \<open>Power levels\<close>

definition get_send_level :: "ruma \<Rightarrow> EventType \<Rightarrow> StateKey option \<Rightarrow> Pdu option \<Rightarrow> js_int" where
  "get_send_level R ty key ple =
     (case Option.bind ple (\<lambda>p. de_power_levels R (content p)) of
        Some c \<Rightarrow>
          (case map_of (pl_events c) ty of
             Some l \<Rightarrow> l
           | None \<Rightarrow> if key \<noteq> None then pl_state_default c else pl_events_default c)
      | None \<Rightarrow> if key \<noteq> None then 50 else 0)"

definition can_send_event :: "ruma \<Rightarrow> Pdu \<Rightarrow> Pdu option \<Rightarrow> js_int \<Rightarrow> bool" where
  "can_send_event R ev ple user_level =
     (if user_level < get_send_level R (kind ev) (state_key ev) ple then False
      else if (case state_key ev of Some (c # _) \<Rightarrow> c = CHR ''@'' | _ \<Rightarrow> False)
              \<and> state_key ev \<noteq> Some (sender ev) then False
      else True)"

text \<open>
  One turn of the loop over users of \<open>check_power_levels\<close>: whether the change of \<open>user\<close>'s level
  between the two contents is within the sender's level.
\<close>

definition user_level_ok ::
    "Pdu \<Rightarrow> RoomPowerLevelsEventContent \<Rightarrow> RoomPowerLevelsEventContent \<Rightarrow> js_int \<Rightarrow> UserId list
     \<Rightarrow> UserId \<Rightarrow> bool" where
  "user_level_ok ev old new user_level creators user =
     (let old_level = map_of (pl_users old) user;
          new_level = map_of (pl_users new) user
      in if new_level \<noteq> None \<and> user \<in> set creators then False
         else if old_level \<noteq> None \<and> new_level \<noteq> None \<and> old_level = new_level then True
         else if user \<noteq> sender ev \<and> old_level = Some user_level then False
         else if old_level > Some user_level then False
         else if new_level > Some user_level then False
         else True)"

text \<open>One turn of the loop over event types.\<close>

definition event_level_ok ::
    "RoomPowerLevelsEventContent \<Rightarrow> RoomPowerLevelsEventContent \<Rightarrow> js_int \<Rightarrow> EventType \<Rightarrow> bool" where
  "event_level_ok old new user_level ty =
     (let old_level = map_of (pl_events old) ty;
          new_level = map_of (pl_events new) ty
      in if old_level \<noteq> None \<and> new_level \<noteq> None \<and> old_level = new_level then True
         else if old_level > Some user_level then False
         else if new_level > Some user_level then False
         else True)"

definition notifications_ok ::
    "RoomVersion \<Rightarrow> RoomPowerLevelsEventContent \<Rightarrow> RoomPowerLevelsEventContent \<Rightarrow> js_int \<Rightarrow> bool" where
  "notifications_ok v old new user_level =
     (if limit_notifications_power_levels v then
        (let old_level = pl_notifications_room old; new_level = pl_notifications_room new
         in if old_level \<noteq> new_level then \<not> (old_level > user_level \<or> new_level > user_level)
            else True)
      else True)"

definition level_names :: "string list" where
  "level_names = [''users_default'', ''events_default'', ''state_default'', ''ban'', ''redact'',
     ''kick'', ''invite'']"

definition get_deserialize_levels ::
    "ruma \<Rightarrow> RoomPowerLevelsEventContent \<Rightarrow> RoomPowerLevelsEventContent \<Rightarrow> string
     \<Rightarrow> (js_int \<times> js_int) option" where
  "get_deserialize_levels R old new name =
     (case pl_to_value R old name of
        None \<Rightarrow> None
      | Some o_l \<Rightarrow> (case pl_to_value R new name of None \<Rightarrow> None | Some n_l \<Rightarrow> Some (o_l, n_l)))"

definition named_level_ok ::
    "ruma \<Rightarrow> RoomPowerLevelsEventContent \<Rightarrow> RoomPowerLevelsEventContent \<Rightarrow> js_int \<Rightarrow> string \<Rightarrow> bool" where
  "named_level_ok R old new user_level name =
     (case get_deserialize_levels R old new name of
        Some (old_lvl, new_lvl) \<Rightarrow> \<not> (old_lvl > user_level \<or> new_lvl > user_level)
      | None \<Rightarrow> True)"

definition levels_to_check :: "('k \<times> js_int) list \<Rightarrow> ('k \<times> js_int) list \<Rightarrow> 'k list" where
  "levels_to_check old new = remdups (map fst old @ map fst new)"

text \<open>
  Every early return of the loops is \<open>Some(false)\<close>, so a loop is the conjunction of its turns and the
  order of the sets it runs over does not show.
\<close>

definition check_power_levels ::
    "ruma \<Rightarrow> RoomVersion \<Rightarrow> Pdu \<Rightarrow> Pdu option \<Rightarrow> js_int \<Rightarrow> UserId list \<Rightarrow> bool option" where
  "check_power_levels R v power_event previous_power_event user_level creators =
     (if state_key power_event \<noteq> Some [] then None
      else
        Option.bind (deserialize_power_levels R (content power_event) v) (\<lambda>user_content.
        case previous_power_event of
          None \<Rightarrow> Some True
        | Some current_state \<Rightarrow>
            Option.bind (deserialize_power_levels R (content current_state) v) (\<lambda>current_content.
            Some
              (list_all (user_level_ok power_event current_content user_content user_level creators)
                 (levels_to_check (pl_users current_content) (pl_users user_content))
               \<and> list_all (event_level_ok current_content user_content user_level)
                   (levels_to_check (pl_events current_content) (pl_events user_content))
               \<and> notifications_ok v current_content user_content user_level
               \<and> list_all (named_level_ok R current_content user_content user_level) level_names))))"

section \<open>Redactions and third-party invites\<close>

definition check_redaction :: "ruma \<Rightarrow> Pdu \<Rightarrow> js_int \<Rightarrow> js_int \<Rightarrow> bool" where
  "check_redaction R redaction_event user_level redact_level =
     (if user_level \<ge> redact_level then True
      else event_server_name R (event_id redaction_event)
             = Option.bind (redacts redaction_event) (event_server_name R))"

definition verify_third_party_invite ::
    "ruma \<Rightarrow> UserId option \<Rightarrow> UserId \<Rightarrow> ThirdPartyInvite \<Rightarrow> Pdu option \<Rightarrow> bool" where
  "verify_third_party_invite R target_user sndr tp_id current_third_party_invite =
     (if target_user \<noteq> Some (signed_mxid tp_id) then False
      else case current_third_party_invite of
        None \<Rightarrow> False
      | Some current_tpid \<Rightarrow>
          if state_key current_tpid \<noteq> Some (signed_token tp_id) then False
          else if sndr \<noteq> sender current_tpid then False
          else (case de_third_party_invite R (content current_tpid) of
             None \<Rightarrow> False
           | Some tpid_ev \<Rightarrow>
               (case base64_parse R (signed_token tp_id) of
                  None \<Rightarrow> False
                | Some decoded \<Rightarrow>
                    (if decoded \<in> set (case tpi_public_keys tpid_ev of None \<Rightarrow> [] | Some ks \<Rightarrow> ks)
                     then True else tpi_public_key tpid_ev = decoded))))"

section \<open>Membership changes\<close>

definition is_creator ::
    "ruma \<Rightarrow> RoomVersion \<Rightarrow> UserId list \<Rightarrow> Pdu \<Rightarrow> UserId \<Rightarrow> bool \<Rightarrow> Error + bool" where
  "is_creator R v creators ce user have_pls =
     (if explicitly_privilege_room_creators v then Inr (user \<in> set creators)
      else if use_room_create_sender v \<and> \<not> have_pls then Inr (sender ce = user)
      else if \<not> have_pls then
        (case de_create_content R (content ce) of
           Some (Some creator) \<Rightarrow> Inr (creator = user)
         | _ \<Rightarrow> Inl Panic)
      else Inr False)"

text \<open>
  The local variables of \<open>valid_membership_change\<close> that its last expression, the match on the target
  membership, reads.
\<close>

record MembershipChange =
  mc_sender :: UserId
  mc_target :: UserId
  mc_third_party_invite :: "ThirdPartyInvite raw option"
  mc_sender_membership :: MembershipState
  mc_target_current :: MembershipState
  mc_power_levels :: RoomPowerLevelsEventContent
  mc_sender_power :: "js_int option"
  mc_target_power :: "js_int option"
  mc_join_rules :: JoinRule
  mc_join_auth_valid :: bool
  mc_sender_creator :: bool
  mc_target_creator :: bool

abbreviation sender_is_joined :: "MembershipChange \<Rightarrow> bool" where
  "sender_is_joined m \<equiv> mc_sender_membership m = Join"

text \<open>\<open>sender_power.filter(|p| p >= level).is_some()\<close>\<close>

definition has_level :: "MembershipChange \<Rightarrow> js_int \<Rightarrow> bool" where
  "has_level m l = (case mc_sender_power m of None \<Rightarrow> False | Some p \<Rightarrow> p \<ge> l)"

definition membership_allows_join :: "MembershipChange \<Rightarrow> bool" where
  "membership_allows_join m \<longleftrightarrow> mc_target_current m = Join \<or> mc_target_current m = Invite"

definition initial_join :: "MembershipChange \<Rightarrow> Pdu \<Rightarrow> Pdu \<Rightarrow> bool" where
  "initial_join m current_event create_room \<longleftrightarrow>
     (case prev_events current_event of [p] \<Rightarrow> p = event_id create_room | _ \<Rightarrow> False)
     \<and> mc_sender_creator m \<and> mc_target_creator m"

definition join_rule_allows :: "RoomVersion \<Rightarrow> MembershipChange \<Rightarrow> bool" where
  "join_rule_allows v m =
     (case mc_join_rules m of
        RuleInvite \<Rightarrow> membership_allows_join m
      | RuleKnock \<Rightarrow> (if \<not> allow_knocking v then False else membership_allows_join m)
      | RuleKnockRestricted \<Rightarrow>
          (if \<not> knock_restricted_join_rule v then False
           else membership_allows_join m \<or> mc_join_auth_valid m)
      | RuleRestricted \<Rightarrow> membership_allows_join m \<or> mc_join_auth_valid m
      | RulePublic \<Rightarrow> True
      | RuleOther _ \<Rightarrow> False)"

definition change_to_join :: "RoomVersion \<Rightarrow> MembershipChange \<Rightarrow> Pdu \<Rightarrow> Pdu \<Rightarrow> bool" where
  "change_to_join v m current_event create_room =
     (if initial_join m current_event create_room then True
      else if mc_sender m \<noteq> mc_target m then False
      else if mc_target_current m = Ban then False
      else join_rule_allows v m)"

definition change_to_invite :: "ruma \<Rightarrow> MembershipChange \<Rightarrow> Pdu option \<Rightarrow> bool" where
  "change_to_invite R m current_third_party_invite =
     (case mc_third_party_invite m of
        Some (Some tp_id) \<Rightarrow>
          (if mc_target_current m = Ban then False
           else verify_third_party_invite R (Some (mc_target m)) (mc_sender m) tp_id
                  current_third_party_invite)
      | _ \<Rightarrow>
          (if \<not> sender_is_joined m then False
           else if mc_target_current m = Join \<or> mc_target_current m = Ban then False
           else mc_sender_creator m \<or> has_level m (pl_invite (mc_power_levels m))))"

definition can_unban :: "MembershipChange \<Rightarrow> bool" where
  "can_unban m =
     (if mc_target_current m = Ban
      then mc_sender_creator m \<or> has_level m (pl_ban (mc_power_levels m)) else True)"

definition can_kick :: "MembershipChange \<Rightarrow> bool" where
  "can_kick m =
     (if mc_target_current m \<noteq> Ban \<and> mc_target_current m \<noteq> Leave then
        (if mc_sender_creator m then True
         else if \<not> has_level m (pl_kick (mc_power_levels m)) then False
         else (case mc_sender_power m of
            Some sp \<Rightarrow> (case mc_target_power m of Some tp \<Rightarrow> sp > tp | None \<Rightarrow> True)
          | None \<Rightarrow> False))
      else True)"

definition change_to_leave :: "MembershipChange \<Rightarrow> bool" where
  "change_to_leave m =
     (if mc_sender m = mc_target m
      then mc_target_current m = Join \<or> mc_target_current m = Invite \<or> mc_target_current m = Knock
      else if \<not> sender_is_joined m then False
      else if \<not> (can_unban m \<and> can_kick m) then False
      else if \<not> can_kick m then False
      else True)"

definition change_to_ban :: "MembershipChange \<Rightarrow> bool" where
  "change_to_ban m =
     (if \<not> sender_is_joined m then False
      else mc_sender_creator m \<or>
           (has_level m (pl_ban (mc_power_levels m)) \<and> mc_target_power m < mc_sender_power m))"

definition change_to_knock :: "RoomVersion \<Rightarrow> MembershipChange \<Rightarrow> bool" where
  "change_to_knock v m =
     (if mc_join_rules m \<noteq> RuleKnockRestricted \<and> mc_join_rules m \<noteq> RuleKnock then False
      else if mc_join_rules m = RuleKnockRestricted \<and> \<not> knock_restricted_join_rule v then False
      else if mc_sender m \<noteq> mc_target m then False
      else if mc_sender_membership m = Ban \<or> mc_sender_membership m = Invite
              \<or> mc_sender_membership m = Join then False
      else True)"

definition membership_transition ::
    "ruma \<Rightarrow> RoomVersion \<Rightarrow> MembershipState \<Rightarrow> MembershipChange \<Rightarrow> Pdu \<Rightarrow> Pdu option \<Rightarrow> Pdu \<Rightarrow> bool" where
  "membership_transition R v target_membership m current_event current_third_party_invite create_room =
     (case target_membership of
        Join \<Rightarrow> change_to_join v m current_event create_room
      | Invite \<Rightarrow> change_to_invite R m current_third_party_invite
      | Leave \<Rightarrow> change_to_leave m
      | Ban \<Rightarrow> change_to_ban m
      | Knock \<Rightarrow> if allow_knocking v then change_to_knock v m else False
      | CustomMembership _ \<Rightarrow> False)"

text \<open>\<open>user_for_join_auth_is_valid\<close>: the user named by the event may authorise a restricted join.\<close>

definition join_auth_is_valid ::
    "ruma \<Rightarrow> RoomVersion \<Rightarrow> UserId list \<Rightarrow> Pdu \<Rightarrow> Pdu option \<Rightarrow> UserId option \<Rightarrow> MembershipState
     \<Rightarrow> Error + bool" where
  "join_auth_is_valid R v creators create_room power_levels_event user_for_join_auth membership =
     (case user_for_join_auth of
        None \<Rightarrow> Inr False
      | Some user \<Rightarrow>
          rbind
            (case power_levels_event of
               Some pl \<Rightarrow>
                 rbind (deserialize_power_levels_content_invite R (content pl) v) (\<lambda>invite.
                 rbind (deserialize_power_levels_content_fields R (content pl) v) (\<lambda>c.
                 Inr (case get_user_power c user of Some l \<Rightarrow> l | None \<Rightarrow> plf_users_default c, invite)))
             | None \<Rightarrow> Inr (0, 0))
            (\<lambda>(auth_user_pl, invite_level).
             rbind (is_creator R v creators create_room user (power_levels_event \<noteq> None)) (\<lambda>creator.
             Inr (membership = Join \<and> (creator \<or> auth_user_pl \<ge> invite_level)))))"

definition membership_of :: "ruma \<Rightarrow> Pdu option \<Rightarrow> Error + MembershipState" where
  "membership_of R ev =
     (case ev of Some pdu \<Rightarrow> from_json (de_get_membership R (content pdu)) | None \<Rightarrow> Inr Leave)"

definition creators_of :: "RoomVersion \<Rightarrow> RoomCreateContentFields \<Rightarrow> Pdu \<Rightarrow> UserId list" where
  "creators_of v create_content create_room =
     sender create_room #
     (if explicitly_privilege_room_creators v then
        (case additional_creators create_content of
           Some cs \<Rightarrow> List.map_filter id cs
         | None \<Rightarrow> [])
      else [])"

definition power_of ::
    "RoomVersion \<Rightarrow> RoomPowerLevelsEventContent \<Rightarrow> UserId list \<Rightarrow> UserId \<Rightarrow> bool \<Rightarrow> js_int option" where
  "power_of v pls creators user use_default =
     (if explicitly_privilege_room_creators v \<and> user \<in> set creators then Some INT_MAX
      else case map_of (pl_users pls) user of
        Some l \<Rightarrow> Some l
      | None \<Rightarrow> if use_default then Some (pl_users_default pls) else None)"

definition valid_membership_change ::
    "ruma \<Rightarrow> RoomVersion \<Rightarrow> UserId \<Rightarrow> Pdu option \<Rightarrow> UserId \<Rightarrow> Pdu option \<Rightarrow> Pdu \<Rightarrow> Pdu option
     \<Rightarrow> Pdu option \<Rightarrow> Pdu option \<Rightarrow> UserId option \<Rightarrow> MembershipState \<Rightarrow> Pdu \<Rightarrow> Error + bool" where
  "valid_membership_change R v target_user target_user_membership_event sndr
       sender_membership_event current_event current_third_party_invite power_levels_event
       join_rules_event user_for_join_auth user_for_join_auth_membership create_room =
     rbind (from_json (de_create_fields R (content create_room))) (\<lambda>create_content.
     rbind (from_json (de_get_membership R (content current_event))) (\<lambda>target_membership.
     rbind (from_json (de_get_third_party_invite R (content current_event))) (\<lambda>third_party_invite.
     rbind (membership_of R sender_membership_event) (\<lambda>sender_membership.
     rbind (membership_of R target_user_membership_event) (\<lambda>target_current.
     rbind (case power_levels_event of
              Some ev \<Rightarrow> from_json (de_power_levels R (content ev))
            | None \<Rightarrow> Inr (pl_default R)) (\<lambda>power_levels.
     let creators = creators_of v create_content create_room;
         have_pls = (power_levels_event \<noteq> None)
     in
     rbind (case join_rules_event of
              Some jr \<Rightarrow> from_json (de_join_rules R (content jr))
            | None \<Rightarrow> Inr RuleInvite) (\<lambda>join_rules.
     rbind (join_auth_is_valid R v creators create_room power_levels_event user_for_join_auth
              user_for_join_auth_membership) (\<lambda>join_auth_valid.
     rbind (is_creator R v creators create_room sndr have_pls) (\<lambda>sender_creator.
     rbind (is_creator R v creators create_room target_user have_pls) (\<lambda>target_creator.
     Inr (membership_transition R v target_membership
       \<lparr> mc_sender = sndr, mc_target = target_user,
         mc_third_party_invite = third_party_invite,
         mc_sender_membership = sender_membership, mc_target_current = target_current,
         mc_power_levels = power_levels,
         mc_sender_power = power_of v power_levels creators sndr (sender_membership = Join),
         mc_target_power = power_of v power_levels creators target_user (target_membership = Join),
         mc_join_rules = join_rules, mc_join_auth_valid = join_auth_valid,
         mc_sender_creator = sender_creator, mc_target_creator = target_creator \<rparr>
       current_event current_third_party_invite create_room)))))))))))"

section \<open>The check\<close>

text \<open>\<open>auth_check\<close> on a create event.\<close>

definition auth_check_create :: "ruma \<Rightarrow> RoomVersion \<Rightarrow> Pdu \<Rightarrow> Error + bool" where
  "auth_check_create R v ev =
     (if prev_events ev \<noteq> [] then Inr False
      else require
        (case room_id ev of
           None \<Rightarrow> Inr True
         | Some rid \<Rightarrow> Inr (room_server_name R rid = Some (user_server_name R (sender ev))))
        (rbind (from_json (de_create_fields R (content ev))) (\<lambda>c.
           if room_version_field c = Some None then Inr False
           else if room_ids_as_hashes v \<and> room_id ev \<noteq> None then Inr False
           else if \<not> use_room_create_sender v \<and> \<not> explicitly_privilege_room_creators v
                   \<and> \<not> creator_field c then Inr False
           else Inr True)))"

text \<open>
  The checks of the room: same room as the create event, the create event referenced exactly when
  the room version wants it, the power levels of the same room, federation.
\<close>

definition auth_check_room ::
    "ruma \<Rightarrow> RoomVersion \<Rightarrow> Pdu \<Rightarrow> Pdu option \<Rightarrow> Pdu \<Rightarrow> RoomCreateContentFields \<Rightarrow> RoomId
     \<Rightarrow> Error + bool" where
  "auth_check_room R v ev ple create_ev create_content expected_room_id =
     rbind (ok_or Panic (room_id ev)) (\<lambda>rid.
     if rid \<noteq> expected_room_id then Inr False
     else let claims_create_event = (event_id create_ev \<in> set (auth_events ev)) in
       if room_ids_as_hashes v \<and> claims_create_event then Inr False
       else if \<not> room_ids_as_hashes v \<and> \<not> claims_create_event then Inr False
       else require
         (case ple of
            None \<Rightarrow> Inr True
          | Some pe \<Rightarrow> rbind (ok_or Panic (room_id pe)) (\<lambda>r. Inr (r = expected_room_id)))
         (Inr (\<not> (\<not> room_ids_as_hashes v \<and> \<not> federate create_content
                 \<and> user_server_name R (sender create_ev) \<noteq> user_server_name R (sender ev)))))"

text \<open>The check of a membership event.\<close>

definition auth_check_member ::
    "ruma \<Rightarrow> RoomVersion \<Rightarrow> Pdu \<Rightarrow> Pdu option \<Rightarrow> (EventType \<Rightarrow> StateKey \<Rightarrow> Pdu option) \<Rightarrow> Pdu
     \<Rightarrow> Pdu option \<Rightarrow> Pdu option \<Rightarrow> Error + bool" where
  "auth_check_member R v ev current_third_party_invite fetch_state create_ev ple sender_member =
     (case state_key ev of
        None \<Rightarrow> Inr False
      | Some target_user \<Rightarrow>
          rbind (from_json (de_member_fields R (content ev))) (\<lambda>c.
          if Option.bind (membership_field c) id = None then Inr False
          else if \<not> is_user_id R target_user then Inl InvalidPdu
          else
            let user_for_join_auth = Option.bind (join_authorised_via_users_server c) id;
                user_for_join_auth_event =
                  Option.bind user_for_join_auth (\<lambda>u. fetch_state RoomMember u);
                user_for_join_auth_membership =
                  (case Option.bind user_for_join_auth_event
                          (\<lambda>mem. de_get_membership R (content mem)) of
                     None \<Rightarrow> Leave | Some m \<Rightarrow> m)
            in valid_membership_change R v target_user (fetch_state RoomMember target_user)
                 (sender ev) sender_member ev current_third_party_invite ple
                 (fetch_state RoomJoinRules []) user_for_join_auth user_for_join_auth_membership
                 create_ev))"

text \<open>The sender is joined to the room, by a membership event of that room.\<close>

definition auth_check_sender_joined ::
    "ruma \<Rightarrow> Pdu option \<Rightarrow> RoomId \<Rightarrow> Error + bool" where
  "auth_check_sender_joined R sender_member expected_room_id =
     (case sender_member of
        None \<Rightarrow> Inr False
      | Some mem \<Rightarrow>
          rbind (ok_or Panic (room_id mem)) (\<lambda>rid.
          if rid \<noteq> expected_room_id then Inr False
          else rbind (from_json (de_member_fields R (content mem))) (\<lambda>c.
          rbind (ok_or InvalidPdu (membership_field c)) (\<lambda>raw.
          rbind (from_json raw) (\<lambda>m. Inr (m = Join))))))"

definition sender_power_level ::
    "ruma \<Rightarrow> RoomVersion \<Rightarrow> UserId \<Rightarrow> Pdu option \<Rightarrow> Pdu \<Rightarrow> RoomCreateContentFields \<Rightarrow> Error + js_int" where
  "sender_power_level R v sndr ple create_ev create_content =
     rbind
       (case ple of
          Some pl \<Rightarrow>
            rbind (deserialize_power_levels_content_fields R (content pl) v) (\<lambda>c.
            Inr (case get_user_power c sndr of Some l \<Rightarrow> l | None \<Rightarrow> plf_users_default c))
        | None \<Rightarrow>
            rbind
              (if use_room_create_sender v then Inr (sender create_ev = sndr)
               else (case de_create_content R (content create_ev) of
                 None \<Rightarrow> Inr False
               | Some None \<Rightarrow> Inl Panic
               | Some (Some c) \<Rightarrow> Inr (c = sndr)))
              (\<lambda>creator. Inr (if creator then 100 else 0)))
       (\<lambda>level.
        Inr (if explicitly_privilege_room_creators v
                \<and> (sndr = sender create_ev
                   \<or> (case additional_creators create_content of
                        None \<Rightarrow> False | Some cs \<Rightarrow> Some sndr \<in> set cs))
             then INT_MAX else level))"

definition third_party_invite_allowed ::
    "ruma \<Rightarrow> RoomVersion \<Rightarrow> Pdu option \<Rightarrow> js_int \<Rightarrow> Error + bool" where
  "third_party_invite_allowed R v ple level =
     rbind (case ple of
              Some pl \<Rightarrow> deserialize_power_levels_content_invite R (content pl) v
            | None \<Rightarrow> Inr 0)
       (\<lambda>invite_level. Inr (\<not> level < invite_level))"

text \<open>The creators a power levels event may not name: every one of them has to decode.\<close>

fun deserialize_all :: "'a raw list \<Rightarrow> Error + 'a list" where
  "deserialize_all [] = Inr []"
| "deserialize_all (x # xs) =
     rbind (from_json x) (\<lambda>y. rbind (deserialize_all xs) (\<lambda>ys. Inr (y # ys)))"

definition power_levels_creators ::
    "RoomVersion \<Rightarrow> Pdu \<Rightarrow> RoomCreateContentFields \<Rightarrow> Error + UserId list" where
  "power_levels_creators v create_ev create_content =
     (if explicitly_privilege_room_creators v then
        rbind (deserialize_all (case additional_creators create_content of None \<Rightarrow> [] | Some cs \<Rightarrow> cs))
          (\<lambda>cs. Inr (sender create_ev # cs))
      else Inr [])"

definition power_levels_allowed ::
    "ruma \<Rightarrow> RoomVersion \<Rightarrow> Pdu \<Rightarrow> Pdu option \<Rightarrow> js_int \<Rightarrow> Pdu \<Rightarrow> RoomCreateContentFields
     \<Rightarrow> Error + bool" where
  "power_levels_allowed R v ev ple level create_ev create_content =
     rbind (power_levels_creators v create_ev create_content) (\<lambda>creators.
     Inr (check_power_levels R v ev ple level creators = Some True))"

definition redaction_allowed :: "ruma \<Rightarrow> RoomVersion \<Rightarrow> Pdu \<Rightarrow> Pdu option \<Rightarrow> js_int \<Rightarrow> Error + bool" where
  "redaction_allowed R v ev ple level =
     rbind (case ple of
              Some pl \<Rightarrow> deserialize_power_levels_content_redact R (content pl) v
            | None \<Rightarrow> Inr 50)
       (\<lambda>redact_level. Inr (check_redaction R ev level redact_level))"

text \<open>The checks of an event that is neither a create, an aliases nor a membership event.\<close>

definition auth_check_power ::
    "ruma \<Rightarrow> RoomVersion \<Rightarrow> Pdu \<Rightarrow> Pdu option \<Rightarrow> js_int \<Rightarrow> Pdu \<Rightarrow> RoomCreateContentFields
     \<Rightarrow> Error + bool" where
  "auth_check_power R v ev ple level create_ev create_content =
     (if kind ev = RoomThirdPartyInvite then third_party_invite_allowed R v ple level
      else if \<not> can_send_event R ev ple level then Inr False
      else require
        (if kind ev = RoomPowerLevels
         then power_levels_allowed R v ev ple level create_ev create_content else Inr True)
        (if extra_redaction_checks v \<and> kind ev = RoomRedaction
         then redaction_allowed R v ev ple level else Inr True))"

definition auth_check ::
    "ruma \<Rightarrow> RoomVersion \<Rightarrow> Pdu \<Rightarrow> Pdu option \<Rightarrow> (EventType \<Rightarrow> StateKey \<Rightarrow> Pdu option) \<Rightarrow> Pdu
     \<Rightarrow> Error + bool" where
  "auth_check R v ev current_third_party_invite fetch_state create_ev =
     (if kind ev = RoomCreate then auth_check_create R v ev
      else
        let ple = fetch_state RoomPowerLevels [];
            sender_member = fetch_state RoomMember (sender ev)
        in
        rbind (from_json (de_create_fields R (content create_ev))) (\<lambda>create_content.
        if room_version_field create_content = Some None then Inr False
        else rbind (room_id_or_hash R create_ev) (\<lambda>expected_room_id.
          require (auth_check_room R v ev ple create_ev create_content expected_room_id)
          (if special_case_aliases_auth v \<and> kind ev = RoomAliases then
             Inr (state_key ev = Some (user_server_name R (sender ev)))
           else if kind ev = RoomMember then
             auth_check_member R v ev current_third_party_invite fetch_state create_ev ple
               sender_member
           else require (auth_check_sender_joined R sender_member expected_room_id)
             (rbind (sender_power_level R v (sender ev) ple create_ev create_content) (\<lambda>level.
              auth_check_power R v ev ple level create_ev create_content))))))"

section \<open>What an accepted event satisfies\<close>

lemma auth_check_cases:
  assumes "auth_check R v ev tpi fetch_state cr = Inr True" "kind ev \<noteq> RoomCreate"
  obtains cc rid where
    "de_create_fields R (content cr) = Some cc" "room_version_field cc \<noteq> Some None"
    "room_id_or_hash R cr = Inr rid"
    "auth_check_room R v ev (fetch_state RoomPowerLevels []) cr cc rid = Inr True"
    "special_case_aliases_auth v \<and> kind ev = RoomAliases
       \<and> state_key ev = Some (user_server_name R (sender ev))
     \<or> kind ev = RoomMember \<and>
         auth_check_member R v ev tpi fetch_state cr (fetch_state RoomPowerLevels [])
           (fetch_state RoomMember (sender ev)) = Inr True
     \<or> kind ev \<noteq> RoomMember \<and> \<not> (special_case_aliases_auth v \<and> kind ev = RoomAliases) \<and>
       auth_check_sender_joined R (fetch_state RoomMember (sender ev)) rid = Inr True \<and>
       (\<exists>level. sender_power_level R v (sender ev) (fetch_state RoomPowerLevels []) cr cc = Inr level
          \<and> auth_check_power R v ev (fetch_state RoomPowerLevels []) level cr cc = Inr True)"
  using assms
  by (auto simp: auth_check_def Let_def result_simps split: if_splits)

lemma auth_check_room_True:
  "auth_check_room R v ev ple cr cc rid = Inr True \<longleftrightarrow>
     room_id ev = Some rid
     \<and> (event_id cr \<in> set (auth_events ev) \<longleftrightarrow> \<not> room_ids_as_hashes v)
     \<and> (\<forall>pe. ple = Some pe \<longrightarrow> room_id pe = Some rid)
     \<and> (room_ids_as_hashes v \<or> federate cc
        \<or> user_server_name R (sender cr) = user_server_name R (sender ev))"
  by (cases ple) (auto simp: auth_check_room_def Let_def result_simps)

lemma auth_check_sender_joined_True:
  "auth_check_sender_joined R mem rid = Inr True \<longleftrightarrow>
     (\<exists>e c. mem = Some e \<and> room_id e = Some rid \<and> de_member_fields R (content e) = Some c
        \<and> membership_field c = Some (Some Join))"
  by (cases mem) (auto simp: auth_check_sender_joined_def result_simps split: if_splits)

lemma auth_check_power_True:
  assumes "auth_check_power R v ev ple level cr cc = Inr True" "kind ev \<noteq> RoomThirdPartyInvite"
  shows "can_send_event R ev ple level"
    "kind ev = RoomPowerLevels \<Longrightarrow> power_levels_allowed R v ev ple level cr cc = Inr True"
    "kind ev = RoomRedaction \<Longrightarrow> extra_redaction_checks v \<Longrightarrow>
       redaction_allowed R v ev ple level = Inr True"
  using assms by (auto simp: auth_check_power_def result_simps split: if_splits)

text \<open>
  An event that passes \<open>auth_check\<close> is in the room of the create event, references the create
  event exactly when the room version does not name rooms by hashes, and was judged by power levels of
  its own room.
\<close>

lemma auth_check_same_room:
  assumes "auth_check R v ev tpi fetch_state cr = Inr True" "kind ev \<noteq> RoomCreate"
  shows "room_id_or_hash R cr = Inr (the (room_id ev)) \<and> room_id ev \<noteq> None
    \<and> (event_id cr \<in> set (auth_events ev) \<longleftrightarrow> \<not> room_ids_as_hashes v)
    \<and> (\<forall>pl. fetch_state RoomPowerLevels [] = Some pl \<longrightarrow> room_id pl = room_id ev)"
  using assms by (elim auth_check_cases) (auto simp: auth_check_room_True)

text \<open>
  C31: The sender of an accepted event (other than create, membership, third-party invite and
  old aliases events) is joined to that room, has at least the power level the event's type needs, and
  does not use the user id of another as state key.
\<close>

theorem auth_check_sender_power:
  assumes "auth_check R v ev tpi fetch_state cr = Inr True"
    "kind ev \<notin> {RoomCreate, RoomMember, RoomThirdPartyInvite}"
    "\<not> (special_case_aliases_auth v \<and> kind ev = RoomAliases)"
  shows "\<exists>mem c cc level. fetch_state RoomMember (sender ev) = Some mem \<and> room_id mem = room_id ev
     \<and> de_member_fields R (content mem) = Some c \<and> membership_field c = Some (Some Join)
     \<and> de_create_fields R (content cr) = Some cc
     \<and> sender_power_level R v (sender ev) (fetch_state RoomPowerLevels []) cr cc = Inr level
     \<and> get_send_level R (kind ev) (state_key ev) (fetch_state RoomPowerLevels []) \<le> level
     \<and> (\<forall>s. state_key ev = Some (CHR ''@'' # s) \<longrightarrow> sender ev = CHR ''@'' # s)"
proof -
  from assms(1) have "kind ev \<noteq> RoomCreate" using assms(2) by simp
  with assms(1) show ?thesis
  proof (rule auth_check_cases, goal_cases)
    case (1 cc rid)
    then obtain level where level:
        "sender_power_level R v (sender ev) (fetch_state RoomPowerLevels []) cr cc = Inr level"
        "auth_check_power R v ev (fetch_state RoomPowerLevels []) level cr cc = Inr True"
        "auth_check_sender_joined R (fetch_state RoomMember (sender ev)) rid = Inr True"
      using assms(2,3) by auto
    have "can_send_event R ev (fetch_state RoomPowerLevels []) level"
      using auth_check_power_True(1) [OF level(2)] assms(2) by simp
    with 1 level show ?case
      by (auto simp: auth_check_room_True auth_check_sender_joined_True can_send_event_def
          split: if_splits)
  qed
qed


lemma auth_check_level:
  assumes "auth_check R v ev tpi fetch_state cr = Inr True"
    "kind ev \<notin> {RoomCreate, RoomMember}" "\<not> (special_case_aliases_auth v \<and> kind ev = RoomAliases)"
  obtains cc rid level where
    "de_create_fields R (content cr) = Some cc" "room_id_or_hash R cr = Inr rid"
    "auth_check_room R v ev (fetch_state RoomPowerLevels []) cr cc rid = Inr True"
    "auth_check_sender_joined R (fetch_state RoomMember (sender ev)) rid = Inr True"
    "sender_power_level R v (sender ev) (fetch_state RoomPowerLevels []) cr cc = Inr level"
    "auth_check_power R v ev (fetch_state RoomPowerLevels []) level cr cc = Inr True"
  by (rule auth_check_cases [OF assms(1)]) (use assms(2,3) that in auto)

lemma user_level_okD:
  assumes "user_level_ok ev old new level creators u"
    "map_of (pl_users old) u \<noteq> map_of (pl_users new) u"
  shows "map_of (pl_users old) u \<le> Some level" "map_of (pl_users new) u \<le> Some level"
    "u \<noteq> sender ev \<Longrightarrow> map_of (pl_users old) u < Some level"
  using assms by (auto simp: user_level_ok_def Let_def not_less split: if_splits)

lemma event_level_okD:
  assumes "event_level_ok old new level ty"
    "map_of (pl_events old) ty \<noteq> map_of (pl_events new) ty"
  shows "map_of (pl_events old) ty \<le> Some level" "map_of (pl_events new) ty \<le> Some level"
  using assms by (auto simp: event_level_ok_def Let_def not_less split: if_splits)

lemma levels_to_check_changed:
  "map_of old k \<noteq> map_of new k \<Longrightarrow> k \<in> set (levels_to_check old new)"
  by (auto simp: levels_to_check_def) (metis domIff dom_map_of_conv_image_fst)

lemma check_power_levels_True:
  assumes "check_power_levels R v ev (Some pl) level creators = Some True"
  obtains old new where
    "deserialize_power_levels R (content pl) v = Some old"
    "deserialize_power_levels R (content ev) v = Some new"
    "\<And>u. u \<in> set (levels_to_check (pl_users old) (pl_users new)) \<Longrightarrow>
       user_level_ok ev old new level creators u"
    "\<And>ty. ty \<in> set (levels_to_check (pl_events old) (pl_events new)) \<Longrightarrow>
       event_level_ok old new level ty"
    "notifications_ok v old new level" "state_key ev = Some []"
    "\<And>name. name \<in> set level_names \<Longrightarrow> named_level_ok R old new level name"
  using assms
  by (auto simp: check_power_levels_def list_all_iff split: if_splits bind_splits)

lemma power_levels_allowed_True:
  "power_levels_allowed R v ev ple level cr cc = Inr True \<longleftrightarrow>
     (\<exists>creators. power_levels_creators v cr cc = Inr creators
        \<and> check_power_levels R v ev ple level creators = Some True)"
  by (auto simp: power_levels_allowed_def result_simps)

text \<open>
  C9: No escalation.  Where the room already has power levels, an accepted power levels event changes the
  level of a user, of an event type or, in the versions that limit it, of notifications only if both the
  old and the new level are at most the sender's own level, and, for a user other than the sender, the
  old level is strictly below it. Of the named levels (ban, kick, invite, redact and the defaults) the
  same holds only for those which both the old and the new content serialise; the code compares no others.
\<close>

theorem power_levels_no_escalation:
  assumes "auth_check R v ev tpi fetch_state cr = Inr True" "kind ev = RoomPowerLevels"
    "fetch_state RoomPowerLevels [] = Some pl"
  shows "\<exists>cc level old new. de_create_fields R (content cr) = Some cc
     \<and> sender_power_level R v (sender ev) (Some pl) cr cc = Inr level
     \<and> deserialize_power_levels R (content pl) v = Some old
     \<and> deserialize_power_levels R (content ev) v = Some new
     \<and> (\<forall>u. map_of (pl_users old) u \<noteq> map_of (pl_users new) u \<longrightarrow>
          map_of (pl_users old) u \<le> Some level \<and> map_of (pl_users new) u \<le> Some level
          \<and> (u \<noteq> sender ev \<longrightarrow> map_of (pl_users old) u < Some level))
     \<and> (\<forall>ty. map_of (pl_events old) ty \<noteq> map_of (pl_events new) ty \<longrightarrow>
          map_of (pl_events old) ty \<le> Some level \<and> map_of (pl_events new) ty \<le> Some level)
     \<and> (limit_notifications_power_levels v \<and> pl_notifications_room old \<noteq> pl_notifications_room new \<longrightarrow>
          pl_notifications_room old \<le> level \<and> pl_notifications_room new \<le> level)
     \<and> (\<forall>name \<in> {''users_default'', ''events_default'', ''state_default'', ''ban'', ''redact'', ''kick'',
            ''invite''}. \<forall>a b. pl_to_value R old name = Some a \<and> pl_to_value R new name = Some b \<longrightarrow>
          a \<le> level \<and> b \<le> level)"
proof -
  obtain cc level where level: "de_create_fields R (content cr) = Some cc"
      "sender_power_level R v (sender ev) (Some pl) cr cc = Inr level"
      "auth_check_power R v ev (Some pl) level cr cc = Inr True"
    by (rule auth_check_level [OF assms(1)]) (use assms(2,3) in auto)
  have "power_levels_allowed R v ev (Some pl) level cr cc = Inr True"
    using auth_check_power_True(2) [OF level(3)] assms(2) by simp
  then obtain creators where "check_power_levels R v ev (Some pl) level creators = Some True"
    by (auto simp: power_levels_allowed_True)
  then show ?thesis
  proof (rule check_power_levels_True)
    fix old new
    assume old: "deserialize_power_levels R (content pl) v = Some old"
      and new: "deserialize_power_levels R (content ev) v = Some new"
      and users: "\<And>u. u \<in> set (levels_to_check (pl_users old) (pl_users new)) \<Longrightarrow>
         user_level_ok ev old new level creators u"
      and types: "\<And>ty. ty \<in> set (levels_to_check (pl_events old) (pl_events new)) \<Longrightarrow>
         event_level_ok old new level ty"
      and notifications: "notifications_ok v old new level"
      and names: "\<And>name. name \<in> set level_names \<Longrightarrow> named_level_ok R old new level name"
    have "limit_notifications_power_levels v \<and> pl_notifications_room old \<noteq> pl_notifications_room new \<longrightarrow>
          pl_notifications_room old \<le> level \<and> pl_notifications_room new \<le> level"
      using notifications by (auto simp: notifications_ok_def Let_def)
    moreover have "a \<le> level \<and> b \<le> level"
      if "name \<in> {''users_default'', ''events_default'', ''state_default'', ''ban'', ''redact'', ''kick'', ''invite''}"
        "pl_to_value R old name = Some a" "pl_to_value R new name = Some b" for name a b
      using names [of name] that by (auto simp: level_names_def named_level_ok_def get_deserialize_levels_def)
    moreover have "\<forall>u. map_of (pl_users old) u \<noteq> map_of (pl_users new) u \<longrightarrow>
        map_of (pl_users old) u \<le> Some level \<and> map_of (pl_users new) u \<le> Some level
        \<and> (u \<noteq> sender ev \<longrightarrow> map_of (pl_users old) u < Some level)"
      using user_level_okD [OF users [OF levels_to_check_changed]] by simp
    moreover have "\<forall>ty. map_of (pl_events old) ty \<noteq> map_of (pl_events new) ty \<longrightarrow>
        map_of (pl_events old) ty \<le> Some level \<and> map_of (pl_events new) ty \<le> Some level"
      using event_level_okD [OF types [OF levels_to_check_changed]] by simp
    ultimately show ?thesis using level(1,2) old new by blast
  qed
qed


section \<open>Membership\<close>

lemma valid_membership_change_True:
  assumes "valid_membership_change R v target tev sndr sev ev tpi ple jr ua uam cr = Inr True"
  obtains tm m where
    "de_get_membership R (content ev) = Some tm"
    "mc_sender m = sndr" "mc_target m = target"
    "membership_of R sev = Inr (mc_sender_membership m)"
    "membership_of R tev = Inr (mc_target_current m)"
    "(case ple of Some e \<Rightarrow> from_json (de_power_levels R (content e)) | None \<Rightarrow> Inr (pl_default R))
       = Inr (mc_power_levels m)"
    "de_get_third_party_invite R (content ev) = Some (mc_third_party_invite m)"
    "(case jr of Some e \<Rightarrow> from_json (de_join_rules R (content e)) | None \<Rightarrow> Inr RuleInvite)
       = Inr (mc_join_rules m)"
    "\<exists>cc. de_create_fields R (content cr) = Some cc \<and>
      join_auth_is_valid R v (creators_of v cc cr) cr ple ua uam = Inr (mc_join_auth_valid m) \<and>
      is_creator R v (creators_of v cc cr) cr target (ple \<noteq> None) = Inr (mc_target_creator m) \<and>
      mc_sender_power m =
        power_of v (mc_power_levels m) (creators_of v cc cr) sndr (mc_sender_membership m = Join) \<and>
      mc_target_power m = power_of v (mc_power_levels m) (creators_of v cc cr) target (tm = Join) \<and>
      is_creator R v (creators_of v cc cr) cr sndr (ple \<noteq> None) = Inr (mc_sender_creator m)"
    "membership_transition R v tm m ev tpi cr"
  using assms
  unfolding valid_membership_change_def Let_def result_simps
  by (elim exE conjE) (rule that, auto)

lemma can_kick_power:
  assumes "can_kick m" "mc_target_current m \<notin> {Ban, Leave}" "\<not> mc_sender_creator m"
  shows "\<exists>p. mc_sender_power m = Some p \<and> pl_kick (mc_power_levels m) \<le> p
    \<and> mc_target_power m < Some p"
  using assms
  by (auto simp: can_kick_def has_level_def split: option.splits if_splits)

lemma change_to_ban_power:
  assumes "change_to_ban m" "\<not> mc_sender_creator m"
  shows "\<exists>p. mc_sender_power m = Some p \<and> pl_ban (mc_power_levels m) \<le> p
    \<and> mc_target_power m < Some p"
  using assms by (auto simp: change_to_ban_def has_level_def split: option.splits if_splits)

text \<open>
  The rules for memberships, stated without the code.  The creators of a room: in the newest versions the
  sender of the create event and those it names; in the others only as long as there are no power levels,
  the sender or the creator named in the content.
\<close>

definition creates_room ::
    "ruma \<Rightarrow> RoomVersion \<Rightarrow> Pdu \<Rightarrow> RoomCreateContentFields \<Rightarrow> bool \<Rightarrow> UserId \<Rightarrow> bool" where
  "creates_room R v cr cc have_pls u \<longleftrightarrow>
     (if explicitly_privilege_room_creators v
      then u = sender cr \<or> (\<exists>cs. additional_creators cc = Some cs \<and> Some u \<in> set cs)
      else \<not> have_pls
        \<and> (if use_room_create_sender v then u = sender cr else de_create_content R (content cr) = Some (Some u)))"

definition listed_level :: "RoomPowerLevelsEventContent \<Rightarrow> UserId \<Rightarrow> js_int" where
  "listed_level pls u = (case map_of (pl_users pls) u of Some l \<Rightarrow> l | None \<Rightarrow> pl_users_default pls)"

text \<open>The user named by a restricted join is joined and could invite.\<close>

definition may_authorise_join ::
    "ruma \<Rightarrow> RoomVersion \<Rightarrow> (EventType \<Rightarrow> StateKey \<Rightarrow> Pdu option) \<Rightarrow> Pdu \<Rightarrow> RoomCreateContentFields \<Rightarrow> UserId
     \<Rightarrow> bool" where
  "may_authorise_join R v fetch_state cr cc a \<longleftrightarrow>
     (\<exists>mem. fetch_state RoomMember a = Some mem \<and> de_get_membership R (content mem) = Some Join)
     \<and> (creates_room R v cr cc (fetch_state RoomPowerLevels [] \<noteq> None) a
        \<or> (case fetch_state RoomPowerLevels [] of
             None \<Rightarrow> True
           | Some pl \<Rightarrow> \<exists>invite c. deserialize_power_levels_content_invite R (content pl) v = Inr invite
               \<and> deserialize_power_levels_content_fields R (content pl) v = Inr c
               \<and> invite \<le> (case get_user_power c a of Some l \<Rightarrow> l | None \<Rightarrow> plf_users_default c)))"

definition join_rule_fits :: "RoomVersion \<Rightarrow> JoinRule \<Rightarrow> MembershipState \<Rightarrow> bool \<Rightarrow> bool" where
  "join_rule_fits v rule cur authorised \<longleftrightarrow>
     rule = RulePublic
     \<or> cur \<in> {Join, Invite} \<and> (rule \<in> {RuleInvite, RuleRestricted} \<or> rule = RuleKnock \<and> allow_knocking v
          \<or> rule = RuleKnockRestricted \<and> knock_restricted_join_rule v)
     \<or> authorised \<and> (rule = RuleRestricted \<or> rule = RuleKnockRestricted \<and> knock_restricted_join_rule v)"

text \<open>
  What a membership event from \<open>s\<close> about \<open>u\<close> needs, by the new membership; \<open>cur\<close> and \<open>sm\<close> are the memberships
  of \<open>u\<close> and \<open>s\<close> before it, \<open>creates\<close> tells the creators, \<open>authorised\<close> that a restricted join is
  authorised and \<open>third_party\<close> whether it carries a third-party invite and this is verified.
\<close>

definition membership_permitted ::
    "RoomVersion \<Rightarrow> RoomPowerLevelsEventContent \<Rightarrow> JoinRule \<Rightarrow> (UserId \<Rightarrow> bool) \<Rightarrow> bool \<Rightarrow> bool \<Rightarrow> bool option
     \<Rightarrow> UserId \<Rightarrow> UserId \<Rightarrow> MembershipState \<Rightarrow> MembershipState \<Rightarrow> MembershipState \<Rightarrow> bool" where
  "membership_permitted v pls rule creates after_create authorised third_party s u tm cur sm =
     (case tm of
        Join \<Rightarrow> after_create \<and> creates s \<and> creates u
          \<or> s = u \<and> cur \<noteq> Ban \<and> join_rule_fits v rule cur authorised
      | Invite \<Rightarrow>
          (case third_party of
             Some verified \<Rightarrow> cur \<noteq> Ban \<and> verified
           | None \<Rightarrow> sm = Join \<and> cur \<notin> {Join, Ban} \<and> (creates s \<or> pl_invite pls \<le> listed_level pls s))
      | Leave \<Rightarrow>
          (if s = u then cur \<in> {Join, Invite, Knock}
           else sm = Join \<and> (cur = Ban \<longrightarrow> creates s \<or> pl_ban pls \<le> listed_level pls s)
             \<and> (cur \<notin> {Ban, Leave} \<longrightarrow> creates s \<or> pl_kick pls \<le> listed_level pls s))
      | Ban \<Rightarrow> sm = Join \<and> (creates s \<or> pl_ban pls \<le> listed_level pls s)
      | Knock \<Rightarrow> s = u \<and> allow_knocking v \<and> cur \<notin> {Ban, Invite, Join}
          \<and> (rule = RuleKnock \<or> rule = RuleKnockRestricted \<and> knock_restricted_join_rule v)
      | CustomMembership _ \<Rightarrow> False)"

lemma mem_map_filter_id: "x \<in> set (List.map_filter (\<lambda>x. x) xs) \<longleftrightarrow> Some x \<in> set xs"
  by (induction xs) (auto simp: List.map_filter_simps split: option.splits)

lemma is_creator_creates:
  assumes "is_creator R v (creators_of v cc cr) cr u have_pls = Inr b"
  shows "b \<longleftrightarrow> creates_room R v cr cc have_pls u"
  using assms
  by (auto simp: is_creator_def creators_of_def creates_room_def mem_map_filter_id id_def
      split: if_splits option.splits)

lemma join_auth_valid_authorised:
  assumes "join_auth_is_valid R v (creators_of v cc cr) cr (fetch_state RoomPowerLevels []) ua
      (case Option.bind (Option.bind ua (fetch_state RoomMember)) (\<lambda>mem. de_get_membership R (content mem)) of
         None \<Rightarrow> Leave | Some m \<Rightarrow> m) = Inr True"
  shows "\<exists>a. ua = Some a \<and> may_authorise_join R v fetch_state cr cc a"
proof -
  obtain a where a: "ua = Some a" using assms by (auto simp: join_auth_is_valid_def split: option.splits)
  obtain p i c where pic: "(case fetch_state RoomPowerLevels [] of
        Some pl \<Rightarrow> rbind (deserialize_power_levels_content_invite R (content pl) v) (\<lambda>invite.
           rbind (deserialize_power_levels_content_fields R (content pl) v) (\<lambda>c.
           Inr (case get_user_power c a of Some l \<Rightarrow> l | None \<Rightarrow> plf_users_default c, invite)))
      | None \<Rightarrow> Inr (0, 0)) = Inr (p, i)"
      "is_creator R v (creators_of v cc cr) cr a (fetch_state RoomPowerLevels [] \<noteq> None) = Inr c"
      "c \<or> i \<le> p" "(case Option.bind (fetch_state RoomMember a) (\<lambda>mem. de_get_membership R (content mem)) of
         None \<Rightarrow> Leave | Some m \<Rightarrow> m) = Join"
    using assms a by (auto simp: join_auth_is_valid_def result_simps)
  have "\<exists>mem. fetch_state RoomMember a = Some mem \<and> de_get_membership R (content mem) = Some Join"
    using pic(4) by (auto split: option.splits bind_splits)
  with pic(1,3) is_creator_creates [OF pic(2)] a show ?thesis
    by (auto simp: may_authorise_join_def result_simps split: option.splits)
qed

lemma auth_check_member_True:
  assumes "auth_check_member R v ev tpi fetch_state cr ple sm = Inr True"
  obtains u c where "state_key ev = Some u" "is_user_id R u"
    "de_member_fields R (content ev) = Some c" "Option.bind (membership_field c) id \<noteq> None"
    "\<exists>ua. ua = Option.bind (join_authorised_via_users_server c) id \<and>
       valid_membership_change R v u (fetch_state RoomMember u) (sender ev) sm ev tpi ple
         (fetch_state RoomJoinRules []) ua
         (case Option.bind (Option.bind ua (fetch_state RoomMember)) (\<lambda>mem. de_get_membership R (content mem)) of
            None \<Rightarrow> Leave | Some m \<Rightarrow> m) cr = Inr True"
  using assms
  by (auto simp: auth_check_member_def Let_def result_simps split: option.splits if_splits)

text \<open>An accepted membership event, with the variables of its membership change.\<close>

lemma auth_check_member_change:
  assumes "auth_check R v ev tpi fetch_state cr = Inr True" "kind ev = RoomMember"
  obtains u tm m cc where
    "state_key ev = Some u" "is_user_id R u" "mc_sender m = sender ev" "mc_target m = u"
    "de_get_membership R (content ev) = Some tm"
    "membership_of R (fetch_state RoomMember (sender ev)) = Inr (mc_sender_membership m)"
    "membership_of R (fetch_state RoomMember u) = Inr (mc_target_current m)"
    "membership_transition R v tm m ev tpi cr"
    "(case fetch_state RoomPowerLevels [] of Some e \<Rightarrow> from_json (de_power_levels R (content e))
      | None \<Rightarrow> Inr (pl_default R)) = Inr (mc_power_levels m)"
    "de_create_fields R (content cr) = Some cc"
    "mc_sender_power m = power_of v (mc_power_levels m) (creators_of v cc cr) (sender ev)
       (mc_sender_membership m = Join)"
    "mc_target_power m = power_of v (mc_power_levels m) (creators_of v cc cr) u (tm = Join)"
    "is_creator R v (creators_of v cc cr) cr (sender ev) (fetch_state RoomPowerLevels [] \<noteq> None)
       = Inr (mc_sender_creator m)"
    "is_creator R v (creators_of v cc cr) cr u (fetch_state RoomPowerLevels [] \<noteq> None)
       = Inr (mc_target_creator m)"
    "de_get_third_party_invite R (content ev) = Some (mc_third_party_invite m)"
    "(case fetch_state RoomJoinRules [] of Some e \<Rightarrow> from_json (de_join_rules R (content e))
      | None \<Rightarrow> Inr RuleInvite) = Inr (mc_join_rules m)"
    "mc_join_auth_valid m \<longrightarrow> (\<exists>c a. de_member_fields R (content ev) = Some c
       \<and> join_authorised_via_users_server c = Some (Some a) \<and> may_authorise_join R v fetch_state cr cc a)"
proof (rule auth_check_cases [OF assms(1)])
  note that' = that
  fix cc rid
  assume "special_case_aliases_auth v \<and> kind ev = RoomAliases
       \<and> state_key ev = Some (user_server_name R (sender ev))
     \<or> kind ev = RoomMember \<and>
         auth_check_member R v ev tpi fetch_state cr (fetch_state RoomPowerLevels [])
           (fetch_state RoomMember (sender ev)) = Inr True
     \<or> kind ev \<noteq> RoomMember \<and> \<not> (special_case_aliases_auth v \<and> kind ev = RoomAliases) \<and>
       auth_check_sender_joined R (fetch_state RoomMember (sender ev)) rid = Inr True \<and>
       (\<exists>level. sender_power_level R v (sender ev) (fetch_state RoomPowerLevels []) cr cc = Inr level
          \<and> auth_check_power R v ev (fetch_state RoomPowerLevels []) level cr cc = Inr True)"
  with assms(2) have "auth_check_member R v ev tpi fetch_state cr (fetch_state RoomPowerLevels [])
           (fetch_state RoomMember (sender ev)) = Inr True" by simp
  then show thesis
  proof (rule auth_check_member_True)
    fix u and c :: RoomMemberContentFields
    let ?ua = "Option.bind (join_authorised_via_users_server c) id"
    let ?uam = "case Option.bind (Option.bind ?ua (fetch_state RoomMember)) (\<lambda>mem. de_get_membership R (content mem)) of
            None \<Rightarrow> Leave | Some m \<Rightarrow> m"
    assume ev: "state_key ev = Some u" "is_user_id R u" "de_member_fields R (content ev) = Some c"
      and "\<exists>ua. ua = Option.bind (join_authorised_via_users_server c) id \<and>
       valid_membership_change R v u (fetch_state RoomMember u) (sender ev) (fetch_state RoomMember (sender ev)) ev
         tpi (fetch_state RoomPowerLevels []) (fetch_state RoomJoinRules []) ua
         (case Option.bind (Option.bind ua (fetch_state RoomMember)) (\<lambda>mem. de_get_membership R (content mem)) of
            None \<Rightarrow> Leave | Some m \<Rightarrow> m) cr = Inr True"
    then have change: "valid_membership_change R v u (fetch_state RoomMember u) (sender ev)
        (fetch_state RoomMember (sender ev)) ev tpi (fetch_state RoomPowerLevels []) (fetch_state RoomJoinRules [])
        ?ua ?uam cr = Inr True" by simp
    have auth: "\<exists>c a. de_member_fields R (content ev) = Some c
       \<and> join_authorised_via_users_server c = Some (Some a) \<and> may_authorise_join R v fetch_state cr cc a"
      if "join_auth_is_valid R v (creators_of v cc cr) cr (fetch_state RoomPowerLevels []) ?ua ?uam = Inr True" for cc
      using join_auth_valid_authorised [OF that] ev(3) by (auto split: bind_splits)
    from change show thesis
    proof (rule valid_membership_change_True, elim exE conjE)
      fix tm cc and m :: MembershipChange
      assume valid: "join_auth_is_valid R v (creators_of v cc cr) cr (fetch_state RoomPowerLevels []) ?ua ?uam
        = Inr (mc_join_auth_valid m)"
      have "mc_join_auth_valid m \<longrightarrow> (\<exists>c a. de_member_fields R (content ev) = Some c
         \<and> join_authorised_via_users_server c = Some (Some a) \<and> may_authorise_join R v fetch_state cr cc a)"
        using auth [of cc] valid by auto
      then show thesis if "mc_sender m = sender ev" "mc_target m = u" "de_get_membership R (content ev) = Some tm"
          "membership_of R (fetch_state RoomMember (sender ev)) = Inr (mc_sender_membership m)"
          "membership_of R (fetch_state RoomMember u) = Inr (mc_target_current m)"
          "(case fetch_state RoomPowerLevels [] of Some e \<Rightarrow> from_json (de_power_levels R (content e))
            | None \<Rightarrow> Inr (pl_default R)) = Inr (mc_power_levels m)"
          "de_get_third_party_invite R (content ev) = Some (mc_third_party_invite m)"
          "(case fetch_state RoomJoinRules [] of Some e \<Rightarrow> from_json (de_join_rules R (content e))
            | None \<Rightarrow> Inr RuleInvite) = Inr (mc_join_rules m)"
          "membership_transition R v tm m ev tpi cr" "de_create_fields R (content cr) = Some cc"
          "is_creator R v (creators_of v cc cr) cr u (fetch_state RoomPowerLevels [] \<noteq> None) = Inr (mc_target_creator m)"
          "mc_sender_power m = power_of v (mc_power_levels m) (creators_of v cc cr) (sender ev) (mc_sender_membership m = Join)"
          "mc_target_power m = power_of v (mc_power_levels m) (creators_of v cc cr) u (tm = Join)"
          "is_creator R v (creators_of v cc cr) cr (sender ev) (fetch_state RoomPowerLevels [] \<noteq> None) = Inr (mc_sender_creator m)"
        by (rule that' [OF ev(1,2) that(1-5,9,6,10,12,13,14,11,7,8)])
    qed
  qed
qed (simp add: assms)

lemma permitted_level:
  assumes "has_level m l" "mc_sender_power m = power_of v pls (creators_of v cc cr) s True"
    "\<not> creates_room R v cr cc have_pls s"
  shows "l \<le> listed_level pls s"
proof -
  have "s \<in> set (creators_of v cc cr) \<longleftrightarrow> s = sender cr \<or> (\<exists>cs. additional_creators cc = Some cs \<and> Some s \<in> set cs)"
    if "explicitly_privilege_room_creators v"
    using that by (cases "additional_creators cc") (auto simp: creators_of_def mem_map_filter_id id_def)
  then have "\<not> (explicitly_privilege_room_creators v \<and> s \<in> set (creators_of v cc cr))"
    using assms(3) unfolding creates_room_def by metis
  then have "power_of v pls (creators_of v cc cr) s True = Some (listed_level pls s)"
    by (cases "map_of (pl_users pls) s") (auto simp: power_of_def listed_level_def)
  then show ?thesis using assms(1,2) by (simp add: has_level_def)
qed

lemma membership_transition_permitted:
  assumes tr: "membership_transition R v tm m ev tpi cr"
    and sp: "mc_sender_power m = power_of v (mc_power_levels m) (creators_of v cc cr) (mc_sender m)
       (mc_sender_membership m = Join)"
    and creators: "mc_sender_creator m \<longleftrightarrow> creates (mc_sender m)" "mc_target_creator m \<longleftrightarrow> creates (mc_target m)"
    and creates: "creates = creates_room R v cr cc have_pls"
    and auth: "mc_join_auth_valid m \<longrightarrow> authorised"
    and same: "mc_sender m = mc_target m \<Longrightarrow> mc_target_current m = mc_sender_membership m"
  shows "membership_permitted v (mc_power_levels m) (mc_join_rules m) creates (prev_events ev = [event_id cr])
    authorised (map_option (\<lambda>tp. verify_third_party_invite R (Some (mc_target m)) (mc_sender m) tp tpi)
      (Option.bind (mc_third_party_invite m) id))
    (mc_sender m) (mc_target m) tm (mc_target_current m) (mc_sender_membership m)"
proof -
  have level: "l \<le> listed_level (mc_power_levels m) (mc_sender m)"
    if "has_level m l" "mc_sender_membership m = Join" "\<not> creates (mc_sender m)" for l
    using permitted_level [OF that(1)] sp that(2,3) creates by simp
  show ?thesis
  proof (cases tm)
    case Join
    with tr auth creators show ?thesis
      by (auto simp: membership_transition_def membership_permitted_def change_to_join_def initial_join_def
          join_rule_allows_def join_rule_fits_def membership_allows_join_def
          split: if_splits list.splits JoinRule.splits)
  next
    case Invite
    with tr level creators show ?thesis
      by (auto simp: membership_transition_def membership_permitted_def change_to_invite_def
          split: if_splits option.splits)
  next
    case Leave
    with tr level creators show ?thesis
      by (auto simp: membership_transition_def membership_permitted_def change_to_leave_def can_unban_def can_kick_def
          split: if_splits)
  next
    case Ban
    with tr level creators show ?thesis
      by (auto simp: membership_transition_def membership_permitted_def change_to_ban_def split: if_splits)
  next
    case Knock
    with tr same show ?thesis
      by (auto simp: membership_transition_def membership_permitted_def change_to_knock_def split: if_splits)
  qed (use tr in \<open>simp add: membership_transition_def\<close>)
qed

text \<open>
  C29: An accepted membership event is permitted by the membership rules. A user joins for itself, from
  outside a ban, when the join rule lets it: public, or already invited or joined, or a restricted join
  authorised by a joined user that could invite; the one exception is the first join after the create
  event, of and by creators of the room. Invites come from joined senders who are creators or have the invite
  level, for users that are neither joined nor banned, or carry a verified third-party invite. Bans, kicks and
  unbans come from joined creators or senders with the level for it, a user leaves from a join, an
  invite or a knock, and knocks for itself where the version and the join rule allow it.
\<close>

theorem membership_rules:
  assumes "auth_check R v ev tpi fetch_state cr = Inr True" "kind ev = RoomMember"
  shows "\<exists>u tm cur sm cc pls rule third_party authorised. state_key ev = Some u \<and> is_user_id R u
    \<and> de_get_membership R (content ev) = Some tm
    \<and> membership_of R (fetch_state RoomMember u) = Inr cur
    \<and> membership_of R (fetch_state RoomMember (sender ev)) = Inr sm
    \<and> de_create_fields R (content cr) = Some cc
    \<and> (case fetch_state RoomPowerLevels [] of Some e \<Rightarrow> de_power_levels R (content e) = Some pls
       | None \<Rightarrow> pls = pl_default R)
    \<and> (case fetch_state RoomJoinRules [] of Some e \<Rightarrow> de_join_rules R (content e) = Some rule
       | None \<Rightarrow> rule = RuleInvite)
    \<and> de_get_third_party_invite R (content ev) = Some third_party
    \<and> (authorised \<longrightarrow> (\<exists>c a. de_member_fields R (content ev) = Some c
         \<and> join_authorised_via_users_server c = Some (Some a) \<and> may_authorise_join R v fetch_state cr cc a))
    \<and> membership_permitted v pls rule (creates_room R v cr cc (fetch_state RoomPowerLevels [] \<noteq> None))
        (prev_events ev = [event_id cr]) authorised
        (map_option (\<lambda>tp. verify_third_party_invite R (Some u) (sender ev) tp tpi) (Option.bind third_party id))
        (sender ev) u tm cur sm"
proof (rule auth_check_member_change [OF assms])
  fix u tm m cc
  assume m: "state_key ev = Some u" "is_user_id R u" "mc_sender m = sender ev" "mc_target m = u"
    "de_get_membership R (content ev) = Some tm"
    "membership_of R (fetch_state RoomMember (sender ev)) = Inr (mc_sender_membership m)"
    "membership_of R (fetch_state RoomMember u) = Inr (mc_target_current m)"
    and tr: "membership_transition R v tm m ev tpi cr"
    and pls: "(case fetch_state RoomPowerLevels [] of
        Some e \<Rightarrow> from_json (de_power_levels R (content e)) | None \<Rightarrow> Inr (pl_default R)) = Inr (mc_power_levels m)"
    and cc: "de_create_fields R (content cr) = Some cc"
    and sp: "mc_sender_power m = power_of v (mc_power_levels m) (creators_of v cc cr) (sender ev)
       (mc_sender_membership m = Join)"
    and cre: "is_creator R v (creators_of v cc cr) cr (sender ev)
        (fetch_state RoomPowerLevels [] \<noteq> None) = Inr (mc_sender_creator m)"
      "is_creator R v (creators_of v cc cr) cr u (fetch_state RoomPowerLevels [] \<noteq> None) = Inr (mc_target_creator m)"
    and tp: "de_get_third_party_invite R (content ev) = Some (mc_third_party_invite m)"
    and jr: "(case fetch_state RoomJoinRules [] of Some e \<Rightarrow> from_json (de_join_rules R (content e))
      | None \<Rightarrow> Inr RuleInvite) = Inr (mc_join_rules m)"
    and auth: "mc_join_auth_valid m \<longrightarrow> (\<exists>c a. de_member_fields R (content ev) = Some c
       \<and> join_authorised_via_users_server c = Some (Some a) \<and> may_authorise_join R v fetch_state cr cc a)"
  let ?creates = "creates_room R v cr cc (fetch_state RoomPowerLevels [] \<noteq> None)"
  have "mc_sender_creator m \<longleftrightarrow> ?creates (mc_sender m)" "mc_target_creator m \<longleftrightarrow> ?creates (mc_target m)"
    using is_creator_creates [OF cre(1)] is_creator_creates [OF cre(2)] m(3,4) by simp_all
  moreover have "mc_sender m = mc_target m \<Longrightarrow> mc_target_current m = mc_sender_membership m"
    using m(3,4,6,7) by simp
  ultimately have "membership_permitted v (mc_power_levels m) (mc_join_rules m) ?creates (prev_events ev = [event_id cr])
    (mc_join_auth_valid m) (map_option (\<lambda>tp. verify_third_party_invite R (Some u) (sender ev) tp tpi)
      (Option.bind (mc_third_party_invite m) id)) (sender ev) u tm (mc_target_current m) (mc_sender_membership m)"
    using membership_transition_permitted [OF tr sp [folded m(3)], of ?creates _ "mc_join_auth_valid m"]
    unfolding m(3,4) by blast
  moreover have "case fetch_state RoomPowerLevels [] of Some e \<Rightarrow> de_power_levels R (content e) = Some (mc_power_levels m)
       | None \<Rightarrow> mc_power_levels m = pl_default R"
    using pls by (auto simp: result_simps split: option.splits)
  moreover have "case fetch_state RoomJoinRules [] of Some e \<Rightarrow> de_join_rules R (content e) = Some (mc_join_rules m)
       | None \<Rightarrow> mc_join_rules m = RuleInvite"
    using jr by (auto simp: result_simps split: option.splits)
  ultimately show ?thesis using m(1,2,5,6,7) cc tp auth by blast
qed

text \<open>Power over others: the rooms where creators have no special rank and power levels are set.\<close>

text \<open>
  C30: Where creators have no rank of their own and power levels are set, a ban or a kick is
  accepted only from a sender whose level reaches the ban or kick level and is above the level the
  target is listed with.
\<close>

theorem removal_needs_power:
  assumes "auth_check R v ev tpi fetch_state cr = Inr True" "kind ev = RoomMember"
    "fetch_state RoomPowerLevels [] = Some pl" "\<not> explicitly_privilege_room_creators v"
    "state_key ev = Some u" "membership_of R (fetch_state RoomMember u) = Inr cur"
    "de_get_membership R (content ev) = Some Ban
     \<or> de_get_membership R (content ev) = Some Leave \<and> sender ev \<noteq> u \<and> cur \<notin> {Ban, Leave}"
  shows "\<exists>pls p. de_power_levels R (content pl) = Some pls
    \<and> p = (case map_of (pl_users pls) (sender ev) of Some l \<Rightarrow> l | None \<Rightarrow> pl_users_default pls)
    \<and> (if de_get_membership R (content ev) = Some Ban then pl_ban pls else pl_kick pls) \<le> p
    \<and> map_of (pl_users pls) u < Some p"
proof (rule auth_check_member_change [OF assms(1,2)])
  fix u' tm m cc
  assume m: "state_key ev = Some u'" "mc_sender m = sender ev" "mc_target m = u'"
    "de_get_membership R (content ev) = Some tm"
    "membership_of R (fetch_state RoomMember u') = Inr (mc_target_current m)"
    and tr: "membership_transition R v tm m ev tpi cr"
    and pls: "(case fetch_state RoomPowerLevels [] of
        Some e \<Rightarrow> from_json (de_power_levels R (content e)) | None \<Rightarrow> Inr (pl_default R))
      = Inr (mc_power_levels m)"
    and sp: "mc_sender_power m = power_of v (mc_power_levels m) (creators_of v cc cr) (sender ev)
       (mc_sender_membership m = Join)"
    and tp: "mc_target_power m = power_of v (mc_power_levels m) (creators_of v cc cr) u' (tm = Join)"
    and cre: "is_creator R v (creators_of v cc cr) cr (sender ev)
        (fetch_state RoomPowerLevels [] \<noteq> None) = Inr (mc_sender_creator m)"
  have joined: "mc_sender_membership m = Join" and ban: "tm = Ban \<Longrightarrow> change_to_ban m"
    and kick: "tm = Leave \<Longrightarrow> can_kick m"
    using tr m assms(5,7) by (auto simp: membership_transition_def change_to_ban_def
        change_to_leave_def split: if_splits)
  have "\<not> mc_sender_creator m" using cre assms(3,4) by (simp add: is_creator_def)
  then have "\<exists>p. mc_sender_power m = Some p \<and> mc_target_power m < Some p \<and>
      (if tm = Ban then pl_ban (mc_power_levels m) else pl_kick (mc_power_levels m)) \<le> p"
    using change_to_ban_power [OF ban] can_kick_power [OF kick] assms(5-7) m by auto
  then show ?thesis
    using sp tp joined pls assms(3-7) m
    by (intro exI [of _ "mc_power_levels m"])
      (auto simp: power_of_def result_simps split: option.splits if_splits)
qed

section \<open>The state an event is checked against\<close>

lemma set_push_unique [simp]: "set (push_unique k ks) = insert k (set ks)"
  by (auto simp: push_unique_def)

lemma distinct_push_unique [simp]: "distinct (push_unique k ks) \<longleftrightarrow> distinct ks"
  by (auto simp: push_unique_def)

lemma distinct_member_auth_types [simp]: "distinct (member_auth_types c k ks) \<longleftrightarrow> distinct ks"
  by (auto simp: member_auth_types_def Let_def split: option.splits)

lemma member_auth_types_mono: "set ks \<subseteq> set (member_auth_types c k ks)"
  by (auto simp: member_auth_types_def Let_def split: option.splits)

lemma auth_types_complete:
  assumes "auth_types_for_event R ty sndr key c v = Inr ts" "ty \<noteq> RoomCreate"
  shows "distinct ts \<and> (RoomPowerLevels, []) \<in> set ts \<and> (RoomMember, sndr) \<in> set ts
    \<and> ((RoomCreate, []) \<in> set ts \<longleftrightarrow> \<not> room_ids_as_hashes v)"
proof -
  have no_create: "(RoomCreate, []) \<in> set (member_auth_types f k ks) \<longleftrightarrow> (RoomCreate, []) \<in> set ks"
    for f k ks
    by (auto simp: member_auth_types_def Let_def split: option.splits)
  show ?thesis
    using assms member_auth_types_mono
    by (auto simp: auth_types_for_event_def Let_def result_simps no_create subset_iff
        split: if_splits option.splits)
qed

text \<open>The two views of a membership content, that of \<open>auth_check\<close> and that of \<open>auth_types_for_event\<close>,
  read the same JSON fields.\<close>

definition member_views_agree :: "ruma \<Rightarrow> RawJson \<Rightarrow> bool" where
  "member_views_agree R c \<longleftrightarrow>
     de_member_fields R c =
       map_option (\<lambda>f. \<lparr>membership_field = membership_field f,
           join_authorised_via_users_server = join_authorised_via_users_server f\<rparr>)
         (de_member_auth_fields R c)"

lemma auth_check_member_frame:
  assumes "auth_types_for_event R RoomMember (sender ev) (state_key ev) (content ev) v = Inr ts"
    and "\<And>t k. (t, k) \<in> set ts \<Longrightarrow> f t k = g t k"
    and "member_views_agree R (content ev)"
    and "\<And>c. de_member_fields R (content ev) = Some c \<Longrightarrow>
           membership_field c \<in> {Some (Some Join), Some (Some Invite), Some (Some Knock)}"
  shows "auth_check_member R v ev tpi f cr ple sm = auth_check_member R v ev tpi g cr ple sm"
proof (cases "state_key ev")
  case (Some u)
  with assms(1) obtain c where c: "de_member_auth_fields R (content ev) = Some c"
    by (auto simp: auth_types_for_event_def result_simps)
  let ?c = "\<lparr>membership_field = membership_field c,
    join_authorised_via_users_server = join_authorised_via_users_server c\<rparr>"
  have fields: "de_member_fields R (content ev) = Some ?c"
    using assms(3) c by (simp add: member_views_agree_def)
  with assms(4) obtain m where m: "membership_field c = Some (Some m)" "m \<in> {Join, Invite, Knock}"
    by fastforce
  have "{(RoomJoinRules, []), (RoomMember, u)}
      \<union> (\<lambda>w. (RoomMember, w)) ` set_option (Option.bind (join_authorised_via_users_server c) id)
      \<subseteq> set ts"
    using assms(1) Some c m
    by (auto simp: auth_types_for_event_def member_auth_types_def Let_def split: option.splits)
  then have "f RoomJoinRules [] = g RoomJoinRules []" "f RoomMember u = g RoomMember u"
    "Option.bind (Option.bind (join_authorised_via_users_server c) id) (f RoomMember)
       = Option.bind (Option.bind (join_authorised_via_users_server c) id) (g RoomMember)"
    using assms(2) by (auto intro!: bind_option_cong)
  then show ?thesis
    using Some fields by (simp add: auth_check_member_def Let_def del: bind_assoc)
qed (simp add: auth_check_member_def)

text \<open>
  C32: \<open>auth_types_for_event\<close> is complete: two states that agree on the auth types of an event give
  the same verdict on it.  For membership events this holds of joins, invites and knocks; the check of
  a leave or a ban also reads the join rules, which are not among its auth types.
\<close>

theorem auth_check_reads_auth_types:
  assumes "auth_types_for_event R (kind ev) (sender ev) (state_key ev) (content ev) v = Inr ts"
    and "\<forall>(t, k) \<in> set ts. f t k = g t k"
    and "member_views_agree R (content ev)"
    and "\<forall>c. kind ev = RoomMember \<and> de_member_fields R (content ev) = Some c \<longrightarrow>
           membership_field c \<in> {Some (Some Join), Some (Some Invite), Some (Some Knock)}"
  shows "auth_check R v ev tpi f cr = auth_check R v ev tpi g cr"
proof (cases "kind ev = RoomCreate")
  case False
  have eq: "f RoomPowerLevels [] = g RoomPowerLevels []"
      "f RoomMember (sender ev) = g RoomMember (sender ev)"
    using auth_types_complete [OF assms(1) False] assms(2) by auto
  have "auth_check_member R v ev tpi f cr ple sm = auth_check_member R v ev tpi g cr ple sm"
    if "kind ev = RoomMember" for ple sm
    using assms that by (intro auth_check_member_frame) auto
  then show ?thesis using eq by (simp add: auth_check_def Let_def cong: if_cong)
qed (simp add: auth_check_def)

section \<open>A room as a state machine\<close>

text \<open>
  A room grows by state events that pass \<open>auth_check\<close> against its current state; \<open>cr\<close> is its create
  event.  \<open>room_step\<close> is one such event, \<open>room_reachable\<close> the states of the room.
\<close>

type_synonym room_state = "EventType \<Rightarrow> StateKey \<Rightarrow> Pdu option"

definition put_state :: "room_state \<Rightarrow> Pdu \<Rightarrow> StateKey \<Rightarrow> room_state" where
  "put_state st ev k = st (kind ev := (st (kind ev)) (k := Some ev))"

definition create_state :: "Pdu \<Rightarrow> room_state" where
  "create_state cr = (\<lambda>t k. if t = RoomCreate \<and> k = [] then Some cr else None)"

inductive room_step :: "ruma \<Rightarrow> RoomVersion \<Rightarrow> Pdu \<Rightarrow> room_state \<Rightarrow> Pdu \<Rightarrow> room_state \<Rightarrow> bool"
  for R v cr where
  accept: "kind ev \<noteq> RoomCreate \<Longrightarrow> state_key ev = Some k \<Longrightarrow>
     auth_check R v ev tpi st cr = Inr True \<Longrightarrow> room_step R v cr st ev (put_state st ev k)"

inductive room_reachable :: "ruma \<Rightarrow> RoomVersion \<Rightarrow> Pdu \<Rightarrow> room_state \<Rightarrow> bool"
  for R v cr where
  created: "room_reachable R v cr (create_state cr)"
| stepped: "room_reachable R v cr st \<Longrightarrow> room_step R v cr st ev st' \<Longrightarrow> room_reachable R v cr st'"

inductive_cases room_stepE: "room_step R v cr st ev st'"

text \<open>Every event of the state stands under its own type and key and, but for the create event, in
  the room of the create event; every membership event there has a membership.\<close>

definition state_inv :: "ruma \<Rightarrow> Pdu \<Rightarrow> room_state \<Rightarrow> bool" where
  "state_inv R cr st \<longleftrightarrow>
     (\<forall>t k e. st t k = Some e \<longrightarrow>
        (if t = RoomCreate then e = cr \<and> k = []
         else kind e = t \<and> state_key e = Some k
           \<and> (\<exists>rid. room_id_or_hash R cr = Inr rid \<and> room_id e = Some rid)
           \<and> (t = RoomMember \<longrightarrow> is_user_id R k \<and> de_get_membership R (content e) \<noteq> None)))"

lemma room_step_inv:
  assumes "room_step R v cr st ev st'" "state_inv R cr st"
  shows "state_inv R cr st'"
proof -
  from assms(1) obtain k tpi where step: "kind ev \<noteq> RoomCreate" "state_key ev = Some k"
      "auth_check R v ev tpi st cr = Inr True" "st' = put_state st ev k"
    by (auto elim: room_stepE)
  have room: "room_id_or_hash R cr = Inr (the (room_id ev)) \<and> room_id ev \<noteq> None"
    by (rule auth_check_cases [OF step(3,1)]) (auto simp: auth_check_room_True)
  have "is_user_id R k \<and> de_get_membership R (content ev) \<noteq> None" if "kind ev = RoomMember"
    by (rule auth_check_member_change [OF step(3) that]) (use step(2) in auto)
  with room show ?thesis
    using assms(2) step by (auto simp: state_inv_def put_state_def split: if_splits)
qed

lemma room_reachable_inv: "room_reachable R v cr st \<Longrightarrow> state_inv R cr st"
  by (induction rule: room_reachable.induct)
    (auto simp: room_step_inv, auto simp: state_inv_def create_state_def split: if_splits)

lemma is_creator_no_panic:
  "use_room_create_sender v \<Longrightarrow> is_creator R v cs cr u h \<noteq> Inl e"
  by (simp add: is_creator_def)

lemma deserialisers_no_panic [simp]:
  "deserialize_power_levels_content_fields R c v \<noteq> Inl Panic"
  "deserialize_power_levels_content_invite R c v \<noteq> Inl Panic"
  "deserialize_power_levels_content_redact R c v \<noteq> Inl Panic"
  "membership_of R mem \<noteq> Inl Panic" "deserialize_all cs \<noteq> Inl Panic"
  by (auto simp: deserialize_power_levels_content_fields_def
      deserialize_legacy_power_levels_content_fields_def
      deserialize_integer_power_levels_content_fields_def
      deserialize_power_levels_content_invite_def deserialize_power_levels_content_redact_def
      membership_of_def result_simps split: option.splits)
    (induction cs, auto simp: result_simps)

lemma valid_membership_change_no_panic:
  assumes "use_room_create_sender v"
  shows "valid_membership_change R v t tev s sev ev tpi ple jr ua uam cr \<noteq> Inl Panic"
  using is_creator_no_panic [OF assms]
  by (auto simp: valid_membership_change_def join_auth_is_valid_def Let_def result_simps
      split: option.splits)

lemma auth_check_power_no_panic: "auth_check_power R v ev ple level cr cc \<noteq> Inl Panic"
  by (auto simp: auth_check_power_def third_party_invite_allowed_def power_levels_allowed_def
      power_levels_creators_def redaction_allowed_def result_simps split: option.splits if_splits)

lemma sender_power_level_no_panic:
  "use_room_create_sender v \<Longrightarrow> sender_power_level R v s ple cr cc \<noteq> Inl Panic"
  by (auto simp: sender_power_level_def result_simps split: option.splits)

text \<open>
  C33: In every reachable state of a room whose version takes the creator from the sender of the
  create event (11 and later), the check of an event with a room id never panics.
\<close>

theorem auth_check_no_panic:
  assumes "room_reachable R v cr st" "use_room_create_sender v"
    "room_id ev \<noteq> None" "room_id_or_hash R cr \<noteq> Inl Panic"
  shows "auth_check R v ev tpi st cr \<noteq> Inl Panic"
proof -
  have in_room: "room_id e \<noteq> None" if "st t k = Some e" "t \<noteq> RoomCreate" for t k e
    using room_reachable_inv [OF assms(1)] that by (fastforce simp: state_inv_def)
  have "auth_check_create R v ev \<noteq> Inl Panic"
    by (auto simp: auth_check_create_def result_simps split: option.splits if_splits)
  moreover have "auth_check_room R v ev (st RoomPowerLevels []) cr cc rid \<noteq> Inl Panic" for cc rid
    using assms(3) in_room [of RoomPowerLevels "[]"]
    by (auto simp: auth_check_room_def Let_def result_simps split: option.splits if_splits)
  moreover have "auth_check_member R v ev tpi st cr ple sm \<noteq> Inl Panic" for ple sm
    using valid_membership_change_no_panic [OF assms(2)]
    by (auto simp: auth_check_member_def Let_def result_simps split: option.splits if_splits)
  moreover have "auth_check_sender_joined R (st RoomMember (sender ev)) rid \<noteq> Inl Panic" for rid
    using in_room [of RoomMember "sender ev"]
    by (auto simp: auth_check_sender_joined_def result_simps split: option.splits if_splits)
  ultimately show ?thesis
    using assms(4) sender_power_level_no_panic [OF assms(2)] auth_check_power_no_panic
    by (auto simp: auth_check_def Let_def result_simps split: if_splits)
qed

text \<open>
  A ban is not stopped by the level its target has by default: a target that is not listed counts as
  below every listed sender, whatever \<open>users_default\<close> is.
\<close>

text \<open>
  A sender listed with the ban level can ban every unlisted target, even when the default level
  of unlisted users is above the sender's own.
\<close>

lemma ban_ignores_users_default:
  assumes "\<not> explicitly_privilege_room_creators v"
    "map_of (pl_users pls) sndr = Some p" "pl_ban pls \<le> p" "map_of (pl_users pls) target = None"
    "mc_sender_membership m = Join" "mc_power_levels m = pls"
    "mc_sender_power m = power_of v pls creators sndr True"
    "mc_target_power m = power_of v pls creators target (Ban = Join)"
  shows "change_to_ban m"
  using assms by (simp add: change_to_ban_def has_level_def power_of_def)

section \<open>A small room\<close>

text \<open>
  A concrete room for the witnesses: contents are short names, which \<open>demo_ruma\<close> decodes.
\<close>

definition demo_membership :: "RawJson \<Rightarrow> MembershipState option" where
  "demo_membership c =
     (if c = ''join'' then Some Join else if c = ''ban'' then Some Ban
      else if c = ''invite'' then Some Invite else if c = ''leave'' then Some Leave else None)"

definition demo_users :: "RawJson \<Rightarrow> (UserId \<times> js_int) list option" where
  "demo_users c =
     (if c = ''pl0'' then Some [(''@a'', 100)]
      else if c = ''pl1'' then Some [(''@a'', 100), (''@b'', 50)] else None)"

definition demo_levels :: "(UserId \<times> js_int) list \<Rightarrow> RoomPowerLevelsEventContent" where
  "demo_levels us = \<lparr> pl_ban = 50, pl_events = [], pl_events_default = 0, pl_invite = 0,
     pl_kick = 50, pl_redact = 50, pl_state_default = 50, pl_users = us, pl_users_default = 0,
     pl_notifications_room = 50 \<rparr>"

definition demo_ruma :: ruma where
  "demo_ruma = \<lparr>
     user_server_name = (\<lambda>_. ''hs''), room_server_name = (\<lambda>_. Some ''hs''),
     event_server_name = (\<lambda>_. Some ''hs''),
     is_user_id = (\<lambda>u. take 1 u = ''@''), is_room_id = (\<lambda>u. take 1 u = ''!''),
     is_event_id = (\<lambda>u. take 1 u = ''$''), base64_parse = Some,
     de_create_fields = (\<lambda>c. if c = ''create'' then
       Some \<lparr> room_version_field = None, creator_field = True, additional_creators = None,
              federate = True \<rparr> else None),
     de_create_content = (\<lambda>c. if c = ''create'' then Some (Some ''@a'') else None),
     de_member_fields = (\<lambda>c. map_option (\<lambda>m.
       \<lparr> membership_field = Some (Some m), join_authorised_via_users_server = None \<rparr>)
       (demo_membership c)),
     de_member_auth_fields = (\<lambda>c. map_option (\<lambda>m.
       \<lparr> membership_field = Some (Some m), join_authorised_via_users_server = None,
         third_party_invite_field = None \<rparr>) (demo_membership c)),
     de_get_membership = demo_membership,
     de_get_third_party_invite = (\<lambda>_. Some None),
     de_member_content = demo_membership,
     de_join_rules = (\<lambda>c. if c = ''public'' then Some RulePublic else None),
     de_third_party_invite = (\<lambda>_. None),
     de_power_levels = (\<lambda>c. map_option demo_levels (demo_users c)),
     de_int_power_levels = (\<lambda>c. map_option (\<lambda>us. \<lparr> some_ban = None, some_events = None,
       some_events_default = None, some_invite = None, some_kick = None, some_redact = None,
       some_state_default = None, some_users = Some us, some_users_default = None,
       some_notifications = None \<rparr>) (demo_users c)),
     de_legacy_fields = (\<lambda>c. map_option (\<lambda>us.
       \<lparr> some_plf_users = Some us, some_plf_users_default = None \<rparr>) (demo_users c)),
     de_int_fields = (\<lambda>c. map_option (\<lambda>us.
       \<lparr> some_plf_users = Some us, some_plf_users_default = None \<rparr>) (demo_users c)),
     de_legacy_invite = (\<lambda>_. Some None), de_int_invite = (\<lambda>_. Some None),
     de_legacy_redact = (\<lambda>_. Some None), de_int_redact = (\<lambda>_. Some None),
     pl_default = demo_levels [], default_power_level = 50,
     pl_to_value = (\<lambda>_ _. None), completion = (\<lambda>_ _. 0) \<rparr>"

definition demo_event ::
    "EventId \<Rightarrow> EventType \<Rightarrow> StateKey \<Rightarrow> UserId \<Rightarrow> RawJson \<Rightarrow> EventId list \<Rightarrow> EventId list \<Rightarrow> Pdu" where
  "demo_event eid ty key sndr c prev auth = \<lparr> event_id = eid, room_id = Some ''!r'', sender = sndr,
     origin = None, origin_server_ts = 0, kind = ty, content = c, state_key = Some key,
     prev_events = prev, depth = 1, auth_events = auth, redacts = None, unsigned_data = None,
     hashes = [], signatures = None \<rparr>"

definition demo_create :: Pdu where
  "demo_create = demo_event ''$0'' RoomCreate [] ''@a'' ''create'' [] []"
definition demo_join :: "UserId \<Rightarrow> EventId \<Rightarrow> Pdu" where
  "demo_join u eid = demo_event eid RoomMember u u ''join'' [''$0''] [''$0'']"
definition demo_pl :: "EventId \<Rightarrow> RawJson \<Rightarrow> Pdu" where
  "demo_pl eid c = demo_event eid RoomPowerLevels [] ''@a'' c [''$1''] [''$0'', ''$1'']"
definition demo_ban :: Pdu where
  "demo_ban = demo_event ''$6'' RoomMember ''@b'' ''@a'' ''ban'' [''$5''] [''$0'', ''$1'', ''$2'']"
definition demo_rules :: Pdu where
  "demo_rules = demo_event ''$3'' RoomJoinRules [] ''@a'' ''public'' [''$2''] [''$0'', ''$1'', ''$2'']"

definition demo_state :: "EventType \<Rightarrow> StateKey \<Rightarrow> Pdu option" where
  "demo_state t k =
     (if t = RoomCreate \<and> k = [] then Some demo_create
      else if t = RoomMember \<and> k = ''@a'' then Some (demo_join ''@a'' ''$1'')
      else if t = RoomMember \<and> k = ''@b'' then Some (demo_join ''@b'' ''$4'')
      else if t = RoomPowerLevels \<and> k = [] then Some (demo_pl ''$2'' ''pl0'')
      else if t = RoomJoinRules \<and> k = [] then Some demo_rules
      else None)"

lemma demo_accepts:
  "auth_check demo_ruma RoomVersion_V11 (demo_pl ''$5'' ''pl1'') None demo_state demo_create = Inr True"
  "auth_check demo_ruma RoomVersion_V11 demo_ban None demo_state demo_create = Inr True"
  by code_simp+

lemma auth_check_sender_power_witness:
  "\<exists>mem level. demo_state RoomMember ''@a'' = Some mem \<and> room_id mem = Some ''!r'' \<and> 50 \<le> level
     \<and> (\<exists>cc. sender_power_level demo_ruma RoomVersion_V11 ''@a'' (demo_state RoomPowerLevels [])
               demo_create cc = Inr level)"
proof -
  have "get_send_level demo_ruma RoomPowerLevels (Some []) (demo_state RoomPowerLevels []) = 50"
    by code_simp
  with auth_check_sender_power [OF demo_accepts(1)] show ?thesis
    by (auto simp: demo_pl_def demo_event_def)
qed

lemma power_levels_no_escalation_witness:
  "\<exists>level old new. deserialize_power_levels demo_ruma ''pl0'' RoomVersion_V11 = Some old
     \<and> deserialize_power_levels demo_ruma ''pl1'' RoomVersion_V11 = Some new
     \<and> map_of (pl_users new) ''@b'' = Some 50 \<and> Some 50 \<le> Some (level :: js_int)"
proof -
  have lv: "map_option (\<lambda>l. map_of (pl_users l) ''@b'')
      (deserialize_power_levels demo_ruma ''pl0'' RoomVersion_V11) = Some None"
    "map_option (\<lambda>l. map_of (pl_users l) ''@b'')
      (deserialize_power_levels demo_ruma ''pl1'' RoomVersion_V11) = Some (Some 50)"
    by code_simp+
  have "demo_state RoomPowerLevels [] = Some (demo_pl ''$2'' ''pl0'')"
    by (simp add: demo_state_def)
  from power_levels_no_escalation [OF demo_accepts(1) _ this] lv show ?thesis
    by (auto simp: demo_pl_def demo_event_def)
qed

lemma membership_rules_witness:
  "\<exists>sm pls cc. membership_of demo_ruma (demo_state RoomMember ''@a'') = Inr sm \<and> sm = Join
     \<and> de_power_levels demo_ruma ''pl0'' = Some pls \<and> de_create_fields demo_ruma ''create'' = Some cc
     \<and> (creates_room demo_ruma RoomVersion_V11 demo_create cc True ''@a'' \<or> pl_ban pls \<le> listed_level pls ''@a'')"
proof -
  have ban: "kind demo_ban = RoomMember" "state_key demo_ban = Some ''@b''" "sender demo_ban = ''@a''"
      "de_get_membership demo_ruma (content demo_ban) = Some Ban" "content demo_create = ''create''"
      "demo_state RoomPowerLevels [] = Some (demo_pl ''$2'' ''pl0'')" "content (demo_pl ''$2'' ''pl0'') = ''pl0''"
    by code_simp+
  from membership_rules [OF demo_accepts(2) ban(1)] ban(2-7)
  show ?thesis by (auto simp: membership_permitted_def)
qed

lemma removal_needs_power_witness:
  "\<exists>pls p. de_power_levels demo_ruma ''pl0'' = Some pls \<and> pl_ban pls \<le> p
     \<and> map_of (pl_users pls) ''@b'' < Some p"
proof -
  have ban: "kind demo_ban = RoomMember" "state_key demo_ban = Some ''@b''"
      "de_get_membership demo_ruma (content demo_ban) = Some Ban"
      "demo_state RoomPowerLevels [] = Some (demo_pl ''$2'' ''pl0'')"
      "content (demo_pl ''$2'' ''pl0'') = ''pl0''"
      "\<not> explicitly_privilege_room_creators RoomVersion_V11"
      "membership_of demo_ruma (demo_state RoomMember ''@b'') = Inr Join"
    by code_simp+
  show ?thesis
    using removal_needs_power [OF demo_accepts(2) ban(1,4,6,2,7)] ban by auto
qed

lemma auth_check_reads_auth_types_witness:
  "auth_check demo_ruma RoomVersion_V11 (demo_join ''@b'' ''$9'') None demo_state demo_create =
   auth_check demo_ruma RoomVersion_V11 (demo_join ''@b'' ''$9'') None
     (demo_state (OtherType ''m.room.topic'' := \<lambda>k. Some demo_rules)) demo_create"
proof (rule auth_check_reads_auth_types)
  show "auth_types_for_event demo_ruma (kind (demo_join ''@b'' ''$9'')) (sender (demo_join ''@b'' ''$9''))
      (state_key (demo_join ''@b'' ''$9'')) (content (demo_join ''@b'' ''$9'')) RoomVersion_V11
    = Inr [(RoomPowerLevels, []), (RoomMember, ''@b''), (RoomCreate, []), (RoomJoinRules, [])]"
    by code_simp
  show "member_views_agree demo_ruma (content (demo_join ''@b'' ''$9''))"
    by code_simp
qed (simp_all add: demo_join_def demo_event_def demo_ruma_def demo_membership_def)

lemma auth_check_no_panic_witness:
  "auth_check demo_ruma RoomVersion_V11 (demo_join ''@a'' ''$1'') None (create_state demo_create)
     demo_create \<noteq> Inl Panic"
proof (rule auth_check_no_panic)
  show "room_reachable demo_ruma RoomVersion_V11 demo_create (create_state demo_create)"
    by (rule room_reachable.created)
qed code_simp+

end
