(* ===== verification/TopoSort.thy ===== *)
theory TopoSort
  imports Events "HOL-Library.Multiset"
begin

text \<open>
  \<open>lexicographical_topological_sort\<close> of \<^verbatim>\<open>src/core/matrix/state_res/mod.rs\<close>: Kahn's algorithm on the
  auth graph with a heap that breaks ties by power level, time and event id.  The heap's contract is the
  locale \<open>min_queue\<close>; the specification of the sort is the greedy order \<open>greedy_from\<close>, which takes the
  least available node each time and therefore does not depend on the iteration order of the hash maps.
\<close>

section \<open>Min-queues\<close>

locale min_queue =
  fixes emp :: 'q
    and push :: "'a :: linorder \<Rightarrow> 'q \<Rightarrow> 'q"
    and pop :: "'q \<Rightarrow> ('a \<times> 'q) option"
    and elems :: "'q \<Rightarrow> 'a multiset"
    and invar :: "'q \<Rightarrow> bool"
  assumes elems_emp: "elems emp = {#}" and invar_emp: "invar emp"
    and elems_push: "invar q \<Longrightarrow> elems (push a q) = add_mset a (elems q)"
    and invar_push: "invar q \<Longrightarrow> invar (push a q)"
    and pop_None: "invar q \<Longrightarrow> pop q = None \<longleftrightarrow> elems q = {#}"
    and elems_pop: "invar q \<Longrightarrow> pop q = Some (a, q') \<Longrightarrow> elems q = add_mset a (elems q')"
    and invar_pop: "invar q \<Longrightarrow> pop q = Some (a, q') \<Longrightarrow> invar q'"
    and pop_least: "invar q \<Longrightarrow> pop q = Some (a, q') \<Longrightarrow> b \<in># elems q \<Longrightarrow> a \<le> b"
begin

definition push_all :: "'a list \<Rightarrow> 'q \<Rightarrow> 'q" where
  "push_all xs q = fold push xs q"

lemma push_all_elems: "invar q \<Longrightarrow> elems (push_all xs q) = mset xs + elems q"
  by (induction xs arbitrary: q) (auto simp: push_all_def elems_push invar_push)

lemma push_all_invar: "invar q \<Longrightarrow> invar (push_all xs q)"
  by (induction xs arbitrary: q) (auto simp: push_all_def invar_push)

lemma pop_elems_mono:
  "invar q \<Longrightarrow> pop q = Some (a, q') \<Longrightarrow> set_mset (elems q') \<subseteq> set_mset (elems q)"
  by (auto dest: elems_pop)

lemma pop_ex: "invar q \<Longrightarrow> elems q \<noteq> {#} \<Longrightarrow> \<exists>a q'. pop q = Some (a, q')"
  using pop_None [of q] by (cases "pop q") auto

end

text \<open>
  The standard library's \<open>BinaryHeap\<close> over \<open>Reverse\<close>: \<open>push\<close> adds an element, \<open>pop\<close> removes a least one.
  It is kept as a sorted list.
\<close>

definition heap_push :: "'a :: linorder \<Rightarrow> 'a list \<Rightarrow> 'a list" where
  "heap_push a h = insort a h"

fun heap_pop :: "'a :: linorder list \<Rightarrow> ('a \<times> 'a list) option" where
  "heap_pop [] = None"
| "heap_pop (a # h) = Some (a, h)"

definition heap_from :: "'a :: linorder list \<Rightarrow> 'a list" where
  "heap_from xs = fold heap_push xs []"

interpretation bh: min_queue "[]" heap_push heap_pop mset "sorted :: 'a :: linorder list \<Rightarrow> bool"
proof unfold_locales
  fix q :: "'a list" and a q' b
  show "sorted q \<Longrightarrow> heap_pop q = None \<longleftrightarrow> mset q = {#}" by (cases q) auto
  show "sorted q \<Longrightarrow> heap_pop q = Some (a, q') \<Longrightarrow> mset q = add_mset a (mset q')" by (cases q) auto
  show "sorted q \<Longrightarrow> heap_pop q = Some (a, q') \<Longrightarrow> sorted q'" by (cases q) auto
  show "sorted q \<Longrightarrow> heap_pop q = Some (a, q') \<Longrightarrow> b \<in># mset q \<Longrightarrow> a \<le> b" by (cases q) auto
qed (auto simp: heap_push_def sorted_insort)

lemma heap_from_push_all: "heap_from xs = bh.push_all xs []"
  by (simp add: heap_from_def bh.push_all_def)

section \<open>The tie breaker\<close>

datatype 'id TieBreaker =
  TieBreaker (tb_power_level: js_int) (tb_origin_server_ts: nat) (tb_event_id: 'id)

text \<open>\<open>cmp\<close> finds the first at most the second: the power level is compared backwards, then the time, then the id.\<close>

definition tie_cmp_le :: "('id :: linorder) TieBreaker \<Rightarrow> 'id TieBreaker \<Rightarrow> bool" where
  "tie_cmp_le x y \<longleftrightarrow>
     tb_power_level y < tb_power_level x
     \<or> tb_power_level y = tb_power_level x \<and>
       (tb_origin_server_ts x < tb_origin_server_ts y
        \<or> tb_origin_server_ts x = tb_origin_server_ts y \<and> tb_event_id x \<le> tb_event_id y)"

instantiation TieBreaker :: (linorder) linorder
begin

definition less_eq_TieBreaker :: "'a TieBreaker \<Rightarrow> 'a TieBreaker \<Rightarrow> bool" where
  "less_eq_TieBreaker = tie_cmp_le"

definition less_TieBreaker :: "'a TieBreaker \<Rightarrow> 'a TieBreaker \<Rightarrow> bool" where
  "less_TieBreaker x y \<longleftrightarrow> x \<le> y \<and> \<not> y \<le> x"

instance
  by standard (auto simp: tie_cmp_le_def less_eq_TieBreaker_def less_TieBreaker_def intro: TieBreaker.expand)

end

section \<open>The sort\<close>

type_synonym 'id graph = "('id, 'id hash_set) hash_map"
type_synonym 'id key_fn = "'id \<Rightarrow> Error + (js_int \<times> nat)"

fun zero_outdegree :: "'id key_fn \<Rightarrow> 'id graph \<Rightarrow> Error + 'id TieBreaker list" where
  "zero_outdegree key_fn [] = Inr []"
| "zero_outdegree key_fn ((node, edges) # graph) =
     (if edges = [] then
        rbind (key_fn node) (\<lambda>(pl, ts).
        rbind (zero_outdegree key_fn graph) (\<lambda>z. Inr (TieBreaker pl ts node # z)))
      else zero_outdegree key_fn graph)"

definition reverse_edges :: "'id \<Rightarrow> 'id list \<Rightarrow> 'id graph \<Rightarrow> 'id graph" where
  "reverse_edges node edges rg =
     fold (\<lambda>edge. hm_modify edge [] (hs_insert node)) edges (hm_modify node [] id rg)"

definition reverse_graph :: "'id graph \<Rightarrow> 'id graph" where
  "reverse_graph graph = fold (\<lambda>(node, edges). reverse_edges node edges) graph []"

fun clear_parents ::
    "('id :: linorder) key_fn \<Rightarrow> 'id \<Rightarrow> 'id list \<Rightarrow> 'id graph \<Rightarrow> 'id TieBreaker list
     \<Rightarrow> Error + ('id graph \<times> 'id TieBreaker list)" where
  "clear_parents key_fn node [] out heap = Inr (out, heap)"
| "clear_parents key_fn node (parent # ps) out heap =
     (case map_of out parent of
        None \<Rightarrow> Inl Panic
      | Some es \<Rightarrow>
          (let es' = hs_remove node es; out' = hm_insert parent es' out in
           if es' = [] then
             rbind (key_fn parent) (\<lambda>(pl, ts).
             clear_parents key_fn node ps out' (heap_push (TieBreaker pl ts parent) heap))
           else clear_parents key_fn node ps out' heap))"

partial_function (option) topo_loop ::
    "('id :: linorder) key_fn \<Rightarrow> 'id graph \<Rightarrow> 'id graph \<Rightarrow> 'id TieBreaker list \<Rightarrow> 'id list
     \<Rightarrow> (Error + 'id list) option" where
  "topo_loop key_fn rg out heap srt =
     (case heap_pop heap of
        None \<Rightarrow> Some (Inr srt)
      | Some (item, heap') \<Rightarrow>
          (case map_of rg (tb_event_id item) of
             None \<Rightarrow> Some (Inl Panic)
           | Some parents \<Rightarrow>
               (case clear_parents key_fn (tb_event_id item) parents out heap' of
                  Inl e \<Rightarrow> Some (Inl e)
                | Inr (out', heap'') \<Rightarrow>
                    topo_loop key_fn rg out' heap'' (srt @ [tb_event_id item]))))"

declare topo_loop.simps [code]

definition lexicographical_topological_sort ::
    "('id :: linorder) graph \<Rightarrow> 'id key_fn \<Rightarrow> (Error + 'id list) option" where
  "lexicographical_topological_sort graph key_fn =
     (case zero_outdegree key_fn graph of
        Inl e \<Rightarrow> Some (Inl e)
      | Inr z \<Rightarrow> topo_loop key_fn (reverse_graph graph) graph (heap_from z) [])"

section \<open>The greedy order\<close>

definition tie :: "'id key_fn \<Rightarrow> 'id \<Rightarrow> 'id TieBreaker" where
  "tie key_fn n = (case key_fn n of Inr (pl, ts) \<Rightarrow> TieBreaker pl ts n | Inl _ \<Rightarrow> TieBreaker 0 0 n)"

definition available :: "('id \<rightharpoonup> 'id list) \<Rightarrow> 'id set \<Rightarrow> 'id set" where
  "available g S = {n. n \<notin> S \<and> (\<exists>es. g n = Some es \<and> set es \<subseteq> S)}"

inductive greedy_from ::
    "('id :: linorder \<rightharpoonup> 'id list) \<Rightarrow> 'id key_fn \<Rightarrow> 'id set \<Rightarrow> 'id list \<Rightarrow> bool"
  for g key_fn where
  finished: "available g S = {} \<Longrightarrow> greedy_from g key_fn S []"
| pick: "n \<in> available g S \<Longrightarrow> (\<And>m. m \<in> available g S \<Longrightarrow> tie key_fn n \<le> tie key_fn m) \<Longrightarrow>
    greedy_from g key_fn (insert n S) xs \<Longrightarrow> greedy_from g key_fn S (n # xs)"

inductive_cases greedy_NilE: "greedy_from g key_fn S []"
inductive_cases greedy_ConsE: "greedy_from g key_fn S (n # xs)"

lemma tb_event_id_tie [simp]: "tb_event_id (tie key_fn n) = n"
  by (auto simp: tie_def split: sum.splits prod.splits)

lemma tie_eq_iff [simp]: "tie key_fn m = tie key_fn n \<longleftrightarrow> m = n"
  by (metis tb_event_id_tie)

lemma greedy_unique: "greedy_from g k S xs \<Longrightarrow> greedy_from g k S ys \<Longrightarrow> xs = ys"
proof (induction arbitrary: ys rule: greedy_from.induct)
  case (finished S)
  then show ?case by (cases ys) (auto elim: greedy_ConsE)
next
  case (pick n S xs)
  show ?case
  proof (cases ys)
    case Nil
    with pick.prems have "available g S = {}" by (auto elim: greedy_NilE)
    with pick.hyps(1) show ?thesis by simp
  next
    case (Cons m zs)
    with pick.prems have m: "m \<in> available g S" "\<And>x. x \<in> available g S \<Longrightarrow> tie k m \<le> tie k x"
        "greedy_from g k (insert m S) zs"
      by (auto elim: greedy_ConsE)
    with pick.hyps(1,2) have "tie k m = tie k n" by (meson order_antisym)
    with Cons m(3) pick.IH show ?thesis by simp
  qed
qed

definition topological :: "('id \<rightharpoonup> 'id list) \<Rightarrow> 'id list \<Rightarrow> bool" where
  "topological g xs \<longleftrightarrow>
     (\<forall>i < length xs. \<forall>es. g (xs ! i) = Some es \<longrightarrow> set es \<subseteq> set (take i xs))"

lemma greedy_nodes:
  "greedy_from g k S xs \<Longrightarrow> distinct xs \<and> set xs \<inter> S = {} \<and> set xs \<subseteq> dom g"
  by (induction rule: greedy_from.induct) (auto simp: available_def)

lemma greedy_edges:
  "greedy_from g k S xs \<Longrightarrow> i < length xs \<Longrightarrow> g (xs ! i) = Some es \<Longrightarrow>
   set es \<subseteq> S \<union> set (take i xs)"
proof (induction arbitrary: i rule: greedy_from.induct)
  case (pick n S xs)
  then show ?case by (cases i) (fastforce simp: available_def)+
qed simp

lemma greedy_blocked: "greedy_from g k S xs \<Longrightarrow> available g (S \<union> set xs) = {}"
  by (induction rule: greedy_from.induct) auto

section \<open>The sort follows the greedy order\<close>

definition key_total :: "'id key_fn \<Rightarrow> 'id set \<Rightarrow> bool" where
  "key_total key_fn N \<longleftrightarrow> (\<forall>n \<in> N. \<exists>pl ts. key_fn n = Inr (pl, ts))"

lemma key_total_tie:
  "key_total key_fn N \<Longrightarrow> n \<in> N \<Longrightarrow> \<exists>pl ts. key_fn n = Inr (pl, ts) \<and> tie key_fn n = TieBreaker pl ts n"
  by (fastforce simp: key_total_def tie_def)

lemma zero_outdegree_ok:
  "key_total key_fn (fst ` set g) \<Longrightarrow>
   zero_outdegree key_fn g = Inr (map (tie key_fn) (map fst (filter (\<lambda>p. snd p = []) g)))"
proof (induction key_fn g rule: zero_outdegree.induct)
  case (2 key_fn node edges g)
  obtain pl ts where "key_fn node = Inr (pl, ts)" "tie key_fn node = TieBreaker pl ts node"
    using key_total_tie [OF "2.prems", of node] by auto
  moreover have "key_total key_fn (fst ` set g)" using "2.prems" by (simp add: key_total_def)
  ultimately show ?case using "2.IH" by simp
qed simp

text \<open>The reversed graph.\<close>

definition parents :: "'id graph \<Rightarrow> 'id \<Rightarrow> 'id set" where
  "parents rg n = (case map_of rg n of None \<Rightarrow> {} | Some ps \<Rightarrow> set ps)"

definition sets_ok :: "'id graph \<Rightarrow> bool" where
  "sets_ok rg \<longleftrightarrow> (\<forall>n ps. map_of rg n = Some ps \<longrightarrow> distinct ps)"

lemma parents_add_edges:
  "parents (fold (\<lambda>edge. hm_modify edge [] (hs_insert node)) edges rg) n =
     parents rg n \<union> (if n \<in> set edges then {node} else {})"
  by (induction edges arbitrary: rg) (auto simp: parents_def split: option.splits if_splits)

lemma parents_reverse_edges [simp]:
  "parents (reverse_edges node edges rg) n = parents rg n \<union> (if n \<in> set edges then {node} else {})"
  by (simp add: reverse_edges_def parents_add_edges)
    (auto simp: parents_def split: option.splits)

lemma dom_add_edges:
  "dom (map_of (fold (\<lambda>edge. hm_modify edge [] (hs_insert node)) edges rg)) =
     set edges \<union> dom (map_of rg)"
  by (induction edges arbitrary: rg) auto

lemma dom_reverse_edges [simp]:
  "dom (map_of (reverse_edges node edges rg)) = insert node (set edges) \<union> dom (map_of rg)"
  by (simp add: reverse_edges_def dom_add_edges)

lemma sets_okD: "sets_ok rg \<Longrightarrow> map_of rg n = Some ps \<Longrightarrow> distinct ps"
  by (simp only: sets_ok_def)

lemma sets_ok_modify:
  assumes "sets_ok rg" "\<And>ps. distinct ps \<Longrightarrow> distinct (f ps)"
  shows "sets_ok (hm_modify n [] f rg)"
  unfolding sets_ok_def
proof (intro allI impI)
  fix m ps assume m: "map_of (hm_modify n [] f rg) m = Some ps"
  have "distinct (case map_of rg n of None \<Rightarrow> [] | Some v \<Rightarrow> v)"
    by (cases "map_of rg n") (simp, simp, rule sets_okD [OF assms(1)])
  then have "distinct (f (case map_of rg n of None \<Rightarrow> [] | Some v \<Rightarrow> v))" by (rule assms(2))
  with m show "distinct ps"
    by (cases "m = n") (auto intro: sets_okD [OF assms(1)])
qed

lemma sets_ok_add_edges:
  "sets_ok rg \<Longrightarrow> sets_ok (fold (\<lambda>edge. hm_modify edge [] (hs_insert node)) edges rg)"
  by (induction edges arbitrary: rg) (simp_all add: sets_ok_modify)

lemma sets_ok_reverse_edges [simp]: "sets_ok rg \<Longrightarrow> sets_ok (reverse_edges node edges rg)"
  by (simp add: reverse_edges_def sets_ok_modify sets_ok_add_edges)

lemma parents_reverse_fold:
  "parents (fold (\<lambda>(node, edges). reverse_edges node edges) g rg) n =
     parents rg n \<union> {p. \<exists>es. (p, es) \<in> set g \<and> n \<in> set es}"
  by (induction g arbitrary: rg) (auto split: if_splits)

lemma dom_reverse_fold:
  "dom (map_of (fold (\<lambda>(node, edges). reverse_edges node edges) g rg)) =
     dom (map_of rg) \<union> (\<Union>(p, es) \<in> set g. insert p (set es))"
  by (induction g arbitrary: rg) (simp_all add: case_prod_unfold Un_assoc Un_left_commute
      insert_commute)

lemma sets_ok_reverse_fold:
  "sets_ok rg \<Longrightarrow> sets_ok (fold (\<lambda>(node, edges). reverse_edges node edges) g rg)"
  by (induction g arbitrary: rg) (simp_all add: case_prod_unfold)

lemma reverse_graph_Some:
  assumes "hm_ok g" "n \<in> fst ` set g"
  obtains ps where "map_of (reverse_graph g) n = Some ps" "distinct ps"
    "set ps = {p. \<exists>es. map_of g p = Some es \<and> n \<in> set es}"
proof -
  have "n \<in> dom (map_of (reverse_graph g))"
    using assms(2) by (auto simp: reverse_graph_def dom_reverse_fold)
  then obtain ps where ps: "map_of (reverse_graph g) n = Some ps" by auto
  have "sets_ok (reverse_graph g)"
    unfolding reverse_graph_def by (rule sets_ok_reverse_fold) (simp add: sets_ok_def)
  with ps have "distinct ps" by (rule sets_okD [rotated])
  moreover have "set ps = {p. \<exists>es. (p, es) \<in> set g \<and> n \<in> set es}"
    using parents_reverse_fold [of g "[]" n] ps by (simp add: reverse_graph_def parents_def)
  ultimately show thesis using that [OF ps] map_of_hm_ok [OF assms(1)] by simp
qed

text \<open>One round of the inner loop.\<close>

lemma clear_parents_ok:
  assumes "distinct ps" "\<forall>p \<in> set ps. map_of out p \<noteq> None" "key_total key_fn (set ps)" "sorted heap"
  shows "\<exists>out' heap'. clear_parents key_fn node ps out heap = Inr (out', heap')
    \<and> (\<forall>p. map_of out' p = (if p \<in> set ps then map_option (hs_remove node) (map_of out p)
          else map_of out p))
    \<and> sorted heap'
    \<and> mset heap' = mset heap + mset (map (tie key_fn)
        (filter (\<lambda>p. hs_remove node (the (map_of out p)) = []) ps))"
  using assms
proof (induction ps arbitrary: out heap)
  case (Cons p ps)
  obtain es where es: "map_of out p = Some es" using Cons.prems(2) by auto
  obtain pl ts where key: "key_fn p = Inr (pl, ts)" "tie key_fn p = TieBreaker pl ts p"
    using key_total_tie [OF Cons.prems(3), of p] by auto
  let ?out = "hm_insert p (hs_remove node es) out"
  let ?heap = "if hs_remove node es = [] then heap_push (tie key_fn p) heap else heap"
  have "\<exists>out' heap'. clear_parents key_fn node ps ?out ?heap = Inr (out', heap')
    \<and> (\<forall>q. map_of out' q = (if q \<in> set ps then map_option (hs_remove node) (map_of ?out q)
          else map_of ?out q))
    \<and> sorted heap'
    \<and> mset heap' = mset ?heap + mset (map (tie key_fn)
        (filter (\<lambda>q. hs_remove node (the (map_of ?out q)) = []) ps))"
    using Cons.prems by (intro Cons.IH) (auto simp: key_total_def bh.invar_push)
  then obtain out' heap' where IH: "clear_parents key_fn node ps ?out ?heap = Inr (out', heap')"
      "\<forall>q. map_of out' q = (if q \<in> set ps then map_option (hs_remove node) (map_of ?out q)
          else map_of ?out q)" "sorted heap'"
      "mset heap' = mset ?heap + mset (map (tie key_fn)
        (filter (\<lambda>q. hs_remove node (the (map_of ?out q)) = []) ps))" by blast
  have "filter (\<lambda>q. hs_remove node (the (map_of ?out q)) = []) ps =
      filter (\<lambda>q. hs_remove node (the (map_of out q)) = []) ps"
    using Cons.prems(1) by (intro filter_cong) auto
  then have "mset heap' = mset heap + mset (map (tie key_fn)
      (filter (\<lambda>q. hs_remove node (the (map_of out q)) = []) (p # ps)))"
    using es Cons.prems(4) by (simp only: IH(4)) (simp add: bh.elems_push)
  moreover have "clear_parents key_fn node (p # ps) out heap = Inr (out', heap')"
    using IH(1) es key by (simp add: Let_def split: if_splits)
  ultimately show ?case using IH(2,3) es Cons.prems(1) by auto
qed simp

text \<open>
  The loop: with \<open>srt\<close> output so far, the remaining out-edges are the edges not yet output and the heap
  holds exactly the available nodes.
\<close>

definition topo_inv ::
    "'id graph \<Rightarrow> ('id :: linorder) key_fn \<Rightarrow> 'id list \<Rightarrow> 'id graph \<Rightarrow> 'id TieBreaker list \<Rightarrow> bool" where
  "topo_inv g key_fn srt out heap \<longleftrightarrow>
     (\<forall>n es. map_of g n = Some es \<longrightarrow>
        (\<exists>es'. map_of out n = Some es' \<and> set es' = set es - set srt)
        \<and> (n \<in> set srt \<longrightarrow> set es \<subseteq> set srt))
     \<and> sorted heap \<and> distinct heap \<and> set heap = tie key_fn ` available (map_of g) (set srt)"

lemma available_insert:
  assumes "n \<in> available g S"
  shows "available g (insert n S) =
    (available g S - {n}) \<union> {p. \<exists>es. g p = Some es \<and> n \<in> set es \<and> set es - S - {n} = {} \<and> p \<notin> S}"
  using assms by (auto simp: available_def)

lemma hs_remove_Nil: "hs_remove x xs = [] \<longleftrightarrow> set xs - {x} = {}"
  by (metis set_empty set_hs_remove)

lemma topo_inv_advance:
  assumes inv: "topo_inv g key_fn srt out (tie key_fn n # heap')"
    and ps: "distinct ps" "set ps = {p. \<exists>es. map_of g p = Some es \<and> n \<in> set es}"
    and out': "\<And>p. map_of out' p =
        (if p \<in> set ps then map_option (hs_remove n) (map_of out p) else map_of out p)"
    and heap'': "sorted heap''" "mset heap'' = mset heap' + mset (map (tie key_fn)
        (filter (\<lambda>p. hs_remove n (the (map_of out p)) = []) ps))"
  shows "topo_inv g key_fn (srt @ [n]) out' heap''"
proof -
  let ?A = "available (map_of g) (set srt)"
  let ?new = "filter (\<lambda>p. hs_remove n (the (map_of out p)) = []) ps"
  have heap: "distinct heap'" "tie key_fn n \<notin> set heap'" "insert (tie key_fn n) (set heap') = tie key_fn ` ?A"
    using inv by (auto simp: topo_inv_def)
  have "tie key_fn n \<in> tie key_fn ` ?A" using heap(3) by blast
  then have n: "n \<in> ?A" "n \<notin> set srt" by (auto simp: available_def)
  have old: "set es \<subseteq> set srt" if "map_of g p = Some es" "p \<in> insert n (set srt)" for p es
    using inv n that by (auto simp: topo_inv_def available_def)
  have out: "\<exists>es'. map_of out p = Some es' \<and> set es' = set es - set srt" if "map_of g p = Some es" for p es
    using inv that by (auto simp: topo_inv_def)
  have new: "set ?new = {p. \<exists>es. map_of g p = Some es \<and> n \<in> set es \<and> set es - set srt - {n} = {}}"
    using out ps(2) by (fastforce simp: hs_remove_Nil)
  have avail: "available (map_of g) (set (srt @ [n])) = (?A - {n}) \<union> set ?new"
  proof -
    have "p \<notin> set srt" if "map_of g p = Some es" "n \<in> set es" for p es
      using old that n(2) by blast
    then show ?thesis unfolding new using available_insert [OF n(1)] by auto
  qed
  have heap': "set heap' = tie key_fn ` (?A - {n})"
  proof -
    have "set heap' = tie key_fn ` ?A - {tie key_fn n}" using heap(2,3) by auto
    also have "\<dots> = tie key_fn ` (?A - {n})" by auto
    finally show ?thesis .
  qed
  have "mset heap'' = mset (heap' @ map (tie key_fn) ?new)" using heap''(2) by simp
  moreover have "distinct (heap' @ map (tie key_fn) ?new)"
  proof -
    have "?A \<inter> set ?new = {}" unfolding new using n(2) by (auto simp: available_def)
    then show ?thesis using heap(1) heap' ps(1) by (auto simp: distinct_map inj_on_def)
  qed
  ultimately have "distinct heap''" "set heap'' = set (heap' @ map (tie key_fn) ?new)"
    by (metis mset_eq_imp_distinct_iff, metis mset_eq_setD)
  moreover have "set (heap' @ map (tie key_fn) ?new)
      = tie key_fn ` available (map_of g) (set (srt @ [n]))"
    unfolding avail using heap' by (simp only: set_append set_map image_Un)
  moreover have "\<exists>es'. map_of out' p = Some es' \<and> set es' = set es - set (srt @ [n])"
    if "map_of g p = Some es" for p es
    using out [OF that] out' [of p] ps(2) that by (cases "p \<in> set ps") auto
  moreover have "set es \<subseteq> set (srt @ [n])" if "map_of g p = Some es" "p \<in> set (srt @ [n])" for p es
    using that old by auto
  ultimately show ?thesis using heap''(1) unfolding topo_inv_def by metis
qed

lemma topo_step:
  assumes g: "hm_ok g" "key_total key_fn (fst ` set g)" and inv: "topo_inv g key_fn srt out heap"
    and pop: "heap_pop heap = Some (item, heap')"
  obtains n ps out' heap'' where "item = tie key_fn n" "n \<in> available (map_of g) (set srt)"
    "\<And>m. m \<in> available (map_of g) (set srt) \<Longrightarrow> tie key_fn n \<le> tie key_fn m"
    "map_of (reverse_graph g) n = Some ps"
    "clear_parents key_fn n ps out heap' = Inr (out', heap'')"
    "topo_inv g key_fn (srt @ [n]) out' heap''"
proof -
  let ?A = "available (map_of g) (set srt)"
  have heap: "sorted heap" "set heap = tie key_fn ` ?A" using inv by (auto simp: topo_inv_def)
  have split: "heap = item # heap'" using pop by (cases heap) auto
  then obtain n where n: "item = tie key_fn n" "n \<in> ?A" using heap(2) by auto
  have least: "tie key_fn n \<le> tie key_fn m" if "m \<in> ?A" for m
    using bh.pop_least [OF heap(1) pop, of "tie key_fn m"] heap(2) n(1) that by simp
  have "n \<in> fst ` set g" using n(2) by (auto simp: available_def dest: map_of_SomeD intro: rev_image_eqI)
  with g(1) obtain ps where ps: "map_of (reverse_graph g) n = Some ps" "distinct ps"
      "set ps = {p. \<exists>es. map_of g p = Some es \<and> n \<in> set es}"
    by (rule reverse_graph_Some)
  have "key_total key_fn (set ps)"
    using g(2) ps(3) by (force simp: key_total_def dest: map_of_SomeD)
  moreover have "\<forall>p \<in> set ps. map_of out p \<noteq> None"
    using ps(3) inv by (fastforce simp: topo_inv_def)
  moreover have "sorted heap'" using heap(1) split by simp
  ultimately obtain out' heap'' where step:
      "clear_parents key_fn n ps out heap' = Inr (out', heap'')"
      "\<And>p. map_of out' p = (if p \<in> set ps then map_option (hs_remove n) (map_of out p) else map_of out p)"
      "sorted heap''"
      "mset heap'' = mset heap' + mset (map (tie key_fn)
        (filter (\<lambda>p. hs_remove n (the (map_of out p)) = []) ps))"
    using clear_parents_ok [OF ps(2), of out key_fn heap' n] by blast
  have "topo_inv g key_fn (srt @ [n]) out' heap''"
    using inv split n(1) ps(2,3) step(2-4) by (intro topo_inv_advance) auto
  with n least ps(1) step(1) show thesis by (rule that)
qed

lemma topo_loop_greedy:
  assumes "hm_ok g" "key_total key_fn (fst ` set g)" "topo_inv g key_fn srt out heap"
  shows "\<exists>xs. topo_loop key_fn (reverse_graph g) out heap srt = Some (Inr (srt @ xs))
    \<and> greedy_from (map_of g) key_fn (set srt) xs"
  using assms(3)
proof (induction "card (dom (map_of g) - set srt)" arbitrary: srt out heap rule: less_induct)
  case less
  show ?case
  proof (cases "heap_pop heap")
    case None
    then have "heap = []" by (cases heap) auto
    with less.prems have "available (map_of g) (set srt) = {}" by (simp add: topo_inv_def)
    with None show ?thesis
      by (intro exI [of _ "[]"]) (simp add: topo_loop.simps greedy_from.finished)
  next
    case (Some p)
    obtain item heap' where p: "p = (item, heap')" by (cases p)
    with Some have "heap_pop heap = Some (item, heap')" by simp
    with assms(1,2) less.prems obtain n ps out' heap'' where step: "item = tie key_fn n"
        "n \<in> available (map_of g) (set srt)"
        "\<And>m. m \<in> available (map_of g) (set srt) \<Longrightarrow> tie key_fn n \<le> tie key_fn m"
        "map_of (reverse_graph g) n = Some ps"
        "clear_parents key_fn n ps out heap' = Inr (out', heap'')"
        "topo_inv g key_fn (srt @ [n]) out' heap''"
      by (rule topo_step) blast
    have "n \<in> dom (map_of g) - set srt" using step(2) by (auto simp: available_def)
    then have "card (dom (map_of g) - set (srt @ [n])) < card (dom (map_of g) - set srt)"
      by (intro psubset_card_mono) (auto simp: finite_dom_map_of)
    from less.hyps [OF this step(6)] obtain xs where
      "topo_loop key_fn (reverse_graph g) out' heap'' (srt @ [n]) = Some (Inr ((srt @ [n]) @ xs))"
      "greedy_from (map_of g) key_fn (set (srt @ [n])) xs" by blast
    with step p Some show ?thesis
      by (intro exI [of _ "n # xs"]) (auto simp: topo_loop.simps [of _ _ out] intro: greedy_from.pick)
  qed
qed

lemma heap_from_ok:
  "sorted (heap_from xs)" "set (heap_from xs) = set xs" "distinct (heap_from xs) \<longleftrightarrow> distinct xs"
proof -
  have "mset (heap_from xs) = mset xs" by (simp add: heap_from_push_all bh.push_all_elems)
  then show "set (heap_from xs) = set xs" "distinct (heap_from xs) \<longleftrightarrow> distinct xs"
    by (metis mset_eq_setD, metis mset_eq_imp_distinct_iff)
qed (simp add: heap_from_push_all bh.push_all_invar)

lemma topo_inv_start:
  assumes "hm_ok g"
  shows "topo_inv g key_fn [] g (heap_from (map (tie key_fn) (map fst (filter (\<lambda>p. snd p = []) g))))"
proof -
  let ?z = "map fst (filter (\<lambda>p. snd p = []) g)"
  have "set ?z = available (map_of g) {}"
    using map_of_hm_ok [OF assms] by (force simp: available_def)
  moreover have "distinct ?z" using assms by (auto simp: distinct_map inj_on_def)
  ultimately show ?thesis
    by (auto simp: topo_inv_def distinct_map inj_on_def heap_from_ok simp del: map_map)
qed

lemma sort_greedy:
  assumes "hm_ok g" "key_total key_fn (fst ` set g)"
  shows "\<exists>xs. lexicographical_topological_sort g key_fn = Some (Inr xs)
    \<and> greedy_from (map_of g) key_fn {} xs"
  using topo_loop_greedy [OF assms topo_inv_start [OF assms(1)]] zero_outdegree_ok [OF assms(2)]
  by (simp add: lexicographical_topological_sort_def)

section \<open>Properties\<close>

definition graph_edges :: "'id graph \<Rightarrow> ('id \<times> 'id) set" where
  "graph_edges g = {(m, n). \<exists>es. map_of g n = Some es \<and> m \<in> set es}"

definition graph_closed :: "'id graph \<Rightarrow> bool" where
  "graph_closed g \<longleftrightarrow> (\<forall>(n, es) \<in> set g. set es \<subseteq> fst ` set g)"

lemma greedy_complete:
  assumes "greedy_from (map_of g) k {} xs" "graph_closed g" "acyclic (graph_edges g)" "hm_ok g"
  shows "set xs = fst ` set g"
proof (rule ccontr)
  let ?D = "dom (map_of g)" let ?R = "?D - set xs"
  assume "set xs \<noteq> fst ` set g"
  then have "?R \<noteq> {}" using greedy_nodes [OF assms(1)] by (auto simp: dom_map_of_conv_image_fst)
  have "graph_edges g \<subseteq> ?D \<times> ?D"
    using assms(2,4) by (force simp: graph_edges_def graph_closed_def dom_map_of_conv_image_fst
        map_of_hm_ok)
  then have "finite (graph_edges g)" by (rule finite_subset) (simp add: finite_dom_map_of)
  then have "wf (graph_edges g)" using assms(3) by (rule finite_acyclic_wf)
  with \<open>?R \<noteq> {}\<close> obtain n where n: "n \<in> ?R" "\<And>m. (m, n) \<in> graph_edges g \<Longrightarrow> m \<notin> ?R"
    by (meson ex_in_conv wfE_min)
  obtain es where es: "map_of g n = Some es" using n(1) by auto
  have "m \<in> set xs" if "m \<in> set es" for m
  proof -
    have edge: "(m, n) \<in> graph_edges g" using es that by (auto simp: graph_edges_def)
    with \<open>graph_edges g \<subseteq> ?D \<times> ?D\<close> have "m \<in> ?D" by blast
    with n(2) [OF edge] show ?thesis by simp
  qed
  then have "n \<in> available (map_of g) (set xs)" using n(1) es by (auto simp: available_def)
  with greedy_blocked [OF assms(1)] show False by simp
qed

lemma topo_sort_ok:
  assumes "hm_ok g" "graph_closed g" "acyclic (graph_edges g)" "key_total key_fn (fst ` set g)"
  shows "\<exists>xs. lexicographical_topological_sort g key_fn = Some (Inr xs)
    \<and> distinct xs \<and> set xs = fst ` set g \<and> topological (map_of g) xs"
proof -
  obtain xs where xs: "lexicographical_topological_sort g key_fn = Some (Inr xs)"
      "greedy_from (map_of g) key_fn {} xs"
    using sort_greedy [OF assms(1,4)] by blast
  then show ?thesis
    using greedy_nodes [OF xs(2)] greedy_edges [OF xs(2)] greedy_complete [OF xs(2) assms(2,3,1)]
    by (auto simp: topological_def)
qed

text \<open>
  C11: On a closed acyclic graph whose keys can all be computed, the sort ends and returns every node
  exactly once, each after all the nodes its edges point to.
\<close>

theorem topo_sort_correct:
  assumes "hm_ok g" "graph_closed g" "acyclic (graph_edges g)" "key_total key_fn (fst ` set g)"
  shows "\<exists>xs. lexicographical_topological_sort g key_fn = Some (Inr xs)
    \<and> distinct xs \<and> set xs = fst ` set g \<and> topological (map_of g) xs"
  using assms by (rule topo_sort_ok)

lemma greedy_cong:
  assumes "\<And>S. available g S = available g' S" "greedy_from g k S xs"
  shows "greedy_from g' k S xs"
  using assms(2) by (induction rule: greedy_from.induct) (auto simp: assms(1) intro: greedy_from.intros)

lemma available_cong:
  assumes "\<And>n. map_option set (g n) = map_option set (g' n)"
  shows "available g S = available g' S"
proof -
  have "available h S = {n. n \<notin> S \<and> (case map_option set (h n) of None \<Rightarrow> False | Some A \<Rightarrow> A \<subseteq> S)}"
    for h :: "'a \<Rightarrow> 'a list option"
    by (auto simp: available_def split: option.splits)
  then show ?thesis by (simp only: assms)
qed

text \<open>
  C12: The result does not depend on the iteration order of the hash maps and sets that hold the
  graph: two representations of the same graph sort to the same list.
\<close>

theorem topo_sort_deterministic:
  assumes "hm_ok g" "hm_ok g'" "\<forall>n. map_option set (map_of g n) = map_option set (map_of g' n)"
    "key_total key_fn (fst ` set g)"
  shows "lexicographical_topological_sort g key_fn = lexicographical_topological_sort g' key_fn"
proof -
  have "dom (map_of g) = dom (map_of g')"
    using assms(3) by (metis (no_types, lifting) domIff map_option_is_None subsetI subset_antisym)
  then have "key_total key_fn (fst ` set g')" using assms(4) by (simp add: dom_map_of_conv_image_fst)
  with assms(2) obtain ys where ys: "lexicographical_topological_sort g' key_fn = Some (Inr ys)"
      "greedy_from (map_of g') key_fn {} ys"
    using sort_greedy by blast
  obtain xs where xs: "lexicographical_topological_sort g key_fn = Some (Inr xs)"
      "greedy_from (map_of g) key_fn {} xs"
    using sort_greedy [OF assms(1,4)] by blast
  have "greedy_from (map_of g') key_fn {} xs"
    by (rule greedy_cong [OF _ xs(2)]) (rule available_cong, simp add: assms(3))
  then have "xs = ys" using ys(2) by (rule greedy_unique)
  then show ?thesis using xs(1) ys(1) by simp
qed

definition demo_graph :: "nat graph" where
  "demo_graph = [(2, [0, 1]), (0, []), (1, [0]), (3, [0])]"

definition demo_key :: "nat key_fn" where
  "demo_key n = Inr (if n = 3 then 100 else 0, n)"

lemma demo_graph_ok: "hm_ok demo_graph" "graph_closed demo_graph"
  "key_total demo_key (fst ` set demo_graph)" "acyclic (graph_edges demo_graph)"
proof -
  show "acyclic (graph_edges demo_graph)"
    by (rule acyclicI_order [of _ "\<lambda>n. - int n"])
      (auto simp: graph_edges_def demo_graph_def split: if_splits)
qed (auto simp: demo_graph_def graph_closed_def key_total_def demo_key_def)

lemma topo_sort_correct_witness:
  "\<exists>xs. lexicographical_topological_sort demo_graph demo_key = Some (Inr xs)
    \<and> distinct xs \<and> set xs = {0, 1, 2, 3} \<and> topological (map_of demo_graph) xs"
  using topo_sort_correct [OF demo_graph_ok(1,2,4,3)] by (simp add: demo_graph_def insert_commute)

lemma topo_sort_deterministic_witness:
  "lexicographical_topological_sort demo_graph demo_key =
   lexicographical_topological_sort [(3, [0]), (2, [1, 0]), (1, [0]), (0, [])] demo_key"
  by (rule topo_sort_deterministic [OF demo_graph_ok(1) _ _ demo_graph_ok(3)])
    (auto simp: demo_graph_def)

lemma demo_sort: "lexicographical_topological_sort demo_graph demo_key = Some (Inr [0, 3, 1, 2])"
  by code_simp

text \<open>The sort also returns when a key cannot be computed: then its result is that error.\<close>

definition total_key :: "'id key_fn \<Rightarrow> 'id key_fn" where
  "total_key key_fn n = (case key_fn n of Inl _ \<Rightarrow> Inr (0, 0) | Inr p \<Rightarrow> Inr p)"

lemma total_key_total: "key_total (total_key key_fn) N"
  by (auto simp: key_total_def total_key_def split: sum.splits)

lemma clear_parents_total_key:
  "(\<exists>e. clear_parents key_fn n ps out heap = Inl e)
   \<or> clear_parents key_fn n ps out heap = clear_parents (total_key key_fn) n ps out heap"
proof (induction ps arbitrary: out heap)
  case (Cons p ps)
  show ?case
  proof (cases "map_of out p")
    case (Some es)
    then show ?thesis using Cons.IH
      by (cases "key_fn p") (auto simp: Let_def total_key_def)
  qed simp
qed simp

lemma zero_outdegree_total_key:
  "(\<exists>e. zero_outdegree key_fn g = Inl e) \<or> zero_outdegree key_fn g = zero_outdegree (total_key key_fn) g"
proof (induction key_fn g rule: zero_outdegree.induct)
  case (2 key_fn node edges g)
  then show ?case by (cases "key_fn node") (auto simp: total_key_def)
qed simp

lemma topo_loop_returns:
  assumes "hm_ok g" "topo_inv g (total_key key_fn) srt out heap"
  shows "\<exists>r. topo_loop key_fn (reverse_graph g) out heap srt = Some r
    \<and> (\<forall>xs. r = Inr xs \<longrightarrow> topo_loop (total_key key_fn) (reverse_graph g) out heap srt = Some (Inr xs))"
  using assms(2)
proof (induction "card (dom (map_of g) - set srt)" arbitrary: srt out heap rule: less_induct)
  case less
  show ?case
  proof (cases "heap_pop heap")
    case None
    then show ?thesis by (simp add: topo_loop.simps)
  next
    case (Some p)
    obtain item heap' where p: "p = (item, heap')" by (cases p)
    with Some have "heap_pop heap = Some (item, heap')" by simp
    with assms(1) total_key_total less.prems obtain n ps out' heap'' where step:
        "item = tie (total_key key_fn) n" "n \<in> available (map_of g) (set srt)"
        "map_of (reverse_graph g) n = Some ps"
        "clear_parents (total_key key_fn) n ps out heap' = Inr (out', heap'')"
        "topo_inv g (total_key key_fn) (srt @ [n]) out' heap''"
      by (rule topo_step) blast
    have "n \<in> dom (map_of g) - set srt" using step(2) by (auto simp: available_def)
    then have "card (dom (map_of g) - set (srt @ [n])) < card (dom (map_of g) - set srt)"
      by (intro psubset_card_mono) (auto simp: finite_dom_map_of)
    from less.hyps [OF this step(5)] show ?thesis
      using clear_parents_total_key [of key_fn n ps out heap'] step(1,3,4) p Some
      by (auto simp: topo_loop.simps [of _ _ out])
  qed
qed

lemma topo_sort_returns:
  assumes "hm_ok g"
  shows "\<exists>r. lexicographical_topological_sort g key_fn = Some r
    \<and> (\<forall>xs. r = Inr xs \<longrightarrow> lexicographical_topological_sort g (total_key key_fn) = Some (Inr xs))"
  using zero_outdegree_total_key [of key_fn g] zero_outdegree_ok [OF total_key_total, of key_fn g]
    topo_loop_returns [OF assms topo_inv_start [OF assms]]
  by (auto simp: lexicographical_topological_sort_def)

lemma topo_sort_nodes:
  assumes "hm_ok g" "lexicographical_topological_sort g key_fn = Some (Inr xs)"
  shows "set xs \<subseteq> dom (map_of g)"
proof -
  have "lexicographical_topological_sort g (total_key key_fn) = Some (Inr xs)"
    using topo_sort_returns [OF assms(1), of key_fn] assms(2) by simp
  with sort_greedy [OF assms(1) total_key_total, of key_fn] greedy_nodes show ?thesis
    by (metis Inr_inject option.inject)
qed

text \<open>Whatever the keys, a result of the sort is complete.\<close>

lemma topo_sort_all_nodes:
  assumes "hm_ok g" "graph_closed g" "acyclic (graph_edges g)"
    "lexicographical_topological_sort g key_fn = Some (Inr xs)"
  shows "distinct xs \<and> set xs = fst ` set g"
proof -
  have "lexicographical_topological_sort g (total_key key_fn) = Some (Inr xs)"
    using topo_sort_returns [OF assms(1), of key_fn] assms(4) by simp
  with topo_sort_ok [OF assms(1-3) total_key_total, of key_fn] show ?thesis by auto
qed

end
