(* ===== verification/AuthGraph.thy ===== *)
theory AuthGraph
  imports TopoSort EventAuth
begin

text \<open>
  The parts of state resolution that work on sets and graphs of event ids
  (\<^verbatim>\<open>src/core/matrix/state_res/mod.rs\<close>): the split of the state sets into conflicted and unconflicted
  state, the auth chain difference, the conflicted subgraph, the auth graph of the power events and its
  sort.  The asynchronous \<open>fetch_event\<close> closure is a function from ids to events.
\<close>

type_synonym 'v state_map = "(TypeStateKey, 'v) hash_map"
type_synonym fetch = "EventId \<Rightarrow> Pdu option"

section \<open>Concurrent futures\<close>

text \<open>
  The stream adaptors \<open>broad_*\<close> and \<open>broadn_*\<close> run futures concurrently and yield the results in the
  order in which they complete (\<open>buffer_unordered\<close>).  The order is chosen by the environment: \<open>c\<close> says
  at which place of the later results each result arrives.  Every order is one of these.
\<close>

fun unordered :: "(nat \<Rightarrow> nat) \<Rightarrow> 'a list \<Rightarrow> 'a list" where
  "unordered c [] = []"
| "unordered c (x # xs) =
     (let ys = unordered c xs; i = c (length xs) mod Suc (length xs)
      in take i ys @ x # drop i ys)"

lemma mset_unordered [simp]: "mset (unordered c xs) = mset xs"
proof (induction xs)
  case (Cons x xs)
  have "mset (take i ys) + mset (drop i ys) = mset ys" for i and ys :: "'a list"
    by (metis append_take_drop_id mset_append)
  with Cons show ?case by (simp add: Let_def)
qed simp

lemma set_unordered [simp]: "set (unordered c xs) = set xs"
  by (metis mset_unordered set_mset_mset)

lemma length_unordered [simp]: "length (unordered c xs) = length xs"
  by (metis mset_unordered size_mset)

lemma unordered_Nil_iff [simp]: "unordered c xs = [] \<longleftrightarrow> xs = []"
  by (metis length_0_conv length_unordered)

lemma distinct_unordered [simp]: "distinct (unordered c xs) = distinct xs"
  by (metis mset_unordered mset_eq_imp_distinct_iff)

lemma unordered_cong: "(\<And>i. i < length xs \<Longrightarrow> c i = d i) \<Longrightarrow> unordered c xs = unordered d xs"
  by (induction xs) auto

text \<open>No order is left out.\<close>

lemma unordered_complete: "mset ys = mset xs \<Longrightarrow> \<exists>c. unordered c xs = ys"
proof (induction xs arbitrary: ys)
  case (Cons x xs)
  have "x \<in> set ys" using Cons.prems by (metis list.set_intros(1) set_mset_mset)
  then obtain us vs where ys: "ys = us @ x # vs" by (auto simp: in_set_conv_decomp)
  then have "mset (us @ vs) = mset xs" using Cons.prems by simp
  with Cons.IH obtain c where c: "unordered c xs = us @ vs" by blast
  let ?c = "c(length xs := length us)"
  have "unordered ?c xs = us @ vs" using c by (metis fun_upd_other nat_neq_iff unordered_cong)
  moreover have "length us \<le> length xs" using c by (metis length_append length_unordered le_add1)
  ultimately have "unordered ?c (x # xs) = ys" by (simp add: ys)
  then show ?case by blast
qed simp

section \<open>Conflicted and unconflicted state\<close>

type_synonym ('k, 'id) occurrences = "('k, ('id, nat) hash_map) hash_map"

definition count_occurrence :: "'k \<times> 'id \<Rightarrow> ('k, 'id) occurrences \<Rightarrow> ('k, 'id) occurrences" where
  "count_occurrence kv occ =
     hm_modify (fst kv) [] (\<lambda>m. hm_modify (snd kv) 0 usize_saturating_inc m) occ"

definition separate_entry ::
    "nat \<Rightarrow> 'k \<times> 'id \<times> nat \<Rightarrow> ('k, 'id) hash_map \<times> ('k, 'id list) hash_map
     \<Rightarrow> ('k, 'id) hash_map \<times> ('k, 'id list) hash_map" where
  "separate_entry state_set_count e uc =
     (case e of (k, eid, occurrence_count) \<Rightarrow>
        if occurrence_count = state_set_count then (hm_insert k eid (fst uc), snd uc)
        else (fst uc, hm_modify k [] (\<lambda>x. x @ [eid]) (snd uc)))"

definition separate_entries :: "('k, 'id) occurrences \<Rightarrow> ('k \<times> 'id \<times> nat) list" where
  "separate_entries occ = concat (map (\<lambda>(k, v). map (\<lambda>(eid, c). (k, eid, c)) v) occ)"

definition separate ::
    "('k, 'id) hash_map list \<Rightarrow> ('k, 'id) hash_map \<times> ('k, 'id list) hash_map" where
  "separate state_sets =
     (let state_set_count = fold (\<lambda>_. usize_saturating_inc) state_sets 0;
          occurrences = fold count_occurrence (concat state_sets) []
      in fold (separate_entry state_set_count) (separate_entries occurrences) ([], []))"

section \<open>The auth chain difference\<close>

definition get_auth_chain_diff :: "'id hash_set list \<Rightarrow> 'id list" where
  "get_auth_chain_diff auth_chain_sets =
     (let num_sets = length auth_chain_sets;
          id_counts = fold (\<lambda>eid. hm_modify eid 0 Suc) (concat auth_chain_sets) []
      in map fst (filter (\<lambda>(eid, c). c < num_sets) id_counts))"

section \<open>The conflicted subgraph\<close>

text \<open>
  The closure \<open>next_event\<close>: empty frames are taken off the stack, each with the last entry of the path,
  and the last id of the last frame is the next event.  The stack and the path are kept top first; a
  frame is a list whose last element is popped first.
\<close>

fun next_event :: "'id list list \<Rightarrow> 'id list \<Rightarrow> ('id \<times> 'id list list \<times> 'id list) option" where
  "next_event [] path = None"
| "next_event (frame # stack) path =
     (if frame = [] then next_event stack (tl path)
      else Some (last frame, butlast frame # stack, path))"

record 'id subgraph_state =
  sg_stack :: "'id list list"
  sg_path :: "'id list"
  sg_subgraph :: "'id hash_set"
  sg_seen :: "'id hash_set"

text \<open>One turn of the \<open>while\<close> loop, with \<open>eid\<close> already taken from the stack.\<close>

definition subgraph_turn ::
    "'id hash_set \<Rightarrow> ('id \<Rightarrow> 'id list option) \<Rightarrow> 'id \<Rightarrow> 'id subgraph_state \<Rightarrow> 'id subgraph_state" where
  "subgraph_turn conflicted_events auth_events_of eid s =
     (let path = eid # sg_path s in
      if eid \<in> set (sg_subgraph s) then
        s\<lparr> sg_subgraph := (if length path > 1 then hs_extend (rev path) (sg_subgraph s)
             else sg_subgraph s) \<rparr>
      else
        let s' = (if eid \<in> set conflicted_events \<and> length path > 1
                  then s\<lparr> sg_subgraph := hs_extend (rev path) (sg_subgraph s) \<rparr> else s)
        in if eid \<in> set (sg_seen s') then s'
           else (case auth_events_of eid of
              None \<Rightarrow> s'
            | Some auths \<Rightarrow>
                s'\<lparr> sg_stack := auths # sg_stack s', sg_path := path,
                   sg_seen := hs_insert eid (sg_seen s') \<rparr>))"

partial_function (option) subgraph_loop ::
    "'id hash_set \<Rightarrow> ('id \<Rightarrow> 'id list option) \<Rightarrow> 'id subgraph_state \<Rightarrow> 'id hash_set option" where
  "subgraph_loop conflicted_events auth_events_of s =
     (case next_event (sg_stack s) (sg_path s) of
        None \<Rightarrow> Some (sg_subgraph s)
      | Some (eid, stack, path) \<Rightarrow>
          subgraph_loop conflicted_events auth_events_of
            (subgraph_turn conflicted_events auth_events_of eid
               (s\<lparr> sg_stack := stack, sg_path := path \<rparr>)))"

declare subgraph_loop.simps [code]

definition fetch_auth_events :: "fetch \<Rightarrow> EventId \<Rightarrow> EventId list option" where
  "fetch_auth_events fetch_event eid = map_option auth_events (fetch_event eid)"

definition calculate_conflicted_subgraph ::
    "('k, EventId list) hash_map \<Rightarrow> fetch \<Rightarrow> EventId hash_set option" where
  "calculate_conflicted_subgraph conflicted fetch_event =
     (let conflicted_events = hs_extend (concat (map snd conflicted)) []
      in subgraph_loop conflicted_events (fetch_auth_events fetch_event)
           \<lparr> sg_stack = [conflicted_events], sg_path = [], sg_subgraph = [], sg_seen = [] \<rparr>)"

section \<open>The auth graph of an event\<close>

text \<open>The \<open>for\<close> loop over the auth events of \<open>eid\<close>.\<close>

definition add_auth_event ::
    "'id hash_set \<Rightarrow> 'id \<Rightarrow> 'id \<Rightarrow> 'id graph \<times> 'id list \<Rightarrow> 'id graph \<times> 'id list" where
  "add_auth_event auth_diff eid aid gs =
     (if aid \<in> set auth_diff then
        (hm_modify eid [] (hs_insert aid) (fst gs),
         if map_of (fst gs) aid \<noteq> None then snd gs else aid # snd gs)
      else gs)"

partial_function (option) auth_graph_loop ::
    "'id hash_set \<Rightarrow> ('id \<Rightarrow> 'id list option) \<Rightarrow> 'id graph \<Rightarrow> 'id list \<Rightarrow> 'id graph option" where
  "auth_graph_loop auth_diff auth_events_of graph state =
     (case state of
        [] \<Rightarrow> Some graph
      | eid # rest \<Rightarrow>
          (let auths = (case auth_events_of eid of None \<Rightarrow> [] | Some as \<Rightarrow> as);
               gs = fold (add_auth_event auth_diff eid) auths (hm_modify eid [] id graph, rest)
           in auth_graph_loop auth_diff auth_events_of (fst gs) (snd gs)))"

declare auth_graph_loop.simps [code]

definition add_event_and_auth_chain_to_graph ::
    "EventId graph \<Rightarrow> EventId \<Rightarrow> EventId hash_set \<Rightarrow> fetch \<Rightarrow> EventId graph option" where
  "add_event_and_auth_chain_to_graph graph eid auth_diff fetch_event =
     auth_graph_loop auth_diff (fetch_auth_events fetch_event) graph [eid]"

section \<open>The sort of the power events\<close>

text \<open>
  The power level of an event's sender, from the first power levels event among its auth events in the
  order in which the fetches complete (\<open>broadn_filter_map\<close>).  The content is read with the string-tolerant deserialiser of \<open>PowerLevelsContentFields\<close>.
\<close>

definition get_power_level_for_sender :: "ruma \<Rightarrow> EventId \<Rightarrow> fetch \<Rightarrow> Error + js_int" where
  "get_power_level_for_sender R eid fetch_event =
     (let event = fetch_event eid;
          auth_evs = (case event of None \<Rightarrow> [] | Some e \<Rightarrow> auth_events e);
          pl = find (\<lambda>aev. is_type_and_key aev RoomPowerLevels [])
                 (unordered (completion R (FetchSenderPower eid)) (List.map_filter fetch_event auth_evs))
      in case pl of
           None \<Rightarrow> Inr 0
         | Some ev \<Rightarrow>
             rbind (deserialize_legacy_power_levels_content_fields R (content ev)) (\<lambda>c.
             Inr (case Option.bind event (\<lambda>e. get_user_power c (sender e)) of
                    Some user_level \<Rightarrow> user_level
                  | None \<Rightarrow> plf_users_default c)))"

definition power_event_key :: "ruma \<Rightarrow> fetch \<Rightarrow> (EventId, js_int) hash_map \<Rightarrow> EventId key_fn" where
  "power_event_key R fetch_event event_to_pl eid =
     rbind (ok_or NotFound (map_of event_to_pl eid)) (\<lambda>pl.
     rbind (ok_or NotFound (fetch_event eid)) (\<lambda>ev.
     Inr (pl, origin_server_ts ev)))"

fun auth_graph_of ::
    "EventId list \<Rightarrow> EventId hash_set \<Rightarrow> fetch \<Rightarrow> EventId graph \<Rightarrow> EventId graph option" where
  "auth_graph_of [] auth_diff fetch_event graph = Some graph"
| "auth_graph_of (eid # eids) auth_diff fetch_event graph =
     Option.bind (add_event_and_auth_chain_to_graph graph eid auth_diff fetch_event)
       (auth_graph_of eids auth_diff fetch_event)"

definition power_levels_of_graph :: "ruma \<Rightarrow> fetch \<Rightarrow> EventId graph \<Rightarrow> (EventId, js_int) hash_map" where
  "power_levels_of_graph R fetch_event graph =
     List.map_filter (\<lambda>eid. case get_power_level_for_sender R eid fetch_event of
         Inl _ \<Rightarrow> None | Inr pl \<Rightarrow> Some (eid, pl)) (map fst graph)"

definition reverse_topological_power_sort ::
    "ruma \<Rightarrow> EventId list \<Rightarrow> EventId hash_set \<Rightarrow> fetch \<Rightarrow> (Error + EventId list) option" where
  "reverse_topological_power_sort R events_to_sort auth_diff fetch_event =
     Option.bind (auth_graph_of events_to_sort auth_diff fetch_event []) (\<lambda>graph.
     lexicographical_topological_sort graph
       (power_event_key R fetch_event (power_levels_of_graph R fetch_event graph)))"

section \<open>The split is by agreement\<close>

definition occurrences_of :: "('k, 'id) occurrences \<Rightarrow> 'k \<Rightarrow> 'id \<Rightarrow> nat option" where
  "occurrences_of occ k i = Option.bind (map_of occ k) (\<lambda>m. map_of m i)"

lemma occurrences_of_count [simp]:
  "occurrences_of (count_occurrence (k', i') occ) k i =
     (if k = k' \<and> i = i' then
        Some (usize_saturating_inc (case occurrences_of occ k i of None \<Rightarrow> 0 | Some n \<Rightarrow> n))
      else occurrences_of occ k i)"
  by (auto simp: occurrences_of_def count_occurrence_def split: option.splits)

lemma occurrences_of_fold:
  "(case occurrences_of occ k i of None \<Rightarrow> 0 | Some n \<Rightarrow> n) + count_list ps (k, i) \<le> usize_max \<Longrightarrow>
   occurrences_of (fold count_occurrence ps occ) k i =
     (if (k, i) \<in> set ps
      then Some ((case occurrences_of occ k i of None \<Rightarrow> 0 | Some n \<Rightarrow> n) + count_list ps (k, i))
      else occurrences_of occ k i)"
proof (induction ps arbitrary: occ)
  case (Cons p ps)
  obtain k' i' where p: "p = (k', i')" by (cases p)
  show ?case
  proof (cases "k = k' \<and> i = i'")
    case True
    let ?n = "case occurrences_of occ k i of None \<Rightarrow> 0 | Some n \<Rightarrow> n"
    have "occurrences_of (count_occurrence p occ) k i = Some (Suc ?n)"
      using True p Cons.prems by (auto simp: usize_saturating_inc_def)
    with True p Cons.prems Cons.IH [of "count_occurrence p occ"] show ?thesis
      by (auto simp: count_list_0_iff [symmetric] simp del: count_list_0_iff)
  next
    case False
    with p Cons show ?thesis by auto
  qed
qed simp

definition occ_ok :: "('k, 'id) occurrences \<Rightarrow> bool" where
  "occ_ok occ \<longleftrightarrow> hm_ok occ \<and> (\<forall>k. case map_of occ k of None \<Rightarrow> True | Some m \<Rightarrow> hm_ok m)"

lemma occ_ok_count: "occ_ok occ \<Longrightarrow> occ_ok (count_occurrence p occ)"
proof -
  assume occ: "occ_ok occ"
  have "hm_ok (case map_of occ (fst p) of None \<Rightarrow> [] | Some m \<Rightarrow> m)"
    using occ by (auto simp only: occ_ok_def split: option.splits) simp
  then show ?thesis
    using occ by (simp add: occ_ok_def count_occurrence_def)
qed

lemma occ_ok_fold: "occ_ok occ \<Longrightarrow> occ_ok (fold count_occurrence ps occ)"
  by (induction ps arbitrary: occ) (simp_all add: occ_ok_count)

lemma occ_okD: "occ_ok occ \<Longrightarrow> map_of occ k = Some m \<Longrightarrow> hm_ok m"
  unfolding occ_ok_def by (elim conjE allE [of _ k]) simp

lemma separate_entries_iff:
  assumes "occ_ok occ"
  shows "(k, i, n) \<in> set (separate_entries occ) \<longleftrightarrow> occurrences_of occ k i = Some n"
proof -
  have "(k, i, n) \<in> set (separate_entries occ) \<longleftrightarrow> (\<exists>m. (k, m) \<in> set occ \<and> (i, n) \<in> set m)"
    by (force simp: separate_entries_def)
  also have "\<dots> \<longleftrightarrow> (\<exists>m. map_of occ k = Some m \<and> map_of m i = Some n)"
    using occ_okD [OF assms] map_of_hm_ok occ_ok_def assms by metis
  finally show ?thesis by (auto simp: occurrences_of_def split: bind_splits)
qed

lemma separate_entry_simps [simp]:
  "separate_entry c (k, i, n) (u, w) =
     (if n = c then (hm_insert k i u, w) else (u, hm_modify k [] (\<lambda>x. x @ [i]) w))"
  by (simp add: separate_entry_def)

definition ids_at :: "('k, 'id list) hash_map \<Rightarrow> 'k \<Rightarrow> 'id set" where
  "ids_at c k = (case map_of c k of None \<Rightarrow> {} | Some is \<Rightarrow> set is)"

lemma ids_at_Nil [simp]: "ids_at [] k = {}"
  by (simp add: ids_at_def)

lemma ids_at_modify:
  "ids_at (hm_modify k' [] (\<lambda>x. x @ [i]) w) k = ids_at w k \<union> (if k = k' then {i} else {})"
  by (simp add: ids_at_def split: option.splits)

text \<open>What the final loop does with a list of entries.\<close>

lemma separate_loop:
  "fold (separate_entry c) es (u, w) = (u', w') \<Longrightarrow>
   (hm_ok u \<longrightarrow> hm_ok u') \<and> (hm_ok w \<longrightarrow> hm_ok w')
   \<and> (\<forall>k. (\<exists>i. (k, i, c) \<in> set es) \<longrightarrow> (\<exists>i. map_of u' k = Some i \<and> (k, i, c) \<in> set es))
   \<and> (\<forall>k. (\<nexists>i. (k, i, c) \<in> set es) \<longrightarrow> map_of u' k = map_of u k)
   \<and> (\<forall>k. ids_at w' k =
        ids_at w k \<union> {i. \<exists>n. (k, i, n) \<in> set es \<and> n \<noteq> c})"
proof (induction es arbitrary: u' w' rule: rev_induct)
  case (snoc e es)
  obtain k i n where e: "e = (k, i, n)" by (cases e)
  obtain u1 w1 where mid: "fold (separate_entry c) es (u, w) = (u1, w1)" by fastforce
  note IH = snoc.IH [OF mid]
  show ?case
  proof (cases "n = c")
    case True
    then have "u' = hm_insert k i u1" "w' = w1"
      using snoc.prems mid e by auto
    with IH e True show ?thesis by auto
  next
    case False
    then have "u' = u1" "w' = hm_modify k [] (\<lambda>x. x @ [i]) w1"
      using snoc.prems mid e by auto
    with IH e False show ?thesis by (auto simp: ids_at_modify)
  qed
qed auto

lemma count_list_distinct: "distinct xs \<Longrightarrow> count_list xs x = (if x \<in> set xs then 1 else 0)"
  by (induction xs) auto

lemma count_list_states:
  "(\<And>m. m \<in> set ms \<Longrightarrow> hm_ok m) \<Longrightarrow>
   count_list (concat ms) (k, i) = length (filter (\<lambda>m. map_of m k = Some i) ms)"
proof (induction ms)
  case (Cons m ms)
  have "count_list m (k, i) = (if map_of m k = Some i then 1 else 0)"
    using Cons.prems [of m] map_of_hm_ok [of m k i] count_list_distinct [of m "(k, i)"]
    by (auto simp: distinct_map)
  with Cons show ?case by auto
qed simp

lemma fold_usize_inc: "n + length xs \<le> usize_max \<Longrightarrow>
    fold (\<lambda>_. usize_saturating_inc) xs n = n + length xs"
  by (induction xs arbitrary: n) (auto simp: usize_saturating_inc_def)

lemma length_filter_eq: "length (filter P xs) = length xs \<longleftrightarrow> (\<forall>x \<in> set xs. P x)"
  by (metis filter_True length_filter_less less_irrefl)

lemma separate_ok:
  assumes "\<forall>m \<in> set ms. hm_ok m" "length ms \<le> usize_max" "separate ms = (u, c)"
  shows "hm_ok u \<and> hm_ok c
    \<and> (\<forall>k i. map_of u k = Some i \<longleftrightarrow> ms \<noteq> [] \<and> (\<forall>m \<in> set ms. map_of m k = Some i))
    \<and> (\<forall>k i. i \<in> ids_at c k \<longleftrightarrow>
         (\<exists>m \<in> set ms. map_of m k = Some i) \<and> (\<exists>m \<in> set ms. map_of m k \<noteq> Some i))"
proof -
  let ?occ = "fold count_occurrence (concat ms) []"
  let ?es = "separate_entries ?occ"
  have cnt: "count_list (concat ms) (k, i) = length (filter (\<lambda>m. map_of m k = Some i) ms)" for k i
    using assms(1) by (intro count_list_states) auto
  have occ: "(k, i, n) \<in> set ?es \<longleftrightarrow>
      (\<exists>m \<in> set ms. map_of m k = Some i) \<and> n = length (filter (\<lambda>m. map_of m k = Some i) ms)" for k i n
  proof -
    have "occ_ok ?occ" by (rule occ_ok_fold) (simp add: occ_ok_def)
    moreover have "count_list (concat ms) (k, i) \<le> usize_max"
      using assms(2) length_filter_le [of _ ms] cnt by (metis order_trans)
    moreover have "(k, i) \<in> set (concat ms) \<longleftrightarrow> (\<exists>m \<in> set ms. map_of m k = Some i)"
      using assms(1) by (auto simp: map_of_hm_ok)
    ultimately show ?thesis
      using occurrences_of_fold [of "[]" k i "concat ms"]
      by (auto simp: separate_entries_iff occurrences_of_def cnt)
  qed
  have all: "length (filter (\<lambda>m. map_of m k = Some i) ms) = length ms \<longleftrightarrow> (\<forall>m \<in> set ms. map_of m k = Some i)"
    for k i by (rule length_filter_eq)
  have "fold (separate_entry (length ms)) ?es ([], []) = (u, c)"
    using assms(2,3) fold_usize_inc [of 0 ms] by (simp add: separate_def)
  note loop = separate_loop [OF this]
  have entry: "(k, i, length ms) \<in> set ?es \<longleftrightarrow> ms \<noteq> [] \<and> (\<forall>m \<in> set ms. map_of m k = Some i)" for k i
    unfolding occ using all [of k i] by (cases "ms = []") (auto, metis last_in_set)
  have "map_of u k = Some i \<longleftrightarrow> ms \<noteq> [] \<and> (\<forall>m \<in> set ms. map_of m k = Some i)" for k i
  proof (cases "\<exists>i. (k, i, length ms) \<in> set ?es")
    case True
    then obtain j where "map_of u k = Some j" "(k, j, length ms) \<in> set ?es" using loop by blast
    then show ?thesis unfolding entry by (cases ms) auto
  next
    case False
    with loop have "map_of u k = None" by simp
    with False show ?thesis unfolding entry by auto
  qed
  moreover have "i \<in> ids_at c k \<longleftrightarrow>
      (\<exists>m \<in> set ms. map_of m k = Some i) \<and> (\<exists>m \<in> set ms. map_of m k \<noteq> Some i)" for k i
  proof -
    have "i \<in> ids_at c k \<longleftrightarrow>
        (\<exists>n. (k, i, n) \<in> set ?es \<and> n \<noteq> length ms)" using loop by simp
    then show ?thesis unfolding occ using all [of k i] by auto
  qed
  ultimately show ?thesis using loop by simp
qed

lemma separate_nonempty:
  assumes "separate ms = (u, c)" "map_of c k = Some is"
  shows "is \<noteq> []"
proof -
  have "map_of (snd (fold (separate_entry n) es ([], []))) j \<noteq> Some []"
    for n j and es :: "('a \<times> 'b \<times> nat) list"
  proof (induction es arbitrary: j rule: rev_induct)
    case (snoc e es)
    obtain u w where "fold (separate_entry n) es ([], []) = (u, w)" by fastforce
    with snoc show ?case by (cases e) auto
  qed simp
  then show ?thesis using assms by (metis separate_def snd_conv)
qed

text \<open>
  \<open>separate\<close> splits by agreement: an entry is unconflicted exactly when every state set has that id
  under the key, and an id is conflicted exactly when some state set has it and some does not.
\<close>

lemma separate_correct:
  assumes "\<forall>m \<in> set ms. hm_ok m" "length ms \<le> usize_max" "separate ms = (u, c)"
  shows "hm_ok u \<and> hm_ok c
    \<and> (\<forall>k i. map_of u k = Some i \<longleftrightarrow> ms \<noteq> [] \<and> (\<forall>m \<in> set ms. map_of m k = Some i))
    \<and> (\<forall>k i. i \<in> ids_at c k \<longleftrightarrow>
         (\<exists>m \<in> set ms. map_of m k = Some i) \<and> (\<exists>m \<in> set ms. map_of m k \<noteq> Some i))"
  using assms by (rule separate_ok)

section \<open>The auth chain difference\<close>

lemma map_of_counts:
  "map_of (fold (\<lambda>eid. hm_modify eid 0 Suc) xs m) i =
     (if i \<in> set xs then Some ((case map_of m i of None \<Rightarrow> 0 | Some n \<Rightarrow> n) + count_list xs i)
      else map_of m i)"
  by (induction xs arbitrary: m) (auto simp: count_list_0_iff split: option.splits)

lemma hm_ok_counts: "hm_ok m \<Longrightarrow> hm_ok (fold (\<lambda>eid. hm_modify eid 0 Suc) xs m)"
  by (induction xs arbitrary: m) auto

lemma count_list_concat_distinct:
  "(\<And>s. s \<in> set ss \<Longrightarrow> distinct s) \<Longrightarrow>
   count_list (concat ss) x = length (filter (\<lambda>s. x \<in> set s) ss)"
  by (induction ss) (auto simp: count_list_distinct)

text \<open>
  The auth chain difference is the union of the auth chains without their intersection, each id
  once.
\<close>

lemma auth_chain_diff_correct:
  assumes "\<forall>s \<in> set ss. distinct s"
  shows "distinct (get_auth_chain_diff ss)
    \<and> set (get_auth_chain_diff ss) = (\<Union>s \<in> set ss. set s) - (\<Inter>s \<in> set ss. set s)"
proof -
  let ?c = "fold (\<lambda>eid. hm_modify eid 0 Suc) (concat ss) []"
  have ok: "hm_ok ?c" by (rule hm_ok_counts) simp
  have cnt: "count_list (concat ss) x = length (filter (\<lambda>s. x \<in> set s) ss)" for x
    using assms by (intro count_list_concat_distinct) auto
  have "(x, n) \<in> set ?c \<longleftrightarrow> x \<in> set (concat ss) \<and> n = count_list (concat ss) x" for x n
    using map_of_hm_ok [OF ok, of x n] map_of_counts [of "concat ss" "[]" x]
    by (auto split: if_splits)
  then have "x \<in> set (get_auth_chain_diff ss) \<longleftrightarrow>
      x \<in> set (concat ss) \<and> length (filter (\<lambda>s. x \<in> set s) ss) < length ss" for x
    by (force simp: get_auth_chain_diff_def cnt)
  moreover have "length (filter (\<lambda>s. x \<in> set s) ss) < length ss \<longleftrightarrow> (\<exists>s \<in> set ss. x \<notin> set s)" for x
    using length_filter_eq [of "\<lambda>s. x \<in> set s" ss] length_filter_le [of "\<lambda>s. x \<in> set s" ss]
    by (auto simp: le_less)
  ultimately have "set (get_auth_chain_diff ss) = (\<Union>s \<in> set ss. set s) - (\<Inter>s \<in> set ss. set s)"
    by auto
  moreover have "distinct (get_auth_chain_diff ss)"
    using ok by (auto simp: get_auth_chain_diff_def distinct_map inj_on_def intro: distinct_filter)
  ultimately show ?thesis by simp
qed

section \<open>The auth graph\<close>

text \<open>
  The loop ends: a popped id is either new, and one id fewer is left outside the graph, or already in
  the graph, and then only ids outside the graph are pushed in its place.
\<close>

definition auths_in :: "'id hash_set \<Rightarrow> ('id \<Rightarrow> 'id list option) \<Rightarrow> 'id \<Rightarrow> 'id set" where
  "auths_in auth_diff f eid = (case f eid of None \<Rightarrow> {} | Some as \<Rightarrow> set as \<inter> set auth_diff)"

lemma add_auth_events:
  assumes "fold (add_auth_event diff eid) as (g, st) = (g', st')" "eid \<in> dom (map_of g)"
  shows "dom (map_of g') = dom (map_of g)"
    "\<And>n. n \<noteq> eid \<Longrightarrow> map_of g' n = map_of g n"
    "set (the (map_of g' eid)) = set (the (map_of g eid)) \<union> (set as \<inter> set diff)"
    "hm_ok g \<Longrightarrow> hm_ok g'" "distinct (the (map_of g eid)) \<Longrightarrow> distinct (the (map_of g' eid))"
    "\<exists>new. st' = new @ st \<and> set new = set as \<inter> set diff - dom (map_of g)"
proof -
  have "dom (map_of g') = dom (map_of g) \<and> (\<forall>n. n \<noteq> eid \<longrightarrow> map_of g' n = map_of g n)
    \<and> set (the (map_of g' eid)) = set (the (map_of g eid)) \<union> (set as \<inter> set diff)
    \<and> (hm_ok g \<longrightarrow> hm_ok g') \<and> (distinct (the (map_of g eid)) \<longrightarrow> distinct (the (map_of g' eid)))
    \<and> (\<exists>new. st' = new @ st \<and> set new = set as \<inter> set diff - dom (map_of g))"
    using assms
  proof (induction as arbitrary: g' st' rule: rev_induct)
    case (snoc a as)
    obtain g1 st1 where mid: "fold (add_auth_event diff eid) as (g, st) = (g1, st1)" by fastforce
    note IH = snoc.IH [OF mid snoc.prems(2)]
    have last: "add_auth_event diff eid a (g1, st1) = (g', st')" using snoc.prems(1) mid by simp
    from IH obtain new where new: "st1 = new @ st" "set new = set as \<inter> set diff - dom (map_of g)" by blast
    have keys: "map_of g1 a \<noteq> None \<longleftrightarrow> a \<in> dom (map_of g)" using IH by blast
    show ?case
    proof (cases "a \<in> set diff")
      case True
      have g': "g' = hm_modify eid [] (hs_insert a) g1"
        and st': "st' = (if a \<in> dom (map_of g) then st1 else a # st1)"
        using last True keys by (auto simp: add_auth_event_def split: if_splits)
      have "\<exists>new'. st' = new' @ st \<and> set new' = set (as @ [a]) \<inter> set diff - dom (map_of g)"
        using new True st' by (cases "a \<in> dom (map_of g)") (auto intro: exI [of _ "a # new"])
      moreover obtain es where es: "map_of g1 eid = Some es" using IH snoc.prems(2) by blast
      then have "set (the (map_of g' eid)) = set (the (map_of g eid)) \<union> (set (as @ [a]) \<inter> set diff)"
        using IH True by (auto simp: g')
      moreover have "dom (map_of g') = dom (map_of g)"
        using IH snoc.prems(2) by (simp add: g' insert_absorb)
      moreover have "\<forall>n. n \<noteq> eid \<longrightarrow> map_of g' n = map_of g n" "hm_ok g \<longrightarrow> hm_ok g'"
          "distinct (the (map_of g eid)) \<longrightarrow> distinct (the (map_of g' eid))"
        using IH es by (simp_all add: g')
      ultimately show ?thesis by blast
    next
      case False
      then have "g' = g1" "st' = st1" using last by (auto simp: add_auth_event_def)
      with IH False show ?thesis by auto
    qed
  qed auto
  then show "dom (map_of g') = dom (map_of g)"
    "\<And>n. n \<noteq> eid \<Longrightarrow> map_of g' n = map_of g n"
    "set (the (map_of g' eid)) = set (the (map_of g eid)) \<union> (set as \<inter> set diff)"
    "hm_ok g \<Longrightarrow> hm_ok g'" "distinct (the (map_of g eid)) \<Longrightarrow> distinct (the (map_of g' eid))"
    "\<exists>new. st' = new @ st \<and> set new = set as \<inter> set diff - dom (map_of g)"
    by simp_all
qed

definition auth_rel :: "'id hash_set \<Rightarrow> ('id \<Rightarrow> 'id list option) \<Rightarrow> ('id \<times> 'id) set" where
  "auth_rel diff f = {(n, a). a \<in> auths_in diff f n}"

definition auth_inv :: "'id hash_set \<Rightarrow> ('id \<Rightarrow> 'id list option) \<Rightarrow> 'id graph \<Rightarrow> 'id list \<Rightarrow> bool" where
  "auth_inv diff f g st \<longleftrightarrow> hm_ok g \<and>
     (\<forall>n \<in> dom (map_of g). distinct (the (map_of g n)) \<and> set (the (map_of g n)) = auths_in diff f n
        \<and> auths_in diff f n \<subseteq> dom (map_of g) \<union> set st)"

lemma auth_graph_turn:
  assumes "auth_inv diff f g (eid # rest)"
    "fold (add_auth_event diff eid) (case f eid of None \<Rightarrow> [] | Some as \<Rightarrow> as)
       (hm_modify eid [] id g, rest) = (g', st')"
  shows "auth_inv diff f g' st'" "dom (map_of g') = insert eid (dom (map_of g))"
    "\<exists>new. st' = new @ rest \<and> set new = auths_in diff f eid - dom (map_of g')"
proof -
  let ?as = "case f eid of None \<Rightarrow> [] | Some as \<Rightarrow> as" and ?g = "hm_modify eid [] id g"
  have as: "set ?as \<inter> set diff = auths_in diff f eid"
    by (simp add: auths_in_def split: option.splits)
  have "eid \<in> dom (map_of ?g)" by simp
  note turn = add_auth_events [OF assms(2) this, unfolded as]
  show dom: "dom (map_of g') = insert eid (dom (map_of g))" using turn(1) by simp
  show new: "\<exists>new. st' = new @ rest \<and> set new = auths_in diff f eid - dom (map_of g')"
    using turn(1,6) by simp
  have old: "the (map_of ?g n) = (if n \<in> dom (map_of g) then the (map_of g n) else [])"
    if "n \<in> dom (map_of ?g)" for n
    using that by (auto split: option.splits if_splits)
  have inv: "distinct (the (map_of g n))" "set (the (map_of g n)) = auths_in diff f n"
      "auths_in diff f n \<subseteq> insert eid (dom (map_of g)) \<union> set rest" if "n \<in> dom (map_of g)" for n
    using assms(1) that by (auto simp: auth_inv_def)
  have "hm_ok g'" using turn(4) assms(1) by (simp add: auth_inv_def)
  moreover have "distinct (the (map_of g' n)) \<and> set (the (map_of g' n)) = auths_in diff f n
      \<and> auths_in diff f n \<subseteq> dom (map_of g') \<union> set st'" if n: "n \<in> dom (map_of g')" for n
  proof (cases "n = eid")
    case True
    have "the (map_of ?g eid) = (if eid \<in> dom (map_of g) then the (map_of g eid) else [])"
      by (rule old) simp
    with turn(3,5) inv [of eid] new True show ?thesis by (auto split: if_splits)
  next
    case False
    then have "n \<in> dom (map_of g)" "map_of g' n = map_of g n" using n dom turn(2) by auto
    with inv [of n] new dom show ?thesis by auto
  qed
  ultimately show "auth_inv diff f g' st'" by (simp add: auth_inv_def)
qed

lemma subset_insert_Un:
  "B \<subseteq> A \<Longrightarrow> e \<in> A \<Longrightarrow> D \<subseteq> insert e G \<union> B \<Longrightarrow> D \<subseteq> G \<union> A"
  by auto

lemma auth_graph_loop_correct:
  assumes "auth_inv diff f g st" "finite U" "set st \<union> set diff \<subseteq> U"
  shows "\<exists>g'. auth_graph_loop diff f g st = Some g' \<and> auth_inv diff f g' []
    \<and> dom (map_of g) \<union> set st \<subseteq> dom (map_of g')
    \<and> dom (map_of g') \<subseteq> dom (map_of g) \<union> (auth_rel diff f)\<^sup>* `` set st"
proof -
  let ?M = "measures [\<lambda>(g, st). card (U - dom (map_of g)),
    \<lambda>(g, st). length (filter (\<lambda>e. e \<in> dom (map_of g)) st)]"
  have "wf ?M" by (rule wf_measures)
  then show ?thesis
    using assms(1,3)
  proof (induction "(g, st)" arbitrary: g st rule: wf_induct_rule)
    case less
    show ?case
    proof (cases st)
      case Nil
      with less.prems show ?thesis by (simp add: auth_graph_loop.simps)
    next
      case (Cons eid rest)
      obtain g' st' where turn: "fold (add_auth_event diff eid)
          (case f eid of None \<Rightarrow> [] | Some as \<Rightarrow> as) (hm_modify eid [] id g, rest) = (g', st')"
        by fastforce
      note facts = auth_graph_turn [OF less.prems(1) [unfolded Cons] turn]
      obtain new where new: "st' = new @ rest" "set new = auths_in diff f eid - dom (map_of g')"
        using facts(3) by blast
      have new_U: "set st' \<union> set diff \<subseteq> U"
        using less.prems(2) Cons new by (auto simp: auths_in_def split: option.splits)
      have "length (filter (\<lambda>e. e \<in> dom (map_of g')) st') < length (filter (\<lambda>e. e \<in> dom (map_of g)) st)"
        if "eid \<in> dom (map_of g)"
        using new Cons facts(2) that by (auto simp: filter_empty_conv insert_absorb)
      moreover have "card (U - dom (map_of g')) < card (U - dom (map_of g))" if "eid \<notin> dom (map_of g)"
        using assms(2) less.prems(2) Cons facts(2) that by (intro psubset_card_mono) auto
      ultimately have "((g', st'), (g, st)) \<in> ?M"
        using facts(2) by (cases "eid \<in> dom (map_of g)") (auto simp: insert_absorb)
      from less.hyps [OF this facts(1) new_U] obtain h where h:
          "auth_graph_loop diff f g' st' = Some h" "auth_inv diff f h []"
          "dom (map_of g') \<union> set st' \<subseteq> dom (map_of h)"
          "dom (map_of h) \<subseteq> dom (map_of g') \<union> (auth_rel diff f)\<^sup>* `` set st'"
        by blast
      have "set st' \<subseteq> (auth_rel diff f)\<^sup>* `` set st" using new Cons by (auto simp: auth_rel_def)
      then have sub: "(auth_rel diff f)\<^sup>* `` set st' \<subseteq> (auth_rel diff f)\<^sup>* `` set st"
        by (blast intro: rtrancl_trans)
      have "eid \<in> (auth_rel diff f)\<^sup>* `` set st" using Cons by auto
      from subset_insert_Un [OF sub this h(4) [unfolded facts(2)]]
      have "dom (map_of h) \<subseteq> dom (map_of g) \<union> (auth_rel diff f)\<^sup>* `` set st" .
      moreover have "auth_graph_loop diff f g st = Some h"
        using h(1) turn Cons by (simp add: auth_graph_loop.simps [of _ _ g])
      moreover have "dom (map_of g) \<union> set st \<subseteq> dom (map_of h)"
        using h(3) facts(2) new(1) Cons by auto
      ultimately show ?thesis using h(2) by blast
    qed
  qed
qed

definition fetched_auths :: "fetch \<Rightarrow> (EventId \<times> EventId) set" where
  "fetched_auths fetch_event = {(a, n). \<exists>e. fetch_event n = Some e \<and> a \<in> set (auth_events e)}"

lemma auth_graph_of_correct:
  assumes "auth_inv diff (fetch_auth_events fetch_event) g []"
  shows "\<exists>g'. auth_graph_of eids diff fetch_event g = Some g'
    \<and> auth_inv diff (fetch_auth_events fetch_event) g' []
    \<and> dom (map_of g) \<union> set eids \<subseteq> dom (map_of g')
    \<and> dom (map_of g') \<subseteq> dom (map_of g) \<union> (auth_rel diff (fetch_auth_events fetch_event))\<^sup>* `` set eids"
  using assms
proof (induction eids arbitrary: g)
  case (Cons eid eids)
  let ?f = "fetch_auth_events fetch_event" and ?R = "auth_rel diff (fetch_auth_events fetch_event)"
  have "auth_inv diff ?f g [eid]" using Cons.prems by (auto simp: auth_inv_def)
  from auth_graph_loop_correct [OF this, of "insert eid (set diff)"] obtain g1 where g1:
      "auth_graph_loop diff ?f g [eid] = Some g1" "auth_inv diff ?f g1 []"
      "dom (map_of g) \<union> {eid} \<subseteq> dom (map_of g1)"
      "dom (map_of g1) \<subseteq> dom (map_of g) \<union> ?R\<^sup>* `` {eid}"
    by auto
  from Cons.IH [OF g1(2)] obtain g2 where g2: "auth_graph_of eids diff fetch_event g1 = Some g2"
      "auth_inv diff ?f g2 []" "dom (map_of g1) \<union> set eids \<subseteq> dom (map_of g2)"
      "dom (map_of g2) \<subseteq> dom (map_of g1) \<union> ?R\<^sup>* `` set eids"
    by blast
  have "?R\<^sup>* `` set (eid # eids) = ?R\<^sup>* `` {eid} \<union> ?R\<^sup>* `` set eids" by auto
  with g1(4) g2(4) have "dom (map_of g2) \<subseteq> dom (map_of g) \<union> ?R\<^sup>* `` set (eid # eids)"
    by (simp only:) blast
  moreover have "dom (map_of g) \<union> set (eid # eids) \<subseteq> dom (map_of g2)" using g1(3) g2(3) by auto
  ultimately show ?case
    using g1(1) g2(1,2) by (simp add: add_event_and_auth_chain_to_graph_def)
qed (simp add: auth_inv_def)

lemma auth_inv_closed_graph:
  assumes "auth_inv diff f g []"
  shows "hm_ok g" "graph_closed g" "graph_edges g \<subseteq> (auth_rel diff f)\<inverse>"
    "\<And>A. A \<subseteq> dom (map_of g) \<Longrightarrow> (auth_rel diff f)\<^sup>* `` A \<subseteq> dom (map_of g)"
proof -
  have inv: "set es = auths_in diff f n" "auths_in diff f n \<subseteq> dom (map_of g)"
    if "map_of g n = Some es" for n es
    using assms that unfolding auth_inv_def by (metis domI option.sel, metis domI list.set(1) sup_bot_right)
  show "hm_ok g" using assms by (simp add: auth_inv_def)
  then show "graph_closed g"
    unfolding graph_closed_def using inv map_of_hm_ok
    by (metis (mono_tags, lifting) case_prodI2 dom_map_of_conv_image_fst)
  show "graph_edges g \<subseteq> (auth_rel diff f)\<inverse>"
    using inv(1) by (auto simp: graph_edges_def auth_rel_def)
  fix A assume A: "A \<subseteq> dom (map_of g)"
  have "y \<in> dom (map_of g)" if "(x, y) \<in> (auth_rel diff f)\<^sup>*" "x \<in> dom (map_of g)" for x y
    using that(1) that(2) inv(2) by (induction rule: rtrancl_induct) (auto simp: auth_rel_def)
  then show "(auth_rel diff f)\<^sup>* `` A \<subseteq> dom (map_of g)" using A by blast
qed

lemma power_sort_total:
  "\<exists>r. reverse_topological_power_sort R eids diff fetch_event = Some r
    \<and> (\<forall>xs. r = Inr xs \<longrightarrow> set xs \<subseteq> set eids \<union> set diff)"
proof -
  let ?f = "fetch_auth_events fetch_event"
  have "auth_inv diff ?f [] []" by (simp add: auth_inv_def)
  from auth_graph_of_correct [OF this, of eids] obtain g where g:
      "auth_graph_of eids diff fetch_event [] = Some g" "auth_inv diff ?f g []"
      "dom (map_of g) \<subseteq> (auth_rel diff ?f)\<^sup>* `` set eids"
    by auto
  have "(x, y) \<in> (auth_rel diff ?f)\<^sup>* \<Longrightarrow> x \<in> set eids \<Longrightarrow> y \<in> set eids \<union> set diff" for x y
    by (induction rule: rtrancl_induct) (auto simp: auth_rel_def auths_in_def split: option.splits)
  then have nodes: "dom (map_of g) \<subseteq> set eids \<union> set diff" using g(3) by blast
  note ok = auth_inv_closed_graph(1) [OF g(2)]
  show ?thesis
    using topo_sort_returns [OF ok] topo_sort_nodes [OF ok] nodes g(1)
    unfolding reverse_topological_power_sort_def by (metis (no_types, lifting) bind.bind_lunit order_trans)
qed

lemma map_of_power_levels:
  "map_of (power_levels_of_graph R fetch_event g) n =
     (if n \<in> fst ` set g then (case get_power_level_for_sender R n fetch_event of
         Inl _ \<Rightarrow> None | Inr pl \<Rightarrow> Some pl) else None)"
proof -
  have "map_of (List.map_filter (\<lambda>x. case h x of Inl _ \<Rightarrow> None | Inr y \<Rightarrow> Some (x, y)) xs) n =
      (if n \<in> set xs then (case h n of Inl _ \<Rightarrow> None | Inr y \<Rightarrow> Some y) else None)"
    for h :: "EventId \<Rightarrow> Error + js_int" and xs
    by (induction xs) (auto simp: List.map_filter_simps split: sum.splits)
  then show ?thesis by (simp add: power_levels_of_graph_def)
qed

lemma acyclic_graph_edges:
  assumes "auth_inv diff (fetch_auth_events fetch_event) g []" "acyclic (fetched_auths fetch_event)"
  shows "acyclic (graph_edges g)"
proof (rule acyclic_subset [OF assms(2)])
  show "graph_edges g \<subseteq> fetched_auths fetch_event"
    using auth_inv_closed_graph(3) [OF assms(1)]
    by (fastforce simp: fetched_auths_def auth_rel_def auths_in_def fetch_auth_events_def
        split: option.splits)
qed

lemma power_sort_nodes:
  assumes "acyclic (fetched_auths fetch_event)"
    "reverse_topological_power_sort R eids diff fetch_event = Some (Inr xs)"
  shows "distinct xs \<and> set xs = (auth_rel diff (fetch_auth_events fetch_event))\<^sup>* `` set eids"
proof -
  let ?f = "fetch_auth_events fetch_event"
  have "auth_inv diff ?f [] []" by (simp add: auth_inv_def)
  from auth_graph_of_correct [OF this, of eids] obtain g where g:
      "auth_graph_of eids diff fetch_event [] = Some g" "auth_inv diff ?f g []"
      "set eids \<subseteq> dom (map_of g)" "dom (map_of g) \<subseteq> (auth_rel diff ?f)\<^sup>* `` set eids"
    by auto
  note closed = auth_inv_closed_graph [OF g(2)]
  have "fst ` set g = (auth_rel diff ?f)\<^sup>* `` set eids"
    using g(4) closed(4) [OF g(3)] by (simp add: dom_map_of_conv_image_fst)
  then show ?thesis
    using topo_sort_all_nodes [OF closed(1,2) acyclic_graph_edges [OF g(2) assms(1)]] assms(2) g(1)
    by (simp add: reverse_topological_power_sort_def)
qed

text \<open>The events that can be sorted: present, with a power level for their sender.\<close>

definition sortable :: "ruma \<Rightarrow> fetch \<Rightarrow> EventId \<Rightarrow> bool" where
  "sortable R fetch_event n \<longleftrightarrow>
     fetch_event n \<noteq> None \<and> (\<exists>pl. get_power_level_for_sender R n fetch_event = Inr pl)"

text \<open>
  C34: When the auth events are acyclic and the events can be fetched and have readable power levels, the
  sort lists exactly the events reachable from the given ones inside the full conflicted set, each once
  and after those of its auth events that are in the set.
\<close>

theorem power_sort_correct:
  assumes "acyclic (fetched_auths fetch_event)" "\<forall>n \<in> set eids \<union> set diff. sortable R fetch_event n"
  shows "\<exists>xs. reverse_topological_power_sort R eids diff fetch_event = Some (Inr xs) \<and> distinct xs
    \<and> set xs = (auth_rel diff (fetch_auth_events fetch_event))\<^sup>* `` set eids
    \<and> (\<forall>i < length xs. \<forall>e. fetch_event (xs ! i) = Some e \<longrightarrow>
         set (auth_events e) \<inter> set diff \<subseteq> set (take i xs))"
proof -
  let ?f = "fetch_auth_events fetch_event"
  have "auth_inv diff ?f [] []" by (simp add: auth_inv_def)
  from auth_graph_of_correct [OF this, of eids] obtain g where g:
      "auth_graph_of eids diff fetch_event [] = Some g" "auth_inv diff ?f g []"
      "set eids \<subseteq> dom (map_of g)" "dom (map_of g) \<subseteq> (auth_rel diff ?f)\<^sup>* `` set eids"
    by auto
  let ?key = "power_event_key R fetch_event (power_levels_of_graph R fetch_event g)"
  note closed = auth_inv_closed_graph [OF g(2)]
  have dom: "fst ` set g = (auth_rel diff ?f)\<^sup>* `` set eids"
    using g(4) closed(4) [OF g(3)] by (simp add: dom_map_of_conv_image_fst)
  have "(x, y) \<in> (auth_rel diff ?f)\<^sup>* \<Longrightarrow> x \<in> set eids \<Longrightarrow> y \<in> set eids \<union> set diff" for x y
    by (induction rule: rtrancl_induct) (auto simp: auth_rel_def auths_in_def split: option.splits)
  then have "\<forall>n \<in> fst ` set g. sortable R fetch_event n" unfolding dom using assms(2) by blast
  then have "key_total ?key (fst ` set g)"
    by (fastforce simp: key_total_def power_event_key_def map_of_power_levels sortable_def)
  from topo_sort_ok [OF closed(1,2) acyclic_graph_edges [OF g(2) assms(1)] this] obtain xs where xs:
      "lexicographical_topological_sort g ?key = Some (Inr xs)" "distinct xs"
      "set xs = fst ` set g" "topological (map_of g) xs"
    by blast
  have "set (auth_events e) \<inter> set diff \<subseteq> set (take i xs)"
    if "i < length xs" "fetch_event (xs ! i) = Some e" for i e
  proof -
    have "xs ! i \<in> dom (map_of g)" using that xs(3) by (metis dom_map_of_conv_image_fst nth_mem)
    then obtain es where es: "map_of g (xs ! i) = Some es" by blast
    then have "set es = auths_in diff ?f (xs ! i)"
      using g(2) unfolding auth_inv_def by (metis domI option.sel)
    then have "set es = set (auth_events e) \<inter> set diff"
      using that(2) by (simp add: auths_in_def fetch_auth_events_def)
    then show ?thesis using xs(4) es that(1) by (auto simp: topological_def)
  qed
  then show ?thesis
    using xs g(1) dom by (auto simp: reverse_topological_power_sort_def)
qed

section \<open>The conflicted subgraph\<close>

text \<open>
  The graph the search walks, and its specification: the events on a path of at least one step from a
  conflicted event to a conflicted event.
\<close>

definition auth_edges :: "('id \<Rightarrow> 'id list option) \<Rightarrow> ('id \<times> 'id) set" where
  "auth_edges f = {(n, a). \<exists>as. f n = Some as \<and> a \<in> set as}"

definition between_conflicted :: "'id set \<Rightarrow> ('id \<Rightarrow> 'id list option) \<Rightarrow> 'id set" where
  "between_conflicted C f =
     {x. \<exists>a \<in> C. \<exists>b \<in> C. (a, x) \<in> (auth_edges f)\<^sup>* \<and> (x, b) \<in> (auth_edges f)\<^sup>* \<and> (a, b) \<in> (auth_edges f)\<^sup>+}"

definition reaches :: "'id set \<Rightarrow> ('id \<Rightarrow> 'id list option) \<Rightarrow> 'id \<Rightarrow> bool" where
  "reaches C f n \<longleftrightarrow> (\<exists>b \<in> C. (n, b) \<in> (auth_edges f)\<^sup>+)"

text \<open>What the search has established of an edge from \<open>n\<close> to \<open>a\<close> once \<open>a\<close> has been dealt with.\<close>

definition settled :: "('id \<Rightarrow> 'id list option) \<Rightarrow> 'id set \<Rightarrow> 'id \<Rightarrow> bool" where
  "settled f seen a \<longleftrightarrow> a \<in> seen \<or> f a = None"

definition child_ok :: "'id set \<Rightarrow> ('id \<Rightarrow> 'id list option) \<Rightarrow> 'id set \<Rightarrow> 'id set \<Rightarrow> 'id \<Rightarrow> 'id \<Rightarrow> bool" where
  "child_ok C f sub seen n a \<longleftrightarrow>
     settled f seen a \<and> (a \<in> C \<or> reaches C f a \<longrightarrow> n \<in> sub) \<and> (a \<in> C \<longrightarrow> a \<in> sub)"

fun frames_ok ::
    "'id set \<Rightarrow> ('id \<Rightarrow> 'id list option) \<Rightarrow> 'id set \<Rightarrow> 'id set \<Rightarrow> 'id option \<Rightarrow> 'id list list \<Rightarrow> 'id list \<Rightarrow> bool" where
  "frames_ok C f sub seen cur [] path \<longleftrightarrow> False"
| "frames_ok C f sub seen cur (fr # stk) [] \<longleftrightarrow>
     stk = [] \<and> set fr \<subseteq> C \<and> (\<forall>c \<in> C. c \<in> set fr \<or> Some c = cur \<or> settled f seen c)"
| "frames_ok C f sub seen cur (fr # stk) (n # path) \<longleftrightarrow>
     (\<exists>as. f n = Some as \<and> set fr \<subseteq> set as
        \<and> (\<forall>a \<in> set as. a \<in> set fr \<or> Some a = cur \<or> child_ok C f sub seen n a))
     \<and> n \<in> seen \<and> (path \<noteq> [] \<and> n \<in> C \<longrightarrow> n \<in> sub)
     \<and> frames_ok C f sub seen (Some n) stk path"

fun path_ok :: "'id set \<Rightarrow> ('id \<Rightarrow> 'id list option) \<Rightarrow> 'id set \<Rightarrow> 'id list \<Rightarrow> bool" where
  "path_ok C f sub [] \<longleftrightarrow> True"
| "path_ok C f sub (n # path) \<longleftrightarrow>
     (case path of [] \<Rightarrow> n \<in> C | m # _ \<Rightarrow> (m, n) \<in> auth_edges f)
     \<and> (n \<in> sub \<longrightarrow> set path \<subseteq> sub) \<and> path_ok C f sub path"

definition search_inv ::
    "'id set \<Rightarrow> ('id \<Rightarrow> 'id list option) \<Rightarrow> 'id set \<Rightarrow> 'id set \<Rightarrow> 'id option \<Rightarrow> 'id list list \<Rightarrow> 'id list \<Rightarrow> bool" where
  "search_inv C f sub seen cur stack path \<longleftrightarrow>
     frames_ok C f sub seen cur stack path \<and> path_ok C f sub path
     \<and> (\<forall>n \<in> seen - set path. \<forall>a. (n, a) \<in> auth_edges f \<longrightarrow> child_ok C f sub seen n a)
     \<and> (\<forall>x \<in> sub. settled f seen x) \<and> sub \<subseteq> between_conflicted C f"

lemma child_ok_mono:
  "child_ok C f sub seen n a \<Longrightarrow> sub \<subseteq> sub' \<Longrightarrow> seen \<subseteq> seen' \<Longrightarrow> child_ok C f sub' seen' n a"
  by (auto simp: child_ok_def settled_def)

lemma frames_ok_mono:
  "frames_ok C f sub seen cur stack path \<Longrightarrow> sub \<subseteq> sub' \<Longrightarrow> seen \<subseteq> seen' \<Longrightarrow>
   frames_ok C f sub' seen' cur stack path"
proof (induction C f sub seen cur stack path rule: frames_ok.induct)
  case (3 C f sub seen cur fr stk n path)
  then show ?case using child_ok_mono [of C f sub seen n _ sub' seen'] by (fastforce)
qed (auto simp: settled_def)

lemma reaches_edge: "reaches C f n \<longleftrightarrow> (\<exists>a. (n, a) \<in> auth_edges f \<and> (a \<in> C \<or> reaches C f a))"
proof
  assume "reaches C f n"
  then obtain b where "b \<in> C" "(n, b) \<in> (auth_edges f)\<^sup>+" by (auto simp: reaches_def)
  then show "\<exists>a. (n, a) \<in> auth_edges f \<and> (a \<in> C \<or> reaches C f a)"
    by (metis converse_tranclE reaches_def)
next
  assume "\<exists>a. (n, a) \<in> auth_edges f \<and> (a \<in> C \<or> reaches C f a)"
  then show "reaches C f n" by (auto simp: reaches_def intro: trancl_into_trancl2)
qed

lemma path_ok_last: "path_ok C f sub path \<Longrightarrow> path \<noteq> [] \<Longrightarrow> last path \<in> C"
  by (induction path rule: induct_list012) auto

lemma path_ok_reach: "path_ok C f sub (n # path) \<Longrightarrow> m \<in> set path \<Longrightarrow> (m, n) \<in> (auth_edges f)\<^sup>+"
proof (induction path arbitrary: n)
  case (Cons k path)
  then have "(k, n) \<in> auth_edges f" "path_ok C f sub (k # path)" by auto
  with Cons show ?case by (cases "m = k") (auto intro: trancl_into_trancl)
qed simp

text \<open>Taking empty frames off the stack finishes the events they belong to.\<close>

lemma pop_frame:
  assumes "search_inv C f sub seen cur ([] # stk) (n # path)" "cur = None"
  shows "search_inv C f sub seen None stk path"
proof -
  have fr: "frames_ok C f sub seen (Some n) stk path" "n \<in> seen" "path \<noteq> [] \<Longrightarrow> n \<in> C \<Longrightarrow> n \<in> sub"
    and kids: "\<And>a. (n, a) \<in> auth_edges f \<Longrightarrow> child_ok C f sub seen n a"
    and up: "n \<in> sub \<Longrightarrow> set path \<subseteq> sub" and path: "path_ok C f sub path"
    using assms by (auto simp: search_inv_def auth_edges_def)
  have "n \<in> sub" if "reaches C f n"
    using that kids unfolding reaches_edge [of C f n] child_ok_def by blast
  then have "child_ok C f sub seen m n" if "path = m # p" for m p
    using up fr(2,3) that by (auto simp: child_ok_def settled_def)
  then have "frames_ok C f sub seen None stk path"
    using fr(1,2) by (cases stk; cases path) (auto simp: settled_def)
  moreover have "child_ok C f sub seen k a" if "k \<in> seen - set path" "(k, a) \<in> auth_edges f" for k a
    using that kids assms(1) by (cases "k = n") (auto simp: search_inv_def)
  ultimately show ?thesis using path assms(1) by (auto simp: search_inv_def)
qed

lemma next_event_None:
  "search_inv C f sub seen None stack path \<Longrightarrow> next_event stack path = None \<Longrightarrow>
   (\<forall>c \<in> C. settled f seen c) \<and> (\<forall>n \<in> seen. \<forall>a. (n, a) \<in> auth_edges f \<longrightarrow> child_ok C f sub seen n a)"
proof (induction stack path rule: next_event.induct)
  case (2 fr stk path)
  then have [simp]: "fr = []" by (auto split: if_splits)
  show ?case
  proof (cases path)
    case Nil
    with "2.prems"(1) show ?thesis by (auto simp: search_inv_def)
  next
    case (Cons n p)
    then have "search_inv C f sub seen None stk p" using pop_frame "2.prems"(1) by fastforce
    with "2.IH" "2.prems"(2) Cons show ?thesis by simp
  qed
qed (simp add: search_inv_def)

lemma take_from_frame:
  assumes "search_inv C f sub seen None (fr # stk) path" "fr \<noteq> []"
  shows "search_inv C f sub seen (Some (last fr)) (butlast fr # stk) path"
    "case path of [] \<Rightarrow> last fr \<in> C | m # _ \<Rightarrow> (m, last fr) \<in> auth_edges f"
proof -
  have fr: "set fr = insert (last fr) (set (butlast fr))"
    using assms(2) by (metis append_butlast_last_id list.simps(15) rotate1.simps(2) set_rotate1)
  show "search_inv C f sub seen (Some (last fr)) (butlast fr # stk) path"
    using assms(1) unfolding search_inv_def by (cases path) (auto simp: fr)
  show "case path of [] \<Rightarrow> last fr \<in> C | m # _ \<Rightarrow> (m, last fr) \<in> auth_edges f"
    using assms(1) fr unfolding search_inv_def by (cases path) (auto simp: auth_edges_def)
qed

lemma next_event_Some:
  "search_inv C f sub seen None stack path \<Longrightarrow> next_event stack path = Some (eid, stk', path') \<Longrightarrow>
   search_inv C f sub seen (Some eid) stk' path'
   \<and> (case path' of [] \<Rightarrow> eid \<in> C | m # _ \<Rightarrow> (m, eid) \<in> auth_edges f)
   \<and> sum_list (map length stk') < sum_list (map length stack)"
proof (induction stack path rule: next_event.induct)
  case (2 fr stk path)
  show ?case
  proof (cases "fr = []")
    case True
    show ?thesis
    proof (cases path)
      case Nil
      with "2.prems" True show ?thesis by (auto simp: search_inv_def)
    next
      case (Cons n p)
      then have "search_inv C f sub seen None stk p" using pop_frame "2.prems"(1) True by fastforce
      with "2.IH" "2.prems"(2) Cons True show ?thesis by simp
    qed
  next
    case False
    have "length (butlast fr) < length fr" using False by simp
    with False "2.prems" take_from_frame [OF "2.prems"(1) False] show ?thesis by auto
  qed
qed simp

text \<open>Dealing with the current event without entering it.\<close>

lemma skip_event:
  assumes "search_inv C f sub seen (Some eid) stk path" "settled f seen eid"
    "\<And>m p. path = m # p \<Longrightarrow> child_ok C f sub seen m eid"
  shows "search_inv C f sub seen None stk path"
proof -
  have "frames_ok C f sub seen None stk path"
    using assms by (cases stk; cases path) (auto simp: search_inv_def)
  then show ?thesis using assms(1) by (simp add: search_inv_def)
qed

lemma path_ok_from_last: "path_ok C f sub q \<Longrightarrow> m \<in> set q \<Longrightarrow> (last q, m) \<in> (auth_edges f)\<^sup>*"
proof (induction q)
  case (Cons k q)
  show ?case
  proof (cases "m = k")
    case True
    show ?thesis
      using path_ok_reach [OF Cons.prems(1), of "last q"] True
      by (cases "q = []") (auto intro: trancl_into_rtrancl)
  qed (use Cons in auto)
qed simp

lemma path_ok_extend: "path_ok C f sub q \<Longrightarrow> set q \<subseteq> new \<Longrightarrow> path_ok C f (sub \<union> new) q"
  by (induction q) (auto split: list.splits)

lemma frames_ok_seen: "frames_ok C f sub seen cur st q \<Longrightarrow> set q \<subseteq> seen"
  by (induction C f sub seen cur st q rule: frames_ok.induct) auto

text \<open>The current path, added to the subgraph, lies between conflicted events.\<close>

lemma path_between:
  assumes ok: "path_ok C f sub path" "sub \<subseteq> between_conflicted C f" and path: "path \<noteq> []"
    and edge: "(hd path, eid) \<in> auth_edges f" and eid: "eid \<in> C \<or> eid \<in> sub"
  shows "insert eid (set path) \<subseteq> between_conflicted C f"
proof
  fix x assume x: "x \<in> insert eid (set path)"
  have "path_ok C f UNIV (eid # path)"
    using path_ok_extend [OF ok(1), of UNIV] edge path by (cases path) auto
  then have to_eid: "(m, eid) \<in> (auth_edges f)\<^sup>+" if "m \<in> set path" for m
    using that by (rule path_ok_reach)
  obtain b where b: "b \<in> C" "(eid, b) \<in> (auth_edges f)\<^sup>*"
    using eid ok(2) by (auto simp: between_conflicted_def)
  have start: "last path \<in> C" "(last path, eid) \<in> (auth_edges f)\<^sup>+"
    using path_ok_last [OF ok(1) path] to_eid path by auto
  have "(last path, x) \<in> (auth_edges f)\<^sup>* \<and> (x, eid) \<in> (auth_edges f)\<^sup>*"
    using x start(2) to_eid path_ok_from_last [OF ok(1)] by (auto intro: trancl_into_rtrancl)
  then show "x \<in> between_conflicted C f"
    unfolding between_conflicted_def mem_Collect_eq
    using start b by (meson rtrancl_trans trancl_rtrancl_trancl)
qed

lemma extend_subgraph:
  assumes inv: "search_inv C f sub seen (Some eid) stk path" and path: "path \<noteq> []"
    and edge: "(hd path, eid) \<in> auth_edges f" and eid: "eid \<in> C \<or> eid \<in> sub"
  shows "frames_ok C f (sub \<union> insert eid (set path)) seen (Some eid) stk path"
    "path_ok C f (sub \<union> insert eid (set path)) path"
    "\<forall>n \<in> seen - set path. \<forall>a. (n, a) \<in> auth_edges f \<longrightarrow>
       child_ok C f (sub \<union> insert eid (set path)) seen n a"
    "\<forall>x \<in> sub \<union> set path. settled f seen x"
    "sub \<union> insert eid (set path) \<subseteq> between_conflicted C f"
proof -
  have ok: "path_ok C f sub path" "sub \<subseteq> between_conflicted C f" "frames_ok C f sub seen (Some eid) stk path"
    "\<forall>x \<in> sub. settled f seen x"
    using inv by (auto simp: search_inv_def)
  show "frames_ok C f (sub \<union> insert eid (set path)) seen (Some eid) stk path"
    using ok(3) by (rule frames_ok_mono) auto
  show "path_ok C f (sub \<union> insert eid (set path)) path" using ok(1) by (rule path_ok_extend) auto
  show "\<forall>n \<in> seen - set path. \<forall>a. (n, a) \<in> auth_edges f \<longrightarrow>
       child_ok C f (sub \<union> insert eid (set path)) seen n a"
    using inv by (auto simp: search_inv_def intro: child_ok_mono)
  show "\<forall>x \<in> sub \<union> set path. settled f seen x"
    using ok(4) frames_ok_seen [OF ok(3)] by (auto simp: settled_def)
  show "sub \<union> insert eid (set path) \<subseteq> between_conflicted C f"
    using path_between [OF ok(1,2) path edge eid] ok(2) by simp
qed

text \<open>
  The subgraph after the test of the current event, which is not in it yet: the path is added when the
  event is conflicted and not the first of the path.
\<close>

lemma conflicted_event:
  assumes inv: "search_inv C f sub seen (Some eid) stk path"
    and edge: "case path of [] \<Rightarrow> eid \<in> C | m # _ \<Rightarrow> (m, eid) \<in> auth_edges f"
    and sub': "sub' = (if eid \<in> C \<and> path \<noteq> [] then sub \<union> insert eid (set path) else sub)"
  shows "frames_ok C f sub' seen (Some eid) stk path" "path_ok C f sub' path"
    "\<forall>n \<in> seen - set path. \<forall>a. (n, a) \<in> auth_edges f \<longrightarrow> child_ok C f sub' seen n a"
    "\<forall>x \<in> sub' - {eid}. settled f seen x" "sub' \<subseteq> between_conflicted C f"
proof -
  have "frames_ok C f sub' seen (Some eid) stk path \<and> path_ok C f sub' path \<and>
    (\<forall>n \<in> seen - set path. \<forall>a. (n, a) \<in> auth_edges f \<longrightarrow> child_ok C f sub' seen n a) \<and>
    (\<forall>x \<in> sub' - {eid}. settled f seen x) \<and> sub' \<subseteq> between_conflicted C f"
  proof (cases "eid \<in> C \<and> path \<noteq> []")
    case True
    then have "(hd path, eid) \<in> auth_edges f" using edge by (cases path) auto
    from extend_subgraph [OF inv _ this] True show ?thesis unfolding sub' by auto
  next
    case False
    with inv show ?thesis unfolding sub' search_inv_def by auto
  qed
  then show "frames_ok C f sub' seen (Some eid) stk path" "path_ok C f sub' path"
    "\<forall>n \<in> seen - set path. \<forall>a. (n, a) \<in> auth_edges f \<longrightarrow> child_ok C f sub' seen n a"
    "\<forall>x \<in> sub' - {eid}. settled f seen x" "sub' \<subseteq> between_conflicted C f"
    by blast+
qed

lemma seen_reaches:
  assumes inv: "search_inv C f sub seen (Some eid) stk path"
    and edge: "case path of [] \<Rightarrow> eid \<in> C | m # _ \<Rightarrow> (m, eid) \<in> auth_edges f"
    and "acyclic (auth_edges f)" "settled f seen eid" "reaches C f eid"
  shows "eid \<in> sub"
proof -
  obtain a where a: "(eid, a) \<in> auth_edges f" "a \<in> C \<or> reaches C f a"
    using assms(5) unfolding reaches_edge [of C f eid] by blast
  then have "eid \<in> seen" using assms(4) by (auto simp: settled_def auth_edges_def)
  moreover have "eid \<notin> set path"
  proof
    assume "eid \<in> set path"
    moreover have "path_ok C f UNIV (eid # path)"
      using inv path_ok_extend [of C f sub path UNIV] edge by (auto simp: search_inv_def split: list.splits)
    ultimately have "(eid, eid) \<in> (auth_edges f)\<^sup>+" by (rule path_ok_reach [rotated])
    with assms(3) show False by (auto simp: acyclic_def)
  qed
  ultimately have "child_ok C f sub seen eid a" using inv a(1) by (auto simp: search_inv_def)
  with a(2) show ?thesis by (simp add: child_ok_def)
qed

lemma skip_settled:
  assumes "search_inv C f sub seen (Some eid) stk path"
    and "case path of [] \<Rightarrow> eid \<in> C | m # _ \<Rightarrow> (m, eid) \<in> auth_edges f"
    and "sub' = (if eid \<in> C \<and> path \<noteq> [] then sub \<union> insert eid (set path) else sub)"
    and "acyclic (auth_edges f)" "settled f seen eid" "eid \<notin> sub"
  shows "search_inv C f sub' seen None stk path"
proof (rule skip_event)
  note ext = conflicted_event [OF assms(1-3)]
  show "search_inv C f sub' seen (Some eid) stk path"
    using ext assms(5) by (auto simp: search_inv_def)
  show "settled f seen eid" by fact
  fix m p assume "path = m # p"
  then show "child_ok C f sub' seen m eid"
    using assms(3,5,6) seen_reaches [OF assms(1,2,4,5)] by (auto simp: child_ok_def)
qed

lemma enter_event:
  assumes "search_inv C f sub seen (Some eid) stk path"
    and "case path of [] \<Rightarrow> eid \<in> C | m # _ \<Rightarrow> (m, eid) \<in> auth_edges f"
    and "sub' = (if eid \<in> C \<and> path \<noteq> [] then sub \<union> insert eid (set path) else sub)"
    and "f eid = Some auths" "eid \<notin> sub"
  shows "search_inv C f sub' (insert eid seen) None (auths # stk) (eid # path)"
proof -
  note ext = conflicted_event [OF assms(1-3)]
  have "frames_ok C f sub' (insert eid seen) (Some eid) stk path"
    using ext(1) by (rule frames_ok_mono) auto
  moreover have "eid \<in> sub' \<longrightarrow> set path \<subseteq> sub'" "path \<noteq> [] \<and> eid \<in> C \<longrightarrow> eid \<in> sub'"
    using assms(3,5) by auto
  moreover have "\<forall>x \<in> sub'. settled f (insert eid seen) x" using ext(4) by (auto simp: settled_def)
  moreover have "\<forall>n \<in> insert eid seen - set (eid # path). \<forall>a. (n, a) \<in> auth_edges f \<longrightarrow>
      child_ok C f sub' (insert eid seen) n a"
    using ext(3) by (auto intro: child_ok_mono)
  ultimately show ?thesis
    using assms(2,4) ext(2,5) by (auto simp: search_inv_def)
qed

lemma subgraph_turn_inv:
  assumes inv: "search_inv (set conf) f (set (sg_subgraph s)) (set (sg_seen s)) (Some eid)
      (sg_stack s) (sg_path s)"
    and edge: "case sg_path s of [] \<Rightarrow> eid \<in> set conf | m # _ \<Rightarrow> (m, eid) \<in> auth_edges f"
    and acyc: "acyclic (auth_edges f)" and s': "s' = subgraph_turn conf f eid s"
  shows "search_inv (set conf) f (set (sg_subgraph s')) (set (sg_seen s')) None
      (sg_stack s') (sg_path s')"
    "sg_seen s' = sg_seen s \<and> sg_stack s' = sg_stack s
     \<or> f eid \<noteq> None \<and> eid \<notin> set (sg_seen s) \<and> set (sg_seen s') = insert eid (set (sg_seen s))"
proof -
  let ?sub = "set (sg_subgraph s)" and ?path = "sg_path s"
  let ?sub' = "if eid \<in> set conf \<and> ?path \<noteq> [] then ?sub \<union> insert eid (set ?path) else ?sub"
  show "search_inv (set conf) f (set (sg_subgraph s')) (set (sg_seen s')) None
      (sg_stack s') (sg_path s')"
  proof (cases "eid \<in> ?sub")
    case True
    then have st: "settled f (set (sg_seen s)) eid" using inv by (auto simp: search_inv_def)
    show ?thesis
    proof (cases "?path = []")
      case Nil: True
      then show ?thesis using True skip_event [OF inv st] by (simp add: s' subgraph_turn_def)
    next
      case False
      then have "(hd ?path, eid) \<in> auth_edges f" using edge by (cases ?path) auto
      note ext = extend_subgraph [OF inv False this disjI2 [OF True]]
      have "search_inv (set conf) f (?sub \<union> insert eid (set ?path)) (set (sg_seen s)) (Some eid)
          (sg_stack s) ?path" using ext st by (auto simp: search_inv_def)
      then have "search_inv (set conf) f (?sub \<union> insert eid (set ?path)) (set (sg_seen s)) None
          (sg_stack s) ?path" using st by (rule skip_event) (auto simp: child_ok_def st)
      then show ?thesis using True False by (simp add: s' subgraph_turn_def Un_commute insert_absorb)
    qed
  next
    case False
    have skip: "search_inv (set conf) f ?sub' (set (sg_seen s)) None (sg_stack s) ?path"
      if "settled f (set (sg_seen s)) eid"
      using skip_settled [OF inv edge refl acyc that False] .
    have enter: "search_inv (set conf) f ?sub' (insert eid (set (sg_seen s))) None
        (auths # sg_stack s) (eid # ?path)" if "f eid = Some auths" for auths
      using enter_event [OF inv edge refl that False] .
    show ?thesis
      using False skip enter
      by (auto simp: s' subgraph_turn_def Let_def settled_def Un_commute split: option.splits if_splits)
  qed
  show "sg_seen s' = sg_seen s \<and> sg_stack s' = sg_stack s
     \<or> f eid \<noteq> None \<and> eid \<notin> set (sg_seen s) \<and> set (sg_seen s') = insert eid (set (sg_seen s))"
    by (auto simp: s' subgraph_turn_def Let_def split: option.splits)
qed

lemma search_complete:
  assumes roots: "\<forall>c \<in> C. settled f seen c"
    and kids: "\<forall>n \<in> seen. \<forall>a. (n, a) \<in> auth_edges f \<longrightarrow> child_ok C f sub seen n a"
  shows "between_conflicted C f \<subseteq> sub"
proof
  have edge: "child_ok C f sub seen n a" if "settled f seen n" "(n, a) \<in> auth_edges f" for n a
    using kids that by (auto simp: settled_def auth_edges_def)
  have settled: "settled f seen y" if "(c, y) \<in> (auth_edges f)\<^sup>*" "c \<in> C" for c y
    using that by (induction rule: rtrancl_induct) (use roots edge in \<open>auto simp: child_ok_def\<close>)
  fix x assume "x \<in> between_conflicted C f"
  then obtain a b where ab: "a \<in> C" "b \<in> C" "(a, x) \<in> (auth_edges f)\<^sup>*" "(x, b) \<in> (auth_edges f)\<^sup>*"
      "(a, b) \<in> (auth_edges f)\<^sup>+"
    by (auto simp: between_conflicted_def)
  show "x \<in> sub"
  proof (cases "reaches C f x")
    case True
    then obtain c where "(x, c) \<in> auth_edges f" "c \<in> C \<or> reaches C f c"
      unfolding reaches_edge [of C f x] by blast
    then show ?thesis using edge [OF settled [OF ab(3,1)]] by (auto simp: child_ok_def)
  next
    case False
    then have "x = b" using ab(2,4) by (metis reaches_def rtranclD)
    moreover obtain y where "(a, y) \<in> (auth_edges f)\<^sup>*" "(y, b) \<in> auth_edges f"
      using ab(5) by (metis tranclD2)
    ultimately show ?thesis using edge [OF settled [OF _ ab(1)]] ab(2) by (auto simp: child_ok_def)
  qed
qed

lemma subgraph_loop_correct:
  assumes "acyclic (auth_edges f)" "finite (dom f)"
    "search_inv (set conf) f (set (sg_subgraph s)) (set (sg_seen s)) None (sg_stack s) (sg_path s)"
  shows "\<exists>r. subgraph_loop conf f s = Some r \<and> set r = between_conflicted (set conf) f"
proof -
  let ?M = "measures [\<lambda>s. card (dom f - set (sg_seen s)), \<lambda>s. sum_list (map length (sg_stack s))]"
  have "wf ?M" by (rule wf_measures)
  then show ?thesis
    using assms(3)
  proof (induction s rule: wf_induct_rule)
    case (less s)
    show ?case
    proof (cases "next_event (sg_stack s) (sg_path s)")
      case None
      then have "between_conflicted (set conf) f \<subseteq> set (sg_subgraph s)"
        using next_event_None [OF less.prems] by (intro search_complete) auto
      then show ?thesis
        using None less.prems by (auto simp: subgraph_loop.simps search_inv_def)
    next
      case (Some e)
      then obtain eid stk path where e: "next_event (sg_stack s) (sg_path s) = Some (eid, stk, path)"
        by (cases e) auto
      let ?t = "s\<lparr>sg_stack := stk, sg_path := path\<rparr>"
      let ?s = "subgraph_turn conf f eid ?t"
      note nxt = next_event_Some [OF less.prems e]
      have inv: "search_inv (set conf) f (set (sg_subgraph ?s)) (set (sg_seen ?s)) None
          (sg_stack ?s) (sg_path ?s)"
        by (rule subgraph_turn_inv(1) [OF _ _ assms(1) refl]) (use nxt in simp_all)
      have "sg_seen ?s = sg_seen s \<and> sg_stack ?s = stk
          \<or> f eid \<noteq> None \<and> eid \<notin> set (sg_seen s) \<and> set (sg_seen ?s) = insert eid (set (sg_seen s))"
        using subgraph_turn_inv(2) [OF _ _ assms(1) refl, of conf ?t eid] nxt by simp
      moreover have "card (dom f - insert eid (set (sg_seen s))) < card (dom f - set (sg_seen s))"
        if "f eid \<noteq> None" "eid \<notin> set (sg_seen s)"
        using assms(2) that by (intro psubset_card_mono) auto
      ultimately have "(?s, s) \<in> ?M" using nxt by auto
      from less.IH [OF this inv] e show ?thesis by (simp add: subgraph_loop.simps [of _ _ s])
    qed
  qed
qed

lemma conflicted_subgraph_total:
  assumes "acyclic (fetched_auths fetch_event)" "finite (dom fetch_event)"
  shows "\<exists>r. calculate_conflicted_subgraph conflicted fetch_event = Some r
    \<and> set r = between_conflicted (\<Union>(k, ids) \<in> set conflicted. set ids) (fetch_auth_events fetch_event)"
proof -
  let ?f = "fetch_auth_events fetch_event"
  let ?C = "hs_extend (concat (map snd conflicted)) []"
  have "auth_edges ?f = (fetched_auths fetch_event)\<inverse>"
    by (auto simp: auth_edges_def fetched_auths_def fetch_auth_events_def)
  then have "acyclic (auth_edges ?f)" using assms(1) by simp
  moreover have "finite (dom ?f)"
    using assms(2) by (rule rev_finite_subset) (auto simp: fetch_auth_events_def)
  moreover have "search_inv (set ?C) ?f {} {} None [?C] []"
    by (auto simp: search_inv_def)
  ultimately have "\<exists>r. subgraph_loop ?C ?f
      \<lparr> sg_stack = [?C], sg_path = [], sg_subgraph = [], sg_seen = [] \<rparr> = Some r
      \<and> set r = between_conflicted (set ?C) ?f"
    by (intro subgraph_loop_correct) auto
  moreover have "set ?C = (\<Union>(k, ids) \<in> set conflicted. set ids)" by force
  ultimately show ?thesis by (simp add: calculate_conflicted_subgraph_def Let_def)
qed

text \<open>
  C10: On a finite acyclic store the search for the conflicted subgraph ends and finds exactly the events
  that lie on a path from a conflicted event to a conflicted event.
\<close>

theorem conflicted_subgraph_correct:
  assumes "acyclic (fetched_auths fetch_event)" "finite (dom fetch_event)"
  shows "\<exists>r. calculate_conflicted_subgraph conflicted fetch_event = Some r
    \<and> set r = between_conflicted (\<Union>(k, ids) \<in> set conflicted. set ids) (fetch_auth_events fetch_event)"
  using assms by (rule conflicted_subgraph_total)

section \<open>Examples\<close>

text \<open>The store of the small room: create event, join, and two power levels events on top.\<close>

definition demo_store :: "Pdu list" where
  "demo_store = [demo_create, demo_join ''@a'' ''$1'', demo_pl ''$2'' ''pl0'', demo_pl ''$5'' ''pl1'']"

definition demo_fetch :: fetch where
  "demo_fetch eid = find (\<lambda>e. event_id e = eid) demo_store"

definition demo_rank :: "EventId \<Rightarrow> int" where
  "demo_rank eid = (if eid = ''$0'' then 2 else if eid = ''$1'' then 1 else 0)"

lemmas demo_store_simps = demo_fetch_def demo_store_def demo_create_def demo_join_def demo_pl_def
  demo_event_def

lemma demo_fetch_acyclic: "acyclic (fetched_auths demo_fetch)"
  by (rule acyclicI_order [of _ demo_rank])
    (auto simp: fetched_auths_def demo_store_simps demo_rank_def split: if_splits)

lemma demo_fetch_finite: "finite (dom demo_fetch)"
proof -
  have "dom demo_fetch \<subseteq> set (map event_id demo_store)"
    by (auto simp: demo_fetch_def find_Some_iff)
  then show ?thesis by (rule finite_subset) simp
qed

lemma demo_sortable: "\<forall>n \<in> set [''$5''] \<union> set [''$1'', ''$2'', ''$5'']. sortable demo_ruma demo_fetch n"
proof -
  have "demo_fetch n \<noteq> None \<and> get_power_level_for_sender demo_ruma n demo_fetch = Inr 0"
    if "n \<in> {''$1'', ''$2'', ''$5''}" for n
    using that by (elim insertE emptyE; hypsubst) (code_simp+)
  then show ?thesis by (auto simp: sortable_def)
qed

lemma power_sort_correct_witness:
  "\<exists>xs. reverse_topological_power_sort demo_ruma [''$5''] [''$1'', ''$2'', ''$5''] demo_fetch
      = Some (Inr xs) \<and> distinct xs \<and> ''$5'' \<in> set xs"
proof -
  obtain xs where "reverse_topological_power_sort demo_ruma [''$5''] [''$1'', ''$2'', ''$5''] demo_fetch
      = Some (Inr xs)" "distinct xs"
      "set xs = (auth_rel [''$1'', ''$2'', ''$5''] (fetch_auth_events demo_fetch))\<^sup>* `` set [''$5'']"
    using power_sort_correct [OF demo_fetch_acyclic demo_sortable] by blast
  then show ?thesis by (intro exI [of _ xs]) auto
qed

lemma conflicted_subgraph_correct_witness:
  "\<exists>r. calculate_conflicted_subgraph [((RoomPowerLevels, []), [''$2'', ''$0''])] demo_fetch = Some r
     \<and> set r = between_conflicted {''$2'', ''$0''} (fetch_auth_events demo_fetch)"
  using conflicted_subgraph_correct [OF demo_fetch_acyclic demo_fetch_finite,
      of "[((RoomPowerLevels, []), [''$2'', ''$0''])]"] by simp

lemma demo_subgraph:
  "calculate_conflicted_subgraph [((RoomPowerLevels, []), [''$2'', ''$0''])] demo_fetch
     = Some [''$2'', ''$1'', ''$0'']"
  by code_simp

end
