(* ===== verification/StateRes.thy ===== *)
theory StateRes
  imports AuthGraph "HOL-Library.Product_Lexorder"
begin

text \<open>
  State resolution, \<^verbatim>\<open>src/core/matrix/state_res/mod.rs\<close>: the iterative auth check, the mainline and the
  mainline sort, and \<open>resolve\<close> itself.  Loops that walk the auth events are partial functions with
  result \<^const>\<open>None\<close> when they do not end; theorems show that they end on acyclic stores.
\<close>

section \<open>The iterative auth check\<close>

fun fetch_events :: "fetch \<Rightarrow> EventId list \<Rightarrow> Error + Pdu list" where
  "fetch_events fetch_event [] = Inr []"
| "fetch_events fetch_event (eid # eids) =
     rbind (ok_or NotFound (fetch_event eid)) (\<lambda>e.
     rbind (fetch_events fetch_event eids) (\<lambda>es. Inr (e # es)))"

definition fetch_auth_map :: "fetch \<Rightarrow> Pdu list \<Rightarrow> (EventId, Pdu) hash_map" where
  "fetch_auth_map fetch_event events_to_check =
     (let auth_event_ids = hs_extend (concat (map auth_events events_to_check)) []
      in fold (\<lambda>e. hm_insert (event_id e) e) (List.map_filter fetch_event auth_event_ids) [])"

text \<open>In room versions with hashed room ids the create event is fetched by the room's id.\<close>

definition create_auth_state :: "ruma \<Rightarrow> RoomVersion \<Rightarrow> fetch \<Rightarrow> Pdu \<Rightarrow> Error + Pdu state_map" where
  "create_auth_state R v fetch_event ev =
     (if room_ids_as_hashes v then
        rbind (room_id_or_hash R ev) (\<lambda>rid.
        let create_event_id = replace_char (CHR ''!'') (CHR ''$'') rid in
        if \<not> is_event_id R create_event_id then Inl InvalidPdu
        else rbind (ok_or NotFound (fetch_event create_event_id)) (\<lambda>create_event.
          Inr (hm_insert (with_state_key (kind create_event) []) create_event [])))
      else Inr [])"

fun own_auth_state ::
    "(EventId, Pdu) hash_map \<Rightarrow> EventId list \<Rightarrow> Pdu state_map \<Rightarrow> Error + Pdu state_map" where
  "own_auth_state auth_evs [] auth_state = Inr auth_state"
| "own_auth_state auth_evs (aid # aids) auth_state =
     (case map_of auth_evs aid of
        Some ev \<Rightarrow>
          rbind (ok_or InvalidPdu (state_key ev)) (\<lambda>k.
          own_auth_state auth_evs aids (hm_insert (with_state_key (kind ev) k) ev auth_state))
      | None \<Rightarrow> own_auth_state auth_evs aids auth_state)"

definition resolved_auth_event ::
    "(EventId, Pdu) hash_map \<Rightarrow> fetch \<Rightarrow> EventId state_map \<Rightarrow> TypeStateKey \<Rightarrow> Pdu option" where
  "resolved_auth_event auth_evs fetch_event resolved_state key =
     Option.bind (map_of resolved_state key) (\<lambda>ev_id.
     case map_of auth_evs ev_id of Some e \<Rightarrow> Some e | None \<Rightarrow> fetch_event ev_id)"

definition resolved_auth_state ::
    "(EventId, Pdu) hash_map \<Rightarrow> fetch \<Rightarrow> EventId state_map \<Rightarrow> TypeStateKey list \<Rightarrow> Pdu state_map
     \<Rightarrow> Pdu state_map" where
  "resolved_auth_state auth_evs fetch_event resolved_state auth_types auth_state =
     fold (\<lambda>key m. case resolved_auth_event auth_evs fetch_event resolved_state key of
             Some e \<Rightarrow> hm_insert key e m | None \<Rightarrow> m) auth_types auth_state"

text \<open>The state an event is checked against: its own auth events, overridden by the resolved state.\<close>

definition auth_state_for ::
    "ruma \<Rightarrow> RoomVersion \<Rightarrow> fetch \<Rightarrow> (EventId, Pdu) hash_map \<Rightarrow> EventId state_map \<Rightarrow> Pdu \<Rightarrow> StateKey
     \<Rightarrow> Error + Pdu state_map" where
  "auth_state_for R v fetch_event auth_evs resolved_state ev k =
     rbind (auth_types_for_event R (kind ev) (sender ev) (Some k) (content ev) v) (\<lambda>auth_types.
     rbind (create_auth_state R v fetch_event ev) (\<lambda>a0.
     rbind (own_auth_state auth_evs (auth_events ev) a0) (\<lambda>a1.
     Inr (resolved_auth_state auth_evs fetch_event resolved_state auth_types a1))))"

definition current_third_party :: "Pdu state_map \<Rightarrow> Pdu option" where
  "current_third_party auth_state = find (\<lambda>e. kind e = RoomThirdPartyInvite) (map snd auth_state)"

definition check_one ::
    "ruma \<Rightarrow> RoomVersion \<Rightarrow> Pdu state_map \<Rightarrow> Pdu \<Rightarrow> Error + bool" where
  "check_one R v auth_state ev =
     (let fetch_state = (\<lambda>ty key. map_of auth_state (with_state_key ty key))
      in rbind (ok_or Panic (fetch_state RoomCreate [])) (\<lambda>create_event.
         auth_check R v ev (current_third_party auth_state) fetch_state create_event))"

definition iterative_auth_turn ::
    "ruma \<Rightarrow> RoomVersion \<Rightarrow> fetch \<Rightarrow> (EventId, Pdu) hash_map \<Rightarrow> EventId state_map \<Rightarrow> Pdu
     \<Rightarrow> Error + EventId state_map" where
  "iterative_auth_turn R v fetch_event auth_evs resolved_state ev =
     rbind (ok_or InvalidPdu (state_key ev)) (\<lambda>k.
     rbind (auth_state_for R v fetch_event auth_evs resolved_state ev k) (\<lambda>auth_state.
     rbind (check_one R v auth_state ev) (\<lambda>ok.
     Inr (if ok then hm_insert (with_state_key (kind ev) k) (event_id ev) resolved_state
          else resolved_state))))"

fun iterative_auth_loop ::
    "ruma \<Rightarrow> RoomVersion \<Rightarrow> fetch \<Rightarrow> (EventId, Pdu) hash_map \<Rightarrow> EventId state_map \<Rightarrow> Pdu list
     \<Rightarrow> Error + EventId state_map" where
  "iterative_auth_loop R v fetch_event auth_evs resolved_state [] = Inr resolved_state"
| "iterative_auth_loop R v fetch_event auth_evs resolved_state (ev # evs) =
     rbind (iterative_auth_turn R v fetch_event auth_evs resolved_state ev) (\<lambda>resolved'.
     iterative_auth_loop R v fetch_event auth_evs resolved' evs)"

text \<open>
  The events are fetched with \<open>broad_and_then\<close> and checked in the order in which the fetches complete; an
  event that is not found is an error whatever the order.
\<close>

definition iterative_auth_check ::
    "ruma \<Rightarrow> RoomVersion \<Rightarrow> EventId list \<Rightarrow> EventId state_map \<Rightarrow> fetch \<Rightarrow> Error + EventId state_map" where
  "iterative_auth_check R v events_to_check unconflicted_state fetch_event =
     rbind (fetch_events fetch_event events_to_check) (\<lambda>fetched.
     let evs = unordered (completion R (FetchToCheck events_to_check)) fetched in
     if evs = [] then Inr unconflicted_state
     else iterative_auth_loop R v fetch_event (fetch_auth_map fetch_event evs) unconflicted_state evs)"

section \<open>The mainline\<close>

text \<open>The \<open>for\<close> loop over auth events that stops at the first power levels event.\<close>

fun first_power_levels :: "fetch \<Rightarrow> EventId list \<Rightarrow> Error + (EventId \<times> Pdu) option" where
  "first_power_levels fetch_event [] = Inr None"
| "first_power_levels fetch_event (aid # aids) =
     rbind (ok_or NotFound (fetch_event aid)) (\<lambda>ev.
     if is_type_and_key ev RoomPowerLevels [] then Inr (Some (aid, ev))
     else first_power_levels fetch_event aids)"

partial_function (option) mainline_loop ::
    "fetch \<Rightarrow> EventId option \<Rightarrow> EventId list \<Rightarrow> (Error + EventId list) option" where
  "mainline_loop fetch_event pl mainline =
     (case pl of
        None \<Rightarrow> Some (Inr mainline)
      | Some p \<Rightarrow>
          (case rbind (ok_or NotFound (fetch_event p))
                  (\<lambda>event. first_power_levels fetch_event (auth_events event)) of
             Inl e \<Rightarrow> Some (Inl e)
           | Inr nxt \<Rightarrow> mainline_loop fetch_event (map_option fst nxt) (mainline @ [p])))"

declare mainline_loop.simps [code]

definition mainline_map :: "EventId list \<Rightarrow> (EventId, nat) hash_map" where
  "mainline_map mainline = fold (\<lambda>(idx, eid). hm_insert eid idx) (enumerate 0 (rev mainline)) []"

partial_function (option) get_mainline_depth ::
    "Pdu option \<Rightarrow> (EventId, nat) hash_map \<Rightarrow> fetch \<Rightarrow> (Error + nat) option" where
  "get_mainline_depth event mm fetch_event =
     (case event of
        None \<Rightarrow> Some (Inr 0)
      | Some sort_ev \<Rightarrow>
          (case map_of mm (event_id sort_ev) of
             Some d \<Rightarrow> Some (Inr d)
           | None \<Rightarrow>
               (case first_power_levels fetch_event (auth_events sort_ev) of
                  Inl e \<Rightarrow> Some (Inl e)
                | Inr nxt \<Rightarrow> get_mainline_depth (map_option snd nxt) mm fetch_event)))"

declare get_mainline_depth.simps [code]

type_synonym mainline_key = "nat \<times> nat \<times> EventId"

text \<open>\<open>order_map\<close>: events that cannot be fetched, or whose depth is an error, are left out.\<close>

fun order_map :: "EventId list \<Rightarrow> (EventId, nat) hash_map \<Rightarrow> fetch \<Rightarrow> (EventId, mainline_key) hash_map option" where
  "order_map [] mm fetch_event = Some []"
| "order_map (ev_id # ids) mm fetch_event =
     (case fetch_event ev_id of
        None \<Rightarrow> order_map ids mm fetch_event
      | Some event \<Rightarrow>
          Option.bind (get_mainline_depth (Some event) mm fetch_event) (\<lambda>r.
          Option.bind (order_map ids mm fetch_event) (\<lambda>m.
          case r of
            Inl _ \<Rightarrow> Some m
          | Inr d \<Rightarrow> Some ((ev_id, (d, origin_server_ts event, ev_id)) # m))))"

definition mainline_sort ::
    "EventId list \<Rightarrow> EventId option \<Rightarrow> fetch \<Rightarrow> (Error + EventId list) option" where
  "mainline_sort to_sort resolved_power_level fetch_event =
     (if to_sort = [] then Some (Inr [])
      else Option.bind (mainline_loop fetch_event resolved_power_level []) (\<lambda>r.
        case r of
          Inl e \<Rightarrow> Some (Inl e)
        | Inr mainline \<Rightarrow>
            Option.bind (order_map to_sort (mainline_map mainline) fetch_event) (\<lambda>m.
            Some (Inr (sort_key (\<lambda>eid. the (map_of m eid)) (map fst m))))))"

section \<open>Resolution\<close>

definition is_power_event_id :: "ruma \<Rightarrow> EventId \<Rightarrow> fetch \<Rightarrow> bool" where
  "is_power_event_id R eid fetch_event =
     (case fetch_event eid of Some st \<Rightarrow> is_power_event R st | None \<Rightarrow> False)"

definition stateres_version :: "RoomVersionId \<Rightarrow> StateResolutionVersion" where
  "stateres_version rv =
     (if rv \<in> {V2, V3, V4, V5, V6, V7, V8, V9, V10, V11} then StateResV2 else StateResV2_1)"

text \<open>The conflicted subgraph and the state the first auth check starts from.\<close>

definition subgraph_and_initial ::
    "RoomVersionId \<Rightarrow> EventId list state_map \<Rightarrow> EventId state_map \<Rightarrow> fetch
     \<Rightarrow> (EventId hash_set \<times> EventId state_map) option" where
  "subgraph_and_initial rv conflicting unconflicted fetch_event =
     (if stateres_version rv = StateResV2_1 then
        map_option (\<lambda>csg. (csg, [])) (calculate_conflicted_subgraph conflicting fetch_event)
      else Some ([], unconflicted))"

definition full_conflicted_set ::
    "EventId hash_set list \<Rightarrow> EventId list state_map \<Rightarrow> EventId hash_set \<Rightarrow> (EventId \<Rightarrow> bool)
     \<Rightarrow> EventId hash_set" where
  "full_conflicted_set auth_chain_sets conflicting csg event_exists =
     hs_extend (filter event_exists
       (get_auth_chain_diff auth_chain_sets @ concat (map snd conflicting)) @ csg) []"

text \<open>The two rounds of sorting and checking, after the full conflicted set is known.\<close>

definition resolve_left ::
    "ruma \<Rightarrow> RoomVersion \<Rightarrow> EventId hash_set \<Rightarrow> EventId list \<Rightarrow> EventId state_map \<Rightarrow> EventId state_map
     \<Rightarrow> fetch \<Rightarrow> (Error + EventId state_map) option" where
  "resolve_left R v all_conflicted sorted_control resolved_control unconflicted fetch_event =
     (let events_to_resolve = filter (\<lambda>eid. eid \<notin> set sorted_control) all_conflicted;
          power_event = map_of resolved_control (RoomPowerLevels, [])
      in Option.bind (mainline_sort events_to_resolve power_event fetch_event) (\<lambda>r.
         Some (rbind r (\<lambda>sorted_left.
           rbind (iterative_auth_check R v sorted_left resolved_control fetch_event)
             (\<lambda>resolved_state. Inr (hm_extend unconflicted resolved_state))))))"

definition resolve_conflicts ::
    "ruma \<Rightarrow> RoomVersionId \<Rightarrow> EventId hash_set \<Rightarrow> EventId state_map \<Rightarrow> EventId state_map \<Rightarrow> fetch
     \<Rightarrow> (Error + EventId state_map) option" where
  "resolve_conflicts R rv all_conflicted initial_state unconflicted fetch_event =
     (let control_events = filter (\<lambda>eid. is_power_event_id R eid fetch_event) all_conflicted in
      Option.bind (reverse_topological_power_sort R control_events all_conflicted fetch_event) (\<lambda>r.
      case rbind r (\<lambda>sorted_control.
             rbind (RoomVersion_new rv) (\<lambda>v.
             rbind (iterative_auth_check R v sorted_control initial_state fetch_event)
               (\<lambda>resolved_control. Inr (v, sorted_control, resolved_control)))) of
        Inl e \<Rightarrow> Some (Inl e)
      | Inr (v, sorted_control, resolved_control) \<Rightarrow>
          resolve_left R v all_conflicted sorted_control resolved_control unconflicted fetch_event))"

definition resolve ::
    "ruma \<Rightarrow> RoomVersionId \<Rightarrow> EventId state_map list \<Rightarrow> EventId hash_set list \<Rightarrow> fetch
     \<Rightarrow> (EventId \<Rightarrow> bool) \<Rightarrow> (Error + EventId state_map) option" where
  "resolve R rv state_sets auth_chain_sets fetch_event event_exists =
     (case separate state_sets of
        (unconflicted, conflicting) \<Rightarrow>
          if conflicting = [] then Some (Inr unconflicted)
          else Option.bind (subgraph_and_initial rv conflicting unconflicted fetch_event)
            (\<lambda>(csg, initial_state).
             resolve_conflicts R rv
               (full_conflicted_set auth_chain_sets conflicting csg event_exists)
               initial_state unconflicted fetch_event))"

section \<open>The checks\<close>

text \<open>
  The state an event is checked against, stated without the code: under a type and key that
  \<open>auth_types_for_event\<close> names and the state resolved so far has an event for, this event; else the last
  of the event's own auth events with the type and key; else, where room ids are hashes, the create event
  the room is named after.
\<close>

definition by_id :: "fetch \<Rightarrow> bool" where
  "by_id f \<longleftrightarrow> (\<forall>i e. f i = Some e \<longrightarrow> event_id e = i)"

definition own_auth_event :: "fetch \<Rightarrow> EventId list \<Rightarrow> TypeStateKey \<Rightarrow> Pdu option" where
  "own_auth_event f aids key =
     find (\<lambda>e. is_type_and_key e (fst key) (snd key)) (rev (List.map_filter f aids))"

definition named_create_event :: "ruma \<Rightarrow> RoomVersion \<Rightarrow> fetch \<Rightarrow> Pdu \<Rightarrow> TypeStateKey \<Rightarrow> Pdu option" where
  "named_create_event R v f ev key =
     (if \<not> room_ids_as_hashes v then None
      else case room_id_or_hash R ev of
        Inl _ \<Rightarrow> None
      | Inr rid \<Rightarrow>
          (case f (replace_char (CHR ''!'') (CHR ''$'') rid) of
             Some c \<Rightarrow> if key = (kind c, []) then Some c else None
           | None \<Rightarrow> None))"

definition auth_view ::
    "ruma \<Rightarrow> RoomVersion \<Rightarrow> fetch \<Rightarrow> (TypeStateKey \<Rightarrow> EventId option) \<Rightarrow> TypeStateKey set \<Rightarrow> Pdu
     \<Rightarrow> TypeStateKey \<Rightarrow> Pdu option" where
  "auth_view R v f st types ev =
     named_create_event R v f ev ++ own_auth_event f (auth_events ev)
       ++ (\<lambda>key. if key \<in> types then Option.bind (st key) f else None)"

definition checked_against ::
    "ruma \<Rightarrow> RoomVersion \<Rightarrow> fetch \<Rightarrow> (TypeStateKey \<Rightarrow> EventId option) \<Rightarrow> Pdu \<Rightarrow> Pdu state_map \<Rightarrow> bool" where
  "checked_against R v f st ev auth_state \<longleftrightarrow>
     (\<exists>types. auth_types_for_event R (kind ev) (sender ev) (state_key ev) (content ev) v = Inr types
        \<and> map_of auth_state = auth_view R v f st (set types) ev)"

text \<open>
  A run of checks from one state to another: every event is checked against the state the run has reached,
  and takes its place in it when the check allows the event.
\<close>

inductive auth_run ::
    "ruma \<Rightarrow> RoomVersion \<Rightarrow> fetch \<Rightarrow> (TypeStateKey \<Rightarrow> EventId option) \<Rightarrow> Pdu list
     \<Rightarrow> (TypeStateKey \<Rightarrow> EventId option) \<Rightarrow> bool" for R v f where
  run_end: "auth_run R v f st [] st"
| run_accept: "checked_against R v f st ev auth_state \<Longrightarrow> check_one R v auth_state ev = Inr True \<Longrightarrow>
    state_key ev = Some k \<Longrightarrow> auth_run R v f (st((kind ev, k) \<mapsto> event_id ev)) evs st' \<Longrightarrow>
    auth_run R v f st (ev # evs) st'"
| run_refuse: "checked_against R v f st ev auth_state \<Longrightarrow> check_one R v auth_state ev = Inr False \<Longrightarrow>
    auth_run R v f st evs st' \<Longrightarrow> auth_run R v f st (ev # evs) st'"

lemma fetch_events_Inr: "fetch_events f ids = Inr es \<longleftrightarrow> map f ids = map Some es"
  by (induction ids arbitrary: es) (auto simp: result_simps Cons_eq_map_conv)

lemma fetch_events_ids:
  assumes "by_id f" "fetch_events f ids = Inr es"
  shows "map event_id es = ids"
proof -
  from assms(2) have *: "map f ids = map Some es" unfolding fetch_events_Inr .
  then show ?thesis using assms(1)
  proof (induction ids arbitrary: es)
    case (Cons i ids)
    then obtain e es' where "es = e # es'" "f i = Some e" "map f ids = map Some es'"
      by (auto simp: Cons_eq_map_conv)
    with Cons show ?case by (auto simp: by_id_def)
  qed simp
qed

lemma fetch_auth_map_fetch:
  assumes "by_id f"
  shows "map_of (fetch_auth_map f evs) aid =
    (if aid \<in> set (concat (map auth_events evs)) then f aid else None)"
proof -
  have "map_of (fold (\<lambda>e. hm_insert (event_id e) e) (List.map_filter f aids) m) aid =
      (if aid \<in> set aids \<and> f aid \<noteq> None then f aid else map_of m aid)" for aids m
  proof (induction aids arbitrary: m)
    case (Cons a aids)
    then show ?case using assms by (cases "f a") (auto simp: List.map_filter_simps by_id_def)
  qed (simp add: List.map_filter_simps)
  then show ?thesis by (auto simp: fetch_auth_map_def Let_def)
qed

lemma own_auth_state_view:
  "own_auth_state am aids a = Inr a' \<Longrightarrow> (\<And>aid. aid \<in> set aids \<Longrightarrow> map_of am aid = f aid) \<Longrightarrow>
   map_of a' = map_of a ++ own_auth_event f aids"
proof (induction aids arbitrary: a)
  case Nil
  then show ?case by (auto simp: own_auth_event_def List.map_filter_simps)
next
  case (Cons i aids)
  have own: "own_auth_event f (i # aids) = (\<lambda>key. case f i of
      Some e \<Rightarrow> if is_type_and_key e (fst key) (snd key) then Some e else None | None \<Rightarrow> None)
      ++ own_auth_event f aids"
  proof
    fix key
    have app: "find P (xs @ ys) = (case find P xs of None \<Rightarrow> find P ys | Some x \<Rightarrow> Some x)"
      for P and xs ys :: "Pdu list" by (induction xs) auto
    show "own_auth_event f (i # aids) key = ((\<lambda>key. case f i of
      Some e \<Rightarrow> if is_type_and_key e (fst key) (snd key) then Some e else None | None \<Rightarrow> None)
      ++ own_auth_event f aids) key"
      by (cases "f i") (auto simp: own_auth_event_def List.map_filter_simps app map_add_def split: option.splits)
  qed
  show ?case
  proof (cases "f i")
    case None
    with Cons.prems have "own_auth_state am aids a = Inr a'" by simp
    from Cons.IH [OF this] Cons.prems(2) None own show ?thesis by (simp add: map_add_def)
  next
    case (Some e)
    with Cons.prems obtain k where k: "state_key e = Some k"
        "own_auth_state am aids (hm_insert (kind e, k) e a) = Inr a'"
      by (auto simp: result_simps with_state_key_def)
    from Cons.IH [OF k(2)] Cons.prems(2)
    have "map_of a' = (map_of a)((kind e, k) \<mapsto> e) ++ own_auth_event f aids" by (simp add: fun_upd_def)
    also have "\<dots> = map_of a ++ own_auth_event f (i # aids)"
      unfolding own by (rule ext) (auto simp: map_add_def Some is_type_and_key_def k(1) split: option.splits)
    finally show ?thesis .
  qed
qed

lemma resolved_auth_state_view:
  "map_of (resolved_auth_state am f st types a) =
     map_of a ++ (\<lambda>key. if key \<in> set types then resolved_auth_event am f st key else None)"
proof -
  have "map_of (fold (\<lambda>key m. case g key of Some e \<Rightarrow> hm_insert key e m | None \<Rightarrow> m) types a) key =
    (if key \<in> set types \<and> g key \<noteq> None then g key else map_of a key)" for g key
    by (induction types arbitrary: a) (auto split: option.splits)
  then show ?thesis by (auto simp: resolved_auth_state_def map_add_def split: option.splits)
qed

lemma create_auth_state_view:
  "create_auth_state R v f ev = Inr a \<Longrightarrow> map_of a = named_create_event R v f ev"
  by (rule ext) (auto simp: create_auth_state_def named_create_event_def result_simps with_state_key_def Let_def
      split: if_splits option.splits sum.splits)

text \<open>The auth state the code builds is the one stated above.\<close>

lemma auth_state_for_checked:
  assumes "by_id f" "state_key ev = Some k" "ev \<in> set evs"
    "auth_state_for R v f (fetch_auth_map f evs) st ev k = Inr a"
  shows "checked_against R v f (map_of st) ev a"
proof -
  let ?am = "fetch_auth_map f evs"
  from assms(4) obtain types a0 a1 where
      types: "auth_types_for_event R (kind ev) (sender ev) (Some k) (content ev) v = Inr types"
      and a0: "create_auth_state R v f ev = Inr a0" and a1: "own_auth_state ?am (auth_events ev) a0 = Inr a1"
      and a: "a = resolved_auth_state ?am f st types a1"
    by (auto simp: auth_state_for_def result_simps)
  have "map_of ?am aid = f aid" if "aid \<in> set (auth_events ev)" for aid
    using that assms(3) by (auto simp: fetch_auth_map_fetch [OF assms(1)])
  from own_auth_state_view [OF a1 this]
  have "map_of a1 = named_create_event R v f ev ++ own_auth_event f (auth_events ev)"
    by (simp add: create_auth_state_view [OF a0])
  moreover have res: "resolved_auth_event ?am f st = (\<lambda>key. Option.bind (map_of st key) f)"
    by (rule ext) (auto simp: resolved_auth_event_def fetch_auth_map_fetch [OF assms(1)]
        split: bind_splits option.splits)
  ultimately show ?thesis
    using types assms(2) unfolding checked_against_def auth_view_def a resolved_auth_state_view res by simp
qed

lemma iterative_auth_loop_run:
  "iterative_auth_loop R v f (fetch_auth_map f all) st evs = Inr st' \<Longrightarrow> by_id f \<Longrightarrow> set evs \<subseteq> set all \<Longrightarrow>
   auth_run R v f (map_of st) evs (map_of st')"
proof (induction evs arbitrary: st)
  case (Cons ev evs)
  from Cons.prems(1) obtain st1 where st1: "iterative_auth_turn R v f (fetch_auth_map f all) st ev = Inr st1"
      "iterative_auth_loop R v f (fetch_auth_map f all) st1 evs = Inr st'"
    by (auto simp: result_simps)
  from st1(1) obtain k a ok where turn: "state_key ev = Some k"
      "auth_state_for R v f (fetch_auth_map f all) st ev k = Inr a" "check_one R v a ev = Inr ok"
      "st1 = (if ok then hm_insert (kind ev, k) (event_id ev) st else st)"
    by (auto simp: iterative_auth_turn_def result_simps with_state_key_def)
  have ck: "checked_against R v f (map_of st) ev a"
    using auth_state_for_checked [OF Cons.prems(2) turn(1) _ turn(2)] Cons.prems(3) by simp
  have run: "auth_run R v f (map_of st1) evs (map_of st')"
    using Cons.IH [OF st1(2)] Cons.prems by simp
  show ?case
  proof (cases ok)
    case True
    with turn(4) have "map_of st1 = (map_of st)((kind ev, k) \<mapsto> event_id ev)" by (simp add: fun_upd_def)
    with run show ?thesis using ck turn(1,3) True by (auto intro: run_accept)
  next
    case False
    with run turn(4) show ?thesis using ck turn(3) by (auto intro: run_refuse)
  qed
qed (simp add: run_end)

lemma iterative_auth_check_run:
  assumes "iterative_auth_check R v ids st f = Inr st'" "by_id f"
  shows "\<exists>evs. mset (map event_id evs) = mset ids \<and> (\<forall>e \<in> set evs. f (event_id e) = Some e)
    \<and> auth_run R v f (map_of st) evs (map_of st')"
proof -
  from assms(1) obtain fetched evs where evs: "fetch_events f ids = Inr fetched"
      "evs = unordered (completion R (FetchToCheck ids)) fetched"
      "(if evs = [] then Inr st else iterative_auth_loop R v f (fetch_auth_map f evs) st evs) = Inr st'"
    by (auto simp: iterative_auth_check_def result_simps Let_def)
  have "auth_run R v f (map_of st) evs (map_of st')"
  proof (cases "evs = []")
    case True
    with evs(3) show ?thesis by (simp add: run_end)
  next
    case False
    with evs(3) show ?thesis using assms(2) by (auto intro: iterative_auth_loop_run)
  qed
  moreover have "mset (map event_id evs) = mset ids"
    using fetch_events_ids [OF assms(2) evs(1)] by (metis evs(2) mset_map mset_unordered)
  moreover have "f (event_id e) = Some e" if "e \<in> set evs" for e
  proof -
    have "Some e \<in> f ` set ids"
      using that evs(1,2) unfolding fetch_events_Inr by (metis image_eqI list.set_map set_unordered)
    then show ?thesis using assms(2) by (auto simp: by_id_def)
  qed
  ultimately show ?thesis by blast
qed

lemma iterative_auth_loop_ok:
  "iterative_auth_loop R v f am st evs = Inr st' \<Longrightarrow> hm_ok st \<Longrightarrow> hm_ok st'"
  by (induction evs arbitrary: st)
    (auto simp: result_simps iterative_auth_turn_def with_state_key_def split: if_splits)

lemma iterative_auth_check_ok:
  "iterative_auth_check R v ids st f = Inr st' \<Longrightarrow> hm_ok st \<Longrightarrow> hm_ok st'"
  by (auto simp: iterative_auth_check_def result_simps Let_def intro: iterative_auth_loop_ok split: if_splits)

section \<open>The mainline\<close>

lemma first_power_levels_Some:
  "first_power_levels f aids = Inr (Some (a, ev)) \<Longrightarrow>
   a \<in> set aids \<and> f a = Some ev \<and> is_type_and_key ev RoomPowerLevels []"
  by (induction aids) (auto simp: result_simps split: if_splits)

lemma wf_fetched_auths:
  assumes "acyclic (fetched_auths f)" "finite (dom f)"
  shows "wf (fetched_auths f)"
proof -
  have "fetched_auths f \<subseteq> (\<Union>n \<in> dom f. set (auth_events (the (f n))) \<times> {n})"
    by (auto simp: fetched_auths_def)
  then have "finite (fetched_auths f)" by (rule finite_subset) (use assms(2) in auto)
  then show ?thesis using assms(1) by (rule finite_acyclic_wf)
qed

lemma fetched_power_levels:
  "f n = Some e \<Longrightarrow> first_power_levels f (auth_events e) = Inr (Some (a, ev)) \<Longrightarrow>
   (a, n) \<in> fetched_auths f"
  by (auto simp: fetched_auths_def dest: first_power_levels_Some)

text \<open>
  The power levels event an event refers to: the first one among its auth events, all those before it
  being known and of other types.
\<close>

definition not_power_levels :: "fetch \<Rightarrow> EventId \<Rightarrow> bool" where
  "not_power_levels f i \<longleftrightarrow> (\<exists>x. f i = Some x \<and> \<not> is_type_and_key x RoomPowerLevels [])"

definition power_parent :: "fetch \<Rightarrow> Pdu \<Rightarrow> (EventId \<times> Pdu) option \<Rightarrow> bool" where
  "power_parent f e nxt \<longleftrightarrow>
     (case nxt of
        None \<Rightarrow> \<forall>i \<in> set (auth_events e). not_power_levels f i
      | Some (a, p) \<Rightarrow> f a = Some p \<and> is_type_and_key p RoomPowerLevels []
          \<and> (\<exists>us vs. auth_events e = us @ a # vs \<and> (\<forall>i \<in> set us. not_power_levels f i)))"

lemma first_power_levels_None:
  "first_power_levels f aids = Inr None \<longleftrightarrow> (\<forall>i \<in> set aids. not_power_levels f i)"
  by (induction aids) (auto simp: result_simps not_power_levels_def split: option.splits)

lemma first_power_levels_parent:
  "first_power_levels f aids = Inr (Some (a, p)) \<longleftrightarrow> f a = Some p \<and> is_type_and_key p RoomPowerLevels []
     \<and> (\<exists>us vs. aids = us @ a # vs \<and> (\<forall>i \<in> set us. not_power_levels f i))"
proof (induction aids)
  case (Cons i aids)
  show ?case
  proof (cases "not_power_levels f i")
    case True
    then obtain x where "f i = Some x" "\<not> is_type_and_key x RoomPowerLevels []"
      by (auto simp: not_power_levels_def)
    then have step: "first_power_levels f (i # aids) = first_power_levels f aids" by simp
    have "(\<exists>us vs. i # aids = us @ a # vs \<and> (\<forall>j \<in> set us. not_power_levels f j)) \<longleftrightarrow>
        (\<exists>us vs. aids = us @ a # vs \<and> (\<forall>j \<in> set us. not_power_levels f j))" (is "?A \<longleftrightarrow> ?B")
      if a: "\<not> not_power_levels f a"
    proof
      assume ?A
      then obtain us vs where us: "i # aids = us @ a # vs" "\<forall>j \<in> set us. not_power_levels f j" by blast
      with True a obtain us' where "us = i # us'" by (cases us) auto
      with us show ?B by auto
    next
      assume ?B
      then obtain us vs where "aids = us @ a # vs" "\<forall>j \<in> set us. not_power_levels f j" by blast
      with True have "i # aids = (i # us) @ a # vs \<and> (\<forall>j \<in> set (i # us). not_power_levels f j)" by simp
      then show ?A by blast
    qed
    moreover have "f a = Some p \<Longrightarrow> is_type_and_key p RoomPowerLevels [] \<Longrightarrow> \<not> not_power_levels f a"
      by (simp add: not_power_levels_def)
    ultimately show ?thesis unfolding step Cons.IH by metis
  next
    case False
    then show ?thesis
      by (auto simp: result_simps not_power_levels_def Cons_eq_append_conv split: if_splits option.splits)
  qed
qed simp

lemma first_power_levels_iff: "first_power_levels f (auth_events e) = Inr nxt \<longleftrightarrow> power_parent f e nxt"
  by (cases nxt) (simp_all add: power_parent_def first_power_levels_None first_power_levels_parent split_paired_all)

text \<open>The mainline from a power levels event: each next event is the power levels event the one before
  refers to.\<close>

inductive mainline_from :: "fetch \<Rightarrow> EventId option \<Rightarrow> EventId list \<Rightarrow> bool" for f where
  mainline_end: "mainline_from f None []"
| mainline_step: "f p = Some e \<Longrightarrow> power_parent f e nxt \<Longrightarrow>
   mainline_from f (map_option fst nxt) ps \<Longrightarrow> mainline_from f (Some p) (p # ps)"

lemma mainline_loop_complete:
  "mainline_from f pl ps \<Longrightarrow> mainline_loop f pl acc = Some (Inr (acc @ ps))"
proof (induction arbitrary: acc rule: mainline_from.induct)
  case (mainline_step p e nxt ps)
  have "first_power_levels f (auth_events e) = Inr nxt"
    using mainline_step.hyps(2) unfolding first_power_levels_iff .
  with mainline_step show ?case by (simp add: mainline_loop.simps [of _ "Some p"])
qed (simp add: mainline_loop.simps)

lemma mainline_loop_correct:
  assumes "wf (fetched_auths f)"
  shows "\<exists>r. mainline_loop f (Some p) acc = Some r
    \<and> (\<forall>ml. r = Inr ml \<longrightarrow> (\<exists>ps. ml = acc @ ps \<and> mainline_from f (Some p) ps))"
  using assms
proof (induction p arbitrary: acc rule: wf_induct_rule)
  case (less p)
  show ?case
  proof (cases "rbind (ok_or NotFound (f p)) (\<lambda>event. first_power_levels f (auth_events event))")
    case (Inl e)
    then show ?thesis by (simp add: mainline_loop.simps)
  next
    case (Inr nxt)
    then obtain e where e: "f p = Some e" "first_power_levels f (auth_events e) = Inr nxt"
      by (auto simp: result_simps)
    show ?thesis
    proof (cases nxt)
      case None
      then have "mainline_from f (Some p) [p]"
        using mainline_step [of f p e nxt "[]"] e mainline_end
        unfolding first_power_levels_iff by simp
      with Inr None show ?thesis by (simp add: mainline_loop.simps)
    next
      case (Some q)
      then obtain a ev where q: "nxt = Some (a, ev)" by (cases q) auto
      with e have "(a, p) \<in> fetched_auths f" by (auto intro: fetched_power_levels)
      from less.IH [OF this, of "acc @ [p]"] obtain r where r:
          "mainline_loop f (Some a) (acc @ [p]) = Some r"
          "\<And>ml. r = Inr ml \<Longrightarrow> \<exists>ps. ml = (acc @ [p]) @ ps \<and> mainline_from f (Some a) ps" by blast
      have "mainline_from f (Some p) (p # ps)" if "mainline_from f (Some a) ps" for ps
        using mainline_step [of f p e nxt ps] e q that unfolding first_power_levels_iff by simp
      with r Inr q show ?thesis by (auto simp: mainline_loop.simps [of _ "Some p"])
    qed
  qed
qed

lemma mainline_from_distinct:
  assumes "wf (fetched_auths f)"
  shows "mainline_from f (Some p) ps \<Longrightarrow> distinct ps \<and> (\<forall>q \<in> set ps. (q, p) \<in> (fetched_auths f)\<^sup>*)"
  using assms
proof (induction p arbitrary: ps rule: wf_induct_rule)
  case (less p)
  from less.prems obtain e nxt qs where step: "ps = p # qs" "f p = Some e"
      "first_power_levels f (auth_events e) = Inr nxt" "mainline_from f (map_option fst nxt) qs"
    unfolding first_power_levels_iff by (cases rule: mainline_from.cases) auto
  show ?case
  proof (cases nxt)
    case None
    with step(4) have "qs = []" by (cases rule: mainline_from.cases) auto
    with step(1) show ?thesis by simp
  next
    case (Some q)
    then obtain a ev where q: "nxt = Some (a, ev)" by (cases q) auto
    with step have edge: "(a, p) \<in> fetched_auths f" by (auto intro: fetched_power_levels)
    have "mainline_from f (Some a) qs" using step(4) q by simp
    from less.IH [OF edge this] have IH: "distinct qs" "\<forall>q \<in> set qs. (q, a) \<in> (fetched_auths f)\<^sup>*" by auto
    have "p \<notin> set qs"
      using IH(2) edge assms by (metis rtrancl_into_trancl1 wf_acyclic acyclic_def)
    with IH edge step(1) show ?thesis by (auto intro: rtrancl_into_rtrancl)
  qed
qed

lemma mainline_map_fold:
  "distinct es \<Longrightarrow> i < length es \<Longrightarrow>
   map_of (fold (\<lambda>(idx, eid). hm_insert eid idx) (enumerate n es) m) (es ! i) = Some (n + i)"
proof (induction es arbitrary: n m i)
  case (Cons e es)
  have keep: "e \<notin> set xs \<Longrightarrow>
      map_of (fold (\<lambda>(idx, eid). hm_insert eid idx) (enumerate k xs) m) e = map_of m e" for xs k m
    by (induction xs arbitrary: k m) auto
  from Cons show ?case by (cases i) (auto simp: keep)
qed simp

text \<open>
  The depth of a mainline event counts the mainline events older than it: the resolved power levels
  event has the largest depth and the first one depth zero.
\<close>

lemma mainline_depth_position:
  assumes "distinct ml" "i < length ml"
  shows "map_of (mainline_map ml) (ml ! i) = Some (length ml - Suc i)"
proof -
  have "rev ml ! (length ml - Suc i) = ml ! i" using assms(2) by (simp add: rev_nth)
  with mainline_map_fold [of "rev ml" "length ml - Suc i" 0 "[]"] assms show ?thesis
    by (simp add: mainline_map_def)
qed

text \<open>
  The mainline depth of an event, stated without the code: the number of mainline events older than the
  closest mainline event on the chain of power levels events it refers to, zero when it meets none.
\<close>

inductive depth_in :: "fetch \<Rightarrow> EventId list \<Rightarrow> Pdu \<Rightarrow> nat \<Rightarrow> bool" for f ml where
  depth_here: "ml = newer @ event_id e # older \<Longrightarrow> depth_in f ml e (length older)"
| depth_none: "event_id e \<notin> set ml \<Longrightarrow> power_parent f e None \<Longrightarrow> depth_in f ml e 0"
| depth_parent: "event_id e \<notin> set ml \<Longrightarrow> power_parent f e (Some (a, p)) \<Longrightarrow> depth_in f ml p d \<Longrightarrow>
    depth_in f ml e d"

lemma dom_mainline_map: "map_of (mainline_map ml) i = None \<longleftrightarrow> i \<notin> set ml"
proof -
  have "map_of (fold (\<lambda>(idx, eid). hm_insert eid idx) (enumerate n es) m) i = None \<longleftrightarrow>
      map_of m i = None \<and> i \<notin> set es" for n es and m :: "(EventId, nat) hash_map"
    by (induction es arbitrary: n m) auto
  then show ?thesis by (simp add: mainline_map_def)
qed

lemma mainline_map_older:
  assumes "distinct (newer @ i # older)"
  shows "map_of (mainline_map (newer @ i # older)) i = Some (length older)"
  using mainline_depth_position [OF assms, of "length newer"] by simp

lemma mainline_map_Some:
  assumes "distinct ml" "map_of (mainline_map ml) i = Some d"
  shows "\<exists>newer older. ml = newer @ i # older \<and> d = length older"
proof -
  have "i \<in> set ml" using assms(2) dom_mainline_map [of ml i] by auto
  then obtain newer older where "ml = newer @ i # older" by (auto simp: in_set_conv_decomp)
  with assms mainline_map_older show ?thesis by fastforce
qed

lemma get_mainline_depth_returns:
  assumes "wf (fetched_auths f)" "f n = Some e"
  shows "\<exists>r. get_mainline_depth (Some e) mm f = Some r"
  using assms
proof (induction n arbitrary: e rule: wf_induct_rule)
  case (less n)
  show ?case
  proof (cases "map_of mm (event_id e)")
    case None
    show ?thesis
    proof (cases "first_power_levels f (auth_events e)")
      case (Inr nxt)
      show ?thesis
      proof (cases nxt)
        case (Some q)
        then obtain a ev where q: "nxt = Some (a, ev)" by (cases q) auto
        with Inr less.prems have "(a, n) \<in> fetched_auths f" by (auto intro: fetched_power_levels)
        moreover have "f a = Some ev" using Inr q by (auto dest: first_power_levels_Some)
        ultimately have "\<exists>r. get_mainline_depth (Some ev) mm f = Some r" by (rule less.IH)
        with None Inr q show ?thesis by (simp add: get_mainline_depth.simps [of "Some e"])
      qed (use None Inr in \<open>simp add: get_mainline_depth.simps\<close>)
    qed (use None in \<open>simp add: get_mainline_depth.simps\<close>)
  qed (simp add: get_mainline_depth.simps)
qed

lemma depth_in_sound:
  assumes "distinct ml" "depth_in f ml e d"
  shows "get_mainline_depth (Some e) (mainline_map ml) f = Some (Inr d)"
  using assms(2)
proof induction
  case (depth_here newer e older)
  with assms(1) show ?case by (simp add: get_mainline_depth.simps [of "Some e"] mainline_map_older)
next
  case (depth_none e)
  then have "map_of (mainline_map ml) (event_id e) = None" "first_power_levels f (auth_events e) = Inr None"
    by (simp_all add: dom_mainline_map first_power_levels_iff)
  then show ?case by (simp add: get_mainline_depth.simps)
next
  case (depth_parent e a p d)
  then have "map_of (mainline_map ml) (event_id e) = None" "first_power_levels f (auth_events e) = Inr (Some (a, p))"
    by (simp_all add: dom_mainline_map first_power_levels_iff)
  with depth_parent.IH show ?case by (simp add: get_mainline_depth.simps [of "Some e"])
qed

lemma depth_in_complete:
  assumes "wf (fetched_auths f)" "distinct ml" "f n = Some e"
    "get_mainline_depth (Some e) (mainline_map ml) f = Some (Inr d)"
  shows "depth_in f ml e d"
  using assms(1,3,4)
proof (induction n arbitrary: e rule: wf_induct_rule)
  case (less n)
  show ?case
  proof (cases "map_of (mainline_map ml) (event_id e)")
    case (Some d')
    with less.prems(2) have "d' = d" by (simp add: get_mainline_depth.simps)
    with mainline_map_Some [OF assms(2) Some] show ?thesis by (auto intro: depth_here)
  next
    case None
    then have off: "event_id e \<notin> set ml" by (simp add: dom_mainline_map)
    obtain nxt where nxt: "first_power_levels f (auth_events e) = Inr nxt"
        "get_mainline_depth (map_option snd nxt) (mainline_map ml) f = Some (Inr d)"
      using less.prems(2) None by (auto simp: get_mainline_depth.simps [of "Some e"] split: sum.splits)
    show ?thesis
    proof (cases nxt)
      case None
      with nxt off show ?thesis
        by (auto simp: get_mainline_depth.simps first_power_levels_iff intro: depth_none)
    next
      case (Some q)
      then obtain a p where q: "nxt = Some (a, p)" by (cases q) auto
      have "(a, n) \<in> fetched_auths f" using nxt(1) q less.prems(1) by (auto intro: fetched_power_levels)
      moreover have "f a = Some p" using nxt(1) q by (auto dest: first_power_levels_Some)
      ultimately have "depth_in f ml p d" using less.IH nxt(2) q by simp
      with off nxt(1) q show ?thesis by (auto simp: first_power_levels_iff intro: depth_parent)
    qed
  qed
qed

text \<open>The events the order map holds, each under its key.\<close>

lemma order_map_correct:
  assumes "wf (fetched_auths f)" "distinct ids"
  shows "\<exists>m. order_map ids mm f = Some m \<and> distinct (map fst m)
    \<and> (\<forall>i k. (i, k) \<in> set m \<longleftrightarrow> i \<in> set ids \<and> (\<exists>e d. f i = Some e
         \<and> get_mainline_depth (Some e) mm f = Some (Inr d) \<and> k = (d, origin_server_ts e, i)))"
  using assms(2)
proof (induction ids)
  case (Cons i ids)
  then obtain m where m: "order_map ids mm f = Some m" "distinct (map fst m)"
    "\<forall>j k. (j, k) \<in> set m \<longleftrightarrow> j \<in> set ids \<and> (\<exists>e d. f j = Some e
         \<and> get_mainline_depth (Some e) mm f = Some (Inr d) \<and> k = (d, origin_server_ts e, j))"
    by auto
  show ?case
  proof (cases "f i")
    case None
    with m show ?thesis by auto
  next
    case (Some e)
    obtain r where r: "get_mainline_depth (Some e) mm f = Some r"
      using get_mainline_depth_returns [OF assms(1) Some] by blast
    have "i \<notin> fst ` set m" using m(3) Cons.prems by auto
    with m Some r Cons.prems show ?thesis by (cases r) auto
  qed
qed simp

lemma mainline_from_any_distinct: "wf (fetched_auths f) \<Longrightarrow> mainline_from f pl ml \<Longrightarrow> distinct ml"
  using mainline_from_distinct [of f _ ml] by (cases pl) (auto elim: mainline_from.cases)

definition mainline_sorted :: "fetch \<Rightarrow> EventId option \<Rightarrow> EventId list \<Rightarrow> EventId list \<Rightarrow> bool" where
  "mainline_sorted f pl ids xs \<longleftrightarrow>
     (\<exists>ml key. mainline_from f pl ml \<and> distinct xs \<and> sorted (map key xs)
        \<and> set xs = {i \<in> set ids. \<exists>e d. f i = Some e \<and> depth_in f ml e d}
        \<and> (\<forall>i \<in> set xs. \<forall>e d. f i = Some e \<and> depth_in f ml e d \<longrightarrow> key i = (d, origin_server_ts e, i)))"

lemma mainline_sort_ok:
  assumes wf: "wf (fetched_auths f)" and ids: "distinct ids" "ids \<noteq> []"
  shows "\<exists>r. mainline_sort ids pl f = Some r
    \<and> (case r of Inl _ \<Rightarrow> \<not> (\<exists>ml. mainline_from f pl ml) | Inr xs \<Rightarrow> mainline_sorted f pl ids xs)"
proof -
  have "\<exists>r. mainline_loop f pl [] = Some r \<and> (\<forall>ml. r = Inr ml \<longrightarrow> mainline_from f pl ml)"
    using mainline_loop_correct [OF wf, of _ "[]"]
    by (cases pl) (auto simp: mainline_loop.simps intro: mainline_end)
  then obtain r where r: "mainline_loop f pl [] = Some r" "\<And>ml. r = Inr ml \<Longrightarrow> mainline_from f pl ml" by blast
  show ?thesis
  proof (cases r)
    case (Inl e)
    then have "\<not> (\<exists>ml. mainline_from f pl ml)" using r(1) mainline_loop_complete by fastforce
    with r(1) Inl ids(2) show ?thesis by (simp add: mainline_sort_def)
  next
    case (Inr ml)
    have ml: "distinct ml" using mainline_from_any_distinct [OF wf r(2) [OF Inr]] .
    have depth: "f i = Some e \<Longrightarrow> get_mainline_depth (Some e) (mainline_map ml) f = Some (Inr d) \<longleftrightarrow> depth_in f ml e d"
      for i e d using depth_in_sound [OF ml] depth_in_complete [OF wf ml] by blast
    obtain m where m: "order_map ids (mainline_map ml) f = Some m" "distinct (map fst m)"
      "\<forall>i k. (i, k) \<in> set m \<longleftrightarrow> i \<in> set ids \<and> (\<exists>e d. f i = Some e
         \<and> get_mainline_depth (Some e) (mainline_map ml) f = Some (Inr d) \<and> k = (d, origin_server_ts e, i))"
      using order_map_correct [OF wf ids(1)] by blast
    let ?key = "\<lambda>eid. the (map_of m eid)" and ?xs = "sort_key (\<lambda>eid. the (map_of m eid)) (map fst m)"
    have key: "?key i = k" if "(i, k) \<in> set m" for i k using map_of_hm_ok [OF m(2), of i k] that by simp
    have dom: "set ?xs = {i \<in> set ids. \<exists>e d. f i = Some e \<and> depth_in f ml e d}"
    proof -
      have "i \<in> set ?xs \<longleftrightarrow> (\<exists>k. (i, k) \<in> set m)" for i by (force simp: image_iff)
      then show ?thesis unfolding set_eq_iff using m(3) depth by auto
    qed
    moreover have "\<forall>i \<in> set ?xs. \<forall>e d. f i = Some e \<and> depth_in f ml e d \<longrightarrow> ?key i = (d, origin_server_ts e, i)"
      using key m(3) depth dom by blast
    ultimately have "mainline_sorted f pl ids ?xs"
      using r(2) [OF Inr] m(2) unfolding mainline_sorted_def
      by (intro exI [of _ ml] exI [of _ ?key] conjI) (simp_all del: set_sort)
    moreover have "mainline_sort ids pl f = Some (Inr ?xs)"
      using r(1) Inr m(1) ids(2) by (simp add: mainline_sort_def)
    ultimately show ?thesis by (intro exI [of _ "Inr ?xs"]) simp
  qed
qed

text \<open>
  C35: On a well-founded store the mainline sort returns: an error when the mainline of the resolved power
  levels event cannot be fetched, and else the given events that can be fetched and have a mainline depth,
  each once, ordered by the number of mainline events older than the closest mainline event they refer
  to, then by time and event id. Events that refer to the oldest power levels come first (the comment
  on the function counts the other way).
\<close>

theorem mainline_sort_correct:
  assumes "wf (fetched_auths f)" "distinct ids" "ids \<noteq> []"
  shows "\<exists>r. mainline_sort ids pl f = Some r
    \<and> (case r of Inl _ \<Rightarrow> \<not> (\<exists>ml. mainline_from f pl ml) | Inr xs \<Rightarrow> mainline_sorted f pl ids xs)"
  using assms by (rule mainline_sort_ok)

section \<open>Resolution\<close>

lemma mainline_sort_ids:
  assumes "wf (fetched_auths f)" "distinct ids"
  shows "\<exists>r. mainline_sort ids pl f = Some r
    \<and> (\<forall>xs. r = Inr xs \<longrightarrow> ids = [] \<and> xs = [] \<or> mainline_sorted f pl ids xs)"
proof (cases "ids = []")
  case True
  then show ?thesis by (simp add: mainline_sort_def)
next
  case False
  from mainline_sort_ok [OF assms False, of pl] show ?thesis by auto
qed

text \<open>
  The specification of resolution over a full conflicted set: two runs of checks, one of the power events
  with those of the set they lead to, one of the other events with a mainline depth under the
  power levels the first run resolved; then the agreed state is put over the result.
\<close>

definition resolved_in_rounds ::
    "ruma \<Rightarrow> RoomVersionId \<Rightarrow> fetch \<Rightarrow> EventId list \<Rightarrow> (TypeStateKey \<Rightarrow> EventId option)
     \<Rightarrow> (TypeStateKey \<Rightarrow> EventId option) \<Rightarrow> (TypeStateKey \<Rightarrow> EventId option) \<Rightarrow> bool" where
  "resolved_in_rounds R rv f all init agreed st \<longleftrightarrow>
     (\<exists>v control mid others res. RoomVersion_new rv = Inr v
        \<and> auth_run R v f init control mid \<and> auth_run R v f mid others res \<and> st = res ++ agreed
        \<and> (\<forall>e \<in> set control \<union> set others. f (event_id e) = Some e)
        \<and> distinct (map event_id control) \<and> distinct (map event_id others)
        \<and> event_id ` set control =
            (auth_rel all (fetch_auth_events f))\<^sup>* `` {i \<in> set all. is_power_event_id R i f}
        \<and> (set all \<subseteq> event_id ` set control \<and> others = []
           \<or> (\<exists>ml. mainline_from f (mid (RoomPowerLevels, [])) ml
                \<and> event_id ` set others =
                    {i \<in> set all - event_id ` set control. \<exists>e d. f i = Some e \<and> depth_in f ml e d})))"

lemma resolve_left_returns:
  assumes "wf (fetched_auths f)" "distinct all" "hm_ok unc"
  shows "\<exists>r. resolve_left R v all ctrl rc unc f = Some r \<and> (\<forall>st. r = Inr st \<longrightarrow> map_of unc \<subseteq>\<^sub>m map_of st)"
proof -
  let ?ids = "filter (\<lambda>eid. eid \<notin> set ctrl) all"
  have "distinct ?ids" using assms(2) by simp
  then obtain r where "mainline_sort ?ids (map_of rc (RoomPowerLevels, [])) f = Some r"
    using mainline_sort_ids [OF assms(1)] by blast
  then show ?thesis using assms(3)
    by (auto simp: resolve_left_def result_simps map_of_hm_extend)
qed

lemma resolve_left_rounds:
  assumes "wf (fetched_auths f)" "distinct all" "hm_ok unc" "by_id f"
    "resolve_left R v all ctrl rc unc f = Some (Inr st)"
  shows "\<exists>others res. auth_run R v f (map_of rc) others res \<and> map_of st = res ++ map_of unc
    \<and> (\<forall>e \<in> set others. f (event_id e) = Some e) \<and> distinct (map event_id others)
    \<and> (set all \<subseteq> set ctrl \<and> others = []
       \<or> (\<exists>ml. mainline_from f (map_of rc (RoomPowerLevels, [])) ml
            \<and> event_id ` set others = {i \<in> set all - set ctrl. \<exists>e d. f i = Some e \<and> depth_in f ml e d}))"
proof -
  let ?ids = "filter (\<lambda>eid. eid \<notin> set ctrl) all" and ?pl = "map_of rc (RoomPowerLevels, [])"
  have ids: "distinct ?ids" using assms(2) by simp
  from assms(5) obtain xs st' where st: "mainline_sort ?ids ?pl f = Some (Inr xs)"
      "iterative_auth_check R v xs rc f = Inr st'" "st = hm_extend unc st'"
    by (auto simp: resolve_left_def result_simps Option.bind_eq_Some_conv)
  have sorted: "?ids = [] \<and> xs = [] \<or> mainline_sorted f ?pl ?ids xs"
    using mainline_sort_ids [OF assms(1) ids, of ?pl] st(1) by auto
  obtain evs where evs: "mset (map event_id evs) = mset xs" "\<forall>e \<in> set evs. f (event_id e) = Some e"
      "auth_run R v f (map_of rc) evs (map_of st')"
    using iterative_auth_check_run [OF st(2) assms(4)] by blast
  have xs: "event_id ` set evs = set xs" "distinct (map event_id evs) = distinct xs"
    using evs(1) by (metis list.set_map set_mset_mset, metis mset_eq_imp_distinct_iff)
  have "set all \<subseteq> set ctrl \<and> evs = [] \<or> (\<exists>ml. mainline_from f ?pl ml
      \<and> event_id ` set evs = {i \<in> set all - set ctrl. \<exists>e d. f i = Some e \<and> depth_in f ml e d})"
    using sorted
  proof
    assume "?ids = [] \<and> xs = []"
    then show ?thesis using xs(1) by (auto simp: filter_empty_conv)
  next
    assume "mainline_sorted f ?pl ?ids xs"
    then obtain ml where "mainline_from f ?pl ml"
        "set xs = {i \<in> set ?ids. \<exists>e d. f i = Some e \<and> depth_in f ml e d}"
      unfolding mainline_sorted_def by blast
    then have "mainline_from f ?pl ml \<and>
        event_id ` set evs = {i \<in> set all - set ctrl. \<exists>e d. f i = Some e \<and> depth_in f ml e d}"
      unfolding xs(1) by auto
    then show ?thesis by blast
  qed
  moreover have "distinct (map event_id evs)" using sorted xs(2) by (auto simp: mainline_sorted_def)
  moreover have "map_of st = map_of st' ++ map_of unc" using st(3) assms(3) by (simp add: map_of_hm_extend)
  ultimately show ?thesis using evs(2,3) by blast
qed

lemma resolve_conflicts_returns:
  assumes "wf (fetched_auths f)" "distinct all" "hm_ok unc"
  shows "\<exists>r. resolve_conflicts R rv all init unc f = Some r \<and> (\<forall>st. r = Inr st \<longrightarrow> map_of unc \<subseteq>\<^sub>m map_of st)"
proof -
  obtain r where r: "reverse_topological_power_sort R (filter (\<lambda>eid. is_power_event_id R eid f) all) all f = Some r"
    using power_sort_total by blast
  show ?thesis
    using resolve_left_returns [OF assms, of R] r
    by (auto simp: resolve_conflicts_def split: sum.split)
qed

lemma resolve_conflicts_rounds:
  assumes "wf (fetched_auths f)" "distinct all" "hm_ok unc" "by_id f"
    "resolve_conflicts R rv all init unc f = Some (Inr st)"
  shows "resolved_in_rounds R rv f all (map_of init) (map_of unc) (map_of st)"
proof -
  let ?ctrl = "filter (\<lambda>eid. is_power_event_id R eid f) all"
  from assms(5) obtain ctrl v rc where run:
      "reverse_topological_power_sort R ?ctrl all f = Some (Inr ctrl)" "RoomVersion_new rv = Inr v"
      "iterative_auth_check R v ctrl init f = Inr rc" "resolve_left R v all ctrl rc unc f = Some (Inr st)"
    unfolding resolve_conflicts_def Let_def Option.bind_eq_Some_conv
    by (elim exE conjE, split sum.split_asm) (auto simp: result_simps)
  note nodes = power_sort_nodes [OF wf_acyclic [OF assms(1)] run(1)]
  obtain control where control: "mset (map event_id control) = mset ctrl"
      "\<forall>e \<in> set control. f (event_id e) = Some e" "auth_run R v f (map_of init) control (map_of rc)"
    using iterative_auth_check_run [OF run(3) assms(4)] by blast
  have ids: "event_id ` set control = set ctrl" "distinct (map event_id control) = distinct ctrl"
    using control(1) by (metis list.set_map set_mset_mset, metis mset_eq_imp_distinct_iff)
  obtain others res where others: "auth_run R v f (map_of rc) others res" "map_of st = res ++ map_of unc"
      "\<forall>e \<in> set others. f (event_id e) = Some e" "distinct (map event_id others)"
      "set all \<subseteq> set ctrl \<and> others = []
       \<or> (\<exists>ml. mainline_from f (map_of rc (RoomPowerLevels, [])) ml
            \<and> event_id ` set others = {i \<in> set all - set ctrl. \<exists>e d. f i = Some e \<and> depth_in f ml e d})"
    using resolve_left_rounds [OF assms(1-4) run(4)] by (elim exE conjE) (rule that)
  show ?thesis unfolding resolved_in_rounds_def
  proof (intro exI conjI)
    show "\<forall>e \<in> set control \<union> set others. f (event_id e) = Some e" using control(2) others(3) by blast
    show "distinct (map event_id control)" using ids(2) nodes by simp
    show "event_id ` set control =
        (auth_rel all (fetch_auth_events f))\<^sup>* `` {i \<in> set all. is_power_event_id R i f}"
      unfolding ids(1) using nodes by simp
    show "set all \<subseteq> event_id ` set control \<and> others = []
       \<or> (\<exists>ml. mainline_from f (map_of rc (RoomPowerLevels, [])) ml
            \<and> event_id ` set others =
                {i \<in> set all - event_id ` set control. \<exists>e d. f i = Some e \<and> depth_in f ml e d})"
      unfolding ids(1) by (rule others(5))
  qed (rule run(2) control(3) others(1,2,4))+
qed

lemma subgraph_and_initial_returns:
  assumes "acyclic (fetched_auths f)" "finite (dom f)"
  shows "\<exists>csg init. subgraph_and_initial rv c u f = Some (csg, init) \<and> map_of init \<subseteq>\<^sub>m map_of u"
  using conflicted_subgraph_total [OF assms, of c] by (auto simp: subgraph_and_initial_def)

lemma resolve_ok:
  assumes "acyclic (fetched_auths f)" "finite (dom f)" "\<forall>m \<in> set ms. hm_ok m" "length ms \<le> usize_max"
    "separate ms = (u, c)"
  shows "\<exists>r. resolve R rv ms acs f ex = Some r \<and> (\<forall>st. r = Inr st \<longrightarrow> map_of u \<subseteq>\<^sub>m map_of st)"
proof (cases "c = []")
  case True
  with assms(5) show ?thesis by (simp add: resolve_def)
next
  case False
  obtain csg init where sub: "subgraph_and_initial rv c u f = Some (csg, init)"
    using subgraph_and_initial_returns [OF assms(1,2)] by blast
  have "hm_ok u" using separate_ok [OF assms(3-5)] by simp
  moreover have "distinct (full_conflicted_set acs c csg ex)" by (simp add: full_conflicted_set_def)
  ultimately show ?thesis
    using resolve_conflicts_returns [OF wf_fetched_auths [OF assms(1,2)]] False assms(5) sub
    by (simp add: resolve_def)
qed

lemma resolve_rounds:
  assumes "acyclic (fetched_auths f)" "finite (dom f)" "\<forall>m \<in> set ms. hm_ok m" "length ms \<le> usize_max"
    "by_id f" "separate ms = (u, c)" "resolve R rv ms acs f ex = Some (Inr st)"
  shows "c = [] \<and> map_of st = map_of u
    \<or> (\<exists>csg init. subgraph_and_initial rv c u f = Some (csg, init)
        \<and> resolved_in_rounds R rv f (full_conflicted_set acs c csg ex) (map_of init) (map_of u) (map_of st))"
proof (cases "c = []")
  case True
  with assms(6,7) show ?thesis by (simp add: resolve_def)
next
  case False
  obtain csg init where sub: "subgraph_and_initial rv c u f = Some (csg, init)"
    using subgraph_and_initial_returns [OF assms(1,2)] by blast
  let ?all = "full_conflicted_set acs c csg ex"
  have "resolve_conflicts R rv ?all init u f = Some (Inr st)" using assms(6,7) sub False by (simp add: resolve_def)
  moreover have "hm_ok u" using separate_ok [OF assms(3,4,6)] by simp
  moreover have "distinct ?all" by (simp add: full_conflicted_set_def)
  ultimately have "resolved_in_rounds R rv f ?all (map_of init) (map_of u) (map_of st)"
    using resolve_conflicts_rounds [OF wf_fetched_auths [OF assms(1,2)] _ _ assms(5)] by blast
  with sub show ?thesis by blast
qed

text \<open>
  C3: State resolution returns, with a state or an error, for every room version, whenever the store of
  events is finite and acyclic.
\<close>

theorem resolve_returns:
  assumes "acyclic (fetched_auths f)" "finite (dom f)" "\<forall>m \<in> set ms. hm_ok m" "length ms \<le> usize_max"
  shows "\<exists>r. resolve R rv ms acs f ex = Some r"
proof -
  obtain u c where "separate ms = (u, c)" by fastforce
  from resolve_ok [OF assms this] show ?thesis by blast
qed

text \<open>
  C2: State on which all the state sets agree is in the resolved state.
\<close>

theorem resolve_keeps_agreed:
  assumes "acyclic (fetched_auths f)" "finite (dom f)" "\<forall>m \<in> set ms. hm_ok m" "length ms \<le> usize_max"
    "resolve R rv ms acs f ex = Some (Inr st)" "ms \<noteq> []" "\<forall>m \<in> set ms. map_of m key = Some i"
  shows "map_of st key = Some i"
proof -
  obtain u c where uc: "separate ms = (u, c)" by fastforce
  have "map_of u key = Some i" using separate_ok [OF assms(3,4) uc] assms(6,7) by blast
  moreover have "map_of u \<subseteq>\<^sub>m map_of st"
    using resolve_ok [OF assms(1-4) uc, of R rv acs ex] assms(5) by simp
  ultimately show ?thesis by (metis domI map_le_def)
qed

text \<open>
  C1: A resolved state is the agreed state alone when nothing is in conflict. Otherwise it is the agreed
  state put over the result of two runs of auth checks over the full conflicted set, the power
  events with what they lead to and then the other events with a mainline depth. In a run every event is
  checked against its own auth events overridden by the state the run has resolved so far, and enters that
  state exactly when the check allows it. Within a run the events are taken in an unspecified order, that
  in which the fetches complete. The store is assumed to return events under their ids.
\<close>

theorem resolve_provenance:
  assumes "acyclic (fetched_auths f)" "finite (dom f)" "\<forall>m \<in> set ms. hm_ok m" "length ms \<le> usize_max"
    "by_id f" "resolve R rv ms acs f ex = Some (Inr st)"
  shows "\<exists>agreed. (\<forall>key i. agreed key = Some i \<longleftrightarrow> ms \<noteq> [] \<and> (\<forall>m \<in> set ms. map_of m key = Some i))
    \<and> (snd (separate ms) = [] \<and> map_of st = agreed
       \<or> (\<exists>csg init. subgraph_and_initial rv (snd (separate ms)) (fst (separate ms)) f = Some (csg, init)
           \<and> map_of init = (if stateres_version rv = StateResV2_1 then Map.empty else agreed)
           \<and> resolved_in_rounds R rv f (full_conflicted_set acs (snd (separate ms)) csg ex)
               (map_of init) agreed (map_of st)))"
proof -
  obtain u c where uc: "separate ms = (u, c)" by fastforce
  have agreed: "map_of u key = Some i \<longleftrightarrow> ms \<noteq> [] \<and> (\<forall>m \<in> set ms. map_of m key = Some i)" for key i
    using separate_ok [OF assms(3,4) uc] by blast
  have init: "map_of init = (if stateres_version rv = StateResV2_1 then Map.empty else map_of u)"
    if "subgraph_and_initial rv c u f = Some (csg, init)" for csg init
    using that by (auto simp: subgraph_and_initial_def split: if_splits)
  from resolve_rounds [OF assms(1-5) uc assms(6)] show ?thesis
    unfolding uc fst_conv snd_conv
    by (intro exI [of _ "map_of u"] conjI allI agreed) (use init in blast)
qed

text \<open>
  When the state sets are all the same map, the resolved state is that map.
\<close>

lemma resolve_agreement:
  assumes "ms \<noteq> []" "\<forall>m \<in> set ms. hm_ok m \<and> map_of m = map_of m0" "length ms \<le> usize_max"
  shows "\<exists>st. resolve R rv ms acs f ex = Some (Inr st) \<and> map_of st = map_of m0"
proof -
  obtain u c where uc: "separate ms = (u, c)" by fastforce
  have ok: "\<forall>m \<in> set ms. hm_ok m" using assms(2) by simp
  note sep = separate_ok [OF ok assms(3) uc]
  have "map_of u k = Some i \<longleftrightarrow> map_of m0 k = Some i" for k i
  proof -
    have "map_of u k = Some i \<longleftrightarrow> ms \<noteq> [] \<and> (\<forall>m \<in> set ms. map_of m k = Some i)" using sep by blast
    also have "\<dots> \<longleftrightarrow> map_of m0 k = Some i" using assms(1,2) by (cases ms) auto
    finally show ?thesis .
  qed
  then have "map_of u = map_of m0" by (metis (no_types, lifting) ext not_None_eq)
  have ids: "ids_at c k = {}" for k
  proof -
    have "i \<in> ids_at c k \<longleftrightarrow> (\<exists>m \<in> set ms. map_of m k = Some i) \<and> (\<exists>m \<in> set ms. map_of m k \<noteq> Some i)" for i
      using sep by blast
    then show ?thesis using assms(2) by auto
  qed
  have "map_of c k = None" for k
    using separate_nonempty [OF uc, of k] ids [of k] by (cases "map_of c k") (auto simp: ids_at_def)
  then have "c = []" by (metis empty_eq_map_of_iff ext)
  with uc \<open>map_of u = map_of m0\<close> show ?thesis by (simp add: resolve_def)
qed

section \<open>Examples\<close>

definition demo_sets :: "EventId state_map list" where
  "demo_sets =
     [[((RoomCreate, []), ''$0''), ((RoomMember, ''@a''), ''$1''), ((RoomPowerLevels, []), ''$2'')],
      [((RoomPowerLevels, []), ''$5''), ((RoomCreate, []), ''$0''), ((RoomMember, ''@a''), ''$1'')]]"

definition demo_chains :: "EventId hash_set list" where
  "demo_chains = [[''$0'', ''$1''], [''$1'', ''$0'']]"

definition demo_exists :: "EventId \<Rightarrow> bool" where
  "demo_exists eid \<longleftrightarrow> demo_fetch eid \<noteq> None"

lemma demo_resolve:
  "resolve demo_ruma V11 demo_sets demo_chains demo_fetch demo_exists =
     Some (Inr [((RoomCreate, []), ''$0''), ((RoomMember, ''@a''), ''$1''), ((RoomPowerLevels, []), ''$5'')])"
  by code_simp

lemma demo_sets_ok: "\<forall>m \<in> set demo_sets. hm_ok m" "length demo_sets \<le> usize_max"
  by (auto simp: demo_sets_def usize_max_def)

lemma resolve_returns_witness: "\<exists>r. resolve demo_ruma V12 demo_sets demo_chains demo_fetch demo_exists = Some r"
  by (rule resolve_returns [OF demo_fetch_acyclic demo_fetch_finite demo_sets_ok])

lemma resolve_keeps_agreed_witness:
  "\<exists>st. resolve demo_ruma V11 demo_sets demo_chains demo_fetch demo_exists = Some (Inr st)
     \<and> map_of st (RoomMember, ''@a'') = Some ''$1''"
  using resolve_keeps_agreed [OF demo_fetch_acyclic demo_fetch_finite demo_sets_ok demo_resolve,
      of "(RoomMember, ''@a'')" "''$1''"] demo_resolve
  by (auto simp: demo_sets_def)

lemma demo_by_id: "by_id demo_fetch"
  by (auto simp: by_id_def demo_fetch_def find_Some_iff)

lemma demo_agreed: "fst (separate demo_sets) = [((RoomCreate, []), ''$0''), ((RoomMember, ''@a''), ''$1'')]"
  by code_simp

lemma resolve_provenance_witness:
  "\<exists>csg init agreed. subgraph_and_initial V11 (snd (separate demo_sets)) (fst (separate demo_sets)) demo_fetch
      = Some (csg, init) \<and> map_of init = agreed \<and> agreed (RoomCreate, []) = Some ''$0''
    \<and> resolved_in_rounds demo_ruma V11 demo_fetch
        (full_conflicted_set demo_chains (snd (separate demo_sets)) csg demo_exists) agreed agreed
        (map_of [((RoomCreate, []), ''$0''), ((RoomMember, ''@a''), ''$1''), ((RoomPowerLevels, []), ''$5'')])"
proof -
  have conf: "snd (separate demo_sets) \<noteq> []" by code_simp
  have v2: "stateres_version V11 \<noteq> StateResV2_1" by (simp add: stateres_version_def)
  from resolve_provenance [OF demo_fetch_acyclic demo_fetch_finite demo_sets_ok demo_by_id demo_resolve]
  obtain agreed csg init where *: "\<And>key i. agreed key = Some i \<longleftrightarrow>
        demo_sets \<noteq> [] \<and> (\<forall>m \<in> set demo_sets. map_of m key = Some i)"
      "subgraph_and_initial V11 (snd (separate demo_sets)) (fst (separate demo_sets)) demo_fetch = Some (csg, init)"
      "map_of init = agreed" "resolved_in_rounds demo_ruma V11 demo_fetch
        (full_conflicted_set demo_chains (snd (separate demo_sets)) csg demo_exists) (map_of init) agreed
        (map_of [((RoomCreate, []), ''$0''), ((RoomMember, ''@a''), ''$1''), ((RoomPowerLevels, []), ''$5'')])"
    using conf v2 by (smt (verit))
  have "agreed (RoomCreate, []) = Some ''$0''" unfolding *(1) by (simp add: demo_sets_def)
  with * show ?thesis by blast
qed

text \<open>
  The algorithm \<open>resolve\<close> picks is the one the room version records, for all versions but 1 and 12.
\<close>

lemma stateres_version_agrees:
  assumes "RoomVersion_new rv = Inr v"
  shows "stateres_version rv = state_res v \<longleftrightarrow> rv \<notin> {V1, V12}"
  using assms by (cases rv) (auto simp: stateres_version_def room_version_defs)

lemma mainline_sort_correct_witness:
  "\<exists>xs. mainline_sort [''$5'', ''$2''] (Some ''$5'') demo_fetch = Some (Inr xs)
    \<and> mainline_sorted demo_fetch (Some ''$5'') [''$5'', ''$2''] xs \<and> xs = [''$2'', ''$5'']"
proof -
  have run: "mainline_sort [''$5'', ''$2''] (Some ''$5'') demo_fetch = Some (Inr [''$2'', ''$5''])"
    by code_simp
  have ids: "distinct [''$5'', ''$2'']" "[''$5'', ''$2''] \<noteq> []" by simp_all
  from mainline_sort_correct [OF wf_fetched_auths [OF demo_fetch_acyclic demo_fetch_finite] ids,
      of "Some ''$5''"] run
  have "mainline_sorted demo_fetch (Some ''$5'') [''$5'', ''$2''] [''$2'', ''$5'']" by fastforce
  with run show ?thesis by auto
qed

end
