(* ===== verification/ShortIds.thy ===== *)
theory ShortIds
  imports Events
begin

text \<open>
  Short ids, \<^verbatim>\<open>src/service/rooms/short/mod.rs\<close>, and the counter they come from,
  \<^verbatim>\<open>src/service/globals/data.rs\<close>.  Event ids, state keys, state hashes and room ids are numbered by one
  global counter; event ids and state keys also have a table back.  The tables hold decoded values:
  their bytes are the big-endian codes of the theory \<open>Prelude\<close>.  The contract of a numbering is the locale
  \<open>numbering\<close>, interpreted on each of the four tables.
\<close>

section \<open>The contract of a numbering\<close>

locale numbering =
  fixes look :: "'s \<Rightarrow> 'k \<Rightarrow> u64 option"
    and alloc :: "'k \<Rightarrow> 's \<Rightarrow> u64 \<times> 's"
    and inv :: "'s \<Rightarrow> bool"
    and space :: "'s \<Rightarrow> nat"
  assumes found: "look s k = Some i \<Longrightarrow> alloc k s = (i, s)"
    and alloc_inv: "inv s \<Longrightarrow> 0 < space s \<Longrightarrow> inv (snd (alloc k s))"
    and alloc_look: "inv s \<Longrightarrow> 0 < space s \<Longrightarrow> look (snd (alloc k s)) k = Some (fst (alloc k s))"
    and alloc_keeps: "inv s \<Longrightarrow> 0 < space s \<Longrightarrow> look s j = Some i \<Longrightarrow> look (snd (alloc k s)) j = Some i"
    and alloc_space: "inv s \<Longrightarrow> 0 < space s \<Longrightarrow> space s \<le> Suc (space (snd (alloc k s)))"
    and inj: "inv s \<Longrightarrow> look s j = Some i \<Longrightarrow> look s k = Some i \<Longrightarrow> j = k"
begin

fun alloc_list :: "'k list \<Rightarrow> 's \<Rightarrow> u64 list \<times> 's" where
  "alloc_list [] s = ([], s)"
| "alloc_list (k # ks) s =
     (let (i, s1) = alloc k s; (is, s2) = alloc_list ks s1 in (i # is, s2))"

lemma alloc_again:
  "inv s \<Longrightarrow> 0 < space s \<Longrightarrow> alloc k (snd (alloc k s)) = (fst (alloc k s), snd (alloc k s))"
  by (intro found alloc_look)

lemma alloc_list_correct:
  "inv s \<Longrightarrow> length ks \<le> space s \<Longrightarrow> alloc_list ks s = (is, s') \<Longrightarrow>
   inv s' \<and> map (look s') ks = map Some is \<and> (\<forall>j i. look s j = Some i \<longrightarrow> look s' j = Some i)"
proof (induction ks arbitrary: s "is")
  case (Cons k ks)
  obtain i s1 where step: "alloc k s = (i, s1)" by fastforce
  obtain is' where rest: "alloc_list ks s1 = (is', s')" "is = i # is'"
    using Cons.prems(3) step by (auto simp: Let_def split: prod.splits)
  have one: "inv s1" "look s1 k = Some i" "\<And>j i. look s j = Some i \<Longrightarrow> look s1 j = Some i"
    "length ks \<le> space s1"
    using alloc_inv [of s k] alloc_look [of s k] alloc_keeps [of s _ _ k] alloc_space [of s k]
      Cons.prems(1,2) step by auto
  from Cons.IH [OF one(1,4) rest(1)] one(2,3) rest(2) show ?case by simp
qed simp

lemma alloc_list_space:
  "inv s \<Longrightarrow> length ks \<le> space s \<Longrightarrow> space s \<le> space (snd (alloc_list ks s)) + length ks"
proof (induction ks arbitrary: s)
  case (Cons k ks)
  have "inv (snd (alloc k s))" "space s \<le> Suc (space (snd (alloc k s)))"
    using alloc_inv [of s k] alloc_space [of s k] Cons.prems by auto
  with Cons.IH [of "snd (alloc k s)"] Cons.prems(2) show ?case by (simp add: Let_def case_prod_beta)
qed simp

lemma alloc_list_distinct:
  assumes "inv s" "length ks \<le> space s" "alloc_list ks s = (is, s')" "distinct ks"
  shows "distinct is"
proof -
  have *: "inv s'" "map (look s') ks = map Some is" using alloc_list_correct [OF assms(1-3)] by auto
  have "inj_on (look s') (set ks)"
  proof (rule inj_onI)
    fix j k assume "j \<in> set ks" "k \<in> set ks" "look s' j = look s' k"
    moreover have "look s' j \<in> set (map Some is)" if "j \<in> set ks" for j
      using *(2) that by (metis image_eqI list.set_map)
    ultimately show "j = k" using inj [OF *(1)] by (metis imageE list.set_map)
  qed
  then have "distinct (map (look s') ks)" using assms(4) by (simp add: distinct_map)
  then show ?thesis unfolding *(2) by (simp add: distinct_map)
qed

end

section \<open>The counter and the tables\<close>

record short_data =
  counter :: u64
  eventid_shorteventid :: "(EventId, u64) hash_map"
  shorteventid_eventid :: "(u64, EventId) hash_map"
  statekey_shortstatekey :: "(TypeStateKey, u64) hash_map"
  shortstatekey_statekey :: "(u64, TypeStateKey) hash_map"
  roomid_shortroomid :: "(RoomId, u64) hash_map"
  statehash_shortstatehash :: "(u8 list, u64) hash_map"

text \<open>\<open>next_count\<close>: at the largest value the counter stays.\<close>

definition next_count :: "short_data \<Rightarrow> u64 \<times> short_data" where
  "next_count s =
     (let c = (case u64_checked_add (counter s) 1 of Some c \<Rightarrow> c | None \<Rightarrow> counter s)
      in (c, s\<lparr>counter := c\<rparr>))"

definition get_shorteventid :: "short_data \<Rightarrow> EventId \<Rightarrow> u64 option" where
  "get_shorteventid s eid = map_of (eventid_shorteventid s) eid"

definition create_shorteventid :: "EventId \<Rightarrow> short_data \<Rightarrow> u64 \<times> short_data" where
  "create_shorteventid eid s =
     (let (short, s1) = next_count s
      in (short, s1\<lparr> eventid_shorteventid := hm_insert eid short (eventid_shorteventid s1),
                    shorteventid_eventid := hm_insert short eid (shorteventid_eventid s1) \<rparr>))"

definition get_or_create_shorteventid :: "EventId \<Rightarrow> short_data \<Rightarrow> u64 \<times> short_data" where
  "get_or_create_shorteventid eid s =
     (case get_shorteventid s eid of Some short \<Rightarrow> (short, s) | None \<Rightarrow> create_shorteventid eid s)"

text \<open>
  \<open>multi_get_or_create_shorteventid\<close>: the look-ups of a batch are read before the missing ids of the
  batch are created.
\<close>

fun create_missing :: "(EventId \<times> u64 option) list \<Rightarrow> short_data \<Rightarrow> u64 list \<times> short_data" where
  "create_missing [] s = ([], s)"
| "create_missing ((eid, result) # rs) s =
     (let (short, s1) = (case result of Some short \<Rightarrow> (short, s) | None \<Rightarrow> create_shorteventid eid s);
          (shorts, s2) = create_missing rs s1
      in (short # shorts, s2))"

definition multi_get_or_create_shorteventid :: "EventId list \<Rightarrow> short_data \<Rightarrow> u64 list \<times> short_data" where
  "multi_get_or_create_shorteventid eids s =
     create_missing (zip eids (map (get_shorteventid s) eids)) s"

definition get_shortstatekey :: "short_data \<Rightarrow> TypeStateKey \<Rightarrow> u64 option" where
  "get_shortstatekey s key = map_of (statekey_shortstatekey s) key"

definition get_or_create_shortstatekey :: "TypeStateKey \<Rightarrow> short_data \<Rightarrow> u64 \<times> short_data" where
  "get_or_create_shortstatekey key s =
     (case get_shortstatekey s key of
        Some short \<Rightarrow> (short, s)
      | None \<Rightarrow>
          (let (short, s1) = next_count s
           in (short, s1\<lparr> statekey_shortstatekey := hm_insert key short (statekey_shortstatekey s1),
                         shortstatekey_statekey := hm_insert short key (shortstatekey_statekey s1) \<rparr>)))"

definition get_eventid_from_short :: "short_data \<Rightarrow> u64 \<Rightarrow> EventId option" where
  "get_eventid_from_short s short = map_of (shorteventid_eventid s) short"

definition multi_get_eventid_from_short :: "short_data \<Rightarrow> u64 list \<Rightarrow> EventId option list" where
  "multi_get_eventid_from_short s shorts = map (get_eventid_from_short s) shorts"

definition get_statekey_from_short :: "short_data \<Rightarrow> u64 \<Rightarrow> TypeStateKey option" where
  "get_statekey_from_short s short = map_of (shortstatekey_statekey s) short"

definition multi_get_statekey_from_short :: "short_data \<Rightarrow> u64 list \<Rightarrow> TypeStateKey option list" where
  "multi_get_statekey_from_short s shorts = map (get_statekey_from_short s) shorts"

definition get_shortstatehash :: "short_data \<Rightarrow> u8 list \<Rightarrow> u64 option" where
  "get_shortstatehash s h = map_of (statehash_shortstatehash s) h"

text \<open>The second result of \<open>get_or_create_shortstatehash\<close> says whether the hash was known.\<close>

definition get_or_create_shortstatehash :: "u8 list \<Rightarrow> short_data \<Rightarrow> (u64 \<times> bool) \<times> short_data" where
  "get_or_create_shortstatehash h s =
     (case get_shortstatehash s h of
        Some short \<Rightarrow> ((short, True), s)
      | None \<Rightarrow>
          (let (short, s1) = next_count s
           in ((short, False),
               s1\<lparr> statehash_shortstatehash := hm_insert h short (statehash_shortstatehash s1) \<rparr>)))"

definition get_shortroomid :: "short_data \<Rightarrow> RoomId \<Rightarrow> u64 option" where
  "get_shortroomid s rid = map_of (roomid_shortroomid s) rid"

definition get_or_create_shortroomid :: "RoomId \<Rightarrow> short_data \<Rightarrow> u64 \<times> short_data" where
  "get_or_create_shortroomid rid s =
     (case get_shortroomid s rid of
        Some short \<Rightarrow> (short, s)
      | None \<Rightarrow>
          (let (short, s1) = next_count s
           in (short, s1\<lparr> roomid_shortroomid := hm_insert rid short (roomid_shortroomid s1) \<rparr>)))"

definition multi_get_state_from_short ::
    "short_data \<Rightarrow> (u64 \<times> u64) list \<Rightarrow> (TypeStateKey \<times> EventId) option list" where
  "multi_get_state_from_short s short_state =
     map (\<lambda>(k, e). case (k, e) of (Some key, Some eid) \<Rightarrow> Some (key, eid) | _ \<Rightarrow> None)
       (zip (multi_get_statekey_from_short s (map fst short_state))
            (multi_get_eventid_from_short s (map snd short_state)))"

section \<open>The invariant\<close>

text \<open>Every id in use is between one and the counter, and no two keys of a table share one.\<close>

definition table_ok :: "u64 \<Rightarrow> ('k, u64) hash_map \<Rightarrow> bool" where
  "table_ok c m \<longleftrightarrow>
     (\<forall>k i. map_of m k = Some i \<longrightarrow> 0 < i \<and> i \<le> c) \<and> inj_on (map_of m) (dom (map_of m))"

definition inverse_tables :: "('k, u64) hash_map \<Rightarrow> (u64, 'k) hash_map \<Rightarrow> bool" where
  "inverse_tables m r \<longleftrightarrow> (\<forall>k i. map_of m k = Some i \<longleftrightarrow> map_of r i = Some k)"

definition short_inv :: "short_data \<Rightarrow> bool" where
  "short_inv s \<longleftrightarrow>
     table_ok (counter s) (eventid_shorteventid s) \<and> table_ok (counter s) (statekey_shortstatekey s)
     \<and> table_ok (counter s) (roomid_shortroomid s) \<and> table_ok (counter s) (statehash_shortstatehash s)
     \<and> inverse_tables (eventid_shorteventid s) (shorteventid_eventid s)
     \<and> inverse_tables (statekey_shortstatekey s) (shortstatekey_statekey s)"

text \<open>The ids left before the counter stops.\<close>

definition ids_left :: "short_data \<Rightarrow> nat" where
  "ids_left s = nat (u64_max - uint (counter s))"

lemma next_count_fresh:
  assumes "0 < ids_left s" "next_count s = (c, s1)"
  shows "s1 = s\<lparr>counter := c\<rparr>" "counter s < c" "0 < c" "ids_left s = Suc (ids_left s1)"
proof -
  have lt: "uint (counter s) + 1 \<le> u64_max" using assms(1) by (simp add: ids_left_def)
  then have c: "u64_checked_add (counter s) 1 = Some c"
    using assms(2) by (auto simp: next_count_def u64_checked_add_def Let_def split: option.splits)
  show s1: "s1 = s\<lparr>counter := c\<rparr>" using assms(2) by (auto simp: next_count_def Let_def)
  have "uint c = uint (counter s) + 1" using uint_u64_checked_add [OF c] by simp
  then show "counter s < c" "ids_left s = Suc (ids_left s1)"
    using lt by (auto simp: word_less_def s1 ids_left_def)
  then show "0 < c" by (metis less_le_trans not_less word_gt_0 word_coorder.extremum_strict)
qed

lemma table_ok_mono: "table_ok c m \<Longrightarrow> c \<le> d \<Longrightarrow> table_ok d m"
  by (fastforce simp: table_ok_def)

lemma table_ok_fresh: "table_ok c m \<Longrightarrow> c < d \<Longrightarrow> map_of m j \<noteq> Some d"
  by (metis not_le table_ok_def)

lemma table_ok_insert:
  assumes "table_ok c m" "c < d"
  shows "table_ok d (hm_insert k d m)"
proof -
  have "map_of m j \<noteq> Some d" for j using assms by (rule table_ok_fresh)
  then have "inj_on ((map_of m)(k \<mapsto> d)) (insert k (dom (map_of m)))"
    using assms(1) by (auto simp: table_ok_def inj_on_def dom_def)
  moreover have "0 < d" using assms(2) by (metis word_coorder.extremum_strict word_gt_0)
  ultimately show ?thesis using assms by (fastforce simp: table_ok_def)
qed

lemma inverse_tables_insert:
  assumes "inverse_tables m r" "map_of m k = None" "table_ok c m" "c < d"
  shows "inverse_tables (hm_insert k d m) (hm_insert d k r)"
proof -
  have "map_of m j \<noteq> Some d" for j using assms(3,4) by (rule table_ok_fresh)
  then show ?thesis using assms(1,2) unfolding inverse_tables_def
    by simp (metis option.distinct(1))
qed

lemma short_inv_counter:
  assumes "short_inv s" "counter s \<le> c"
  shows "table_ok c (eventid_shorteventid s)" "table_ok c (statekey_shortstatekey s)"
    "table_ok c (roomid_shortroomid s)" "table_ok c (statehash_shortstatehash s)"
  using assms by (auto simp: short_inv_def intro: table_ok_mono)

lemma create_shorteventid_inv:
  assumes "short_inv s" "0 < ids_left s" "get_shorteventid s eid = None"
    "create_shorteventid eid s = (i, s')"
  shows "short_inv s'" "get_shorteventid s' = (get_shorteventid s)(eid \<mapsto> i)"
    "ids_left s = Suc (ids_left s')"
proof -
  obtain c s1 where n: "next_count s = (c, s1)" by fastforce
  note f = next_count_fresh [OF assms(2) n]
  have s': "i = c" "s' = s\<lparr> counter := c,
      eventid_shorteventid := hm_insert eid c (eventid_shorteventid s),
      shorteventid_eventid := hm_insert c eid (shorteventid_eventid s) \<rparr>"
    using assms(4) n f(1) by (auto simp: create_shorteventid_def)
  have le: "counter s \<le> c" using f(2) by simp
  show "short_inv s'"
    using assms(1,3) f(2) short_inv_counter [OF assms(1) le] unfolding s'
    by (auto simp: short_inv_def get_shorteventid_def intro: table_ok_insert inverse_tables_insert)
  show "get_shorteventid s' = (get_shorteventid s)(eid \<mapsto> i)"
    by (auto simp: get_shorteventid_def s' fun_eq_iff)
  show "ids_left s = Suc (ids_left s')" using f(1,4) by (simp add: s' ids_left_def)
qed

lemma get_or_create_shortstatekey_new:
  assumes "short_inv s" "0 < ids_left s" "get_shortstatekey s key = None"
    "get_or_create_shortstatekey key s = (i, s')"
  shows "short_inv s'" "get_shortstatekey s' = (get_shortstatekey s)(key \<mapsto> i)"
    "ids_left s = Suc (ids_left s')"
proof -
  obtain c s1 where n: "next_count s = (c, s1)" by fastforce
  note f = next_count_fresh [OF assms(2) n]
  have s': "i = c" "s' = s\<lparr> counter := c,
      statekey_shortstatekey := hm_insert key c (statekey_shortstatekey s),
      shortstatekey_statekey := hm_insert c key (shortstatekey_statekey s) \<rparr>"
    using assms(3,4) n f(1) by (auto simp: get_or_create_shortstatekey_def)
  have le: "counter s \<le> c" using f(2) by simp
  show "short_inv s'"
    using assms(1,3) f(2) short_inv_counter [OF assms(1) le] unfolding s'
    by (auto simp: short_inv_def get_shortstatekey_def intro: table_ok_insert inverse_tables_insert)
  show "get_shortstatekey s' = (get_shortstatekey s)(key \<mapsto> i)"
    by (simp add: get_shortstatekey_def s' fun_eq_iff)
  show "ids_left s = Suc (ids_left s')" using f(1,4) by (simp add: s' ids_left_def)
qed

lemma get_or_create_shortstatehash_new:
  assumes "short_inv s" "0 < ids_left s" "get_shortstatehash s h = None"
    "get_or_create_shortstatehash h s = ((i, known), s')"
  shows "short_inv s'" "get_shortstatehash s' = (get_shortstatehash s)(h \<mapsto> i)"
    "ids_left s = Suc (ids_left s')" "\<not> known" "counter s < i" "counter s' = i"
proof -
  obtain c s1 where n: "next_count s = (c, s1)" by fastforce
  note f = next_count_fresh [OF assms(2) n]
  have s': "i = c" "\<not> known" "s' = s\<lparr> counter := c,
      statehash_shortstatehash := hm_insert h c (statehash_shortstatehash s) \<rparr>"
    using assms(3,4) n f(1) by (auto simp: get_or_create_shortstatehash_def)
  have le: "counter s \<le> c" using f(2) by simp
  show "short_inv s'"
    using assms(1) f(2) short_inv_counter [OF assms(1) le] unfolding s'
    by (auto simp: short_inv_def intro: table_ok_insert)
  show "get_shortstatehash s' = (get_shortstatehash s)(h \<mapsto> i)"
    by (auto simp: get_shortstatehash_def s' fun_eq_iff)
  show "ids_left s = Suc (ids_left s')" using f(1,4) by (simp add: s' ids_left_def)
  show "\<not> known" "counter s < i" "counter s' = i" using s' f(2) by auto
qed

lemma get_or_create_shortroomid_new:
  assumes "short_inv s" "0 < ids_left s" "get_shortroomid s rid = None"
    "get_or_create_shortroomid rid s = (i, s')"
  shows "short_inv s'" "get_shortroomid s' = (get_shortroomid s)(rid \<mapsto> i)"
    "ids_left s = Suc (ids_left s')"
proof -
  obtain c s1 where n: "next_count s = (c, s1)" by fastforce
  note f = next_count_fresh [OF assms(2) n]
  have s': "i = c" "s' = s\<lparr> counter := c,
      roomid_shortroomid := hm_insert rid c (roomid_shortroomid s) \<rparr>"
    using assms(3,4) n f(1) by (auto simp: get_or_create_shortroomid_def)
  have le: "counter s \<le> c" using f(2) by simp
  show "short_inv s'"
    using assms(1) f(2) short_inv_counter [OF assms(1) le] unfolding s'
    by (auto simp: short_inv_def intro: table_ok_insert)
  show "get_shortroomid s' = (get_shortroomid s)(rid \<mapsto> i)"
    by (auto simp: get_shortroomid_def s' fun_eq_iff)
  show "ids_left s = Suc (ids_left s')" using f(1,4) by (simp add: s' ids_left_def)
qed

section \<open>The four numberings\<close>

lemma table_ok_inj: "table_ok c m \<Longrightarrow> map_of m j = Some i \<Longrightarrow> map_of m k = Some i \<Longrightarrow> j = k"
  unfolding table_ok_def by (metis domI inj_onD)

text \<open>What each operation has to show for the contract: a known key is returned as it is, a new one
  extends the table by one id.\<close>

lemma numberingI:
  assumes "\<And>s k i. look s k = Some i \<Longrightarrow> alloc k s = (i, s)"
    and "\<And>s k i s'. short_inv s \<Longrightarrow> 0 < ids_left s \<Longrightarrow> look s k = None \<Longrightarrow> alloc k s = (i, s') \<Longrightarrow>
      short_inv s' \<and> look s' = (look s)(k \<mapsto> i) \<and> ids_left s = Suc (ids_left s')"
    and "\<And>s j k i. short_inv s \<Longrightarrow> look s j = Some i \<Longrightarrow> look s k = Some i \<Longrightarrow> j = k"
  shows "numbering look alloc short_inv ids_left"
proof
  fix s k j i
  show "look s k = Some i \<Longrightarrow> alloc k s = (i, s)" by (rule assms(1))
  show "short_inv s \<Longrightarrow> look s j = Some i \<Longrightarrow> look s k = Some i \<Longrightarrow> j = k" by (rule assms(3))
  assume inv: "short_inv s" "0 < ids_left s"
  obtain c s' where a: "alloc k s = (c, s')" by fastforce
  have "short_inv s' \<and> look s' k = Some c \<and> (\<forall>j i. look s j = Some i \<longrightarrow> look s' j = Some i)
      \<and> ids_left s \<le> Suc (ids_left s')"
  proof (cases "look s k")
    case None
    from assms(2) [OF inv None a] None show ?thesis by auto
  next
    case (Some d)
    with assms(1) [OF Some] a inv show ?thesis by auto
  qed
  then show "short_inv (snd (alloc k s))" "look (snd (alloc k s)) k = Some (fst (alloc k s))"
    "look s j = Some i \<Longrightarrow> look (snd (alloc k s)) j = Some i"
    "ids_left s \<le> Suc (ids_left (snd (alloc k s)))" using a by auto
qed

lemma get_or_create_shorteventid_new:
  assumes "short_inv s" "0 < ids_left s" "get_shorteventid s eid = None"
    "get_or_create_shorteventid eid s = (i, s')"
  shows "short_inv s' \<and> get_shorteventid s' = (get_shorteventid s)(eid \<mapsto> i)
    \<and> ids_left s = Suc (ids_left s')"
  using create_shorteventid_inv [OF assms(1-3)] assms(3,4) by (simp add: get_or_create_shorteventid_def)

interpretation events: numbering get_shorteventid get_or_create_shorteventid short_inv ids_left
proof (rule numberingI)
  show "get_or_create_shorteventid k s = (i, s)" if "get_shorteventid s k = Some i" for s k i
    using that by (simp add: get_or_create_shorteventid_def)
  show "j = k" if "short_inv s" "get_shorteventid s j = Some i" "get_shorteventid s k = Some i" for s j k i
    using that table_ok_inj [of "counter s" "eventid_shorteventid s"]
    by (simp add: get_shorteventid_def short_inv_def)
qed (rule get_or_create_shorteventid_new)

interpretation statekeys: numbering get_shortstatekey get_or_create_shortstatekey short_inv ids_left
proof (rule numberingI)
  show "get_or_create_shortstatekey k s = (i, s)" if "get_shortstatekey s k = Some i" for s k i
    using that by (simp add: get_or_create_shortstatekey_def)
  show "j = k" if "short_inv s" "get_shortstatekey s j = Some i" "get_shortstatekey s k = Some i" for s j k i
    using that table_ok_inj [of "counter s" "statekey_shortstatekey s"]
    by (simp add: get_shortstatekey_def short_inv_def)
  show "short_inv s' \<and> get_shortstatekey s' = (get_shortstatekey s)(k \<mapsto> i) \<and> ids_left s = Suc (ids_left s')"
    if "short_inv s" "0 < ids_left s" "get_shortstatekey s k = None" "get_or_create_shortstatekey k s = (i, s')"
    for s k i s'
    using get_or_create_shortstatekey_new [OF that] by simp
qed

interpretation rooms: numbering get_shortroomid get_or_create_shortroomid short_inv ids_left
proof (rule numberingI)
  show "get_or_create_shortroomid k s = (i, s)" if "get_shortroomid s k = Some i" for s k i
    using that by (simp add: get_or_create_shortroomid_def)
  show "j = k" if "short_inv s" "get_shortroomid s j = Some i" "get_shortroomid s k = Some i" for s j k i
    using that table_ok_inj [of "counter s" "roomid_shortroomid s"]
    by (simp add: get_shortroomid_def short_inv_def)
  show "short_inv s' \<and> get_shortroomid s' = (get_shortroomid s)(k \<mapsto> i) \<and> ids_left s = Suc (ids_left s')"
    if "short_inv s" "0 < ids_left s" "get_shortroomid s k = None" "get_or_create_shortroomid k s = (i, s')"
    for s k i s'
    using get_or_create_shortroomid_new [OF that] by simp
qed

definition alloc_shortstatehash :: "u8 list \<Rightarrow> short_data \<Rightarrow> u64 \<times> short_data" where
  "alloc_shortstatehash h s =
     (let r = get_or_create_shortstatehash h s in (fst (fst r), snd r))"

interpretation statehashes: numbering get_shortstatehash alloc_shortstatehash short_inv ids_left
proof (rule numberingI)
  fix s h i s'
  assume *: "short_inv s" "0 < ids_left s" "get_shortstatehash s h = None" "alloc_shortstatehash h s = (i, s')"
  obtain known where "get_or_create_shortstatehash h s = ((i, known), s')"
    using *(4) by (cases "get_or_create_shortstatehash h s") (auto simp: alloc_shortstatehash_def)
  from get_or_create_shortstatehash_new [OF *(1-3) this]
  show "short_inv s' \<and> get_shortstatehash s' = (get_shortstatehash s)(h \<mapsto> i) \<and> ids_left s = Suc (ids_left s')"
    by simp
next
  show "alloc_shortstatehash k s = (i, s)" if "get_shortstatehash s k = Some i" for s k i
    using that by (simp add: alloc_shortstatehash_def get_or_create_shortstatehash_def)
  show "j = k" if "short_inv s" "get_shortstatehash s j = Some i" "get_shortstatehash s k = Some i" for s j k i
    using that table_ok_inj [of "counter s" "statehash_shortstatehash s"]
    by (simp add: get_shortstatehash_def short_inv_def)
qed

section \<open>Properties\<close>

lemma create_missing_alloc:
  assumes "short_inv s" "length eids \<le> ids_left s" "distinct eids"
    "\<And>e. e \<in> set eids \<Longrightarrow> get_shorteventid s0 e = get_shorteventid s e"
  shows "create_missing (zip eids (map (get_shorteventid s0) eids)) s = events.alloc_list eids s"
  using assms
proof (induction eids arbitrary: s)
  case (Cons e eids)
  obtain i s1 where step: "get_or_create_shorteventid e s = (i, s1)" by fastforce
  have look: "get_shorteventid s0 e = get_shorteventid s e" using Cons.prems(4) by simp
  have space: "0 < ids_left s" using Cons.prems(2) by simp
  have inv: "short_inv s1" "length eids \<le> ids_left s1"
    using events.alloc_inv [OF Cons.prems(1) space, of e] events.alloc_space [OF Cons.prems(1) space, of e]
      Cons.prems(2) step by auto
  have "get_shorteventid s1 f = get_shorteventid s f" if "f \<noteq> e" for f
  proof (cases "get_shorteventid s e")
    case None
    from get_or_create_shorteventid_new [OF Cons.prems(1) space None step] that show ?thesis by simp
  next
    case (Some d)
    from events.found [OF Some] step show ?thesis by simp
  qed
  then have "get_shorteventid s0 f = get_shorteventid s1 f" if "f \<in> set eids" for f
    using Cons.prems(3) Cons.prems(4) [of f] that by (metis distinct.simps(2) list.set_intros(2))
  from Cons.IH [OF inv _ this] Cons.prems(3) have
    "create_missing (zip eids (map (get_shorteventid s0) eids)) s1 = events.alloc_list eids s1" by simp
  moreover have "(case get_shorteventid s e of Some short \<Rightarrow> (short, s) | None \<Rightarrow> create_shorteventid e s) = (i, s1)"
    using step by (simp add: get_or_create_shorteventid_def)
  ultimately show ?case using step look by (simp add: Let_def)
qed simp

lemma batch_numbered:
  assumes "short_inv s" "length eids \<le> ids_left s" "distinct eids"
    "multi_get_or_create_shorteventid eids s = (shorts, s')"
  shows "short_inv s' \<and> map (get_shorteventid s') eids = map Some shorts \<and> distinct shorts
    \<and> (\<forall>e i. get_shorteventid s e = Some i \<longrightarrow> get_shorteventid s' e = Some i)"
proof -
  have "events.alloc_list eids s = (shorts, s')"
    using create_missing_alloc [OF assms(1-3), of s] assms(4)
    by (simp add: multi_get_or_create_shorteventid_def)
  then show ?thesis
    using events.alloc_list_correct [OF assms(1,2)] events.alloc_list_distinct [OF assms(1,2) _ assms(3)]
    by blast
qed

text \<open>
  Looking a batch of different event ids up before creating the missing ones numbers them as
  creating them one after the other: every id of the batch is stored under the number returned for it,
  different ids have different numbers, and what was numbered before keeps its number.
\<close>

lemma batch_numbering:
  assumes "short_inv s" "length eids \<le> ids_left s" "distinct eids"
    "multi_get_or_create_shorteventid eids s = (shorts, s')"
  shows "short_inv s' \<and> map (get_shorteventid s') eids = map Some shorts \<and> distinct shorts
    \<and> (\<forall>e i. get_shorteventid s e = Some i \<longrightarrow> get_shorteventid s' e = Some i)"
  using assms by (rule batch_numbered)

lemma batch_space:
  assumes "short_inv s" "length eids \<le> ids_left s" "distinct eids"
    "multi_get_or_create_shorteventid eids s = (shorts, s')"
  shows "ids_left s \<le> ids_left s' + length eids"
  using events.alloc_list_space [OF assms(1,2)] create_missing_alloc [OF assms(1-3), of s] assms(4)
  by (simp add: multi_get_or_create_shorteventid_def)

lemma eventid_from_short_inv:
  "short_inv s \<Longrightarrow> get_eventid_from_short s i = Some e \<longleftrightarrow> get_shorteventid s e = Some i"
  by (simp add: short_inv_def inverse_tables_def get_eventid_from_short_def get_shorteventid_def)

lemma statekey_from_short_inv:
  "short_inv s \<Longrightarrow> get_statekey_from_short s i = Some k \<longleftrightarrow> get_shortstatekey s k = Some i"
  unfolding short_inv_def inverse_tables_def get_statekey_from_short_def get_shortstatekey_def by blast

text \<open>
  A numbered event id can be read back from its number, which is not zero, and asking for it again
  returns the same number and changes nothing.
\<close>

lemma shorteventid_roundtrip:
  assumes "short_inv s" "0 < ids_left s" "get_or_create_shorteventid e s = (i, s')"
  shows "short_inv s' \<and> get_eventid_from_short s' i = Some e \<and> 0 < i
    \<and> get_or_create_shorteventid e s' = (i, s')"
proof -
  have s': "short_inv s'" "get_shorteventid s' e = Some i"
    using events.alloc_inv [OF assms(1,2), of e] events.alloc_look [OF assms(1,2), of e] assms(3) by auto
  then have "0 < i" by (auto simp: short_inv_def table_ok_def get_shorteventid_def)
  then show ?thesis using s' events.found [OF s'(2)] by (simp add: eventid_from_short_inv)
qed

lemma short_state_recovered:
  assumes "short_inv s" "map (get_shortstatekey s) keys = map Some ks"
    "map (get_shorteventid s) eids = map Some es" "length keys = length eids"
  shows "multi_get_state_from_short s (zip ks es) = map Some (zip keys eids)"
proof -
  have len: "length ks = length keys" "length es = length eids"
    using assms(2,3) by (metis length_map)+
  have "map (get_statekey_from_short s) ks = map Some keys"
    using assms(2) len by (auto simp: list_eq_iff_nth_eq statekey_from_short_inv [OF assms(1)])
  moreover have "map (get_eventid_from_short s) es = map Some eids"
    using assms(3) len by (auto simp: list_eq_iff_nth_eq eventid_from_short_inv [OF assms(1)])
  moreover have "map fst (zip ks es) = ks" "map snd (zip ks es) = es"
    using len assms(4) by simp_all
  ultimately have "multi_get_state_from_short s (zip ks es) =
      map (\<lambda>(k, e). case (k, e) of (Some key, Some eid) \<Rightarrow> Some (key, eid) | _ \<Rightarrow> None)
        (zip (map Some keys) (map Some eids))"
    by (simp only: multi_get_state_from_short_def multi_get_statekey_from_short_def
        multi_get_eventid_from_short_def)
  then show ?thesis by (auto simp: zip_map_map)
qed

text \<open>
  A state map whose keys and events are numbered is recovered from its pairs of numbers by
  \<open>multi_get_state_from_short\<close>.
\<close>

lemma short_state_roundtrip:
  assumes "short_inv s" "map (get_shortstatekey s) keys = map Some ks"
    "map (get_shorteventid s) eids = map Some es" "length keys = length eids"
  shows "multi_get_state_from_short s (zip ks es) = map Some (zip keys eids)"
  using assms by (rule short_state_recovered)

section \<open>Examples\<close>

definition no_shorts :: short_data where
  "no_shorts = \<lparr> counter = 0, eventid_shorteventid = [], shorteventid_eventid = [],
     statekey_shortstatekey = [], shortstatekey_statekey = [], roomid_shortroomid = [],
     statehash_shortstatehash = [] \<rparr>"

lemma no_shorts_ok: "short_inv no_shorts" "ids_left no_shorts = 18446744073709551615"
  by (auto simp: no_shorts_def short_inv_def table_ok_def inverse_tables_def ids_left_def u64_max_def)

end
