(* ===== verification/StateCompressor.thy ===== *)
theory StateCompressor
  imports ShortIds
begin

text \<open>
  The storage of room states, \<^verbatim>\<open>src/service/rooms/state_compressor/mod.rs\<close>: a state is a set of pairs of
  short ids, stored as a difference to the state of a parent layer.  The database column
  \<open>shortstatehash_statediff\<close> is kept as bytes.  The LRU cache of loaded states is third-party code and
  a parameter; \<open>sha256\<close> is another.
\<close>

section \<open>Data\<close>

type_synonym CompressedStateEvent = "u8 list"
type_synonym CompressedState = "CompressedStateEvent set"

datatype StoreError = StoreNotFound | StoreArithmetic | StorePanic

record StateDiff =
  diff_parent :: "u64 option"
  diff_added :: CompressedState
  diff_removed :: CompressedState

record ShortStateInfo =
  shortstatehash :: u64
  full_state :: CompressedState
  info_added :: CompressedState
  info_removed :: CompressedState

record HashSetCompressStateEvent =
  new_shortstatehash :: u64
  state_added :: CompressedState
  state_removed :: CompressedState

type_synonym statediffs = "(u64, u8 list) hash_map"

type_synonym 'c state_lru = "(u64, ShortStateInfo list, 'c) lru"

section \<open>Compressed state events\<close>

definition compress_state_event :: "u64 \<Rightarrow> u64 \<Rightarrow> CompressedStateEvent" where
  "compress_state_event shortstatekey shorteventid =
     to_be_bytes shortstatekey @ to_be_bytes shorteventid"

definition parse_compressed_state_event :: "CompressedStateEvent \<Rightarrow> u64 \<times> u64" where
  "parse_compressed_state_event c = (from_be_bytes (take 8 c), from_be_bytes (drop 8 c))"

definition compress_state_events ::
    "(u64 \<times> EventId) list \<Rightarrow> short_data \<Rightarrow> CompressedStateEvent list \<times> short_data" where
  "compress_state_events state s =
     (let (shorts, s') = multi_get_or_create_shorteventid (map snd state) s
      in (map (\<lambda>(k, e). compress_state_event k e) (zip (map fst state) shorts), s'))"

definition compress_one_state_event ::
    "u64 \<Rightarrow> EventId \<Rightarrow> short_data \<Rightarrow> CompressedStateEvent \<times> short_data" where
  "compress_one_state_event shortstatekey eid s =
     (let (shorteventid, s') = get_or_create_shorteventid eid s
      in (compress_state_event shortstatekey shorteventid, s'))"

section \<open>The stored form of a difference\<close>

definition zero_bytes :: "u8 list" where "zero_bytes = to_be_bytes 0"

definition encode_statediff :: "StateDiff \<Rightarrow> u8 list" where
  "encode_statediff d =
     to_be_bytes (case diff_parent d of None \<Rightarrow> 0 | Some p \<Rightarrow> p)
     @ concat (sorted_list_of_set (diff_added d))
     @ (if diff_removed d = {} then []
        else zero_bytes @ concat (sorted_list_of_set (diff_removed d)))"

definition save_statediff :: "u64 \<Rightarrow> StateDiff \<Rightarrow> statediffs \<Rightarrow> statediffs" where
  "save_statediff h d db = hm_insert h (encode_statediff d) db"

text \<open>The loop of \<open>get_statediff\<close>, on the bytes from position \<open>i\<close> on.\<close>

function parse_statediff ::
    "bool \<Rightarrow> u8 list \<Rightarrow> CompressedState \<Rightarrow> CompressedState \<Rightarrow> CompressedState \<times> CompressedState" where
  "parse_statediff add_mode bytes added removed =
     (if length bytes < 16 then (added, removed)
      else let v = take 16 bytes in
        if add_mode \<and> take 8 v = zero_bytes then parse_statediff False (drop 8 bytes) added removed
        else if add_mode then parse_statediff True (drop 16 bytes) (insert v added) removed
        else parse_statediff False (drop 16 bytes) added (insert v removed))"
  by pat_completeness auto
termination
  by (relation "measure (\<lambda>(m, bytes, a, r). length bytes)") auto

declare parse_statediff.simps [simp del]

definition get_statediff :: "statediffs \<Rightarrow> u64 \<Rightarrow> StoreError + StateDiff" where
  "get_statediff db h =
     rbind (ok_or StoreNotFound (map_of db h)) (\<lambda>value.
     if length value < 8 then Inl StorePanic
     else
       let p = from_be_bytes (take 8 value);
           (added, removed) = parse_statediff True (drop 8 value) {} {}
       in Inr \<lparr> diff_parent = (if p = 0 then None else Some p),
                diff_added = added, diff_removed = removed \<rparr>)"

section \<open>Loading a state\<close>

definition base_layer :: "u64 \<Rightarrow> StateDiff \<Rightarrow> ShortStateInfo" where
  "base_layer h d = \<lparr> shortstatehash = h, full_state = diff_added d,
     info_added = diff_added d, info_removed = diff_removed d \<rparr>"

definition next_layer :: "ShortStateInfo list \<Rightarrow> u64 \<Rightarrow> StateDiff \<Rightarrow> ShortStateInfo list" where
  "next_layer stack h d =
     stack @ [\<lparr> shortstatehash = h,
       full_state = (full_state (last stack) \<union> diff_added d) - diff_removed d,
       info_added = diff_added d, info_removed = diff_removed d \<rparr>]"

text \<open>
  \<open>load_shortstatehash_info\<close> with \<open>new_shortstatehash_info\<close> and \<open>cache_shortstatehash_info\<close> in it; the
  cache is threaded through.  The result is \<^const>\<open>None\<close> when the chain of parents does not end.
\<close>

partial_function (option) load_shortstatehash_info ::
    "'c state_lru \<Rightarrow> statediffs \<Rightarrow> u64 \<Rightarrow> 'c \<Rightarrow> ((StoreError + ShortStateInfo list) \<times> 'c) option" where
  "load_shortstatehash_info L db h cache =
     (case lru_get L h cache of
        (Some r, cache') \<Rightarrow> Some (Inr r, cache')
      | (None, cache') \<Rightarrow>
          (case get_statediff db h of
             Inl e \<Rightarrow> Some (Inl e, cache')
           | Inr d \<Rightarrow>
               (case diff_parent d of
                  None \<Rightarrow> (let stack = [base_layer h d] in Some (Inr stack, lru_insert L h stack cache'))
                | Some p \<Rightarrow>
                    Option.bind (load_shortstatehash_info L db p cache') (\<lambda>r.
                    case fst r of
                      Inl e \<Rightarrow> Some (Inl e, snd r)
                    | Inr stack \<Rightarrow>
                        if stack = [] then Some (Inl StorePanic, snd r)
                        else let stack' = next_layer stack h d
                             in Some (Inr stack', lru_insert L h stack' (snd r))))))"

declare load_shortstatehash_info.simps [code]

section \<open>Saving a state\<close>

text \<open>The two loops that fold a difference into the difference of the parent layer.\<close>

definition fold_removed :: "CompressedState \<Rightarrow> CompressedState \<times> CompressedState \<Rightarrow> CompressedState \<times> CompressedState" where
  "fold_removed statediffremoved pnr =
     fold (\<lambda>r (pn, pr). if r \<in> pn then (pn - {r}, pr) else (pn, insert r pr))
       (sorted_list_of_set statediffremoved) pnr"

definition fold_added :: "CompressedState \<Rightarrow> CompressedState \<times> CompressedState \<Rightarrow> CompressedState \<times> CompressedState" where
  "fold_added statediffnew pnr =
     fold (\<lambda>n (pn, pr). if n \<in> pr then (pn, pr - {n}) else (insert n pn, pr))
       (sorted_list_of_set statediffnew) pnr"

definition combine_diff :: "ShortStateInfo \<Rightarrow> CompressedState \<Rightarrow> CompressedState \<Rightarrow> CompressedState \<times> CompressedState" where
  "combine_diff parent statediffnew statediffremoved =
     fold_added statediffnew (fold_removed statediffremoved (info_added parent, info_removed parent))"

definition checked_usize :: "nat \<Rightarrow> StoreError + nat" where
  "checked_usize n = (if int n \<le> 18446744073709551615 then Inr n else Inl StoreArithmetic)"

text \<open>Whether the difference is to be folded into the layer above it.\<close>

definition diff_too_big :: "nat \<Rightarrow> nat \<Rightarrow> ShortStateInfo \<Rightarrow> StoreError + bool" where
  "diff_too_big diffsum diff_to_sibling parent =
     rbind (checked_usize (card (info_added parent) + card (info_removed parent))) (\<lambda>parent_diff.
     rbind (checked_usize (diffsum * diffsum)) (\<lambda>sq.
     rbind (checked_usize (2 * diff_to_sibling)) (\<lambda>m.
     rbind (checked_usize (m * parent_diff)) (\<lambda>bound. Inr (sq \<ge> bound)))))"

function save_state_from_diff ::
    "u64 \<Rightarrow> CompressedState \<Rightarrow> CompressedState \<Rightarrow> nat \<Rightarrow> ShortStateInfo list \<Rightarrow> statediffs
     \<Rightarrow> StoreError + statediffs" where
  "save_state_from_diff h statediffnew statediffremoved diff_to_sibling parent_states db =
     rbind (checked_usize (card statediffnew + card statediffremoved)) (\<lambda>diffsum.
     if length parent_states > 3 then
       (let (pn, pr) = combine_diff (last parent_states) statediffnew statediffremoved
        in save_state_from_diff h pn pr diffsum (butlast parent_states) db)
     else if parent_states = [] then
       Inr (save_statediff h
         \<lparr> diff_parent = None, diff_added = statediffnew, diff_removed = statediffremoved \<rparr> db)
     else
       rbind (diff_too_big diffsum diff_to_sibling (last parent_states)) (\<lambda>too_big.
       if too_big then
         (let (pn, pr) = combine_diff (last parent_states) statediffnew statediffremoved
          in save_state_from_diff h pn pr diffsum (butlast parent_states) db)
       else Inr (save_statediff h
         \<lparr> diff_parent = Some (shortstatehash (last parent_states)),
           diff_added = statediffnew, diff_removed = statediffremoved \<rparr> db)))"
  by pat_completeness auto
termination
  by (relation "measure (\<lambda>(h, a, r, d, ps, db). length ps)") auto

declare save_state_from_diff.simps [simp del]

text \<open>\<open>calculate_hash\<close>: the inputs are joined by the byte \<open>0xFF\<close>.\<close>

fun delimited :: "u8 list list \<Rightarrow> u8 list" where
  "delimited [] = []"
| "delimited [x] = x"
| "delimited (x # y # xs) = x @ [0xFF] @ delimited (y # xs)"

definition calculate_hash :: "(u8 list \<Rightarrow> u8 list) \<Rightarrow> CompressedState \<Rightarrow> u8 list" where
  "calculate_hash sha256 state = sha256 (delimited (sorted_list_of_set state))"

record 'c compressor =
  comp_short :: short_data
  comp_diffs :: statediffs
  comp_cache :: 'c

definition diff_to_parent ::
    "ShortStateInfo list \<Rightarrow> CompressedState \<Rightarrow> CompressedState \<times> CompressedState" where
  "diff_to_parent states_parents new_state =
     (if states_parents = [] then (new_state, {})
      else (new_state - full_state (last states_parents), full_state (last states_parents) - new_state))"

text \<open>The layers of the previous state; a failed load counts as none.\<close>

definition load_parents ::
    "'c state_lru \<Rightarrow> statediffs \<Rightarrow> u64 option \<Rightarrow> 'c \<Rightarrow> (ShortStateInfo list \<times> 'c) option" where
  "load_parents L db previous cache =
     (case previous of
        None \<Rightarrow> Some ([], cache)
      | Some p \<Rightarrow>
          map_option (\<lambda>r. (case fst r of Inl _ \<Rightarrow> [] | Inr stack \<Rightarrow> stack, snd r))
            (load_shortstatehash_info L db p cache))"

text \<open>\<open>save_state\<close>; \<open>previous\<close> is the room's current short state hash, from another service.\<close>

definition save_state ::
    "'c state_lru \<Rightarrow> (u8 list \<Rightarrow> u8 list) \<Rightarrow> u64 option \<Rightarrow> CompressedState \<Rightarrow> 'c compressor
     \<Rightarrow> ((StoreError + HashSetCompressStateEvent) \<times> 'c compressor) option" where
  "save_state L sha256 previous new_state s =
     (let ((h, already_existed), short) =
            get_or_create_shortstatehash (calculate_hash sha256 new_state) (comp_short s);
          s1 = s\<lparr>comp_short := short\<rparr>
      in if Some h = previous then
           Some (Inr \<lparr> new_shortstatehash = h, state_added = {}, state_removed = {} \<rparr>, s1)
         else
           Option.bind
             (load_parents L (comp_diffs s1) previous (comp_cache s1))
             (\<lambda>(states_parents, cache).
              let s2 = s1\<lparr>comp_cache := cache\<rparr>;
                  (statediffnew, statediffremoved) = diff_to_parent states_parents new_state;
                  result = Inr \<lparr> new_shortstatehash = h, state_added = statediffnew,
                                 state_removed = statediffremoved \<rparr>
              in if already_existed then Some (result, s2)
                 else (case save_state_from_diff h statediffnew statediffremoved 2 states_parents
                              (comp_diffs s2) of
                    Inl e \<Rightarrow> Some (Inl e, s2)
                  | Inr db \<Rightarrow> Some (result, s2\<lparr>comp_diffs := db\<rparr>))))"

section \<open>The stored form can be read back\<close>

text \<open>A compressed event of a real state: sixteen bytes, whose state key number is not zero.\<close>

definition event_ok :: "CompressedStateEvent \<Rightarrow> bool" where
  "event_ok v \<longleftrightarrow> length v = 16 \<and> take 8 v \<noteq> zero_bytes"

lemma length_zero_bytes [simp]: "length zero_bytes = 8"
  by (simp add: zero_bytes_def)

lemma parse_removed:
  "(\<And>v. v \<in> set vs \<Longrightarrow> length v = 16) \<Longrightarrow>
   parse_statediff False (concat vs) a r = (a, r \<union> set vs)"
proof (induction vs arbitrary: r)
  case (Cons v vs)
  then have "length v = 16" by simp
  with Cons show ?case by (subst parse_statediff.simps) (simp add: Let_def)
qed (simp add: parse_statediff.simps)

lemma parse_added:
  "(\<And>v. v \<in> set vs \<Longrightarrow> event_ok v) \<Longrightarrow>
   parse_statediff True (concat vs @ rest) a r = parse_statediff True rest (a \<union> set vs) r"
proof (induction vs arbitrary: a)
  case (Cons v vs)
  then have "length v = 16" "take 8 v \<noteq> zero_bytes" by (auto simp: event_ok_def)
  with Cons show ?case by (subst parse_statediff.simps) (simp add: Let_def)
qed simp

lemma parse_marker:
  assumes "ws \<noteq> []" "\<And>v. v \<in> set ws \<Longrightarrow> length v = 16"
  shows "parse_statediff True (zero_bytes @ concat ws) a r = parse_statediff False (concat ws) a r"
proof -
  obtain w ws' where ws: "ws = w # ws'" using assms(1) by (cases ws) auto
  have "length w = 16" using assms(2) ws by simp
  with ws show ?thesis by (subst parse_statediff.simps) (simp add: Let_def)
qed

definition diff_ok :: "StateDiff \<Rightarrow> bool" where
  "diff_ok d \<longleftrightarrow> finite (diff_added d) \<and> finite (diff_removed d) \<and> diff_parent d \<noteq> Some 0
     \<and> (\<forall>v \<in> diff_added d \<union> diff_removed d. event_ok v)"

lemma parse_encoded:
  assumes "diff_ok d"
  shows "parse_statediff True (drop 8 (encode_statediff d)) {} {} = (diff_added d, diff_removed d)"
proof -
  let ?as = "sorted_list_of_set (diff_added d)" and ?rs = "sorted_list_of_set (diff_removed d)"
  have as: "set ?as = diff_added d" "\<And>v. v \<in> set ?as \<Longrightarrow> event_ok v"
    and rs: "set ?rs = diff_removed d" "\<And>v. v \<in> set ?rs \<Longrightarrow> length v = 16"
    using assms by (auto simp: diff_ok_def event_ok_def)
  show ?thesis
  proof (cases "diff_removed d = {}")
    case True
    have "parse_statediff True (concat ?as @ []) {} {} = ({} \<union> set ?as, {})"
      by (subst parse_added [OF as(2)]) (auto simp: parse_statediff.simps)
    with True as(1) show ?thesis by (simp add: encode_statediff_def)
  next
    case False
    then have ne: "?rs \<noteq> []" using rs(1) by auto
    have "parse_statediff True (concat ?as @ (zero_bytes @ concat ?rs)) {} {} = ({} \<union> set ?as, {} \<union> set ?rs)"
      by (simp only: parse_added [OF as(2)] parse_marker [OF ne rs(2)] parse_removed [OF rs(2)])
    with False as(1) rs(1) show ?thesis by (simp add: encode_statediff_def)
  qed
qed

lemma get_saved_statediff:
  assumes "diff_ok d"
  shows "get_statediff (save_statediff h d db) h = Inr d"
proof -
  have "take 8 (encode_statediff d) = to_be_bytes (case diff_parent d of None \<Rightarrow> 0 | Some p \<Rightarrow> p)"
    "8 \<le> length (encode_statediff d)"
    by (simp_all add: encode_statediff_def)
  with parse_encoded [OF assms] assms show ?thesis
    by (cases d) (auto simp: get_statediff_def save_statediff_def diff_ok_def Let_def split: option.splits)
qed

lemma get_other_statediff: "k \<noteq> h \<Longrightarrow> get_statediff (save_statediff h d db) k = get_statediff db k"
  by (simp add: get_statediff_def save_statediff_def)

section \<open>Folding a difference into its parent\<close>

lemma fold_removed_eq:
  assumes "finite R" shows "fold_removed R (pn, pr) = (pn - R, pr \<union> (R - pn))"
proof -
  have "distinct xs \<Longrightarrow> fold (\<lambda>r (pn, pr). if r \<in> pn then (pn - {r}, pr) else (pn, insert r pr)) xs (pn, pr)
      = (pn - set xs, pr \<union> (set xs - pn))" for xs :: "CompressedStateEvent list"
    by (induction xs arbitrary: pn pr) auto
  then show ?thesis using assms by (simp add: fold_removed_def)
qed

lemma fold_added_eq:
  assumes "finite A" shows "fold_added A (pn, pr) = (pn \<union> (A - pr), pr - A)"
proof -
  have "distinct xs \<Longrightarrow> fold (\<lambda>n (pn, pr). if n \<in> pr then (pn, pr - {n}) else (insert n pn, pr)) xs (pn, pr)
      = (pn \<union> (set xs - pr), pr - set xs)" for xs :: "CompressedStateEvent list"
    by (induction xs arbitrary: pn pr) auto
  then show ?thesis using assms by (simp add: fold_added_def)
qed

text \<open>A difference is proper to a base state when it adds what is not there and removes what is.\<close>

definition proper_diff :: "CompressedState \<Rightarrow> CompressedState \<Rightarrow> CompressedState \<Rightarrow> bool" where
  "proper_diff base a r \<longleftrightarrow> finite a \<and> finite r \<and> a \<inter> base = {} \<and> r \<subseteq> base
     \<and> (\<forall>v \<in> a \<union> r. event_ok v)"

lemma combine_diff_proper:
  assumes "proper_diff base (info_added i) (info_removed i)"
    "full = (base \<union> info_added i) - info_removed i" "proper_diff full a r"
    "combine_diff i a r = (pn, pr)"
  shows "proper_diff base pn pr" "(base \<union> pn) - pr = (full \<union> a) - r"
    "card pn + card pr \<le> card (info_added i) + card (info_removed i) + (card a + card r)"
proof -
  have eq: "pn = (info_added i - r) \<union> (a - (info_removed i \<union> (r - info_added i)))"
    "pr = (info_removed i \<union> (r - info_added i)) - a"
    using assms(1,3,4) by (auto simp: combine_diff_def fold_removed_eq fold_added_eq proper_diff_def)
  show "proper_diff base pn pr"
    using assms(1-3) unfolding eq by (auto simp: proper_diff_def)
  show "(base \<union> pn) - pr = (full \<union> a) - r"
    using assms(1-3) unfolding eq by (auto simp: proper_diff_def)
  have fin: "finite (info_added i)" "finite (info_removed i)" "finite a" "finite r"
    using assms(1,3) by (auto simp: proper_diff_def)
  have "card pn \<le> card (info_added i \<union> a)" "card pr \<le> card (info_removed i \<union> r)"
    unfolding eq using fin by (auto intro!: card_mono)
  then show "card pn + card pr \<le> card (info_added i) + card (info_removed i) + (card a + card r)"
    using card_Un_le [of "info_added i" a] card_Un_le [of "info_removed i" r] by linarith
qed

section \<open>Stacks of layers\<close>

text \<open>The stack of a stored state, bottom layer first, and the state it stands for.\<close>

inductive stack_of :: "statediffs \<Rightarrow> u64 \<Rightarrow> ShortStateInfo list \<Rightarrow> bool" for db where
  bottom: "get_statediff db h = Inr d \<Longrightarrow> diff_parent d = None \<Longrightarrow> stack_of db h [base_layer h d]"
| layer: "get_statediff db h = Inr d \<Longrightarrow> diff_parent d = Some p \<Longrightarrow> stack_of db p stack \<Longrightarrow>
    stack_of db h (next_layer stack h d)"

definition top_state :: "ShortStateInfo list \<Rightarrow> CompressedState" where
  "top_state stack = (if stack = [] then {} else full_state (last stack))"

fun good_layers :: "CompressedState \<Rightarrow> ShortStateInfo list \<Rightarrow> bool" where
  "good_layers base [] = True"
| "good_layers base (i # stack) \<longleftrightarrow> proper_diff base (info_added i) (info_removed i)
     \<and> full_state i = (base \<union> info_added i) - info_removed i \<and> shortstatehash i \<noteq> 0
     \<and> good_layers (full_state i) stack"

lemma good_layers_snoc:
  "good_layers base (stack @ [i]) \<longleftrightarrow> good_layers base stack
     \<and> (let b = (if stack = [] then base else full_state (last stack)) in
        proper_diff b (info_added i) (info_removed i)
        \<and> full_state i = (b \<union> info_added i) - info_removed i \<and> shortstatehash i \<noteq> 0)"
  by (induction stack arbitrary: base) (auto simp: Let_def)

lemma good_layers_last:
  assumes "good_layers {} stack" "stack \<noteq> []"
  shows "good_layers {} (butlast stack)"
    "proper_diff (top_state (butlast stack)) (info_added (last stack)) (info_removed (last stack))"
    "full_state (last stack) =
       (top_state (butlast stack) \<union> info_added (last stack)) - info_removed (last stack)"
    "shortstatehash (last stack) \<noteq> 0"
  using assms good_layers_snoc [of "{}" "butlast stack" "last stack"] by (auto simp: Let_def top_state_def)

lemma stack_of_last:
  assumes "stack_of db h stack"
  shows "stack \<noteq> []" "shortstatehash (last stack) = h"
  using assms by (induction) (auto simp: base_layer_def next_layer_def)

lemma stack_of_butlast:
  assumes "stack_of db h stack" "butlast stack \<noteq> []"
  shows "stack_of db (shortstatehash (last (butlast stack))) (butlast stack)"
  using assms(1)
proof (cases rule: stack_of.cases)
  case (layer d p st)
  then show ?thesis using stack_of_last(2) [OF layer(4)] by (simp add: next_layer_def)
qed (use assms(2) in simp)

lemma stack_of_unique: "stack_of db h st \<Longrightarrow> stack_of db h st' \<Longrightarrow> st = st'"
proof (induction arbitrary: st' rule: stack_of.induct)
  case (bottom h d)
  from bottom.prems show ?case by (cases rule: stack_of.cases) (use bottom.hyps in simp_all)
next
  case (layer h d p st)
  from layer.prems show ?case
  proof (cases rule: stack_of.cases)
    case bottom
    then show ?thesis using layer.hyps(1,2) by simp
  next
    case upper: (layer d' p' st2)
    have "d' = d" using upper(2) layer.hyps(1) by simp
    moreover from this have "p' = p" using upper(3) layer.hyps(2) by simp
    ultimately show ?thesis using upper(1,4) layer.IH [of st2] by simp
  qed
qed

lemma get_statediff_dom: "get_statediff db h = Inr d \<Longrightarrow> map_of db h \<noteq> None"
  by (auto simp: get_statediff_def result_simps)

lemma stack_of_insert:
  assumes "stack_of db h stack" "map_of db k = None"
  shows "stack_of (save_statediff k d db) h stack"
  using assms(1)
proof (induction)
  case (bottom h e)
  then have "k \<noteq> h" using get_statediff_dom assms(2) by metis
  with bottom show ?case by (auto intro!: stack_of.bottom simp: get_other_statediff)
next
  case (layer h e p st)
  then have "k \<noteq> h" using get_statediff_dom assms(2) by metis
  with layer show ?case by (auto intro!: stack_of.layer simp: get_other_statediff)
qed

section \<open>Saving a difference\<close>

definition parents_ok :: "statediffs \<Rightarrow> ShortStateInfo list \<Rightarrow> bool" where
  "parents_ok db stack \<longleftrightarrow> good_layers {} stack
     \<and> (stack = [] \<or> stack_of db (shortstatehash (last stack)) stack)"

lemma parents_ok_butlast: "parents_ok db stack \<Longrightarrow> parents_ok db (butlast stack)"
  by (cases "stack = []")
    (auto simp: parents_ok_def intro: good_layers_last stack_of_butlast)

text \<open>What the storing of a state promises: one new entry, and a stack for it that stands for the state.\<close>

definition stored :: "u64 \<Rightarrow> CompressedState \<Rightarrow> statediffs \<Rightarrow> statediffs \<Rightarrow> bool" where
  "stored h state db db' \<longleftrightarrow>
     (\<exists>d stack. db' = save_statediff h d db \<and> stack_of db' h stack \<and> good_layers {} stack
        \<and> top_state stack = state \<and> length stack \<le> 4)"

lemma proper_diff_ok:
  "proper_diff base a r \<Longrightarrow> q \<noteq> Some 0 \<Longrightarrow>
   diff_ok \<lparr> diff_parent = q, diff_added = a, diff_removed = r \<rparr>"
  by (auto simp: proper_diff_def diff_ok_def)

lemma stored_bottom:
  assumes "proper_diff {} a r" "h \<noteq> 0"
  shows "stored h a db (save_statediff h \<lparr> diff_parent = None, diff_added = a, diff_removed = r \<rparr> db)"
proof -
  let ?d = "\<lparr> diff_parent = None, diff_added = a, diff_removed = r \<rparr>"
  have "stack_of (save_statediff h ?d db) h [base_layer h ?d]"
    using get_saved_statediff [OF proper_diff_ok [OF assms(1), of None]] by (auto intro: stack_of.bottom)
  moreover have "good_layers {} [base_layer h ?d]" "top_state [base_layer h ?d] = a"
    using assms by (auto simp: base_layer_def proper_diff_def top_state_def)
  ultimately show ?thesis unfolding stored_def by force
qed

lemma stored_layer:
  assumes "parents_ok db stack" "stack \<noteq> []" "length stack \<le> 3" "map_of db h = None"
    "proper_diff (top_state stack) a r" "h \<noteq> 0"
  shows "stored h ((top_state stack \<union> a) - r) db
    (save_statediff h \<lparr> diff_parent = Some (shortstatehash (last stack)),
       diff_added = a, diff_removed = r \<rparr> db)"
proof -
  let ?d = "\<lparr> diff_parent = Some (shortstatehash (last stack)), diff_added = a, diff_removed = r \<rparr>"
  have nz: "shortstatehash (last stack) \<noteq> 0"
    using assms(1,2) good_layers_last(4) by (auto simp: parents_ok_def)
  have "stack_of (save_statediff h ?d db) (shortstatehash (last stack)) stack"
    using assms(1,2,4) by (auto simp: parents_ok_def intro: stack_of_insert)
  then have "stack_of (save_statediff h ?d db) h (next_layer stack h ?d)"
    using get_saved_statediff [OF proper_diff_ok [OF assms(5)]] nz by (auto intro: stack_of.layer)
  moreover have "good_layers {} (next_layer stack h ?d)"
    using assms(1,2,5,6) by (simp add: next_layer_def good_layers_snoc parents_ok_def Let_def top_state_def)
  moreover have "top_state (next_layer stack h ?d) = (top_state stack \<union> a) - r"
    "length (next_layer stack h ?d) \<le> 4"
    using assms(2,3) by (simp_all add: next_layer_def top_state_def)
  ultimately show ?thesis unfolding stored_def by blast
qed

lemma combine_with_parent:
  assumes "parents_ok db stack" "stack \<noteq> []" "proper_diff (top_state stack) a r"
    "combine_diff (last stack) a r = (pn, pr)"
  shows "proper_diff (top_state (butlast stack)) pn pr"
    "(top_state (butlast stack) \<union> pn) - pr = (top_state stack \<union> a) - r"
    "card pn + card pr \<le> card (info_added (last stack)) + card (info_removed (last stack)) + (card a + card r)"
  using combine_diff_proper [of "top_state (butlast stack)" "last stack" "top_state stack" a r pn pr]
    good_layers_last [of stack] assms by (auto simp: parents_ok_def top_state_def)

lemma save_state_from_diff_cases:
  assumes "save_state_from_diff h a r n stack db = Inr db'"
  obtains
    (empty) "stack = []" "db' = save_statediff h \<lparr> diff_parent = None, diff_added = a, diff_removed = r \<rparr> db"
  | (top) "stack \<noteq> []" "length stack \<le> 3"
      "db' = save_statediff h \<lparr> diff_parent = Some (shortstatehash (last stack)),
         diff_added = a, diff_removed = r \<rparr> db"
  | (merge) pn pr k where "stack \<noteq> []" "combine_diff (last stack) a r = (pn, pr)"
      "save_state_from_diff h pn pr k (butlast stack) db = Inr db'"
  using assms
  by (subst (asm) save_state_from_diff.simps)
    (auto simp: result_simps Let_def split: if_splits prod.splits)

lemma save_state_from_diff_stored:
  assumes "parents_ok db stack" "proper_diff (top_state stack) a r" "map_of db h = None" "h \<noteq> 0"
    "save_state_from_diff h a r n stack db = Inr db'"
  shows "stored h ((top_state stack \<union> a) - r) db db'"
  using assms
proof (induction "length stack" arbitrary: stack a r n)
  case 0
  from 0(6) show ?case
  proof (cases rule: save_state_from_diff_cases)
    case empty
    with 0 stored_bottom [of a r h db] show ?thesis
      by (simp add: top_state_def proper_diff_def)
  qed (use 0 in auto)
next
  case (Suc l)
  from Suc.prems(5) show ?case
  proof (cases rule: save_state_from_diff_cases)
    case top
    with Suc.prems stored_layer show ?thesis by blast
  next
    case (merge pn pr k)
    have "l = length (butlast stack)" using Suc.hyps(2) by simp
    from Suc.hyps(1) [OF this parents_ok_butlast [OF Suc.prems(1)] _ Suc.prems(3,4) merge(3)]
      combine_with_parent [OF Suc.prems(1) merge(1) Suc.prems(2) merge(2)]
    show ?thesis by simp
  qed (use Suc.hyps in simp)
qed

text \<open>The arithmetic of the routine does not overflow when the layers are not astronomically large.\<close>

definition stack_size :: "ShortStateInfo list \<Rightarrow> nat" where
  "stack_size stack = (\<Sum>i\<leftarrow>stack. card (info_added i) + card (info_removed i))"

lemma stack_size_butlast:
  "stack \<noteq> [] \<Longrightarrow> stack_size stack =
     stack_size (butlast stack) + (card (info_added (last stack)) + card (info_removed (last stack)))"
  unfolding stack_size_def by (subst append_butlast_last_id [symmetric], simp) (simp only: map_append sum_list_append, simp)

lemma checked_usize_le:
  "k \<le> B \<Longrightarrow> int B \<le> 18446744073709551615 \<Longrightarrow> checked_usize k = Inr k"
  unfolding checked_usize_def by (subst if_P) auto

lemma le_twice_square: "k \<le> M \<Longrightarrow> k \<le> 2 * M * (M :: nat)"
  using le_square [of M] by (simp only: mult.assoc)

lemma diff_too_big_returns:
  assumes "diffsum \<le> M" "n \<le> M" "card (info_added i) + card (info_removed i) \<le> M"
    "int (2 * M * M) \<le> 18446744073709551615"
  shows "\<exists>b. diff_too_big diffsum n i = Inr b"
proof -
  let ?p = "card (info_added i) + card (info_removed i)"
  have "diffsum * diffsum \<le> 2 * M * M" "2 * n * ?p \<le> 2 * M * M" 
    using assms(1-3) mult_le_mono [OF assms(1) assms(1)] mult_le_mono [of "2 * n" "2 * M" ?p M]
    by (auto simp: mult.assoc)
  moreover have "2 * n \<le> 2 * M * M" using assms(2) le_square [of M] unfolding mult.assoc by linarith
  moreover have "?p \<le> 2 * M * M" using assms(3) by (rule le_twice_square)
  ultimately have "checked_usize ?p = Inr ?p" "checked_usize (diffsum * diffsum) = Inr (diffsum * diffsum)"
    "checked_usize (2 * n) = Inr (2 * n)" "checked_usize (2 * n * ?p) = Inr (2 * n * ?p)"
    by (auto intro: checked_usize_le [OF _ assms(4)])
  then show ?thesis by (simp add: diff_too_big_def)
qed

lemma save_state_from_diff_returns:
  assumes "parents_ok db stack" "proper_diff (top_state stack) a r"
    "stack_size stack + (card a + card r) \<le> M" "n \<le> M" "int (2 * M * M) \<le> 18446744073709551615"
  shows "\<exists>db'. save_state_from_diff h a r n stack db = Inr db'"
  using assms
proof (induction "length stack" arbitrary: stack a r n)
  case (Suc l)
  obtain pn pr where c: "combine_diff (last stack) a r = (pn, pr)" by fastforce
  have ne: "stack \<noteq> []" using Suc.hyps(2) by auto
  note comb = combine_with_parent [OF Suc.prems(1) ne Suc.prems(2) c]
  have sum: "card a + card r \<le> M" using Suc.prems(3) by simp
  have "stack_size (butlast stack) + (card pn + card pr) \<le> M"
    using comb(3) Suc.prems(3) stack_size_butlast [OF ne] by simp
  with Suc.hyps(1) [OF _ parents_ok_butlast [OF Suc.prems(1)] comb(1) _ sum Suc.prems(5)] Suc.hyps(2)
  have rec: "\<exists>db'. save_state_from_diff h pn pr (card a + card r) (butlast stack) db = Inr db'" by simp
  have "checked_usize (card a + card r) = Inr (card a + card r)"
    using checked_usize_le [OF le_twice_square [OF sum] Suc.prems(5)] .
  moreover obtain b where "diff_too_big (card a + card r) n (last stack) = Inr b"
    using diff_too_big_returns [OF sum Suc.prems(4) _ Suc.prems(5), of "last stack"]
      stack_size_butlast [OF ne] Suc.prems(3) by auto
  ultimately show ?case using rec c ne by (subst save_state_from_diff.simps) (auto simp: Let_def)
next
  case 0
  have "checked_usize (card a + card r) = Inr (card a + card r)"
    by (rule checked_usize_le [OF le_twice_square 0(6)]) (use 0(4) in simp)
  with 0 show ?case by (subst save_state_from_diff.simps) auto
qed

section \<open>Loading\<close>

definition cache_coherent :: "'c state_lru \<Rightarrow> statediffs \<Rightarrow> 'c \<Rightarrow> bool" where
  "cache_coherent L db = lru_all L (stack_of db)"

lemmas cache_coherent_insert = lru_all_insert [where P = "stack_of db" for db, folded cache_coherent_def]

lemma lru_get_cases:
  assumes "lru_laws L" "cache_coherent L db c" "stack_of db h stack"
  obtains (hit) c' where "lru_get L h c = (Some stack, c')" "cache_coherent L db c'"
  | (miss) c' where "lru_get L h c = (None, c')" "cache_coherent L db c'"
proof -
  obtain r c' where get: "lru_get L h c = (r, c')" by fastforce
  note * = lru_all_get [OF assms(1) assms(2) [unfolded cache_coherent_def] get, folded cache_coherent_def]
  show thesis
  proof (cases r)
    case None
    with get that(2) *(1) show ?thesis by simp
  next
    case (Some v)
    then have "v = stack" using *(2) assms(3) stack_of_unique by blast
    with Some get that(1) *(1) show ?thesis by simp
  qed
qed

lemma load_stack:
  assumes "lru_laws L" "cache_coherent L db c" "stack_of db h stack"
  shows "\<exists>c'. load_shortstatehash_info L db h c = Some (Inr stack, c') \<and> cache_coherent L db c'"
  using assms(3,2)
proof (induction arbitrary: c)
  case (bottom h d)
  note st = stack_of.bottom [OF bottom.hyps]
  from assms(1) bottom.prems st show ?case
  proof (cases rule: lru_get_cases)
    case (miss c')
    with bottom.hyps cache_coherent_insert [OF assms(1) miss(2) st] show ?thesis
      by (subst load_shortstatehash_info.simps) (simp add: Let_def)
  qed (subst load_shortstatehash_info.simps, simp)
next
  case (layer h d p stack)
  note st = stack_of.layer [OF layer.hyps]
  from assms(1) layer.prems st show ?case
  proof (cases rule: lru_get_cases)
    case (miss c')
    from layer.IH [OF miss(2)] obtain c2 where
      "load_shortstatehash_info L db p c' = Some (Inr stack, c2)" "cache_coherent L db c2" by blast
    with layer.hyps stack_of_last(1) [OF layer.hyps(3)] miss(1) cache_coherent_insert [OF assms(1) _ st]
    show ?thesis by (subst load_shortstatehash_info.simps) (simp add: Let_def)
  qed (subst load_shortstatehash_info.simps, simp)
qed

section \<open>The hash of a state\<close>

definition state_ok :: "CompressedState \<Rightarrow> bool" where
  "state_ok t \<longleftrightarrow> finite t \<and> (\<forall>v \<in> t. event_ok v)"

definition state_bytes :: "CompressedState \<Rightarrow> u8 list" where
  "state_bytes t = delimited (sorted_list_of_set t)"

lemma good_layers_state_ok: "good_layers {} stack \<Longrightarrow> state_ok (top_state stack)"
proof (induction stack rule: rev_induct)
  case (snoc i stack)
  then show ?case
    by (auto simp: good_layers_snoc Let_def top_state_def state_ok_def proper_diff_def split: if_splits)
qed (simp add: top_state_def state_ok_def)

text \<open>Elements of one width can be told apart in the joined bytes.\<close>

lemma delimited_Cons: "delimited (x # xs) = x @ (if xs = [] then [] else 0xFF # delimited xs)"
  by (cases xs) auto

lemma delimited_inj:
  assumes "\<And>v. v \<in> set xs \<union> set ys \<Longrightarrow> length v = Suc n" "delimited xs = delimited ys"
  shows "xs = ys"
  using assms
proof (induction xs arbitrary: ys)
  case Nil
  have "length y = Suc n" if "ys = y # zs" for y zs using Nil.prems(1) [of y] that by simp
  with Nil.prems(2) show ?case by (cases ys) (fastforce simp: delimited_Cons)+
next
  case (Cons x xs)
  have x: "length x = Suc n" using Cons.prems(1) [of x] by simp
  with Cons.prems(2) obtain y zs where ys: "ys = y # zs" by (cases ys) (auto simp: delimited_Cons)
  have len: "length x = Suc n" "length y = Suc n" using x Cons.prems(1) [of y] ys by auto
  then have "x = y" "(if xs = [] then [] else 0xFF # delimited xs) = (if zs = [] then [] else 0xFF # delimited zs)"
    using Cons.prems(2) ys by (auto simp: delimited_Cons)
  moreover from this(2) have "delimited xs = delimited zs" by (auto split: if_splits)
  ultimately show ?case using Cons.IH [of zs] Cons.prems(1) ys by auto
qed

lemma state_bytes_inj:
  assumes "state_ok t" "state_ok u" "state_bytes t = state_bytes u"
  shows "t = u"
proof -
  have "sorted_list_of_set t = sorted_list_of_set u"
    by (rule delimited_inj [of _ _ 15])
      (use assms in \<open>auto simp: state_ok_def event_ok_def state_bytes_def\<close>)
  then show ?thesis using assms(1,2) unfolding state_ok_def by (metis set_sorted_list_of_set)
qed

section \<open>The store as a whole\<close>

text \<open>
  The invariant: every registered hash belongs to a stored state with this hash, whose stack is well
  formed and has at most four layers; the cache agrees with the database; ids above the counter are free.
\<close>

definition has_state :: "(u8 list \<Rightarrow> u8 list) \<Rightarrow> statediffs \<Rightarrow> u8 list \<Rightarrow> u64 \<Rightarrow> bool" where
  "has_state sha256 db hash h \<longleftrightarrow>
     (\<exists>stack. stack_of db h stack \<and> good_layers {} stack \<and> length stack \<le> 4
        \<and> calculate_hash sha256 (top_state stack) = hash)"

definition store_inv :: "'c state_lru \<Rightarrow> (u8 list \<Rightarrow> u8 list) \<Rightarrow> 'c compressor \<Rightarrow> bool" where
  "store_inv L sha256 s \<longleftrightarrow>
     short_inv (comp_short s) \<and> cache_coherent L (comp_diffs s) (comp_cache s)
     \<and> (\<forall>k. counter (comp_short s) < k \<longrightarrow> map_of (comp_diffs s) k = None)
     \<and> (\<forall>hash h. get_shortstatehash (comp_short s) hash = Some h \<longrightarrow>
          has_state sha256 (comp_diffs s) hash h)"

text \<open>The abstract store: which state an id stands for.\<close>

definition holds_state :: "'c compressor \<Rightarrow> u64 \<Rightarrow> CompressedState \<Rightarrow> bool" where
  "holds_state s h t \<longleftrightarrow> (\<exists>stack. stack_of (comp_diffs s) h stack \<and> top_state stack = t)"

definition stored_states :: "'c compressor \<Rightarrow> CompressedState set" where
  "stored_states s =
     {t. \<exists>hash h. get_shortstatehash (comp_short s) hash = Some h \<and> holds_state s h t}"

definition previous_stack :: "'c compressor \<Rightarrow> u64 option \<Rightarrow> ShortStateInfo list \<Rightarrow> bool" where
  "previous_stack s previous stack \<longleftrightarrow>
     (case previous of
        None \<Rightarrow> stack = []
      | Some p \<Rightarrow> stack_of (comp_diffs s) p stack
          \<and> (\<exists>hash. get_shortstatehash (comp_short s) hash = Some p))"

definition size_ok :: "ShortStateInfo list \<Rightarrow> CompressedState \<Rightarrow> bool" where
  "size_ok stack t \<longleftrightarrow>
     (let M = stack_size stack + card t + card (top_state stack) + 2
      in int (2 * M * M) \<le> 18446744073709551615)"

lemma previous_stack_ok:
  assumes "store_inv L sha256 s" "previous_stack s previous stack"
  shows "parents_ok (comp_diffs s) stack"
proof (cases previous)
  case None
  then show ?thesis using assms(2) by (simp add: previous_stack_def parents_ok_def)
next
  case (Some p)
  then obtain hash where st: "stack_of (comp_diffs s) p stack"
    "get_shortstatehash (comp_short s) hash = Some p"
    using assms(2) by (auto simp: previous_stack_def)
  then obtain stack' where "stack_of (comp_diffs s) p stack'" "good_layers {} stack'"
    using assms(1) unfolding store_inv_def has_state_def by blast
  with st stack_of_unique have "good_layers {} stack" by metis
  with st stack_of_last(2) [OF st(1)] show ?thesis by (simp add: parents_ok_def)
qed

lemma load_previous:
  assumes "lru_laws L" "store_inv L sha256 s" "previous_stack s previous stack"
  shows "\<exists>c. load_parents L (comp_diffs s) previous (comp_cache s) = Some (stack, c)
    \<and> cache_coherent L (comp_diffs s) c"
proof (cases previous)
  case (Some p)
  then have "stack_of (comp_diffs s) p stack" using assms(3) by (simp add: previous_stack_def)
  with load_stack [OF assms(1) _ this] assms(2) Some show ?thesis
    by (fastforce simp: store_inv_def load_parents_def)
qed (use assms in \<open>simp add: previous_stack_def store_inv_def load_parents_def\<close>)

lemma diff_to_parent_eq:
  "diff_to_parent stack t = (t - top_state stack, top_state stack - t)"
  by (simp add: diff_to_parent_def top_state_def)

lemma diff_to_parent_proper:
  assumes "parents_ok db stack" "state_ok t"
  shows "proper_diff (top_state stack) (t - top_state stack) (top_state stack - t)"
  using assms good_layers_state_ok [of stack] by (auto simp: parents_ok_def proper_diff_def state_ok_def)

lemma size_ok_diff:
  assumes "size_ok stack t" "parents_ok db stack" "state_ok t"
  shows "\<exists>M. stack_size stack + (card (t - top_state stack) + card (top_state stack - t)) \<le> M
    \<and> 2 \<le> M \<and> int (2 * M * M) \<le> 18446744073709551615"
proof -
  have "finite t" "finite (top_state stack)"
    using assms(2,3) good_layers_state_ok [of stack] by (auto simp: parents_ok_def state_ok_def)
  then have "card (t - top_state stack) \<le> card t" "card (top_state stack - t) \<le> card (top_state stack)"
    by (auto intro: card_mono)
  then show ?thesis using assms(1) unfolding size_ok_def Let_def
    by (intro exI [of _ "stack_size stack + card t + card (top_state stack) + 2"]) simp
qed

lemma stored_has_state:
  "stored h t db db' \<Longrightarrow> has_state sha256 db' (calculate_hash sha256 t) h"
  unfolding stored_def has_state_def by blast

lemma stored_keeps:
  assumes "stored h t db db'" "map_of db h = None" "stack_of db k stack"
  shows "stack_of db' k stack"
  using assms stack_of_insert unfolding stored_def by blast

lemma stored_keys: "stored h t db db' \<Longrightarrow> k \<noteq> h \<Longrightarrow> map_of db' k = map_of db k"
  by (auto simp: stored_def save_statediff_def)

lemma store_inv_stored:
  assumes "store_inv L sha256 s" "stored h t (comp_diffs s) db'" "counter (comp_short s) < h"
    "short_inv short" "get_shortstatehash short = (get_shortstatehash (comp_short s))(calculate_hash sha256 t \<mapsto> h)"
    "counter short = h" "cache_coherent L (comp_diffs s) c"
  shows "store_inv L sha256 (s\<lparr>comp_short := short, comp_cache := c, comp_diffs := db'\<rparr>)"
proof -
  have fresh: "map_of (comp_diffs s) h = None" using assms(1,3) by (simp add: store_inv_def)
  note keep = stored_keeps [OF assms(2) fresh]
  have "map_of db' k = None" if "h < k" for k
    using that stored_keys [OF assms(2), of k] assms(1,3) by (auto simp: store_inv_def)
  moreover have "cache_coherent L db' c" using assms(7) keep unfolding cache_coherent_def by (rule lru_all_mono)
  moreover have "has_state sha256 db' hash k" if "get_shortstatehash short hash = Some k" for hash k
    using that assms(1) stored_has_state [OF assms(2), of sha256] keep unfolding assms(5)
    by (fastforce simp: store_inv_def has_state_def split: if_splits)
  ultimately show ?thesis using assms(4,6) by (simp add: store_inv_def)
qed

lemma store_inv_cache:
  "store_inv L sha256 s \<Longrightarrow> cache_coherent L (comp_diffs s) c \<Longrightarrow> store_inv L sha256 (s\<lparr>comp_cache := c\<rparr>)"
  by (simp add: store_inv_def)

text \<open>A known hash is the hash of the same state, when no two states in play share one.\<close>

lemma known_state:
  assumes "store_inv L sha256 s" "state_ok t"
    "inj_on sha256 (state_bytes ` insert t (stored_states s))"
    "get_shortstatehash (comp_short s) (calculate_hash sha256 t) = Some h"
  shows "\<exists>stack. stack_of (comp_diffs s) h stack \<and> top_state stack = t \<and> length stack \<le> 4"
proof -
  obtain stack where st: "stack_of (comp_diffs s) h stack" "good_layers {} stack" "length stack \<le> 4"
    "calculate_hash sha256 (top_state stack) = calculate_hash sha256 t"
    using assms(1,4) unfolding store_inv_def has_state_def by blast
  then have "top_state stack \<in> stored_states s"
    using assms(4) by (auto simp: stored_states_def holds_state_def)
  moreover have "sha256 (state_bytes (top_state stack)) = sha256 (state_bytes t)"
    using st(4) by (simp add: calculate_hash_def state_bytes_def)
  ultimately have "state_bytes (top_state stack) = state_bytes t"
    using inj_onD [OF assms(3)] by blast
  with st good_layers_state_ok [OF st(2)] state_bytes_inj assms(2) show ?thesis by blast
qed

text \<open>
  The contract of \<open>save_state\<close>: what is returned is the difference to the previous state, loading the
  returned id gives the saved state, and every id keeps its state.
\<close>

definition save_post ::
    "'c state_lru \<Rightarrow> (u8 list \<Rightarrow> u8 list) \<Rightarrow> CompressedState \<Rightarrow> CompressedState \<Rightarrow> 'c compressor
     \<Rightarrow> HashSetCompressStateEvent \<Rightarrow> 'c compressor \<Rightarrow> bool" where
  "save_post L sha256 old new s out s' \<longleftrightarrow>
     store_inv L sha256 s' \<and> state_added out = new - old \<and> state_removed out = old - new
     \<and> (\<exists>stack c. load_shortstatehash_info L (comp_diffs s') (new_shortstatehash out) (comp_cache s')
          = Some (Inr stack, c) \<and> top_state stack = new \<and> length stack \<le> 4)
     \<and> (\<forall>k t. holds_state s k t \<longrightarrow> holds_state s' k t)"

lemma stack_of_dom: "stack_of db h stack \<Longrightarrow> map_of db h \<noteq> None"
  by (induction rule: stack_of.induct) (rule get_statediff_dom, assumption)+

lemma save_postI:
  assumes "lru_laws L" "store_inv L sha256 s'" "state_added out = new - old" "state_removed out = old - new"
    "stack_of (comp_diffs s') (new_shortstatehash out) stack" "top_state stack = new" "length stack \<le> 4"
    "\<And>k st. stack_of (comp_diffs s) k st \<Longrightarrow> stack_of (comp_diffs s') k st"
  shows "save_post L sha256 old new s out s'"
  using load_stack [OF assms(1) _ assms(5), of "comp_cache s'"] assms
  unfolding save_post_def holds_state_def store_inv_def by blast

lemma save_state_known:
  assumes "lru_laws L" "store_inv L sha256 s" "state_ok t" "previous_stack s previous stack"
    "inj_on sha256 (state_bytes ` insert t (stored_states s))"
    "get_shortstatehash (comp_short s) (calculate_hash sha256 t) = Some h"
  shows "\<exists>out s'. save_state L sha256 previous t s = Some (Inr out, s')
    \<and> save_post L sha256 (top_state stack) t s out s'"
proof -
  have get: "get_or_create_shortstatehash (calculate_hash sha256 t) (comp_short s) = ((h, True), comp_short s)"
    using assms(6) by (simp add: get_or_create_shortstatehash_def)
  obtain st where st: "stack_of (comp_diffs s) h st" "top_state st = t" "length st \<le> 4"
    using known_state [OF assms(2,3,5,6)] by blast
  show ?thesis
  proof (cases "Some h = previous")
    case True
    then have "stack = st" using assms(4) st(1) stack_of_unique by (auto simp: previous_stack_def)
    with True get st save_postI [OF assms(1,2), of _ t t st s] show ?thesis
      by (auto simp: save_state_def)
  next
    case False
    obtain c where "load_parents L (comp_diffs s) previous (comp_cache s) = Some (stack, c)"
      "cache_coherent L (comp_diffs s) c"
      using load_previous [OF assms(1,2,4)] by blast
    with False get st save_postI [OF assms(1) store_inv_cache [OF assms(2)], of c _ t "top_state stack" st s]
    show ?thesis by (auto simp: save_state_def diff_to_parent_eq)
  qed
qed

lemma save_state_new:
  assumes "lru_laws L" "store_inv L sha256 s" "0 < ids_left (comp_short s)" "state_ok t"
    "previous_stack s previous stack" "size_ok stack t"
    "get_shortstatehash (comp_short s) (calculate_hash sha256 t) = None"
  shows "\<exists>out s'. save_state L sha256 previous t s = Some (Inr out, s')
    \<and> save_post L sha256 (top_state stack) t s out s'"
proof -
  obtain h known short where get:
    "get_or_create_shortstatehash (calculate_hash sha256 t) (comp_short s) = ((h, known), short)"
    by (metis prod.exhaust)
  have inv: "short_inv (comp_short s)" using assms(2) by (simp add: store_inv_def)
  note new = get_or_create_shortstatehash_new [OF inv assms(3,7) get]
  have fresh: "map_of (comp_diffs s) h = None" using assms(2) new(5) by (simp add: store_inv_def)
  have "h \<noteq> 0" using new(5) by auto
  have other: "Some h \<noteq> previous"
  proof
    assume "Some h = previous"
    then have "stack_of (comp_diffs s) h stack" using assms(5) by (auto simp: previous_stack_def)
    from stack_of_dom [OF this] show False using fresh by simp
  qed
  obtain c where load: "load_parents L (comp_diffs s) previous (comp_cache s) = Some (stack, c)"
    "cache_coherent L (comp_diffs s) c"
    using load_previous [OF assms(1,2,5)] by blast
  note par = previous_stack_ok [OF assms(2,5)]
  note diff = diff_to_parent_proper [OF par assms(4)]
  obtain db' where db': "save_state_from_diff h (t - top_state stack) (top_state stack - t) 2 stack (comp_diffs s) = Inr db'"
    using size_ok_diff [OF assms(6) par assms(4)] save_state_from_diff_returns [OF par diff] by blast
  have "(top_state stack \<union> (t - top_state stack)) - (top_state stack - t) = t" by blast
  with save_state_from_diff_stored [OF par diff fresh \<open>h \<noteq> 0\<close> db']
  have st: "stored h t (comp_diffs s) db'" by simp
  let ?s' = "s\<lparr>comp_short := short, comp_cache := c, comp_diffs := db'\<rparr>"
  obtain stack' where stack': "stack_of db' h stack'" "top_state stack' = t" "length stack' \<le> 4"
    using st unfolding stored_def by blast
  have "save_state L sha256 previous t s =
      Some (Inr \<lparr> new_shortstatehash = h, state_added = t - top_state stack,
                  state_removed = top_state stack - t \<rparr>, ?s')"
    using get new(4) other load(1) db' by (simp add: save_state_def diff_to_parent_eq Let_def)
  moreover have "save_post L sha256 (top_state stack) t s \<lparr> new_shortstatehash = h,
      state_added = t - top_state stack, state_removed = top_state stack - t \<rparr> ?s'"
    using stack' stored_keeps [OF st fresh] store_inv_stored [OF assms(2) st new(5,1,2,6) load(2)]
    by (intro save_postI [OF assms(1)]) auto
  ultimately show ?thesis by blast
qed

text \<open>
  C4: Saving a room state returns, whether or not the state was stored before: the result is the exact
  difference to the room's previous state, loading the returned id gives the saved state back from at
  most four layers, every id that stood for a state still does, and the store stays consistent.  The
  hypotheses: the cache keeps its contract, the ids are not used up, the difference arithmetic fits
  into 64 bits, and no two of the states in play have the same hash.
\<close>

theorem save_state_correct:
  assumes "lru_laws L" "store_inv L sha256 s" "0 < ids_left (comp_short s)" "state_ok t"
    "previous_stack s previous stack" "size_ok stack t"
    "inj_on sha256 (state_bytes ` insert t (stored_states s))"
  shows "\<exists>out s'. save_state L sha256 previous t s = Some (Inr out, s')
    \<and> save_post L sha256 (top_state stack) t s out s'"
  using save_state_known [OF assms(1,2,4,5,7)] save_state_new [OF assms(1-6)]
  by (cases "get_shortstatehash (comp_short s) (calculate_hash sha256 t)") auto

section \<open>Compressed events\<close>

lemma parse_compress [simp]:
  "parse_compressed_state_event (compress_state_event k e) = (k, e)"
  by (simp add: compress_state_event_def parse_compressed_state_event_def byte_simps)

lemma compress_state_event_ok:
  assumes "k \<noteq> 0" shows "event_ok (compress_state_event k e)"
proof -
  have "to_be_bytes k \<noteq> to_be_bytes 0"
    using assms parse_compress [of k 0] parse_compress [of 0 0] by (auto simp: compress_state_event_def)
  then show ?thesis by (simp add: compress_state_event_def event_ok_def zero_bytes_def byte_simps)
qed

text \<open>
  The difference written by \<open>save_statediff\<close> is the one \<open>get_statediff\<close> reads, for every difference between
  states whose state key numbers are not zero; the entries of other ids are not touched.
\<close>

lemma statediff_roundtrip:
  assumes "diff_ok d"
  shows "get_statediff (save_statediff h d db) h = Inr d
    \<and> (\<forall>k. k \<noteq> h \<longrightarrow> get_statediff (save_statediff h d db) k = get_statediff db k)"
  using get_saved_statediff [OF assms] get_other_statediff by blast

lemma create_missing_keys:
  "statekey_shortstatekey (snd (create_missing rs s)) = statekey_shortstatekey s"
proof (induction rs arbitrary: s)
  case (Cons r rs)
  obtain e result where r: "r = (e, result)" by fastforce
  show ?case using Cons.IH
    by (cases result) (simp_all add: r create_shorteventid_def next_count_def Let_def case_prod_beta)
qed simp

text \<open>
  Compressing a state map numbers its events, and the pairs of numbers read from the compressed events
  give the state map back through \<open>multi_get_state_from_short\<close>; no compressed event starts with the zero
  marker of the stored form.
\<close>

lemma compressed_state_roundtrip:
  assumes "short_inv s" "length eids \<le> ids_left s" "distinct eids" "length keys = length eids"
    "map (get_shortstatekey s) keys = map Some ks"
    "compress_state_events (zip ks eids) s = (cs, s')"
  shows "multi_get_state_from_short s' (map parse_compressed_state_event cs) = map Some (zip keys eids)
    \<and> (\<forall>c \<in> set cs. event_ok c)"
proof -
  have len: "length ks = length eids" using assms(4,5) by (metis length_map)
  obtain shorts where run: "multi_get_or_create_shorteventid eids s = (shorts, s')"
    and cs: "cs = map (\<lambda>(k, e). compress_state_event k e) (zip ks shorts)"
    using assms(6) len by (auto simp: compress_state_events_def split: prod.splits)
  note num = batch_numbered [OF assms(1-3) run]
  have "get_shortstatekey s' = get_shortstatekey s"
    using create_missing_keys [of "zip eids (map (get_shorteventid s) eids)" s] run
    by (simp add: multi_get_or_create_shorteventid_def get_shortstatekey_def fun_eq_iff)
  with assms(5) have keys: "map (get_shortstatekey s') keys = map Some ks" by simp
  have "map parse_compressed_state_event cs = zip ks shorts"
    unfolding cs by (simp add: comp_def case_prod_beta)
  moreover have "multi_get_state_from_short s' (zip ks shorts) = map Some (zip keys eids)"
    using short_state_recovered [OF _ keys _ assms(4)] num by blast
  moreover have "k \<noteq> 0" if "k \<in> set ks" for k
  proof -
    from that have "Some k \<in> set (map (get_shortstatekey s) keys)" using assms(5) by simp
    then obtain key where "map_of (statekey_shortstatekey s) key = Some k"
      unfolding get_shortstatekey_def by force
    moreover have "table_ok (counter s) (statekey_shortstatekey s)" using assms(1) by (simp add: short_inv_def)
    ultimately have "0 < k" unfolding table_ok_def by blast
    then show ?thesis by simp
  qed
  ultimately show ?thesis unfolding cs by (auto dest!: set_zip_leftD intro!: compress_state_event_ok)
qed

section \<open>Examples\<close>

text \<open>A store that holds one state of one event.\<close>

definition demo_event :: CompressedStateEvent where "demo_event = compress_state_event 1 2"

definition demo_diff :: StateDiff where
  "demo_diff = \<lparr> diff_parent = None, diff_added = {demo_event}, diff_removed = {} \<rparr>"

definition demo_compressor :: "(u64 \<Rightarrow> ShortStateInfo list option) compressor" where
  "demo_compressor = \<lparr>
     comp_short = no_shorts\<lparr>counter := 3,
       statehash_shortstatehash := [(calculate_hash (\<lambda>x. x) {demo_event}, 3)]\<rparr>,
     comp_diffs = save_statediff 3 demo_diff [], comp_cache = (\<lambda>_. None) \<rparr>"

lemma demo_diff_ok: "diff_ok demo_diff"
  by (simp add: diff_ok_def demo_diff_def demo_event_def compress_state_event_ok)

lemma demo_stack:
  "stack_of (comp_diffs demo_compressor) 3 [base_layer 3 demo_diff]"
  "good_layers {} [base_layer 3 demo_diff]" "top_state [base_layer 3 demo_diff] = {demo_event}"
proof -
  have "get_statediff (comp_diffs demo_compressor) 3 = Inr demo_diff"
    using get_saved_statediff [OF demo_diff_ok] by (simp add: demo_compressor_def)
  then show "stack_of (comp_diffs demo_compressor) 3 [base_layer 3 demo_diff]"
    by (rule stack_of.bottom) (simp add: demo_diff_def)
  show "good_layers {} [base_layer 3 demo_diff]" "top_state [base_layer 3 demo_diff] = {demo_event}"
    by (auto simp: demo_diff_def base_layer_def top_state_def proper_diff_def
        demo_event_def compress_state_event_ok)
qed

lemma demo_store_inv: "store_inv map_cache (\<lambda>x. x) demo_compressor"
proof -
  have "has_state (\<lambda>x. x) (comp_diffs demo_compressor) (calculate_hash (\<lambda>x. x) {demo_event}) 3"
    unfolding has_state_def using demo_stack by (intro exI [of _ "[base_layer 3 demo_diff]"]) simp
  moreover have "short_inv (comp_short demo_compressor)"
    by (auto simp: demo_compressor_def no_shorts_def short_inv_def table_ok_def inverse_tables_def split: if_splits)
  moreover have "map_of (comp_diffs demo_compressor) k = None" if "3 < k" for k
    using that by (auto simp: demo_compressor_def save_statediff_def)
  ultimately show ?thesis
    by (auto simp: store_inv_def cache_coherent_def lru_all_def map_cache_def get_shortstatehash_def demo_compressor_def
        split: if_splits)
qed

lemma save_state_correct_witness:
  "\<exists>out s'. save_state map_cache (\<lambda>x. x) (Some 3) {compress_state_event 1 4} demo_compressor = Some (Inr out, s')
    \<and> save_post map_cache (\<lambda>x. x) {demo_event} {compress_state_event 1 4} demo_compressor out s'"
proof -
  have space: "0 < ids_left (comp_short demo_compressor)"
    by (simp add: demo_compressor_def ids_left_def u64_max_def)
  have ok: "state_ok {compress_state_event 1 4}" by (simp add: state_ok_def compress_state_event_ok)
  have prev: "previous_stack demo_compressor (Some 3) [base_layer 3 demo_diff]"
    using demo_stack(1) by (simp add: previous_stack_def get_shortstatehash_def demo_compressor_def)
  have siz: "size_ok [base_layer 3 demo_diff] {compress_state_event 1 4}"
    by (simp add: size_ok_def stack_size_def base_layer_def demo_diff_def top_state_def Let_def)
  from save_state_correct [OF map_cache_laws demo_store_inv space ok prev siz inj_on_id2]
  show ?thesis unfolding demo_stack(3) .
qed

end
