(* ===== verification/AuthChain.thy ===== *)
theory AuthChain
  imports ShortIds "HOL-Library.Product_Lexorder"
begin

text \<open>
  The auth chain service, \<^verbatim>\<open>src/service/rooms/auth_chain/mod.rs\<close> and \<^verbatim>\<open>data.rs\<close>: the short ids of all
  events reachable over auth events, searched breadth first, with a cache in memory keyed by lists
  of short ids and a database column for single events.  The timeline (\<open>get_pdu\<close>) is an argument; the
  concurrent streams over buckets and events are run in order.
\<close>

section \<open>The caches\<close>

datatype ChainError = WrongRoom EventId

type_synonym 'c chain_lru = "(u64 list, u64 list, 'c) lru"

record 'c chain_data =
  chain_short :: short_data
  shorteventid_authchain :: "(u64, u8 list) hash_map"
  auth_chain_cache :: 'c

fun chunks_exact8 :: "u8 list \<Rightarrow> u8 list list" where
  "chunks_exact8 (a # b # c # d # e # f # g # h # bs) = [a, b, c, d, e, f, g, h] # chunks_exact8 bs"
| "chunks_exact8 _ = []"

definition get_cached_eventid_authchain ::
    "'c chain_lru \<Rightarrow> u64 list \<Rightarrow> 'c chain_data \<Rightarrow> u64 list option \<times> 'c chain_data" where
  "get_cached_eventid_authchain L key s =
     (let (result, cache) = lru_get L key (auth_chain_cache s);
          s1 = s\<lparr>auth_chain_cache := cache\<rparr>
      in case result of
           Some chain \<Rightarrow> (Some chain, s1)
         | None \<Rightarrow>
             if length key \<noteq> 1 then (None, s1)
             else (case map_of (shorteventid_authchain s1) (hd key) of
                None \<Rightarrow> (None, s1)
              | Some bytes \<Rightarrow>
                  let chain = map from_be_bytes (chunks_exact8 bytes)
                  in (Some chain, s1\<lparr>auth_chain_cache := lru_insert L [hd key] chain (auth_chain_cache s1)\<rparr>)))"

definition cache_auth_chain :: "'c chain_lru \<Rightarrow> u64 list \<Rightarrow> u64 list \<Rightarrow> 'c chain_data \<Rightarrow> 'c chain_data" where
  "cache_auth_chain L key chain s =
     (let s1 = (if length key = 1
                then s\<lparr>shorteventid_authchain :=
                       hm_insert (hd key) (concat (map to_be_bytes chain)) (shorteventid_authchain s)\<rparr>
                else s)
      in s1\<lparr>auth_chain_cache := lru_insert L key chain (auth_chain_cache s1)\<rparr>)"

section \<open>The search\<close>

text \<open>The loop over the auth events of one event.\<close>

fun visit_auth_events ::
    "EventId list \<Rightarrow> u64 hash_set \<Rightarrow> EventId list \<Rightarrow> short_data \<Rightarrow> u64 hash_set \<times> EventId list \<times> short_data" where
  "visit_auth_events [] found todo s = (found, todo, s)"
| "visit_auth_events (a # as) found todo s =
     (let (short, s1) = get_or_create_shorteventid a s
      in if short \<in> set found then visit_auth_events as found todo s1
         else visit_auth_events as (hs_insert short found) (todo @ [a]) s1)"

definition wrong_room :: "RoomId \<Rightarrow> Pdu \<Rightarrow> bool" where
  "wrong_room room pdu \<longleftrightarrow> (case room_id pdu of None \<Rightarrow> False | Some claimed \<Rightarrow> claimed \<noteq> room)"

partial_function (option) auth_chain_loop ::
    "(EventId \<Rightarrow> Pdu option) \<Rightarrow> RoomId \<Rightarrow> EventId list \<Rightarrow> u64 hash_set \<Rightarrow> short_data
     \<Rightarrow> ((ChainError + u64 list) \<times> short_data) option" where
  "auth_chain_loop get_pdu room todo found s =
     (case todo of
        [] \<Rightarrow> Some (Inr found, s)
      | e # todo' \<Rightarrow>
          (case get_pdu e of
             None \<Rightarrow> auth_chain_loop get_pdu room todo' found s
           | Some pdu \<Rightarrow>
               if wrong_room room pdu then Some (Inl (WrongRoom e), s)
               else let (found', todo2, s') = visit_auth_events (auth_events pdu) found todo' s
                    in auth_chain_loop get_pdu room todo2 found' s'))"

declare auth_chain_loop.simps [code]

definition get_auth_chain_inner ::
    "(EventId \<Rightarrow> Pdu option) \<Rightarrow> RoomId \<Rightarrow> EventId \<Rightarrow> short_data
     \<Rightarrow> ((ChainError + u64 list) \<times> short_data) option" where
  "get_auth_chain_inner get_pdu room e s = auth_chain_loop get_pdu room [e] [] s"

definition sort_dedup :: "u64 list \<Rightarrow> u64 list" where
  "sort_dedup xs = remdups_adj (sort xs)"

text \<open>One event of a bucket: from the cache, or searched and cached.\<close>

definition chain_of_event ::
    "'c chain_lru \<Rightarrow> (EventId \<Rightarrow> Pdu option) \<Rightarrow> RoomId \<Rightarrow> u64 \<times> EventId \<Rightarrow> 'c chain_data
     \<Rightarrow> ((ChainError + u64 list) \<times> 'c chain_data) option" where
  "chain_of_event L get_pdu room x s =
     (let (cached, s1) = get_cached_eventid_authchain L [fst x] s
      in case cached of
           Some chain \<Rightarrow> Some (Inr chain, s1)
         | None \<Rightarrow>
             Option.bind (get_auth_chain_inner get_pdu room (snd x) (chain_short s1)) (\<lambda>(r, short).
             let s2 = s1\<lparr>chain_short := short\<rparr>
             in case r of
                  Inl e \<Rightarrow> Some (Inl e, s2)
                | Inr chain \<Rightarrow> Some (Inr chain, cache_auth_chain L [fst x] chain s2)))"

text \<open>A stream of fallible steps: the first error ends it, otherwise the results are appended.\<close>

fun try_flatten ::
    "('x \<Rightarrow> 's \<Rightarrow> (('e + 'a list) \<times> 's) option) \<Rightarrow> 'x list \<Rightarrow> 's \<Rightarrow> (('e + 'a list) \<times> 's) option" where
  "try_flatten f [] s = Some (Inr [], s)"
| "try_flatten f (x # xs) s =
     Option.bind (f x s) (\<lambda>(r, s1).
     case r of
       Inl e \<Rightarrow> Some (Inl e, s1)
     | Inr as \<Rightarrow>
         Option.bind (try_flatten f xs s1) (\<lambda>(r, s2).
         case r of Inl e \<Rightarrow> Some (Inl e, s2) | Inr bs \<Rightarrow> Some (Inr (as @ bs), s2)))"

definition get_auth_chain_outer ::
    "'c chain_lru \<Rightarrow> (EventId \<Rightarrow> Pdu option) \<Rightarrow> RoomId \<Rightarrow> (u64 \<times> EventId) list \<Rightarrow> 'c chain_data
     \<Rightarrow> ((ChainError + u64 list) \<times> 'c chain_data) option" where
  "get_auth_chain_outer L get_pdu room chunk s =
     (let chunk_key = map fst chunk
      in if chunk_key = [] then Some (Inr [], s)
         else
           let (cached, s1) = get_cached_eventid_authchain L chunk_key s
           in case cached of
                Some chain \<Rightarrow> Some (Inr chain, s1)
              | None \<Rightarrow>
                  Option.bind (try_flatten (chain_of_event L get_pdu room) chunk s1) (\<lambda>(r, s2).
                  case r of
                    Inl e \<Rightarrow> Some (Inl e, s2)
                  | Inr ids \<Rightarrow>
                      let chunk_cache = sort_dedup ids
                      in Some (Inr chunk_cache, cache_auth_chain L chunk_key chunk_cache s2)))"

definition NUM_BUCKETS :: nat where "NUM_BUCKETS = 50"

definition fill_buckets :: "(u64 \<times> EventId) list \<Rightarrow> (u64 \<times> EventId) list list" where
  "fill_buckets starting =
     fold (\<lambda>x buckets. let b = unat (fst x) mod NUM_BUCKETS in buckets[b := insort_insert x (buckets ! b)])
       starting (replicate NUM_BUCKETS [])"

definition get_auth_chain ::
    "'c chain_lru \<Rightarrow> (EventId \<Rightarrow> Pdu option) \<Rightarrow> RoomId \<Rightarrow> EventId list \<Rightarrow> 'c chain_data
     \<Rightarrow> ((ChainError + u64 list) \<times> 'c chain_data) option" where
  "get_auth_chain L get_pdu room starting_events s =
     (let (shorts, short) = multi_get_or_create_shorteventid starting_events (chain_short s);
          buckets = fill_buckets (zip shorts starting_events)
      in map_option (\<lambda>(r, s'). (map_sum (\<lambda>e. e) sort_dedup r, s'))
           (try_flatten (get_auth_chain_outer L get_pdu room) buckets (s\<lparr>chain_short := short\<rparr>)))"

definition event_ids_iter ::
    "'c chain_lru \<Rightarrow> (EventId \<Rightarrow> Pdu option) \<Rightarrow> RoomId \<Rightarrow> EventId list \<Rightarrow> 'c chain_data
     \<Rightarrow> ((ChainError + EventId list) \<times> 'c chain_data) option" where
  "event_ids_iter L get_pdu room starting_events s =
     map_option (\<lambda>(r, s').
       (map_sum (\<lambda>e. e) (\<lambda>chain. List.map_filter (\<lambda>x. x) (multi_get_eventid_from_short (chain_short s') chain)) r, s'))
       (get_auth_chain L get_pdu room starting_events s)"

definition clear_cache :: "'c \<Rightarrow> 'c chain_data \<Rightarrow> 'c chain_data" where
  "clear_cache cleared s = s\<lparr>auth_chain_cache := cleared\<rparr>"

section \<open>Ancestors and their short ids\<close>

definition auth_rel :: "(EventId \<Rightarrow> Pdu option) \<Rightarrow> (EventId \<times> EventId) set" where
  "auth_rel get_pdu = {(e, a). \<exists>pdu. get_pdu e = Some pdu \<and> a \<in> set (auth_events pdu)}"

definition ancestors :: "(EventId \<Rightarrow> Pdu option) \<Rightarrow> EventId set \<Rightarrow> EventId set" where
  "ancestors get_pdu E = (auth_rel get_pdu)\<^sup>+ `` E"

text \<open>An event that makes the search fail: it claims to be in another room.\<close>

definition misplaced :: "(EventId \<Rightarrow> Pdu option) \<Rightarrow> RoomId \<Rightarrow> EventId \<Rightarrow> bool" where
  "misplaced get_pdu room e \<longleftrightarrow> (\<exists>pdu. get_pdu e = Some pdu \<and> wrong_room room pdu)"

definition shorts_of :: "short_data \<Rightarrow> EventId set \<Rightarrow> u64 list \<Rightarrow> bool" where
  "shorts_of s A v \<longleftrightarrow>
     (\<forall>a \<in> A. get_shorteventid s a \<noteq> None) \<and> set v = {i. \<exists>a \<in> A. get_shorteventid s a = Some i}"

definition grows :: "short_data \<Rightarrow> short_data \<Rightarrow> bool" where
  "grows s s' \<longleftrightarrow> short_inv s' \<and> (\<forall>e i. get_shorteventid s e = Some i \<longrightarrow> get_shorteventid s' e = Some i)"

definition enough_ids :: "short_data \<Rightarrow> EventId set \<Rightarrow> bool" where
  "enough_ids s U \<longleftrightarrow> finite U \<and> card {a \<in> U. get_shorteventid s a = None} \<le> ids_left s"

lemma grows_refl: "short_inv s \<Longrightarrow> grows s s"
  by (simp add: grows_def)

lemma grows_trans: "grows s s' \<Longrightarrow> grows s' s'' \<Longrightarrow> grows s s''"
  by (auto simp: grows_def)

lemma shorts_of_grows: "shorts_of s A v \<Longrightarrow> grows s s' \<Longrightarrow> shorts_of s' A v"
  unfolding shorts_of_def grows_def by (simp add: set_eq_iff) (metis option.exhaust option.inject)

lemma shorts_of_Un: "shorts_of s A v \<Longrightarrow> shorts_of s B w \<Longrightarrow> shorts_of s (A \<union> B) (v @ w)"
  by (auto simp: shorts_of_def)

lemma shorts_of_set: "set w = set v \<Longrightarrow> shorts_of s A v \<Longrightarrow> shorts_of s A w"
  by (simp add: shorts_of_def)

text \<open>Numbering one event of a set for which there are enough ids.\<close>

lemma number_event:
  assumes "short_inv s" "enough_ids s U" "a \<in> U" "get_or_create_shorteventid a s = (i, s')"
  shows "grows s s'" "enough_ids s' U" "get_shorteventid s' a = Some i"
proof -
  have "grows s s' \<and> enough_ids s' U \<and> get_shorteventid s' a = Some i"
  proof (cases "get_shorteventid s a")
    case (Some j)
    with events.found [OF Some] assms show ?thesis by (simp add: grows_refl)
  next
    case None
    let ?N = "\<lambda>s. {x \<in> U. get_shorteventid s x = None}"
    have fin: "finite U" using assms(2) by (simp add: enough_ids_def)
    have N: "a \<in> ?N s" "finite (?N s)" using None assms(3) fin by simp_all
    then have "0 < card (?N s)" using card_gt_0_iff by blast
    then have "0 < ids_left s" using assms(2) by (simp add: enough_ids_def)
    from get_or_create_shorteventid_new [OF assms(1) this None assms(4)]
    have new: "short_inv s'" "get_shorteventid s' = (get_shorteventid s)(a \<mapsto> i)" "ids_left s = Suc (ids_left s')"
      by auto
    then have "?N s' = ?N s - {a}" by auto
    then have "card (?N s) = Suc (card (?N s'))" using card.remove [OF N(2,1)] by simp
    moreover have "card (?N s) \<le> ids_left s" using assms(2) by (simp add: enough_ids_def)
    ultimately have "card (?N s') \<le> ids_left s'" unfolding new(3) by simp
    then have "enough_ids s' U" by (simp add: enough_ids_def fin)
    moreover have "grows s s'" using new(1) None unfolding grows_def new(2) by auto
    ultimately show ?thesis by (simp add: new(2))
  qed
  then show "grows s s'" "enough_ids s' U" "get_shorteventid s' a = Some i" by auto
qed

lemma short_in_found:
  assumes "shorts_of s F found" "short_inv s" "get_shorteventid s a = Some i"
  shows "i \<in> set found \<longleftrightarrow> a \<in> F"
  using assms events.inj [OF assms(2)] unfolding shorts_of_def by blast

lemma visit_auth_events_spec:
  assumes "short_inv s" "enough_ids s U" "set as \<subseteq> U" "F \<subseteq> U" "shorts_of s F found"
    "visit_auth_events as found todo s = (found', todo', s')"
  shows "grows s s' \<and> enough_ids s' U \<and> shorts_of s' (F \<union> set as) found'
    \<and> set todo' = set todo \<union> (set as - F)
    \<and> length todo' + card (U - (F \<union> set as)) \<le> length todo + card (U - F)"
  using assms
proof (induction as arbitrary: F found todo s)
  case Nil
  then show ?case by (auto simp: grows_refl)
next
  case (Cons a as)
  obtain i s1 where step: "get_or_create_shorteventid a s = (i, s1)" by fastforce
  have fin: "finite U" using Cons.prems(2) by (simp add: enough_ids_def)
  have "a \<in> U" using Cons.prems(3) by simp
  note num = number_event [OF Cons.prems(1,2) this step]
  have s1: "short_inv s1" using num(1) by (simp add: grows_def)
  have f1: "shorts_of s1 F found" using shorts_of_grows [OF Cons.prems(5) num(1)] .
  note mem = short_in_found [OF f1 s1 num(3)]
  show ?case
  proof (cases "a \<in> F")
    case True
    with mem have "visit_auth_events as found todo s1 = (found', todo', s')"
      using Cons.prems(6) step by simp
    from Cons.IH [OF s1 num(2) _ Cons.prems(4) f1 this] Cons.prems(3) True grows_trans [OF num(1)]
    show ?thesis by (auto simp: insert_absorb)
  next
    case False
    with mem have rest: "visit_auth_events as (hs_insert i found) (todo @ [a]) s1 = (found', todo', s')"
      using Cons.prems(6) step by simp
    have f2: "shorts_of s1 (insert a F) (hs_insert i found)"
      using f1 num(3) by (auto simp: shorts_of_def)
    have sub: "insert a F \<subseteq> U" "set as \<subseteq> U" using Cons.prems(3,4) by auto
    have "card (U - F) = Suc (card (U - insert a F))"
      using card.remove [of "U - F" a] False \<open>a \<in> U\<close> fin by (simp add: Diff_insert [symmetric])
    with Cons.IH [OF s1 num(2) sub(2,1) f2 rest] grows_trans [OF num(1)] False show ?thesis by auto
  qed
qed

section \<open>The search finds the ancestors\<close>

lemma ancestors_closed:
  assumes "\<And>x pdu. x \<in> insert e F \<Longrightarrow> get_pdu x = Some pdu \<Longrightarrow> set (auth_events pdu) \<subseteq> F"
  shows "ancestors get_pdu {e} \<subseteq> F"
proof
  fix a assume "a \<in> ancestors get_pdu {e}"
  then have "(e, a) \<in> (auth_rel get_pdu)\<^sup>+" by (simp add: ancestors_def)
  then show "a \<in> F"
    by (induction rule: trancl_induct) (use assms in \<open>auto simp: auth_rel_def\<close>)
qed

lemma ancestors_step:
  assumes "x \<in> insert e (ancestors get_pdu {e})" "get_pdu x = Some pdu"
  shows "set (auth_events pdu) \<subseteq> ancestors get_pdu {e}"
proof
  fix a assume "a \<in> set (auth_events pdu)"
  then have "(x, a) \<in> auth_rel get_pdu" using assms(2) by (auto simp: auth_rel_def)
  then show "a \<in> ancestors get_pdu {e}"
    using assms(1) by (auto simp: ancestors_def intro: trancl_into_trancl)
qed

text \<open>What the search has established when \<open>todo\<close> is left: every visited event not in \<open>todo\<close> is processed.\<close>

definition search_inv :: "(EventId \<Rightarrow> Pdu option) \<Rightarrow> RoomId \<Rightarrow> EventId \<Rightarrow> EventId set \<Rightarrow> EventId list \<Rightarrow> bool" where
  "search_inv get_pdu room e F todo \<longleftrightarrow>
     F \<subseteq> ancestors get_pdu {e} \<and> set todo \<subseteq> insert e F
     \<and> (\<forall>x \<in> insert e F - set todo. \<forall>pdu. get_pdu x = Some pdu \<longrightarrow>
          \<not> wrong_room room pdu \<and> set (auth_events pdu) \<subseteq> F)"

lemma search_inv_pop:
  assumes "search_inv get_pdu room e F (x # todo)" "F \<subseteq> F'" "F' \<subseteq> ancestors get_pdu {e}"
    "set todo' = set todo \<union> (F' - F)"
    "\<And>pdu. get_pdu x = Some pdu \<Longrightarrow> \<not> wrong_room room pdu \<and> set (auth_events pdu) \<subseteq> F'"
  shows "search_inv get_pdu room e F' todo'"
  unfolding search_inv_def
proof (intro conjI ballI allI impI)
  show "F' \<subseteq> ancestors get_pdu {e}" by (rule assms(3))
  show "set todo' \<subseteq> insert e F'" using assms(1,2,4) unfolding search_inv_def by auto
  fix y pdu assume y: "y \<in> insert e F' - set todo'" "get_pdu y = Some pdu"
  have "\<not> wrong_room room pdu \<and> set (auth_events pdu) \<subseteq> F'"
  proof (cases "y = x")
    case False
    then have "y \<in> insert e F - set (x # todo)" using y(1) assms(4) by auto
    moreover have "\<forall>x \<in> insert e F - set (x # todo). \<forall>pdu. get_pdu x = Some pdu \<longrightarrow>
        \<not> wrong_room room pdu \<and> set (auth_events pdu) \<subseteq> F"
      using assms(1) unfolding search_inv_def by (elim conjE)
    ultimately have "\<not> wrong_room room pdu \<and> set (auth_events pdu) \<subseteq> F" using y(2) by (meson bspec)
    then show ?thesis using assms(2) by (meson subset_trans)
  qed (use assms(5) y(2) in simp)
  then show "\<not> wrong_room room pdu" "set (auth_events pdu) \<subseteq> F'" by auto
qed

definition search_result ::
    "(EventId \<Rightarrow> Pdu option) \<Rightarrow> RoomId \<Rightarrow> EventId \<Rightarrow> EventId set \<Rightarrow> short_data \<Rightarrow> ChainError + u64 list \<Rightarrow> short_data \<Rightarrow> bool" where
  "search_result get_pdu room e U s r s' \<longleftrightarrow>
     grows s s' \<and> enough_ids s' U
     \<and> (case r of
          Inr v \<Rightarrow> shorts_of s' (ancestors get_pdu {e}) v
            \<and> (\<forall>x \<in> insert e (ancestors get_pdu {e}). \<not> misplaced get_pdu room x)
        | Inl (WrongRoom b) \<Rightarrow> b \<in> insert e (ancestors get_pdu {e}) \<and> misplaced get_pdu room b)"

lemma search_result_grows:
  "grows s s1 \<Longrightarrow> search_result get_pdu room e U s1 r s' \<Longrightarrow> search_result get_pdu room e U s r s'"
  by (auto simp: search_result_def intro: grows_trans)

lemma auth_chain_loop_result:
  assumes "short_inv s" "enough_ids s U" "ancestors get_pdu {e} \<subseteq> U" "shorts_of s F found"
    "search_inv get_pdu room e F todo"
  shows "\<exists>r s'. auth_chain_loop get_pdu room todo found s = Some (r, s')
    \<and> search_result get_pdu room e U s r s'"
  using assms
proof (induction "length todo + card (U - F)" arbitrary: todo F found s rule: less_induct)
  case less
  show ?case
  proof (cases todo)
    case Nil
    then have closed: "x \<in> insert e F \<Longrightarrow> get_pdu x = Some pdu \<Longrightarrow>
        \<not> wrong_room room pdu \<and> set (auth_events pdu) \<subseteq> F" for x pdu
      using less.prems(5) unfolding search_inv_def by simp blast
    then have "ancestors get_pdu {e} \<subseteq> F" by (intro ancestors_closed) blast
    then have F: "F = ancestors get_pdu {e}" using less.prems(5) by (auto simp: search_inv_def)
    have "auth_chain_loop get_pdu room todo found s = Some (Inr found, s)"
      by (subst auth_chain_loop.simps) (simp add: Nil)
    moreover have "search_result get_pdu room e U s (Inr found) s"
      using less.prems(1,2,4) closed F by (auto simp: search_result_def grows_refl misplaced_def)
    ultimately show ?thesis by blast
  next
    case (Cons x todo')
    have x: "x \<in> insert e F" using less.prems(5) Cons by (simp add: search_inv_def)
    then have xU: "x \<in> insert e (ancestors get_pdu {e})" using less.prems(5) by (auto simp: search_inv_def)
    have F: "F \<subseteq> U" using less.prems(3,5) by (auto simp: search_inv_def)
    show ?thesis
    proof (cases "get_pdu x")
      case None
      have "search_inv get_pdu room e F todo'"
        using less.prems(5) unfolding Cons
        by (rule search_inv_pop) (use less.prems(5) None in \<open>auto simp: search_inv_def\<close>)
      from less.hyps [OF _ less.prems(1-4) this] Cons None show ?thesis
        by (subst auth_chain_loop.simps) simp
    next
      case (Some pdu)
      show ?thesis
      proof (cases "wrong_room room pdu")
        case True
        then have "search_result get_pdu room e U s (Inl (WrongRoom x)) s"
          using less.prems(1,2) Some xU by (auto simp: search_result_def grows_refl misplaced_def)
        with Cons Some True show ?thesis by (subst auth_chain_loop.simps) simp
      next
        case False
        obtain found' todo2 s1 where visit:
          "visit_auth_events (auth_events pdu) found todo' s = (found', todo2, s1)"
          by (metis prod.exhaust)
        have as: "set (auth_events pdu) \<subseteq> ancestors get_pdu {e}" using ancestors_step [OF xU Some] .
        with less.prems(3) have asU: "set (auth_events pdu) \<subseteq> U" by blast
        note v = visit_auth_events_spec [OF less.prems(1,2) asU F less.prems(4) visit]
        have s1: "short_inv s1" using v by (simp add: grows_def)
        have inv: "search_inv get_pdu room e (F \<union> set (auth_events pdu)) todo2"
          using less.prems(5) unfolding Cons
          by (rule search_inv_pop) (use less.prems(5) v as Some False in \<open>auto simp: search_inv_def\<close>)
        have "length todo2 + card (U - (F \<union> set (auth_events pdu))) < length todo + card (U - F)"
          using v Cons by simp
        from less.hyps [OF this s1 _ less.prems(3) _ inv] v obtain r s' where
          "auth_chain_loop get_pdu room todo2 found' s1 = Some (r, s')"
          "search_result get_pdu room e U s1 r s'" by blast
        with Cons Some False visit v search_result_grows show ?thesis
          by (subst auth_chain_loop.simps) fastforce
      qed
    qed
  qed
qed

lemma inner_result:
  assumes "short_inv s" "enough_ids s U" "ancestors get_pdu {e} \<subseteq> U"
  shows "\<exists>r s'. get_auth_chain_inner get_pdu room e s = Some (r, s')
    \<and> search_result get_pdu room e U s r s'"
  unfolding get_auth_chain_inner_def
  using assms by (rule auth_chain_loop_result [where F = "{}"]) (auto simp: shorts_of_def search_inv_def)

section \<open>The caches stay coherent\<close>

definition chain_ok :: "(EventId \<Rightarrow> Pdu option) \<Rightarrow> short_data \<Rightarrow> u64 list \<Rightarrow> u64 list \<Rightarrow> bool" where
  "chain_ok get_pdu sd key chain \<longleftrightarrow>
     (\<exists>es. map (get_shorteventid sd) es = map Some key \<and> shorts_of sd (ancestors get_pdu (set es)) chain)"

definition chain_inv :: "'c chain_lru \<Rightarrow> (EventId \<Rightarrow> Pdu option) \<Rightarrow> 'c chain_data \<Rightarrow> bool" where
  "chain_inv L get_pdu s \<longleftrightarrow>
     short_inv (chain_short s) \<and> lru_all L (chain_ok get_pdu (chain_short s)) (auth_chain_cache s)
     \<and> (\<forall>k bytes. map_of (shorteventid_authchain s) k = Some bytes \<longrightarrow>
          chain_ok get_pdu (chain_short s) [k] (map from_be_bytes (chunks_exact8 bytes)))"

lemma chain_ok_grows:
  assumes "chain_ok get_pdu sd key chain" "grows sd sd'"
  shows "chain_ok get_pdu sd' key chain"
proof -
  obtain es where es: "map (get_shorteventid sd) es = map Some key"
    "shorts_of sd (ancestors get_pdu (set es)) chain" using assms(1) by (auto simp: chain_ok_def)
  then have "map (get_shorteventid sd') es = map Some key"
    using assms(2) by (auto simp: grows_def list_eq_iff_nth_eq)
  then show ?thesis using shorts_of_grows [OF es(2) assms(2)] by (auto simp: chain_ok_def)
qed

lemma chain_inv_grows:
  assumes "chain_inv L get_pdu s" "grows (chain_short s) sd"
  shows "chain_inv L get_pdu (s\<lparr>chain_short := sd\<rparr>)"
  using assms chain_ok_grows [OF _ assms(2)]
  by (auto simp: chain_inv_def grows_def intro: lru_all_mono)

lemma chunks_concat: "map from_be_bytes (chunks_exact8 (concat (map to_be_bytes chain))) = chain"
proof (induction chain)
  case (Cons w chain)
  have "length (to_be_bytes w) = 8" by (simp add: byte_simps)
  then obtain a b c d e f g h where w: "to_be_bytes w = [a, b, c, d, e, f, g, h]"
    unfolding length_8_conv by blast
  then have "from_be_bytes [a, b, c, d, e, f, g, h] = w" by (metis from_to_be_bytes)
  with Cons w show ?case by simp
qed simp

lemma chain_ok_unique:
  assumes "chain_ok get_pdu sd key chain" "short_inv sd" "map (get_shorteventid sd) es = map Some key"
  shows "shorts_of sd (ancestors get_pdu (set es)) chain"
proof -
  obtain es' where es': "map (get_shorteventid sd) es' = map Some key"
    "shorts_of sd (ancestors get_pdu (set es')) chain" using assms(1) by (auto simp: chain_ok_def)
  have "es' = es"
  proof (rule nth_equalityI)
    show len: "length es' = length es" using es'(1) assms(3) by (metis length_map)
    fix i assume "i < length es'"
    moreover from this have "get_shorteventid sd (es' ! i) = Some (key ! i)" "get_shorteventid sd (es ! i) = Some (key ! i)"
      using es'(1) assms(3) len by (metis length_map nth_map)+
    ultimately show "es' ! i = es ! i" using events.inj [OF assms(2)] by blast
  qed
  with es' show ?thesis by simp
qed

lemma get_cached_inv:
  assumes "lru_laws L" "chain_inv L get_pdu s" "get_cached_eventid_authchain L key s = (r, s')"
  shows "chain_inv L get_pdu s' \<and> chain_short s' = chain_short s
    \<and> (\<forall>chain. r = Some chain \<longrightarrow> chain_ok get_pdu (chain_short s) key chain)"
proof -
  obtain r1 c where get: "lru_get L key (auth_chain_cache s) = (r1, c)" by fastforce
  have all: "lru_all L (chain_ok get_pdu (chain_short s)) (auth_chain_cache s)"
    using assms(2) by (simp add: chain_inv_def)
  note g = lru_all_get [OF assms(1) all get]
  have inv1: "chain_inv L get_pdu (s\<lparr>auth_chain_cache := c\<rparr>)" using assms(2) g(1) by (simp add: chain_inv_def)
  show ?thesis
  proof (cases "r1 = None \<and> length key = 1 \<and> map_of (shorteventid_authchain s) (hd key) \<noteq> None")
    case True
    then obtain k bytes where key: "key = [k]" "map_of (shorteventid_authchain s) k = Some bytes"
      by (cases key) auto
    then have ok: "chain_ok get_pdu (chain_short s) [k] (map from_be_bytes (chunks_exact8 bytes))"
      using assms(2) by (simp add: chain_inv_def)
    with lru_all_insert [OF assms(1) g(1) ok] inv1 key True get assms(3) show ?thesis
      by (auto simp: get_cached_eventid_authchain_def Let_def chain_inv_def)
  next
    case False
    with inv1 g(2) get assms(3) show ?thesis
      by (auto simp: get_cached_eventid_authchain_def Let_def split: option.splits if_splits)
  qed
qed

lemma cache_auth_chain_inv:
  assumes "lru_laws L" "chain_inv L get_pdu s" "chain_ok get_pdu (chain_short s) key chain" "key \<noteq> []"
  shows "chain_inv L get_pdu (cache_auth_chain L key chain s)"
    "chain_short (cache_auth_chain L key chain s) = chain_short s"
proof -
  have all: "lru_all L (chain_ok get_pdu (chain_short s)) (lru_insert L key chain (auth_chain_cache s))"
    using assms(1) _ assms(3) by (rule lru_all_insert) (use assms(2) in \<open>simp add: chain_inv_def\<close>)
  show "chain_short (cache_auth_chain L key chain s) = chain_short s"
    by (simp add: cache_auth_chain_def Let_def)
  have "key = [hd key]" if "length key = 1" using that by (cases key) auto
  with all assms(2,3) show "chain_inv L get_pdu (cache_auth_chain L key chain s)"
    by (auto simp: cache_auth_chain_def Let_def chain_inv_def chunks_concat)
qed

section \<open>Buckets\<close>

lemma set_sort_dedup [simp]: "set (sort_dedup xs) = set xs"
  by (simp add: sort_dedup_def)

lemma distinct_sort_dedup: "distinct (sort_dedup xs)"
proof -
  have "sorted xs \<Longrightarrow> distinct (remdups_adj xs)" for xs :: "u64 list"
  proof (induction xs rule: remdups_adj.induct)
    case (3 x y xs)
    then show ?case by (auto dest!: order.antisym)
  qed auto
  then show ?thesis by (simp add: sort_dedup_def)
qed

lemma bucket_insert_set:
  assumes "b < length bs"
  shows "set (concat (bs[b := insort_insert x (bs ! b)])) = insert x (set (concat bs))"
proof -
  have "set (concat bs) = set (concat (take b bs @ bs ! b # drop (Suc b) bs))"
    using id_take_nth_drop [OF assms] by simp
  then show ?thesis by (auto simp: upd_conv_take_nth_drop [OF assms] set_insort_insert)
qed

lemma set_fill_buckets: "set (concat (fill_buckets xs)) = set xs"
proof -
  let ?step = "\<lambda>(x :: u64 \<times> EventId) bs. let b = unat (fst x) mod NUM_BUCKETS in bs[b := insort_insert x (bs ! b)]"
  have "length bs = NUM_BUCKETS \<Longrightarrow>
      length (fold ?step xs bs) = NUM_BUCKETS \<and> set (concat (fold ?step xs bs)) = set xs \<union> set (concat bs)" for bs
  proof (induction xs arbitrary: bs)
    case (Cons x xs)
    have "unat (fst x) mod NUM_BUCKETS < length bs" using Cons.prems by (simp add: NUM_BUCKETS_def)
    from bucket_insert_set [OF this, of x] Cons.IH [of "?step x bs"] Cons.prems show ?case
      by (simp add: Let_def)
  qed simp
  then show ?thesis by (simp add: fill_buckets_def)
qed

section \<open>The whole chain\<close>

text \<open>What one step of a stream has to establish, and what the whole stream then does.\<close>

definition chain_step ::
    "('c chain_data \<Rightarrow> bool) \<Rightarrow> EventId set \<Rightarrow> 'c chain_data \<Rightarrow> ((ChainError + u64 list) \<times> 'c chain_data) option \<Rightarrow> bool" where
  "chain_step I A s r \<longleftrightarrow>
     (\<exists>v s'. r = Some (Inr v, s') \<and> I s' \<and> grows (chain_short s) (chain_short s')
        \<and> shorts_of (chain_short s') A v)"

lemma try_flatten_chain:
  assumes "\<And>x s. x \<in> set xs \<Longrightarrow> I s \<Longrightarrow> Q x s \<Longrightarrow> chain_step I (A x) s (f x s)"
    and "\<And>x s s'. Q x s \<Longrightarrow> grows (chain_short s) (chain_short s') \<Longrightarrow> Q x s'"
    and "\<And>s. I s \<Longrightarrow> short_inv (chain_short s)"
    and "I s" "\<forall>x \<in> set xs. Q x s"
  shows "chain_step I (\<Union>x \<in> set xs. A x) s (try_flatten f xs s)"
  using assms(1,4,5)
proof (induction xs arbitrary: s)
  case Nil
  with assms(3) show ?case by (auto simp: chain_step_def grows_refl shorts_of_def)
next
  case (Cons x xs)
  from Cons.prems obtain v s1 where one: "f x s = Some (Inr v, s1)" "I s1"
    "grows (chain_short s) (chain_short s1)" "shorts_of (chain_short s1) (A x) v"
    unfolding chain_step_def by (metis list.set_intros(1))
  have "\<forall>y \<in> set xs. Q y s1" using Cons.prems(3) assms(2) one(3) by (meson list.set_intros(2))
  with Cons.IH [of s1] Cons.prems(1) one(2) obtain w s2 where rest: "try_flatten f xs s1 = Some (Inr w, s2)" "I s2"
    "grows (chain_short s1) (chain_short s2)" "shorts_of (chain_short s2) (\<Union>x \<in> set xs. A x) w"
    unfolding chain_step_def by (metis list.set_intros(2))
  show ?case unfolding chain_step_def
    using one(1) rest grows_trans [OF one(3) rest(3)] shorts_of_Un [OF shorts_of_grows [OF one(4) rest(3)] rest(4)]
    by simp
qed

definition ready :: "'c chain_lru \<Rightarrow> (EventId \<Rightarrow> Pdu option) \<Rightarrow> EventId set \<Rightarrow> 'c chain_data \<Rightarrow> bool" where
  "ready L get_pdu U s \<longleftrightarrow> chain_inv L get_pdu s \<and> enough_ids (chain_short s) U"

definition numbered :: "(u64 \<times> EventId) list \<Rightarrow> 'c chain_data \<Rightarrow> bool" where
  "numbered chunk s \<longleftrightarrow> (\<forall>x \<in> set chunk. get_shorteventid (chain_short s) (snd x) = Some (fst x))"

lemma numbered_map: "numbered chunk s \<Longrightarrow> map (get_shorteventid (chain_short s)) (map snd chunk) = map Some (map fst chunk)"
  by (simp add: numbered_def)

lemma chain_of_event_step:
  assumes "lru_laws L" "ready L get_pdu U s" "numbered [x] s" "ancestors get_pdu {snd x} \<subseteq> U"
    "\<forall>y \<in> insert (snd x) (ancestors get_pdu {snd x}). \<not> misplaced get_pdu room y"
  shows "chain_step (ready L get_pdu U) (ancestors get_pdu {snd x}) s (chain_of_event L get_pdu room x s)"
proof -
  obtain r s1 where get: "get_cached_eventid_authchain L [fst x] s = (r, s1)" by fastforce
  have inv: "chain_inv L get_pdu s" "enough_ids (chain_short s) U" "short_inv (chain_short s)"
    using assms(2) by (auto simp: ready_def chain_inv_def)
  note c = get_cached_inv [OF assms(1) inv(1) get]
  note key = numbered_map [OF assms(3)]
  show ?thesis
  proof (cases r)
    case (Some chain)
    then have "shorts_of (chain_short s) (ancestors get_pdu {snd x}) chain"
      using c chain_ok_unique [OF _ inv(3) key] by simp
    with Some c get inv(2,3) show ?thesis
      by (auto simp: chain_step_def chain_of_event_def ready_def grows_refl)
  next
    case None
    obtain r2 sd where inner: "get_auth_chain_inner get_pdu room (snd x) (chain_short s) = Some (r2, sd)"
      "search_result get_pdu room (snd x) U (chain_short s) r2 sd"
      using inner_result [OF inv(3,2) assms(4)] by blast
    with assms(5) obtain chain where chain: "r2 = Inr chain" "grows (chain_short s) sd" "enough_ids sd U"
      "shorts_of sd (ancestors get_pdu {snd x}) chain"
      by (cases r2) (auto simp: search_result_def split: ChainError.splits)
    let ?s2 = "s1\<lparr>chain_short := sd\<rparr>"
    have inv2: "chain_inv L get_pdu ?s2" using chain_inv_grows [of L get_pdu s1 sd] c chain(2) by simp
    have "chain_ok get_pdu sd [fst x] chain"
      unfolding chain_ok_def using assms(3) chain(2,4)
      by (intro exI [of _ "[snd x]"]) (simp add: numbered_def grows_def)
    with cache_auth_chain_inv [OF assms(1) inv2, of "[fst x]" chain] chain
    show ?thesis
      by (simp add: chain_step_def chain_of_event_def get None c inner(1) ready_def)
  qed
qed

lemma ancestors_UN: "ancestors get_pdu (\<Union>x \<in> A. B x) = (\<Union>x \<in> A. ancestors get_pdu (B x))"
  by (simp add: ancestors_def Image_UN)

lemma ancestors_snd: "ancestors get_pdu (snd ` set chunk) = (\<Union>x \<in> set chunk. ancestors get_pdu {snd x})"
  by (auto simp: ancestors_def)

lemma numbered_grows: "numbered chunk s \<Longrightarrow> grows (chain_short s) (chain_short s') \<Longrightarrow> numbered chunk s'"
  by (auto simp: numbered_def grows_def)

lemma ready_short_inv: "ready L get_pdu U s \<Longrightarrow> short_inv (chain_short s)"
  by (simp add: ready_def chain_inv_def)

lemma outer_step:
  assumes "lru_laws L" "ready L get_pdu U s" "numbered chunk s" "ancestors get_pdu (snd ` set chunk) \<subseteq> U"
    "\<forall>y \<in> snd ` set chunk \<union> ancestors get_pdu (snd ` set chunk). \<not> misplaced get_pdu room y"
  shows "chain_step (ready L get_pdu U) (ancestors get_pdu (snd ` set chunk)) s (get_auth_chain_outer L get_pdu room chunk s)"
proof (cases "chunk = []")
  case True
  with assms(2) ready_short_inv [OF assms(2)] show ?thesis
    by (simp add: chain_step_def get_auth_chain_outer_def grows_refl shorts_of_def ancestors_def)
next
  case False
  obtain r s1 where get: "get_cached_eventid_authchain L (map fst chunk) s = (r, s1)" by fastforce
  have inv: "chain_inv L get_pdu s" "enough_ids (chain_short s) U" "short_inv (chain_short s)"
    using assms(2) by (auto simp: ready_def chain_inv_def)
  note c = get_cached_inv [OF assms(1) inv(1) get]
  have ready1: "ready L get_pdu U s1" using c inv(2) by (simp add: ready_def)
  note key = numbered_map [OF assms(3)]
  show ?thesis
  proof (cases r)
    case (Some chain)
    then have "shorts_of (chain_short s) (ancestors get_pdu (snd ` set chunk)) chain"
      using c chain_ok_unique [OF _ inv(3) key] by simp
    with Some c get inv(3) ready1 False show ?thesis
      by (simp add: chain_step_def get_auth_chain_outer_def grows_refl)
  next
    case None
    have "chain_step (ready L get_pdu U) (\<Union>x \<in> set chunk. ancestors get_pdu {snd x}) s1
        (try_flatten (chain_of_event L get_pdu room) chunk s1)"
    proof (rule try_flatten_chain [where Q = "\<lambda>x. numbered [x]"])
      fix x s assume "x \<in> set chunk" "ready L get_pdu U s" "numbered [x] s"
      then show "chain_step (ready L get_pdu U) (ancestors get_pdu {snd x}) s (chain_of_event L get_pdu room x s)"
        using assms(4,5) unfolding ancestors_snd by (intro chain_of_event_step [OF assms(1)]) auto
    qed (use ready1 c assms(3) in \<open>auto simp: numbered_def ready_short_inv grows_def\<close>)
    then obtain v s2 where run: "try_flatten (chain_of_event L get_pdu room) chunk s1 = Some (Inr v, s2)"
      "ready L get_pdu U s2" "grows (chain_short s) (chain_short s2)"
      "shorts_of (chain_short s2) (ancestors get_pdu (snd ` set chunk)) v"
      using c by (auto simp: chain_step_def ancestors_snd)
    let ?v = "sort_dedup v"
    have sv: "shorts_of (chain_short s2) (ancestors get_pdu (snd ` set chunk)) ?v"
      using run(4) by (rule shorts_of_set [rotated]) simp
    have "chain_ok get_pdu (chain_short s2) (map fst chunk) ?v"
      unfolding chain_ok_def using numbered_map [OF numbered_grows [OF assms(3) run(3)]] sv
      by (intro exI [of _ "map snd chunk"]) simp
    with cache_auth_chain_inv [OF assms(1), of get_pdu s2 "map fst chunk" ?v] run(2,3) False sv
    show ?thesis
      by (simp add: chain_step_def get_auth_chain_outer_def get None run(1) ready_def Let_def)
  qed
qed

definition chain_result :: "'c chain_lru \<Rightarrow> (EventId \<Rightarrow> Pdu option) \<Rightarrow> EventId set \<Rightarrow> u64 list \<Rightarrow> 'c chain_data \<Rightarrow> bool" where
  "chain_result L get_pdu E v s' \<longleftrightarrow>
     chain_inv L get_pdu s' \<and> shorts_of (chain_short s') (ancestors get_pdu E) v \<and> distinct v"

lemma get_auth_chain_result:
  assumes "lru_laws L" "chain_inv L get_pdu s" "distinct starting" "finite (ancestors get_pdu (set starting))"
    "length starting + card (ancestors get_pdu (set starting)) \<le> ids_left (chain_short s)"
    "\<forall>e \<in> set starting \<union> ancestors get_pdu (set starting). \<not> misplaced get_pdu room e"
  shows "\<exists>v s'. get_auth_chain L get_pdu room starting s = Some (Inr v, s')
    \<and> chain_result L get_pdu (set starting) v s'"
proof -
  let ?U = "ancestors get_pdu (set starting)"
  obtain shorts sd where batch: "multi_get_or_create_shorteventid starting (chain_short s) = (shorts, sd)"
    by fastforce
  have inv: "short_inv (chain_short s)" "length starting \<le> ids_left (chain_short s)"
    using assms(2,5) by (auto simp: chain_inv_def)
  note num = batch_numbered [OF inv assms(3) batch]
  let ?s = "s\<lparr>chain_short := sd\<rparr>" and ?bs = "fill_buckets (zip shorts starting)"
  have len: "length shorts = length starting" using num by (metis length_map)
  have "grows (chain_short s) sd" using num by (simp add: grows_def)
  then have "chain_inv L get_pdu ?s" using chain_inv_grows [OF assms(2)] by simp
  moreover have "card {a \<in> ?U. get_shorteventid sd a = None} \<le> card ?U"
    using assms(4) by (intro card_mono) auto
  then have "enough_ids sd ?U"
    using batch_space [OF inv assms(3) batch] assms(4,5) by (simp add: enough_ids_def)
  ultimately have ready: "ready L get_pdu ?U ?s" by (simp add: ready_def)
  have "numbered (zip shorts starting) ?s"
    using num len unfolding numbered_def by (auto simp: in_set_zip) (metis nth_map)
  moreover have "set b \<subseteq> set (zip shorts starting)" if "b \<in> set ?bs" for b
    using that set_fill_buckets [of "zip shorts starting"] by auto
  ultimately have nb: "\<forall>b \<in> set ?bs. numbered b ?s" by (auto simp: numbered_def)
  have all: "(\<Union>b \<in> set ?bs. snd ` set b) = set starting"
  proof -
    have "(\<Union>b \<in> set ?bs. snd ` set b) = snd ` set (concat ?bs)" by auto
    also have "\<dots> = set (map snd (zip shorts starting))" by (simp only: set_fill_buckets set_map)
    finally show ?thesis using len by simp
  qed
  have "chain_step (ready L get_pdu ?U) (\<Union>b \<in> set ?bs. ancestors get_pdu (snd ` set b)) ?s
      (try_flatten (get_auth_chain_outer L get_pdu room) ?bs ?s)"
  proof (rule try_flatten_chain [where Q = numbered])
    fix b s assume b: "b \<in> set ?bs" "ready L get_pdu ?U s" "numbered b s"
    then have "snd ` set b \<subseteq> set starting" "ancestors get_pdu (snd ` set b) \<subseteq> ?U"
      using all unfolding ancestors_def by (blast, blast)
    then show "chain_step (ready L get_pdu ?U) (ancestors get_pdu (snd ` set b)) s (get_auth_chain_outer L get_pdu room b s)"
      using assms(6) by (intro outer_step [OF assms(1) b(2,3)]) auto
  qed (use ready nb in \<open>auto simp: ready_short_inv intro: numbered_grows\<close>)
  then obtain v s' where run: "try_flatten (get_auth_chain_outer L get_pdu room) ?bs ?s = Some (Inr v, s')"
    "chain_inv L get_pdu s'" "shorts_of (chain_short s') ?U v"
    unfolding chain_step_def ready_def ancestors_UN [symmetric] all by blast
  have "shorts_of (chain_short s') ?U (sort_dedup v)" using run(3) by (rule shorts_of_set [rotated]) simp
  with run batch show ?thesis
    by (simp add: get_auth_chain_def chain_result_def distinct_sort_dedup)
qed

text \<open>
  The search from one event returns: when no event among it and its auth ancestors claims another
  room it returns the short ids of exactly the ancestors, and otherwise it fails on one that does.
\<close>

lemma auth_chain_search_exact:
  assumes "short_inv s" "finite (ancestors get_pdu {e})" "card (ancestors get_pdu {e}) \<le> ids_left s"
  shows "\<exists>r s'. get_auth_chain_inner get_pdu room e s = Some (r, s')
    \<and> short_inv s'
    \<and> (if \<exists>b \<in> insert e (ancestors get_pdu {e}). misplaced get_pdu room b
       then \<exists>b \<in> insert e (ancestors get_pdu {e}). misplaced get_pdu room b \<and> r = Inl (WrongRoom b)
       else \<exists>v. r = Inr v \<and> shorts_of s' (ancestors get_pdu {e}) v)"
proof -
  let ?U = "ancestors get_pdu {e}"
  have "card {a \<in> ?U. get_shorteventid s a = None} \<le> card ?U" using assms(2) by (intro card_mono) auto
  then have "enough_ids s ?U" using assms(2,3) by (simp add: enough_ids_def)
  from inner_result [OF assms(1) this subset_refl] obtain r s' where
    run: "get_auth_chain_inner get_pdu room e s = Some (r, s')" "search_result get_pdu room e ?U s r s'" by blast
  show ?thesis
  proof (cases r)
    case (Inl err)
    obtain b where "err = WrongRoom b" by (cases err)
    with run Inl show ?thesis by (auto simp: search_result_def grows_def)
  next
    case (Inr v)
    with run show ?thesis by (auto simp: search_result_def grows_def)
  qed
qed

lemma mem_read_back:
  "e \<in> set (List.map_filter (\<lambda>x. x) (multi_get_eventid_from_short s v)) \<longleftrightarrow>
     (\<exists>i \<in> set v. get_eventid_from_short s i = Some e)"
  by (force simp: multi_get_eventid_from_short_def map_filter_def)

lemma shorts_of_events:
  assumes "short_inv s" "shorts_of s A v"
  shows "set (List.map_filter (\<lambda>x. x) (multi_get_eventid_from_short s v)) = A"
proof -
  have "e \<in> A \<longleftrightarrow> (\<exists>i \<in> set v. get_shorteventid s e = Some i)" for e
    using assms(2) events.inj [OF assms(1)] unfolding shorts_of_def by blast
  then show ?thesis by (auto simp: mem_read_back eventid_from_short_inv [OF assms(1)])
qed

lemma distinct_events:
  assumes "short_inv s" "distinct v"
  shows "distinct (List.map_filter (\<lambda>x. x) (multi_get_eventid_from_short s v))"
  using assms(2)
proof (induction v)
  case (Cons i v)
  have "e \<notin> set (List.map_filter (\<lambda>x. x) (multi_get_eventid_from_short s v))"
    if "get_eventid_from_short s i = Some e" for e
    using that Cons.prems by (auto simp: mem_read_back eventid_from_short_inv [OF assms(1)])
  with Cons show ?case by (auto simp: multi_get_eventid_from_short_def map_filter_simps split: option.splits)
qed (simp add: multi_get_eventid_from_short_def map_filter_simps)

text \<open>
  C5: \<open>event_ids_iter\<close> yields every auth ancestor of the starting events once and nothing else, whatever the
  memory cache and the database column already hold, as long as they are coherent; they are again
  coherent afterwards.  The starting events are different, their ancestors are finitely many and all in
  the room, and the short ids are not used up.
\<close>

theorem auth_chain_correct:
  assumes "lru_laws L" "chain_inv L get_pdu s" "distinct starting" "finite (ancestors get_pdu (set starting))"
    "length starting + card (ancestors get_pdu (set starting)) \<le> ids_left (chain_short s)"
    "\<forall>e \<in> set starting \<union> ancestors get_pdu (set starting). \<not> misplaced get_pdu room e"
  shows "\<exists>ids s'. event_ids_iter L get_pdu room starting s = Some (Inr ids, s')
    \<and> chain_inv L get_pdu s' \<and> set ids = ancestors get_pdu (set starting) \<and> distinct ids"
proof -
  obtain v s' where "get_auth_chain L get_pdu room starting s = Some (Inr v, s')"
    "chain_result L get_pdu (set starting) v s'"
    using get_auth_chain_result [OF assms] by blast
  then show ?thesis
    using shorts_of_events [of "chain_short s'"] distinct_events [of "chain_short s'" v]
    by (simp add: event_ids_iter_def chain_result_def chain_inv_def)
qed

section \<open>Examples\<close>

text \<open>A message that is authorised by the create event of its room.\<close>

definition chain_pdu :: "EventId \<Rightarrow> EventId list \<Rightarrow> Pdu" where
  "chain_pdu e as = \<lparr> event_id = e, room_id = Some ''!r'', sender = ''@a'', origin = None, origin_server_ts = 0,
     kind = OtherType ''m.room.message'', content = [], state_key = None, prev_events = [], depth = 0, auth_events = as,
     redacts = None, unsigned_data = None, hashes = [], signatures = None \<rparr>"

definition chain_store :: "EventId \<Rightarrow> Pdu option" where
  "chain_store = [''$m'' \<mapsto> chain_pdu ''$m'' [''$c''], ''$c'' \<mapsto> chain_pdu ''$c'' []]"

definition empty_chain_data :: "(u64 list \<Rightarrow> u64 list option) chain_data" where
  "empty_chain_data = \<lparr> chain_short = no_shorts, shorteventid_authchain = [], auth_chain_cache = (\<lambda>_. None) \<rparr>"

lemma chain_store_ancestors: "ancestors chain_store {''$m''} = {''$c''}"
proof -
  have rel: "auth_rel chain_store = {(''$m'', ''$c'')}"
    by (auto simp: auth_rel_def chain_store_def chain_pdu_def split: if_splits)
  have "(''$m'', a) \<in> {(''$m'', ''$c'')}\<^sup>+ \<longleftrightarrow> a = ''$c''" for a
    by (auto elim: trancl.cases)
  then show ?thesis by (auto simp: ancestors_def rel)
qed

lemma chain_store_placed: "\<not> misplaced chain_store ''!r'' e"
  by (auto simp: misplaced_def chain_store_def chain_pdu_def wrong_room_def split: if_splits)

lemma auth_chain_correct_witness:
  "\<exists>ids s'. event_ids_iter map_cache chain_store ''!r'' [''$m''] empty_chain_data = Some (Inr ids, s')
    \<and> set ids = {''$c''}"
proof -
  have "chain_inv map_cache chain_store empty_chain_data"
    by (simp add: chain_inv_def empty_chain_data_def no_shorts_ok lru_all_def map_cache_def)
  from auth_chain_correct [OF map_cache_laws this, of "[''$m'']" "''!r''"] show ?thesis
    by (auto simp: chain_store_ancestors chain_store_placed empty_chain_data_def no_shorts_ok)
qed

end
