(* ===== verification/DbCodec.thy ===== *)
theory DbCodec
  imports Prelude "HOL-Library.List_Lexorder" "HOL-Library.Sublist"
begin

text \<open>
  The key and value format of the database, \<^verbatim>\<open>src/database/ser.rs\<close> and \<^verbatim>\<open>src/database/de.rs\<close>: fields of a
  tuple are joined by the byte \<open>0xFF\<close>, which no UTF-8 string contains; integers are big-endian and of
  fixed width.  A value of serde's data model is a \<open>DbVal\<close>, the type it is read back at a \<open>DbTy\<close>.  The
  assertions that only debug builds have are left out; JSON and CBOR texts are third-party code: they
  are given as bytes, and \<open>json_ok\<close> says which bytes the JSON parser takes.
\<close>

section \<open>UTF-8\<close>

definition SEP :: u8 where "SEP = 0xFF"

definition utf8_cont :: "u8 \<Rightarrow> bool" where "utf8_cont c \<longleftrightarrow> 0x80 \<le> c \<and> c \<le> 0xBF"

definition utf8_second :: "u8 \<Rightarrow> u8 \<Rightarrow> bool" where
  "utf8_second b c \<longleftrightarrow>
     (if b = 0xE0 then 0xA0 \<le> c \<and> c \<le> 0xBF
      else if b = 0xED then 0x80 \<le> c \<and> c \<le> 0x9F
      else if b = 0xF0 then 0x90 \<le> c \<and> c \<le> 0xBF
      else if b = 0xF4 then 0x80 \<le> c \<and> c \<le> 0x8F
      else utf8_cont c)"

fun valid_utf8 :: "u8 list \<Rightarrow> bool" where
  "valid_utf8 [] = True"
| "valid_utf8 (b # bs) =
     (if b < 0x80 then valid_utf8 bs
      else case bs of
        [] \<Rightarrow> False
      | c # cs \<Rightarrow>
          if 0xC2 \<le> b \<and> b \<le> 0xDF then utf8_cont c \<and> valid_utf8 cs
          else (case cs of
             [] \<Rightarrow> False
           | d # ds \<Rightarrow>
               if 0xE0 \<le> b \<and> b \<le> 0xEF then utf8_second b c \<and> utf8_cont d \<and> valid_utf8 ds
               else (case ds of
                  [] \<Rightarrow> False
                | e # es \<Rightarrow> 0xF0 \<le> b \<and> b \<le> 0xF4 \<and> utf8_second b c \<and> utf8_cont d \<and> utf8_cont e
                    \<and> valid_utf8 es)))"

text \<open>\<open>str_from_bytes\<close> and \<open>string_from_bytes\<close>; a string is kept as its bytes.\<close>

definition str_from_bytes :: "u8 list \<Rightarrow> u8 list option" where
  "str_from_bytes bytes = (if valid_utf8 bytes then Some bytes else None)"

section \<open>Serialisation\<close>

datatype CodecError = SerdeDe | Unimplemented

text \<open>\<open>VOther\<close> stands for the parts of serde's data model the serialiser does not implement.\<close>

datatype DbVal =
  VStr "u8 list" | VBytes "u8 list" | VU64 u64 | VI64 i64 | VU32 "32 word" | VI32 "32 word" | VU8 u8
| VNone | VSome DbVal | VTuple "DbVal list" | VSeq "DbVal list"
| VSeparator | VInterfix | VJson "u8 list" | VCbor "u8 list" | VOther

definition u32_be_bytes :: "32 word \<Rightarrow> u8 list" where
  "u32_be_bytes w = drop 4 (to_be_bytes (ucast w))"

text \<open>The state of the serialiser is whether a record was written before (\<open>sep\<close>).\<close>

fun ser_val :: "DbVal \<Rightarrow> bool \<Rightarrow> CodecError + u8 list \<times> bool"
  and ser_fields :: "DbVal list \<Rightarrow> bool \<Rightarrow> CodecError + u8 list \<times> bool"
  and ser_elems :: "DbVal list \<Rightarrow> bool \<Rightarrow> CodecError + u8 list \<times> bool" where
  "ser_val (VStr s) sep = Inr (s, sep)"
| "ser_val (VBytes b) sep = Inr (b, sep)"
| "ser_val (VU64 w) sep = Inr (to_be_bytes w, sep)"
| "ser_val (VI64 w) sep = Inr (to_be_bytes w, sep)"
| "ser_val (VU32 w) sep = Inr (u32_be_bytes w, sep)"
| "ser_val (VI32 w) sep = Inr (u32_be_bytes w, sep)"
| "ser_val (VU8 b) sep = Inr ([b], sep)"
| "ser_val VNone sep = Inr ([], sep)"
| "ser_val (VSome v) sep = ser_val v sep"
| "ser_val (VTuple vs) sep = ser_fields vs sep"
| "ser_val (VSeq vs) sep = ser_elems vs sep"
| "ser_val VSeparator sep = Inr ([SEP], sep)"
| "ser_val VInterfix sep = Inr ([], sep)"
| "ser_val (VJson b) sep = Inr (b, sep)"
| "ser_val (VCbor b) sep = Inr (b, sep)"
| "ser_val VOther sep = Inl Unimplemented"
| "ser_fields [] sep = Inr ([], sep)"
| "ser_fields (v # vs) sep =
     rbind (ser_val v True) (\<lambda>(b, sep1).
     rbind (ser_fields vs sep1) (\<lambda>(bs, sep2).
     Inr ((if sep then [SEP] else []) @ b @ bs, sep2)))"
| "ser_elems [] sep = Inr ([], sep)"
| "ser_elems (v # vs) sep =
     rbind (ser_val v sep) (\<lambda>(b, sep1).
     rbind (ser_elems vs sep1) (\<lambda>(bs, sep2). Inr (b @ bs, sep2)))"

definition serialize :: "DbVal \<Rightarrow> CodecError + u8 list" where
  "serialize v = rbind (ser_val v False) (\<lambda>(b, _). Inr b)"

section \<open>Deserialisation\<close>

record Deserializer =
  de_pos :: nat
  de_rec :: nat
  de_seq :: bool

text \<open>\<open>TOther\<close> stands for the types the deserialiser does not implement.\<close>

datatype DbTy =
  TStr | TBytes | TU64 | TI64 | TOption DbTy | TTuple "DbTy list" | TIgnore | TIgnoreAll
| TJson | TAny | TOther

definition record_next :: "u8 list \<Rightarrow> Deserializer \<Rightarrow> u8 list \<times> Deserializer" where
  "record_next buf d =
     (let record = takeWhile (\<lambda>b. b \<noteq> SEP) (drop (de_pos d) buf)
      in (record, d\<lparr>de_pos := de_pos d + length record\<rparr>))"

definition record_trail :: "u8 list \<Rightarrow> Deserializer \<Rightarrow> u8 list \<times> Deserializer" where
  "record_trail buf d =
     (let record = drop (de_pos d) buf in (record, d\<lparr>de_pos := de_pos d + length record\<rparr>))"

definition record_ignore :: "u8 list \<Rightarrow> Deserializer \<Rightarrow> Deserializer" where
  "record_ignore buf d = (if de_seq d then snd (record_next buf d) else snd (record_trail buf d))"

definition started :: "Deserializer \<Rightarrow> bool" where
  "started d \<longleftrightarrow> de_pos d \<noteq> 0 \<or> de_rec d > 0"

definition record_start :: "Deserializer \<Rightarrow> Deserializer" where
  "record_start d = d\<lparr>de_pos := de_pos d + (if started d then 1 else 0), de_rec := de_rec d + 1\<rparr>"

definition record_peek_byte :: "u8 list \<Rightarrow> Deserializer \<Rightarrow> u8 option" where
  "record_peek_byte buf d =
     (let rest = drop (de_pos d) buf; i = (if started d then 1 else 0)
      in if i < length rest then Some (rest ! i) else None)"

definition deserialize_word :: "u8 list \<Rightarrow> Deserializer \<Rightarrow> CodecError + u64 \<times> Deserializer" where
  "deserialize_word buf d =
     (let bytes = take 8 (drop (de_pos d) buf)
      in if length bytes = 8 then Inr (from_be_bytes bytes, d\<lparr>de_pos := de_pos d + 8\<rparr>)
         else Inl SerdeDe)"

definition deserialize_string :: "u8 list \<Rightarrow> Deserializer \<Rightarrow> CodecError + DbVal \<times> Deserializer" where
  "deserialize_string buf d =
     (let (record, d') = record_next buf d
      in rbind (ok_or SerdeDe (str_from_bytes record)) (\<lambda>s. Inr (VStr s, d')))"

definition deserialize_json ::
    "(u8 list \<Rightarrow> bool) \<Rightarrow> u8 list \<Rightarrow> Deserializer \<Rightarrow> CodecError + DbVal \<times> Deserializer" where
  "deserialize_json json_ok buf d =
     (let (record, d') = record_next buf d
      in if json_ok record then Inr (VJson record, d') else Inl SerdeDe)"

fun de_val :: "(u8 list \<Rightarrow> bool) \<Rightarrow> u8 list \<Rightarrow> DbTy \<Rightarrow> Deserializer \<Rightarrow> CodecError + DbVal \<times> Deserializer"
  and de_fields :: "(u8 list \<Rightarrow> bool) \<Rightarrow> u8 list \<Rightarrow> DbTy list \<Rightarrow> Deserializer \<Rightarrow> CodecError + DbVal list \<times> Deserializer" where
  "de_val json_ok buf TStr d = deserialize_string buf d"
| "de_val json_ok buf TBytes d = (let (b, d') = record_trail buf d in Inr (VBytes b, d'))"
| "de_val json_ok buf TU64 d = rbind (deserialize_word buf d) (\<lambda>(w, d'). Inr (VU64 w, d'))"
| "de_val json_ok buf TI64 d = rbind (deserialize_word buf d) (\<lambda>(w, d'). Inr (VI64 w, d'))"
| "de_val json_ok buf (TOption ty) d =
     (if de_pos d < length buf \<and> buf ! de_pos d \<noteq> SEP
      then rbind (de_val json_ok buf ty d) (\<lambda>(v, d'). Inr (VSome v, d'))
      else Inr (VNone, d))"
| "de_val json_ok buf (TTuple tys) d =
     rbind (de_fields json_ok buf tys (d\<lparr>de_seq := True\<rparr>)) (\<lambda>(vs, d'). Inr (VTuple vs, d'))"
| "de_val json_ok buf TIgnore d = Inr (VNone, record_ignore buf d)"
| "de_val json_ok buf TIgnoreAll d = Inr (VNone, snd (record_trail buf d))"
| "de_val json_ok buf TJson d = deserialize_json json_ok buf d"
| "de_val json_ok buf TAny d =
     (if record_peek_byte buf d = Some 0x7B \<or> record_peek_byte buf d = Some 0x5B
      then deserialize_json json_ok buf d else deserialize_string buf d)"
| "de_val json_ok buf TOther d = Inl Unimplemented"
| "de_fields json_ok buf [] d = Inr ([], d)"
| "de_fields json_ok buf (ty # tys) d =
     (if de_pos d \<ge> length buf then Inl SerdeDe
      else rbind (de_val json_ok buf ty (record_start d)) (\<lambda>(v, d1).
           rbind (de_fields json_ok buf tys d1) (\<lambda>(vs, d2). Inr (v # vs, d2))))"

definition finished :: "u8 list \<Rightarrow> Deserializer \<Rightarrow> bool" where
  "finished buf d \<longleftrightarrow> drop (de_pos d) buf = [] \<or> drop (de_pos d) buf = [SEP]"

definition from_slice_state :: "(u8 list \<Rightarrow> bool) \<Rightarrow> DbTy \<Rightarrow> u8 list \<Rightarrow> CodecError + DbVal \<times> Deserializer" where
  "from_slice_state json_ok ty buf = de_val json_ok buf ty \<lparr>de_pos = 0, de_rec = 0, de_seq = False\<rparr>"

definition from_slice :: "(u8 list \<Rightarrow> bool) \<Rightarrow> DbTy \<Rightarrow> u8 list \<Rightarrow> CodecError + DbVal" where
  "from_slice json_ok ty buf = rbind (from_slice_state json_ok ty buf) (\<lambda>(v, _). Inr v)"

section \<open>Strings hold no separator\<close>

lemma small_bytes_no_sep: "b \<le> 0xF4 \<Longrightarrow> b \<noteq> SEP" "b < 0x80 \<Longrightarrow> b \<noteq> SEP"
  by (auto simp: SEP_def)

lemma utf8_cont_no_sep: "utf8_cont c \<Longrightarrow> c \<noteq> SEP" "utf8_second b c \<Longrightarrow> c \<noteq> SEP"
  by (auto simp: utf8_cont_def utf8_second_def SEP_def split: if_splits)

lemma not_valid_sep: "\<not> valid_utf8 (SEP # bs)"
  by (simp add: SEP_def split: list.splits)

lemma utf8_step:
  assumes "valid_utf8 (b # bs)"
  obtains xs ys where "bs = xs @ ys" "SEP \<notin> set xs" "valid_utf8 ys"
proof (cases "b < 0x80")
  case True
  with assms show ?thesis by (intro that [of "[]" bs]) simp_all
next
  case ascii: False
  with assms obtain c cs where bs: "bs = c # cs" by (cases bs) auto
  show ?thesis
  proof (cases "0xC2 \<le> b \<and> b \<le> 0xDF")
    case True
    with assms ascii bs have "utf8_cont c" "valid_utf8 cs" by simp_all
    with bs show ?thesis by (intro that [of "[c]" cs]) (auto dest: utf8_cont_no_sep)
  next
    case two: False
    with assms ascii bs obtain d ds where cs: "cs = d # ds" by (cases cs) auto
    show ?thesis
    proof (cases "0xE0 \<le> b \<and> b \<le> 0xEF")
      case True
      with assms ascii bs cs two have "utf8_second b c" "utf8_cont d" "valid_utf8 ds" by simp_all
      with bs cs show ?thesis by (intro that [of "[c, d]" ds]) (auto dest: utf8_cont_no_sep)
    next
      case three: False
      with assms ascii bs cs two obtain e es where ds: "ds = e # es" by (cases ds) auto
      with assms ascii bs cs two three have "utf8_second b c" "utf8_cont d" "utf8_cont e" "valid_utf8 es"
        by simp_all
      with bs cs ds show ?thesis by (intro that [of "[c, d, e]" es]) (auto dest: utf8_cont_no_sep)
    qed
  qed
qed

lemma valid_utf8_no_sep: "valid_utf8 bs \<Longrightarrow> SEP \<notin> set bs"
proof (induction "length bs" arbitrary: bs rule: less_induct)
  case less
  show ?case
  proof (cases bs)
    case (Cons b bs')
    with less.prems obtain xs ys where "bs' = xs @ ys" "SEP \<notin> set xs" "valid_utf8 ys"
      using utf8_step by blast
    moreover have "b \<noteq> SEP" using less.prems Cons not_valid_sep by blast
    ultimately show ?thesis using less.hyps [of ys] Cons by auto
  qed simp
qed

section \<open>The round trip\<close>

text \<open>Values that survive it: a string is valid, an optional value is not written as the empty record.\<close>

fun field_ok :: "(u8 list \<Rightarrow> bool) \<Rightarrow> DbVal \<Rightarrow> DbTy \<Rightarrow> bool" where
  "field_ok json_ok (VStr s) TStr \<longleftrightarrow> valid_utf8 s"
| "field_ok json_ok (VU64 w) TU64 \<longleftrightarrow> True"
| "field_ok json_ok (VI64 w) TI64 \<longleftrightarrow> True"
| "field_ok json_ok VNone (TOption ty) \<longleftrightarrow> True"
| "field_ok json_ok (VSome v) (TOption ty) \<longleftrightarrow>
     field_ok json_ok v ty \<and> (\<exists>c cs. ser_val v True = Inr (c # cs, True) \<and> c \<noteq> SEP)"
| "field_ok json_ok (VJson b) TJson \<longleftrightarrow> json_ok b \<and> SEP \<notin> set b"
| "field_ok json_ok _ _ \<longleftrightarrow> False"

text \<open>Raw bytes may only come last.\<close>

fun fields_ok :: "(u8 list \<Rightarrow> bool) \<Rightarrow> DbVal list \<Rightarrow> DbTy list \<Rightarrow> bool" where
  "fields_ok json_ok [] [] \<longleftrightarrow> True"
| "fields_ok json_ok (v # vs) (ty # tys) \<longleftrightarrow>
     (if ty = TBytes then vs = [] \<and> tys = [] \<and> (\<exists>b. v = VBytes b)
      else field_ok json_ok v ty \<and> fields_ok json_ok vs tys)"
| "fields_ok json_ok _ _ \<longleftrightarrow> False"

lemma field_ok_ser: "field_ok json_ok v ty \<Longrightarrow> \<exists>b. ser_val v True = Inr (b, True)"
  by (induction json_ok v ty rule: field_ok.induct) auto

lemma drop_append_length: "drop n buf = xs @ ys \<Longrightarrow> drop (n + length xs) buf = ys"
  by (metis add.commute append_eq_conv_conj drop_drop)

lemma record_next_at:
  assumes "drop (de_pos d) buf = b @ rest" "SEP \<notin> set b" "rest = [] \<or> hd rest = SEP"
  shows "record_next buf d = (b, d\<lparr>de_pos := de_pos d + length b\<rparr>)"
proof -
  have "takeWhile (\<lambda>x. x \<noteq> SEP) (b @ rest) = b"
    using assms(2,3) by (cases rest) (auto simp: takeWhile_append takeWhile_eq_all_conv)
  then show ?thesis by (simp add: record_next_def assms(1))
qed

lemma de_val_field:
  assumes "field_ok json_ok v ty" "ser_val v True = Inr (b, True)"
    "drop (de_pos d) buf = b @ rest" "rest = [] \<or> hd rest = SEP"
  shows "de_val json_ok buf ty d = Inr (v, d\<lparr>de_pos := de_pos d + length b\<rparr>)"
  using assms
proof (induction json_ok v ty arbitrary: b rule: field_ok.induct)
  case (1 json_ok s)
  then show ?case
    using record_next_at [OF 1(3) _ 1(4)] valid_utf8_no_sep [of s]
    by (simp add: deserialize_string_def str_from_bytes_def)
next
  case (4 json_ok ty)
  then have "\<not> (de_pos d < length buf \<and> buf ! de_pos d \<noteq> SEP)"
    by (auto simp: Cons_nth_drop_Suc [symmetric])
  then show ?case using 4 by (simp only: de_val.simps if_False) simp
next
  case (5 json_ok v ty)
  then obtain c cs where b: "b = c # cs" "c \<noteq> SEP" by auto
  then have "de_pos d < length buf \<and> buf ! de_pos d \<noteq> SEP"
    using 5(4) by (metis Cons_eq_appendI Cons_nth_drop_Suc drop_eq_Nil list.distinct(1) list.inject not_le)
  with 5 show ?case by simp
next
  case (6 json_ok t)
  then show ?case using record_next_at [OF 6(3) _ 6(4)] by (simp add: deserialize_json_def)
qed (auto simp: deserialize_word_def)

lemma ser_fields_sep:
  "ser_fields vs True = Inr (bs, q) \<Longrightarrow> vs \<noteq> [] \<Longrightarrow> bs \<noteq> [] \<and> hd bs = SEP"
  by (cases vs) (auto simp: result_simps)

lemma de_fields_spec:
  assumes "fields_ok json_ok vs tys" "ser_fields vs (started d) = Inr (bs, q)"
    "drop (de_pos d) buf = bs @ rest" "rest = [] \<or> hd rest = SEP" "TBytes \<in> set tys \<longrightarrow> rest = []"
    "vs \<noteq> [] \<longrightarrow> bs @ rest \<noteq> []" "de_pos d \<le> length buf"
  shows "\<exists>d'. de_fields json_ok buf tys d = Inr (vs, d') \<and> de_pos d' = de_pos d + length bs"
  using assms
proof (induction json_ok vs tys arbitrary: d bs rule: fields_ok.induct)
  case (2 json_ok v vs ty tys)
  have lt: "de_pos d < length buf" using "2.prems"(3,6) by (auto simp: not_le [symmetric])
  let ?sep = "if started d then [SEP] else []"
  have pos: "de_pos (record_start d) = de_pos d + length ?sep" by (simp add: record_start_def)
  show ?case
  proof (cases "ty = TBytes")
    case True
    then obtain b where v: "v = VBytes b" "vs = []" "tys = []" "rest = []" using "2.prems"(1,5) by auto
    then have "drop (de_pos (record_start d)) buf = b"
      using "2.prems"(2,3) drop_append_length [of "de_pos d" buf ?sep b] unfolding pos by auto
    with lt v True "2.prems"(2) show ?thesis
      by (auto simp: record_trail_def Let_def record_start_def)
  next
    case False
    then have ok: "field_ok json_ok v ty" "fields_ok json_ok vs tys" using "2.prems"(1) by auto
    obtain b where b: "ser_val v True = Inr (b, True)" using field_ok_ser [OF ok(1)] by blast
    obtain bs' where bs': "ser_fields vs True = Inr (bs', q)" "bs = ?sep @ b @ bs'"
      using "2.prems"(2) b by (auto simp: result_simps)
    have next_sep: "bs' @ rest = [] \<or> hd (bs' @ rest) = SEP"
      using ser_fields_sep [OF bs'(1)] bs'(1) "2.prems"(4) by (cases "vs = []") auto
    have dr: "drop (de_pos (record_start d)) buf = b @ (bs' @ rest)"
      unfolding pos using "2.prems"(3) bs'(2) by (intro drop_append_length) simp
    note one = de_val_field [OF ok(1) b dr next_sep]
    let ?d1 = "(record_start d)\<lparr>de_pos := de_pos (record_start d) + length b\<rparr>"
    have st1: "started ?d1" by (simp add: started_def record_start_def)
    have dr1: "drop (de_pos ?d1) buf = bs' @ rest" using drop_append_length [OF dr] by simp
    have ne: "vs \<noteq> [] \<longrightarrow> bs' @ rest \<noteq> []" using ser_fields_sep [OF bs'(1)] by simp
    have le: "de_pos ?d1 \<le> length buf"
      using arg_cong [OF dr, of length] lt unfolding pos by (auto split: if_splits)
    from "2.IH" [OF False ok(2) _ dr1 "2.prems"(4) _ ne le] bs'(1) st1 "2.prems"(5) obtain d' where
      "de_fields json_ok buf tys ?d1 = Inr (vs, d')" "de_pos d' = de_pos ?d1 + length bs'" by auto
    with lt one bs'(2) pos show ?thesis by simp
  qed
qed auto

lemma fields_ok_ser: "fields_ok json_ok vs tys \<Longrightarrow> \<exists>bs q. ser_fields vs sep = Inr (bs, q)"
proof (induction json_ok vs tys arbitrary: sep rule: fields_ok.induct)
  case (2 json_ok v vs ty tys)
  show ?case
  proof (cases "ty = TBytes")
    case False
    with "2.prems" obtain b where "ser_val v True = Inr (b, True)"
      using field_ok_ser [of json_ok v ty] by auto
    moreover obtain bs q where "ser_fields vs True = Inr (bs, q)" using "2.IH" [of True] "2.prems" False by auto
    ultimately show ?thesis by simp
  qed (use 2 in auto)
qed auto

lemma ser_keeps_sep:
  "ser_val v sep = Inr (b, q) \<Longrightarrow> sep \<Longrightarrow> q"
  "ser_fields vs sep = Inr (b, q) \<Longrightarrow> sep \<Longrightarrow> q"
  "ser_elems vs sep = Inr (b, q) \<Longrightarrow> sep \<Longrightarrow> q"
  by (induction v sep and vs sep and vs sep arbitrary: b q and b q and b q rule: ser_val_ser_fields_ser_elems.induct)
    (fastforce simp: result_simps)+

lemma ser_two_fields_nonempty:
  assumes "ser_fields vs sep = Inr (bs, q)" "2 \<le> length vs" shows "bs \<noteq> []"
proof -
  obtain v w us where vs: "vs = v # w # us" using assms(2) by (cases vs; cases "tl vs") auto
  show ?thesis using assms(1) unfolding vs by (auto simp: result_simps dest: ser_keeps_sep(1))
qed

lemma tuple_roundtrip:
  assumes "fields_ok json_ok vs tys" "2 \<le> length vs"
  shows "\<exists>bytes d. serialize (VTuple vs) = Inr bytes
    \<and> from_slice_state json_ok (TTuple tys) bytes = Inr (VTuple vs, d) \<and> finished bytes d"
proof -
  obtain bs q where ser: "ser_fields vs False = Inr (bs, q)" using fields_ok_ser [OF assms(1)] by blast
  let ?d = "\<lparr>de_pos = 0, de_rec = 0, de_seq = True\<rparr>"
  have "started ?d = False" by (simp add: started_def)
  with de_fields_spec [OF assms(1), of ?d bs q bs "[]"] ser ser_two_fields_nonempty [OF ser assms(2)]
  obtain d' where "de_fields json_ok bs tys ?d = Inr (vs, d')" "de_pos d' = length bs" by auto
  with ser show ?thesis by (auto simp: serialize_def from_slice_state_def finished_def)
qed

text \<open>
  C36: A tuple of at least two fields is read back from its bytes at its type, and all bytes are consumed:
  strings are valid UTF-8, raw bytes come last, and a present optional field is not written as an empty
  record.
\<close>

theorem codec_roundtrip:
  assumes "fields_ok json_ok vs tys" "2 \<le> length vs"
  shows "\<exists>bytes d. serialize (VTuple vs) = Inr bytes
    \<and> from_slice_state json_ok (TTuple tys) bytes = Inr (VTuple vs, d) \<and> finished bytes d"
  using assms by (rule tuple_roundtrip)

lemma serialize_inject:
  assumes "fields_ok json_ok vs tys" "fields_ok json_ok ws tys" "2 \<le> length vs" "2 \<le> length ws"
    "serialize (VTuple vs) = serialize (VTuple ws)"
  shows "vs = ws"
  using tuple_roundtrip [OF assms(1,3)] tuple_roundtrip [OF assms(2,4)] assms(5) by auto

section \<open>Prefixes of keys\<close>

lemma ser_fields_append:
  assumes "ser_fields ws sep = Inr (bs, q)" "ser_fields vs (if ws = [] then sep else True) = Inr (cs, q')"
    "\<And>w. w \<in> set ws \<Longrightarrow> \<exists>b. ser_val w True = Inr (b, True)"
  shows "ser_fields (ws @ vs) sep = Inr (bs @ cs, q')"
  using assms
proof (induction ws arbitrary: sep bs)
  case (Cons w ws)
  obtain b where b: "ser_val w True = Inr (b, True)" using Cons.prems(3) by auto
  then obtain bs' where "ser_fields ws True = Inr (bs', q)" "bs = (if sep then [SEP] else []) @ b @ bs'"
    using Cons.prems(1) by (auto simp: result_simps)
  with Cons.IH [of True bs'] Cons.prems b show ?case by (simp split: if_splits)
qed auto

text \<open>The leading fields of a key: they are followed by another field, so none is raw bytes.\<close>

definition leading_ok :: "(u8 list \<Rightarrow> bool) \<Rightarrow> DbVal list \<Rightarrow> DbTy list \<Rightarrow> bool" where
  "leading_ok json_ok ws tys \<longleftrightarrow> fields_ok json_ok ws tys \<and> TBytes \<notin> set tys \<and> ws \<noteq> []"

lemma fields_ok_length: "fields_ok json_ok vs tys \<Longrightarrow> length vs = length tys"
  by (induction json_ok vs tys rule: fields_ok.induct) (auto split: if_splits)

lemma fields_ok_take:
  "fields_ok json_ok vs (tys @ tys') \<Longrightarrow> tys' \<noteq> [] \<Longrightarrow>
   fields_ok json_ok (take (length tys) vs) tys \<and> TBytes \<notin> set tys
   \<and> fields_ok json_ok (drop (length tys) vs) tys'"
proof (induction tys arbitrary: vs)
  case (Cons ty tys)
  then obtain v vs' where "vs = v # vs'" by (cases vs) auto
  with Cons show ?case by (auto split: if_splits)
qed auto

lemma leading_ser:
  assumes "leading_ok json_ok ws tys"
  shows "w \<in> set ws \<Longrightarrow> \<exists>b. ser_val w True = Inr (b, True)"
proof -
  have "fields_ok json_ok ws tys \<Longrightarrow> TBytes \<notin> set tys \<Longrightarrow> w \<in> set ws \<Longrightarrow> \<exists>b. ser_val w True = Inr (b, True)"
  proof (induction json_ok ws tys rule: fields_ok.induct)
    case (2 json_ok v vs ty tys)
    then show ?case using field_ok_ser [of json_ok v ty] by (auto split: if_splits)
  qed auto
  then show "w \<in> set ws \<Longrightarrow> \<exists>b. ser_val w True = Inr (b, True)" using assms by (simp add: leading_ok_def)
qed

lemma leading_read:
  assumes "leading_ok json_ok ws tys" "ser_fields ws False = Inr (bs, q)" "buf = bs @ SEP # rest"
  shows "\<exists>d. de_fields json_ok buf tys \<lparr>de_pos = 0, de_rec = 0, de_seq = True\<rparr> = Inr (ws, d)"
  using de_fields_spec [of json_ok ws tys "\<lparr>de_pos = 0, de_rec = 0, de_seq = True\<rparr>" bs q buf "SEP # rest"] assms
  by (auto simp: leading_ok_def started_def)

lemma ser_interfix:
  assumes "leading_ok json_ok ws tys"
  shows "\<exists>bs q. ser_fields ws False = Inr (bs, q) \<and> serialize (VTuple (ws @ [VInterfix])) = Inr (bs @ [SEP])"
proof -
  obtain bs q where bs: "ser_fields ws False = Inr (bs, q)"
    using assms fields_ok_ser [of json_ok ws tys False] by (auto simp: leading_ok_def)
  have "ser_fields (ws @ [VInterfix]) False = Inr (bs @ [SEP], True)"
    using assms by (intro ser_fields_append [OF bs _ leading_ser [OF assms]]) (auto simp: leading_ok_def)
  with bs show ?thesis by (auto simp: serialize_def)
qed

lemma key_prefix_iff:
  assumes "leading_ok json_ok ws tys" "fields_ok json_ok vs (tys @ tys')" "tys' \<noteq> []"
    "serialize (VTuple (ws @ [VInterfix])) = Inr p" "serialize (VTuple vs) = Inr key"
  shows "prefix p key \<longleftrightarrow> take (length ws) vs = ws"
proof -
  let ?us = "take (length tys) vs" and ?rest = "drop (length tys) vs"
  have len: "length ws = length tys" "length tys < length vs"
    using assms(1-3) fields_ok_length [of json_ok ws tys] fields_ok_length [of json_ok vs "tys @ tys'"]
    by (auto simp: leading_ok_def)
  then have rest: "?rest \<noteq> []" "?us \<noteq> []" using assms(1) by (auto simp: leading_ok_def)
  have us: "leading_ok json_ok ?us tys"
    using fields_ok_take [OF assms(2,3)] rest(2) by (simp add: leading_ok_def)
  obtain bs q where bs: "ser_fields ws False = Inr (bs, q)" "p = bs @ [SEP]"
    using ser_interfix [OF assms(1)] assms(4) by auto
  obtain cs q2 where cs: "ser_fields ?us False = Inr (cs, q2)"
    using ser_interfix [OF us] by blast
  obtain es q3 where es: "ser_fields ?rest True = Inr (es, q3)"
    using fields_ok_take [OF assms(2,3)] fields_ok_ser by blast
  have "ser_fields (?us @ ?rest) False = Inr (cs @ es, q3)"
    using rest by (intro ser_fields_append [OF cs _ leading_ser [OF us]]) (auto simp: es)
  then have key: "key = cs @ SEP # tl es"
    using assms(5) ser_fields_sep [OF es rest(1)] by (cases es) (auto simp: serialize_def)
  show ?thesis
  proof
    assume "prefix p key"
    then obtain r where "key = bs @ SEP # r" using bs(2) by (auto simp: prefix_def)
    from leading_read [OF assms(1) bs(1) this] leading_read [OF us cs key] show "take (length ws) vs = ws"
      using len(1) by auto
  next
    assume "take (length ws) vs = ws"
    then have "?us = ws" using len(1) by simp
    then show "prefix p key" using cs bs key by (simp add: prefix_def)
  qed
qed

section \<open>Skipped fields\<close>

lemma de_fields_append:
  "de_fields json_ok buf (tys @ tys') d =
     rbind (de_fields json_ok buf tys d) (\<lambda>(vs, d1).
     rbind (de_fields json_ok buf tys' d1) (\<lambda>(ws, d2). Inr (vs @ ws, d2)))"
  by (induction tys arbitrary: d) (auto simp: rbind_def split: sum.splits prod.splits)


lemma read_skip_last:
  assumes "leading_ok json_ok ws tys" "ser_fields ws False = Inr (bs, q)" "buf = bs @ SEP # rest"
  shows "from_slice json_ok (TTuple (tys @ [TIgnore])) buf = Inr (VTuple (ws @ [VNone]))"
proof -
  let ?d = "\<lparr>de_pos = 0, de_rec = 0, de_seq = True\<rparr>"
  obtain d where d: "de_fields json_ok buf tys ?d = Inr (ws, d)" "de_pos d = length bs"
    using de_fields_spec [of json_ok ws tys ?d bs q buf "SEP # rest"] assms
    by (auto simp: leading_ok_def started_def)
  have "de_fields json_ok buf [TIgnore] d = Inr ([VNone], record_ignore buf (record_start d))"
    using d(2) assms(3) by simp
  with d(1) show ?thesis
    by (simp add: from_slice_def from_slice_state_def de_fields_append)
qed

lemma read_second:
  assumes "SEP \<notin> set a" "valid_utf8 b"
  shows "from_slice json_ok (TTuple [TIgnore, TStr]) (a @ SEP # b) = Inr (VTuple [VNone, VStr b])"
proof -
  let ?buf = "a @ SEP # b" and ?d = "\<lparr>de_pos = 0, de_rec = 1, de_seq = True\<rparr>"
  have "record_next ?buf ?d = (a, ?d\<lparr>de_pos := length a\<rparr>)"
    using record_next_at [of ?d ?buf a "SEP # b"] assms(1) by simp
  moreover have "record_next ?buf (?d\<lparr>de_pos := Suc (length a), de_rec := 2\<rparr>)
      = (b, ?d\<lparr>de_pos := Suc (length a) + length b, de_rec := 2\<rparr>)"
    using record_next_at [of "?d\<lparr>de_pos := Suc (length a), de_rec := 2\<rparr>" ?buf b "[]"] valid_utf8_no_sep [OF assms(2)] by simp
  ultimately show ?thesis using assms(2)
    by (simp add: from_slice_def from_slice_state_def record_ignore_def record_start_def started_def
        deserialize_string_def str_from_bytes_def numeral_2_eq_2)
qed

end
