(* ===== verification/DbMap.thy ===== *)
theory DbMap
  imports DbCodec
begin

text \<open>
  The maps of the database, \<^verbatim>\<open>src/database/map/*.rs\<close>: a column of the storage engine is an ordered map from
  byte strings to byte strings, kept as an association list; streams yield its entries in the order of
  the keys.  A query is raw bytes or a value of the format of the theory \<open>DbCodec\<close>, whose serialisation is
  expected to succeed.  Write errors of the engine, corks and watchers are left out.
\<close>

section \<open>Single entries\<close>

type_synonym db_map = "(u8 list, u8 list) hash_map"

definition db_get :: "db_map \<Rightarrow> u8 list \<Rightarrow> u8 list option" where
  "db_get m key = map_of m key"

definition db_insert :: "u8 list \<Rightarrow> u8 list \<Rightarrow> db_map \<Rightarrow> db_map" where
  "db_insert key val m = hm_insert key val m"

definition db_insert_batch :: "(u8 list \<times> u8 list) list \<Rightarrow> db_map \<Rightarrow> db_map" where
  "db_insert_batch kvs m = fold (\<lambda>(k, v). db_insert k v) kvs m"

definition db_remove :: "u8 list \<Rightarrow> db_map \<Rightarrow> db_map" where
  "db_remove key m = AList.delete key m"

definition db_exists :: "db_map \<Rightarrow> u8 list \<Rightarrow> bool" where
  "db_exists m key \<longleftrightarrow> db_get m key \<noteq> None"

text \<open>The forms with serialised keys and values.\<close>

definition db_put :: "DbVal \<Rightarrow> DbVal \<Rightarrow> db_map \<Rightarrow> CodecError + db_map" where
  "db_put key val m =
     rbind (serialize val) (\<lambda>v. rbind (serialize key) (\<lambda>k. Inr (db_insert k v m)))"

definition db_put_raw :: "DbVal \<Rightarrow> u8 list \<Rightarrow> db_map \<Rightarrow> CodecError + db_map" where
  "db_put_raw key val m = rbind (serialize key) (\<lambda>k. Inr (db_insert k val m))"

definition db_raw_put :: "u8 list \<Rightarrow> DbVal \<Rightarrow> db_map \<Rightarrow> CodecError + db_map" where
  "db_raw_put key val m = rbind (serialize val) (\<lambda>v. Inr (db_insert key v m))"

definition db_del :: "DbVal \<Rightarrow> db_map \<Rightarrow> CodecError + db_map" where
  "db_del key m = rbind (serialize key) (\<lambda>k. Inr (db_remove k m))"

definition db_qry :: "db_map \<Rightarrow> DbVal \<Rightarrow> CodecError + u8 list option" where
  "db_qry m key = rbind (serialize key) (\<lambda>k. Inr (db_get m k))"

definition db_contains :: "db_map \<Rightarrow> DbVal \<Rightarrow> CodecError + bool" where
  "db_contains m key = rbind (serialize key) (\<lambda>k. Inr (db_exists m k))"

section \<open>Streams\<close>

definition raw_stream :: "db_map \<Rightarrow> (u8 list \<times> u8 list) list" where
  "raw_stream m = sort_key fst m"

definition rev_raw_stream :: "db_map \<Rightarrow> (u8 list \<times> u8 list) list" where
  "rev_raw_stream m = rev (raw_stream m)"

definition raw_stream_from :: "db_map \<Rightarrow> u8 list \<Rightarrow> (u8 list \<times> u8 list) list" where
  "raw_stream_from m from = filter (\<lambda>kv. from \<le> fst kv) (raw_stream m)"

definition rev_raw_stream_from :: "db_map \<Rightarrow> u8 list \<Rightarrow> (u8 list \<times> u8 list) list" where
  "rev_raw_stream_from m from = filter (\<lambda>kv. fst kv \<le> from) (rev_raw_stream m)"

definition raw_stream_prefix :: "db_map \<Rightarrow> u8 list \<Rightarrow> (u8 list \<times> u8 list) list" where
  "raw_stream_prefix m p = takeWhile (\<lambda>kv. prefix p (fst kv)) (raw_stream_from m p)"

definition rev_raw_stream_prefix :: "db_map \<Rightarrow> u8 list \<Rightarrow> (u8 list \<times> u8 list) list" where
  "rev_raw_stream_prefix m p = takeWhile (\<lambda>kv. prefix p (fst kv)) (rev_raw_stream_from m p)"

definition stream_from_raw :: "db_map \<Rightarrow> DbVal \<Rightarrow> CodecError + (u8 list \<times> u8 list) list" where
  "stream_from_raw m from = rbind (serialize from) (\<lambda>k. Inr (raw_stream_from m k))"

definition stream_prefix_raw :: "db_map \<Rightarrow> DbVal \<Rightarrow> CodecError + (u8 list \<times> u8 list) list" where
  "stream_prefix_raw m p = rbind (serialize p) (\<lambda>k. Inr (raw_stream_prefix m k))"

definition raw_keys :: "db_map \<Rightarrow> u8 list list" where
  "raw_keys m = map fst (raw_stream m)"

definition raw_keys_from :: "db_map \<Rightarrow> u8 list \<Rightarrow> u8 list list" where
  "raw_keys_from m from = map fst (raw_stream_from m from)"

definition rev_raw_keys_from :: "db_map \<Rightarrow> u8 list \<Rightarrow> u8 list list" where
  "rev_raw_keys_from m from = map fst (rev_raw_stream_from m from)"

definition raw_keys_prefix :: "db_map \<Rightarrow> u8 list \<Rightarrow> u8 list list" where
  "raw_keys_prefix m p = takeWhile (\<lambda>k. prefix p k) (raw_keys_from m p)"

definition keys_prefix_raw :: "db_map \<Rightarrow> DbVal \<Rightarrow> CodecError + u8 list list" where
  "keys_prefix_raw m p = rbind (serialize p) (\<lambda>k. Inr (raw_keys_prefix m k))"

definition db_count :: "db_map \<Rightarrow> nat" where
  "db_count m = length (raw_keys m)"

definition raw_count_from :: "db_map \<Rightarrow> u8 list \<Rightarrow> nat" where
  "raw_count_from m from = length (raw_keys_from m from)"

definition raw_count_prefix :: "db_map \<Rightarrow> u8 list \<Rightarrow> nat" where
  "raw_count_prefix m p = length (raw_keys_prefix m p)"

definition db_clear :: "db_map \<Rightarrow> db_map" where
  "db_clear m = fold db_remove (raw_keys m) m"

text \<open>Typed scans: every key, or key and value, is deserialised; the callers drop the errors.\<close>

definition result_deserialize ::
    "(u8 list \<Rightarrow> bool) \<Rightarrow> DbTy \<Rightarrow> DbTy \<Rightarrow> u8 list \<times> u8 list \<Rightarrow> CodecError + DbVal \<times> DbVal" where
  "result_deserialize json_ok kty vty kv =
     rbind (from_slice json_ok kty (fst kv)) (\<lambda>k. rbind (from_slice json_ok vty (snd kv)) (\<lambda>v. Inr (k, v)))"

definition keys_prefix :: "(u8 list \<Rightarrow> bool) \<Rightarrow> db_map \<Rightarrow> DbTy \<Rightarrow> DbVal \<Rightarrow> CodecError + (CodecError + DbVal) list" where
  "keys_prefix json_ok m kty p =
     rbind (keys_prefix_raw m p) (\<lambda>ks. Inr (map (from_slice json_ok kty) ks))"

definition keys_raw_prefix :: "(u8 list \<Rightarrow> bool) \<Rightarrow> db_map \<Rightarrow> DbTy \<Rightarrow> u8 list \<Rightarrow> (CodecError + DbVal) list" where
  "keys_raw_prefix json_ok m kty p = map (from_slice json_ok kty) (raw_keys_prefix m p)"

definition stream_prefix ::
    "(u8 list \<Rightarrow> bool) \<Rightarrow> db_map \<Rightarrow> DbTy \<Rightarrow> DbTy \<Rightarrow> DbVal \<Rightarrow> CodecError + (CodecError + DbVal \<times> DbVal) list" where
  "stream_prefix json_ok m kty vty p =
     rbind (stream_prefix_raw m p) (\<lambda>kvs. Inr (map (result_deserialize json_ok kty vty) kvs))"

definition stream_raw_prefix ::
    "(u8 list \<Rightarrow> bool) \<Rightarrow> db_map \<Rightarrow> DbTy \<Rightarrow> DbTy \<Rightarrow> u8 list \<Rightarrow> (CodecError + DbVal \<times> DbVal) list" where
  "stream_raw_prefix json_ok m kty vty p = map (result_deserialize json_ok kty vty) (raw_stream_prefix m p)"

definition stream_from ::
    "(u8 list \<Rightarrow> bool) \<Rightarrow> db_map \<Rightarrow> DbTy \<Rightarrow> DbTy \<Rightarrow> DbVal \<Rightarrow> CodecError + (CodecError + DbVal \<times> DbVal) list" where
  "stream_from json_ok m kty vty from =
     rbind (stream_from_raw m from) (\<lambda>kvs. Inr (map (result_deserialize json_ok kty vty) kvs))"

fun ignore_err :: "('e + 'a) list \<Rightarrow> 'a list" where
  "ignore_err [] = []"
| "ignore_err (Inl _ # rs) = ignore_err rs"
| "ignore_err (Inr v # rs) = v # ignore_err rs"

section \<open>Identifiers\<close>

text \<open>The checks of ruma's identifier parsers, which are third-party code.\<close>

record id_checks =
  user_id_ok :: "u8 list \<Rightarrow> bool"
  room_id_ok :: "u8 list \<Rightarrow> bool"
  server_name_ok :: "u8 list \<Rightarrow> bool"

text \<open>An identifier, and an optional one, in a deserialised field.\<close>

definition as_id :: "(u8 list \<Rightarrow> bool) \<Rightarrow> DbVal \<Rightarrow> u8 list option" where
  "as_id ok v = (case v of VStr s \<Rightarrow> if ok s then Some s else None | _ \<Rightarrow> None)"

definition as_opt_id :: "(u8 list \<Rightarrow> bool) \<Rightarrow> DbVal \<Rightarrow> u8 list option option" where
  "as_opt_id ok v =
     (case v of VNone \<Rightarrow> Some None | VSome w \<Rightarrow> map_option Some (as_id ok w) | _ \<Rightarrow> None)"

section \<open>Order and prefixes\<close>

lemma prefix_le: "prefix p k \<Longrightarrow> p \<le> (k :: 'a :: linorder list)"
proof -
  have "p \<le> p @ zs" for zs :: "'a list" by (induction p) auto
  then show "prefix p k \<Longrightarrow> p \<le> k" by (auto simp: prefix_def)
qed

lemma prefix_between:
  assumes "p \<le> k" "k \<le> k'" "prefix p k'"
  shows "prefix p (k :: 'a :: linorder list)"
  using assms
proof (induction p arbitrary: k k')
  case (Cons x p)
  obtain y ks where k: "k = y # ks" using Cons.prems(1) by (cases k) auto
  obtain ks' where k': "k' = x # ks'" using Cons.prems(3) by (auto simp: prefix_def)
  have "x = y" "p \<le> ks" "ks \<le> ks'" using Cons.prems(1,2) k k' by (auto simp: Cons_le_Cons)
  with Cons.IH [of ks ks'] Cons.prems(3) k k' show ?case by simp
qed simp

lemma set_raw_stream [simp]: "set (raw_stream m) = set m"
  by (simp add: raw_stream_def)

lemma sorted_raw_stream: "sorted (map fst (raw_stream m))"
  by (simp add: raw_stream_def)

lemma sorted_tail_false:
  assumes "sorted (map f xs)" "\<And>x y. x \<in> set xs \<Longrightarrow> y \<in> set xs \<Longrightarrow> f x \<le> f y \<Longrightarrow> P y \<Longrightarrow> P x"
  shows "takeWhile P xs = filter P xs"
proof (rule takeWhile_eq_filter)
  fix y assume "y \<in> set (dropWhile P xs)"
  then obtain d ds where d: "dropWhile P xs = d # ds" "y \<in> set (d # ds)" by (cases "dropWhile P xs") auto
  have "\<not> P d" using d(1) by (metis hd_dropWhile list.distinct(1) list.sel(1))
  moreover have "sorted (map f (d # ds))"
    using assms(1) d(1) by (metis dropWhile_eq_drop sorted_wrt_drop drop_map)
  then have "f d \<le> f y" using d(2) by auto
  moreover have "d \<in> set xs" "y \<in> set xs"
    using d set_dropWhileD by (metis list.set_intros(1), metis)
  ultimately show "\<not> P y" using assms(2) by blast
qed

lemma raw_stream_prefix_filter:
  "raw_stream_prefix m p = filter (\<lambda>kv. prefix p (fst kv)) (raw_stream m)"
proof -
  have "takeWhile (\<lambda>kv. prefix p (fst kv)) (raw_stream_from m p)
      = filter (\<lambda>kv. prefix p (fst kv)) (raw_stream_from m p)"
    by (rule sorted_tail_false [where f = fst])
      (auto simp: raw_stream_from_def sorted_raw_stream sorted_filter dest: prefix_between)
  then show ?thesis
    by (auto simp: raw_stream_prefix_def raw_stream_from_def intro!: filter_cong dest: prefix_le)
qed

lemma raw_keys_prefix_filter: "raw_keys_prefix m p = filter (prefix p) (raw_keys m)"
  using raw_stream_prefix_filter [of m p]
  by (simp add: raw_keys_prefix_def raw_keys_from_def raw_keys_def raw_stream_prefix_def takeWhile_map filter_map comp_def)

lemma mem_raw_stream_prefix:
  "kv \<in> set (raw_stream_prefix m p) \<longleftrightarrow> kv \<in> set m \<and> prefix p (fst kv)"
  by (auto simp: raw_stream_prefix_filter)

section \<open>Properties\<close>

text \<open>
  C37: A scan by the leading fields of a tuple and the interfix directive yields, in the order of the keys,
  exactly the entries whose key has these leading fields: the separator keeps a string apart from the
  longer strings it is a prefix of.
\<close>

theorem prefix_scan_exact:
  assumes "hm_ok m" "leading_ok json_ok ws tys" "fields_ok json_ok vs (tys @ tys')" "tys' \<noteq> []"
    "serialize (VTuple vs) = Inr key" "map_of m key = Some val"
  shows "\<exists>kvs. stream_prefix_raw m (VTuple (ws @ [VInterfix])) = Inr kvs
    \<and> sorted (map fst kvs) \<and> set kvs \<subseteq> set m
    \<and> ((key, val) \<in> set kvs \<longleftrightarrow> take (length ws) vs = ws)"
proof -
  obtain p where p: "serialize (VTuple (ws @ [VInterfix])) = Inr p"
    using ser_interfix [OF assms(2)] by blast
  have "(key, val) \<in> set m" using map_of_hm_ok [OF assms(1)] assms(6) by blast
  then have "(key, val) \<in> set (raw_stream_prefix m p) \<longleftrightarrow> take (length ws) vs = ws"
    using key_prefix_iff [OF assms(2-4) p assms(5)] by (simp add: mem_raw_stream_prefix)
  moreover have "sorted (map fst (raw_stream_prefix m p))"
    by (simp add: raw_stream_prefix_filter sorted_filter sorted_raw_stream)
  ultimately show ?thesis using p by (auto simp: stream_prefix_raw_def mem_raw_stream_prefix)
qed

text \<open>
  The reverse scan by a prefix starts at the prefix itself and goes down, so it never yields an entry
  whose key is longer than the prefix: the result is the entry stored under the prefix, if there is one.
\<close>

lemma rev_prefix_scan:
  assumes "hm_ok m"
  shows "rev_raw_stream_prefix m p = (case db_get m p of None \<Rightarrow> [] | Some v \<Rightarrow> [(p, v)])"
proof -
  let ?P = "\<lambda>kv. prefix p (fst kv)" and ?xs = "rev_raw_stream_from m p"
  have only: "?P kv \<longleftrightarrow> fst kv = p" if "kv \<in> set ?xs" for kv
    using that prefix_le [of p "fst kv"] by (auto simp: rev_raw_stream_from_def)
  have xs: "set ?xs = {kv \<in> set m. fst kv \<le> p}" by (auto simp: rev_raw_stream_from_def rev_raw_stream_def)
  have dist: "distinct (map fst (raw_stream m))"
    using assms by (simp add: raw_stream_def distinct_map) 
  show ?thesis
  proof (cases "db_get m p")
    case None
    then have "\<not> ?P kv" if "kv \<in> set ?xs" for kv
      using that only xs by (auto simp: db_get_def map_of_eq_None_iff)
    then have "takeWhile ?P ?xs = []" by (cases ?xs) auto
    with None show ?thesis by (simp add: rev_raw_stream_prefix_def)
  next
    case (Some v)
    then have v: "(p, v) \<in> set ?xs" using xs map_of_hm_ok [OF assms] by (auto simp: db_get_def)
    then obtain kv kvs where cons: "?xs = kv # kvs" by (cases ?xs) auto
    have desc: "sorted_wrt (\<lambda>x y. fst x > fst y) ?xs"
    proof -
      have "sorted_wrt (\<lambda>x y. fst x < fst y) (raw_stream m)"
        using dist sorted_raw_stream [of m] by (simp add: strict_sorted_iff sorted_wrt_map [symmetric])
      then show ?thesis
        by (simp add: rev_raw_stream_from_def rev_raw_stream_def sorted_wrt_filter sorted_wrt_rev)
    qed
    have "kv \<in> set m" "fst kv \<le> p" "kv = (p, v) \<or> p < fst kv" using cons desc v xs by auto
    then have kv: "kv = (p, v)" by auto
    have "\<not> ?P x" if "x \<in> set kvs" for x using that desc cons only kv by auto
    then have "takeWhile ?P kvs = []" by (cases kvs) auto
    with Some cons kv show ?thesis by (simp add: rev_raw_stream_prefix_def)
  qed
qed

section \<open>Examples\<close>

text \<open>Two keys whose first fields are \<open>a\<close> and \<open>ab\<close>.\<close>

definition demo_map :: db_map where
  "demo_map = [([97, 255, 120], [1]), ([97, 98, 255, 121], [2])]"

lemma codec_roundtrip_witness:
  "\<exists>bytes d. serialize (VTuple [VStr [97], VU64 7, VStr []]) = Inr bytes
    \<and> from_slice_state (\<lambda>_. True) (TTuple [TStr, TU64, TStr]) bytes = Inr (VTuple [VStr [97], VU64 7, VStr []], d)
    \<and> finished bytes d"
  by (rule codec_roundtrip) (simp_all)

lemma prefix_scan_exact_witness:
  "\<exists>kvs. stream_prefix_raw demo_map (VTuple ([VStr [97]] @ [VInterfix])) = Inr kvs
    \<and> ([97, 98, 255, 121], [2]) \<notin> set kvs"
proof -
  have "hm_ok demo_map" "leading_ok (\<lambda>_. True) [VStr [97]] [TStr]"
    "fields_ok (\<lambda>_. True) [VStr [97, 98], VStr [121]] ([TStr] @ [TStr])"
    "serialize (VTuple [VStr [97, 98], VStr [121]]) = Inr [97, 98, 255, 121]"
    "map_of demo_map [97, 98, 255, 121] = Some [2]"
    by (simp_all add: demo_map_def leading_ok_def serialize_def SEP_def)
  from prefix_scan_exact [OF this(1-3) _ this(4,5)] show ?thesis by auto
qed

end
