(* ===== verification/Sending.thy ===== *)
theory Sending
  imports DbMap PduId ShortIds
begin

text \<open>
  The sending service, \<^verbatim>\<open>src/service/sending\<close>: events for other servers, appservices and push gateways
  are queued in the database (\<open>servernameevent_data\<close>), moved to the active column (\<open>servercurrentevent_data\<close>)
  when a transaction with them starts, and deleted when it succeeds.  A worker keeps one status per
  destination.  The requests themselves are the environment: a transaction in flight ends with success
  or failure at any time.  Identifiers are the bytes of their strings; one worker is modelled, the
  destinations of the others are disjoint.
\<close>

section \<open>Destinations, events and keys\<close>

datatype Destination = Appservice "u8 list" | Push "u8 list" "u8 list" | Federation "u8 list"

datatype SendingEvent = EvPdu RawId | EvEdu "u8 list" | Flush

datatype SendError = BadDatabase | SendPanic

type_synonym QueueItem = "u8 list \<times> SendingEvent"

definition PLUS :: u8 where "PLUS = 0x2B"
definition DOLLAR :: u8 where "DOLLAR = 0x24"

fun get_prefix :: "Destination \<Rightarrow> u8 list" where
  "get_prefix (Federation server) = server @ [SEP]"
| "get_prefix (Appservice server) = PLUS # server @ [SEP]"
| "get_prefix (Push user pushkey) = DOLLAR # user @ [SEP] @ pushkey @ [SEP]"

text \<open>\<open>splitn\<close> at the separator: the part before the first one, and what follows it.\<close>

definition split_sep :: "u8 list \<Rightarrow> u8 list \<times> u8 list option" where
  "split_sep bs =
     (takeWhile (\<lambda>b. b \<noteq> SEP) bs,
      case dropWhile (\<lambda>b. b \<noteq> SEP) bs of [] \<Rightarrow> None | _ # rest \<Rightarrow> Some rest)"

text \<open>An entry with no value is an event; reading its id panics on a wrong length.\<close>

definition event_of :: "u8 list \<Rightarrow> u8 list \<Rightarrow> SendError + SendingEvent" where
  "event_of event value =
     (if value = [] then rbind (ok_or SendPanic (raw_from_bytes event)) (\<lambda>r. Inr (EvPdu r))
      else Inr (EvEdu value))"

definition parse_servercurrentevent ::
    "id_checks \<Rightarrow> u8 list \<Rightarrow> u8 list \<Rightarrow> SendError + Destination \<times> SendingEvent" where
  "parse_servercurrentevent R key value =
     (if key \<noteq> [] \<and> hd key = PLUS then
        (let (server, rest) = split_sep (tl key) in
         rbind (ok_or BadDatabase rest) (\<lambda>event.
         rbind (ok_or BadDatabase (str_from_bytes server)) (\<lambda>server.
         rbind (event_of event value) (\<lambda>e. Inr (Appservice server, e)))))
      else if key \<noteq> [] \<and> hd key = DOLLAR then
        (let (user, rest) = split_sep (tl key) in
         rbind (ok_or BadDatabase (str_from_bytes user)) (\<lambda>user.
         if \<not> user_id_ok R user then Inl BadDatabase
         else rbind (ok_or BadDatabase rest) (\<lambda>rest.
           let (pushkey, rest) = split_sep rest in
           rbind (ok_or BadDatabase (str_from_bytes pushkey)) (\<lambda>pushkey.
           rbind (ok_or BadDatabase rest) (\<lambda>event.
           rbind (event_of event value) (\<lambda>e. Inr (Push user pushkey, e)))))))
      else
        (let (server, rest) = split_sep key in
         rbind (ok_or BadDatabase rest) (\<lambda>event.
         rbind (ok_or BadDatabase (str_from_bytes server)) (\<lambda>server.
         if \<not> server_name_ok R server then Inl BadDatabase
         else rbind (event_of event value) (\<lambda>e. Inr (Federation server, e))))))"

section \<open>The columns\<close>

record sending_data =
  send_short :: short_data
  servercurrentevent_data :: db_map
  servernameevent_data :: db_map
  servername_educount :: "(u8 list, u64) hash_map"

definition event_value :: "SendingEvent \<Rightarrow> u8 list" where
  "event_value e = (case e of EvEdu v \<Rightarrow> v | _ \<Rightarrow> [])"

definition delete_active_request :: "u8 list \<Rightarrow> sending_data \<Rightarrow> sending_data" where
  "delete_active_request key s = s\<lparr>servercurrentevent_data := db_remove key (servercurrentevent_data s)\<rparr>"

definition remove_prefix :: "u8 list \<Rightarrow> db_map \<Rightarrow> db_map" where
  "remove_prefix p m = fold db_remove (raw_keys_prefix m p) m"

definition delete_all_active_requests_for :: "Destination \<Rightarrow> sending_data \<Rightarrow> sending_data" where
  "delete_all_active_requests_for dest s =
     s\<lparr>servercurrentevent_data := remove_prefix (get_prefix dest) (servercurrentevent_data s)\<rparr>"

definition delete_all_requests_for :: "Destination \<Rightarrow> sending_data \<Rightarrow> sending_data" where
  "delete_all_requests_for dest s =
     s\<lparr>servercurrentevent_data := remove_prefix (get_prefix dest) (servercurrentevent_data s),
       servernameevent_data := remove_prefix (get_prefix dest) (servernameevent_data s)\<rparr>"

definition mark_one_active :: "QueueItem \<Rightarrow> sending_data \<Rightarrow> sending_data" where
  "mark_one_active item s =
     (if fst item = [] then s
      else s\<lparr>servercurrentevent_data := db_insert (fst item) (event_value (snd item)) (servercurrentevent_data s),
             servernameevent_data := db_remove (fst item) (servernameevent_data s)\<rparr>)"

definition mark_as_active :: "QueueItem list \<Rightarrow> sending_data \<Rightarrow> sending_data" where
  "mark_as_active events s = fold mark_one_active events s"

text \<open>Reading a column: an entry that does not parse is a panic.\<close>

fun parse_items :: "id_checks \<Rightarrow> (u8 list \<times> u8 list) list \<Rightarrow> SendError + (u8 list \<times> SendingEvent \<times> Destination) list" where
  "parse_items R [] = Inr []"
| "parse_items R ((key, val) # kvs) =
     (case parse_servercurrentevent R key val of
        Inl _ \<Rightarrow> Inl SendPanic
      | Inr (dest, event) \<Rightarrow> rbind (parse_items R kvs) (\<lambda>items. Inr ((key, event, dest) # items)))"

definition active_requests :: "id_checks \<Rightarrow> sending_data \<Rightarrow> SendError + (u8 list \<times> SendingEvent \<times> Destination) list" where
  "active_requests R s = parse_items R (raw_stream (servercurrentevent_data s))"

definition column_items :: "id_checks \<Rightarrow> Destination \<Rightarrow> db_map \<Rightarrow> SendError + QueueItem list" where
  "column_items R dest m =
     rbind (parse_items R (raw_stream_prefix m (get_prefix dest)))
       (\<lambda>items. Inr (map (\<lambda>(key, event, _). (key, event)) items))"

definition active_requests_for :: "id_checks \<Rightarrow> Destination \<Rightarrow> sending_data \<Rightarrow> SendError + QueueItem list" where
  "active_requests_for R dest s = column_items R dest (servercurrentevent_data s)"

definition queued_requests :: "id_checks \<Rightarrow> Destination \<Rightarrow> sending_data \<Rightarrow> SendError + QueueItem list" where
  "queued_requests R dest s = column_items R dest (servernameevent_data s)"

fun queue_keys :: "(SendingEvent \<times> Destination) list \<Rightarrow> short_data \<Rightarrow> u8 list list \<times> short_data" where
  "queue_keys [] s = ([], s)"
| "queue_keys ((event, dest) # reqs) s =
     (let (suffix, s1) = (case event of
            EvPdu raw \<Rightarrow> (as_bytes raw, s)
          | _ \<Rightarrow> (let (count, s1) = next_count s in (to_be_bytes count, s1)));
          (keys, s2) = queue_keys reqs s1
      in ((get_prefix dest @ suffix) # keys, s2))"

definition queue_requests :: "(SendingEvent \<times> Destination) list \<Rightarrow> sending_data \<Rightarrow> u8 list list \<times> sending_data" where
  "queue_requests reqs s =
     (let (keys, short) = queue_keys reqs (send_short s)
      in (keys, s\<lparr>send_short := short,
                 servernameevent_data :=
                   db_insert_batch (zip keys (map (\<lambda>r. event_value (fst r)) reqs)) (servernameevent_data s)\<rparr>))"

definition set_latest_educount :: "u8 list \<Rightarrow> u64 \<Rightarrow> sending_data \<Rightarrow> sending_data" where
  "set_latest_educount server count s = s\<lparr>servername_educount := hm_insert server count (servername_educount s)\<rparr>"

definition get_latest_educount :: "u8 list \<Rightarrow> sending_data \<Rightarrow> u64" where
  "get_latest_educount server s = (case map_of (servername_educount s) server of None \<Rightarrow> 0 | Some c \<Rightarrow> c)"

section \<open>Selecting ephemeral data\<close>

definition EDU_LIMIT :: nat where "EDU_LIMIT = 100"
definition SELECT_EDU_LIMIT :: nat where "SELECT_EDU_LIMIT = EDU_LIMIT - 2"
definition SELECT_PRESENCE_LIMIT :: nat where "SELECT_PRESENCE_LIMIT = 256"
definition SELECT_RECEIPT_LIMIT :: nat where "SELECT_RECEIPT_LIMIT = 256"
definition DEQUEUE_LIMIT :: nat where "DEQUEUE_LIMIT = 48"

text \<open>
  A stored read receipt as its parser reads it: not a room event, an event of another kind, or a receipt
  with its content, for each event the receipts of each type by user.
\<close>

datatype ReceiptType = ReceiptRead | ReceiptReadPrivate | ReceiptCustom "u8 list"

type_synonym receipt_content =
  "(u8 list, (ReceiptType, (u8 list, u8 list) hash_map) hash_map) hash_map"

datatype stored_receipt = InvalidReceipt | OtherEphemeral | ReceiptEvent receipt_content

text \<open>\<open>ReceiptData\<close>: the receipt and the ids of its events.\<close>

type_synonym ReceiptData = "u8 list \<times> u8 list list"

text \<open>
  What the other services deliver, as arguments: the rooms of a server, the key changes, receipts and
  presence updates after a count in the order of the counts (\<^const>\<open>None\<close> for a presence that does not parse),
  who is local and visible, and the JSON texts of the resulting messages.
\<close>

record edu_sources =
  server_rooms :: "u8 list \<Rightarrow> u8 list list"
  room_keys_changed :: "u8 list \<Rightarrow> u64 \<Rightarrow> (u8 list \<times> u64) list"
  readreceipts_since :: "u8 list \<Rightarrow> u64 \<Rightarrow> (u8 list \<times> u64 \<times> stored_receipt) list"
  presence_since :: "u64 \<Rightarrow> (u8 list \<times> u64 \<times> u8 list option) list"
  user_is_local :: "u8 list \<Rightarrow> bool"
  server_sees_user :: "u8 list \<Rightarrow> u8 list \<Rightarrow> bool"
  device_list_edu :: "u8 list \<Rightarrow> u8 list"
  receipt_edu :: "(u8 list \<times> (u8 list, ReceiptData) hash_map) list \<Rightarrow> u8 list"
  presence_edu :: "(u8 list, u8 list) hash_map \<Rightarrow> u8 list"

record sender_config =
  sender_timeout :: nat
  sender_retry_backoff_limit :: nat
  startup_netburst_on :: bool
  startup_netburst_keep :: int
  allow_outgoing_read_receipts :: bool
  allow_outgoing_presence :: bool

text \<open>The key changes of one room; the flag says that the limit was reached.\<close>

fun device_changes_room ::
    "edu_sources \<Rightarrow> u64 \<Rightarrow> (u8 list \<times> u64) list \<Rightarrow> u8 list hash_set \<times> u64 \<times> u8 list list
     \<Rightarrow> (u8 list hash_set \<times> u64 \<times> u8 list list) \<times> bool" where
  "device_changes_room S upper [] st = (st, False)"
| "device_changes_room S upper ((user, count) # changes) (seen, max_count, events) =
     (if count > upper then ((seen, max_count, events), False)
      else
        let max_count' = max max_count count in
        if user \<in> set seen then device_changes_room S upper changes (seen, max_count', events)
        else
          let events' = events @ [device_list_edu S user] in
          if length events \<ge> SELECT_EDU_LIMIT - 1 then ((hs_insert user seen, max_count', events'), True)
          else device_changes_room S upper changes (hs_insert user seen, max_count', events'))"

fun device_changes_rooms ::
    "edu_sources \<Rightarrow> u64 \<times> u64 \<Rightarrow> u8 list list \<Rightarrow> u8 list hash_set \<times> u64 \<times> u8 list list
     \<Rightarrow> u8 list hash_set \<times> u64 \<times> u8 list list" where
  "device_changes_rooms S since [] st = st"
| "device_changes_rooms S since (room # rooms) st =
     (let changes = filter (\<lambda>(user, _). user_is_local S user) (room_keys_changed S room (fst since));
          (st', stop) = device_changes_room S (snd since) changes st
      in if stop then st' else device_changes_rooms S since rooms st')"

definition select_edus_device_changes ::
    "edu_sources \<Rightarrow> u8 list \<Rightarrow> u64 \<times> u64 \<Rightarrow> u64 \<Rightarrow> u8 list list \<times> u64" where
  "select_edus_device_changes S server since max_count =
     (let (_, max_count', events) = device_changes_rooms S since (server_rooms S server) ([], max_count, [])
      in (events, max_count'))"

text \<open>
  The receipt of a user: that of the first event of the contents.  Each of the three \<open>expect\<close> calls is a
  panic.
\<close>

definition read_receipt_of :: "u8 list \<Rightarrow> receipt_content \<Rightarrow> SendError + ReceiptData" where
  "read_receipt_of user contents =
     (case contents of
        [] \<Rightarrow> Inl SendPanic
      | (ev_id, receipt) # _ \<Rightarrow>
          rbind (ok_or SendPanic (map_of receipt ReceiptRead)) (\<lambda>by_user.
          rbind (ok_or SendPanic (map_of by_user user)) (\<lambda>data. Inr (data, [ev_id]))))"

fun receipts_room ::
    "edu_sources \<Rightarrow> u64 \<Rightarrow> (u8 list \<times> u64 \<times> stored_receipt) list \<Rightarrow> nat \<Rightarrow> u64 \<Rightarrow> (u8 list, ReceiptData) hash_map
     \<Rightarrow> SendError + (u8 list, ReceiptData) hash_map \<times> u64" where
  "receipts_room S upper [] num max_count read = Inr (read, max_count)"
| "receipts_room S upper ((user, count, receipt) # rs) num max_count read =
     (if count > upper then Inr (read, max_count)
      else
        let max_count' = max max_count count in
        if \<not> user_is_local S user then receipts_room S upper rs num max_count' read
        else case receipt of
          ReceiptEvent contents \<Rightarrow>
            (case read_receipt_of user contents of
               Inl e \<Rightarrow> Inl e
             | Inr data \<Rightarrow>
                 let read' = hm_insert user data read in
                 if map_of read user = None then
                   if Suc num \<ge> SELECT_RECEIPT_LIMIT then Inr (read', max_count')
                   else receipts_room S upper rs (Suc num) max_count' read'
                 else receipts_room S upper rs num max_count' read')
        | _ \<Rightarrow> receipts_room S upper rs num max_count' read)"

text \<open>Every room counts its receipts from zero: the counter is copied into the future of the room.\<close>

fun select_receipts_rooms ::
    "edu_sources \<Rightarrow> u64 \<times> u64 \<Rightarrow> u8 list list \<Rightarrow> u64
     \<Rightarrow> SendError + (u8 list \<times> (u8 list, ReceiptData) hash_map) list \<times> u64" where
  "select_receipts_rooms S since [] max_count = Inr ([], max_count)"
| "select_receipts_rooms S since (room # rooms) max_count =
     rbind (receipts_room S (snd since) (readreceipts_since S room (fst since)) 0 max_count []) (\<lambda>(read, max1).
     rbind (select_receipts_rooms S since rooms max1) (\<lambda>(receipts, max2).
     Inr (if read = [] then receipts else (room, read) # receipts, max2)))"

definition select_edus_receipts ::
    "edu_sources \<Rightarrow> u8 list \<Rightarrow> u64 \<times> u64 \<Rightarrow> u64 \<Rightarrow> SendError + u8 list option \<times> u64" where
  "select_edus_receipts S server since max_count =
     rbind (select_receipts_rooms S since (server_rooms S server) max_count) (\<lambda>(receipts, max_count').
     Inr (if receipts = [] then None else Some (receipt_edu S receipts), max_count'))"

fun presence_updates ::
    "edu_sources \<Rightarrow> u8 list \<Rightarrow> u64 \<Rightarrow> (u8 list \<times> u64 \<times> u8 list option) list \<Rightarrow> u64 \<Rightarrow> (u8 list, u8 list) hash_map
     \<Rightarrow> (u8 list, u8 list) hash_map \<times> u64" where
  "presence_updates S server upper [] max_count ups = (ups, max_count)"
| "presence_updates S server upper ((user, count, presence) # ps) max_count ups =
     (if count > upper then (ups, max_count)
      else
        let max_count' = max max_count count in
        if \<not> user_is_local S user \<or> \<not> server_sees_user S server user
        then presence_updates S server upper ps max_count' ups
        else case presence of
               None \<Rightarrow> presence_updates S server upper ps max_count' ups
             | Some update \<Rightarrow>
                 let ups' = hm_insert user update ups in
                 if length ups' \<ge> SELECT_PRESENCE_LIMIT then (ups', max_count')
                 else presence_updates S server upper ps max_count' ups')"

definition select_edus_presence ::
    "edu_sources \<Rightarrow> u8 list \<Rightarrow> u64 \<times> u64 \<Rightarrow> u64 \<Rightarrow> u8 list option \<times> u64" where
  "select_edus_presence S server since max_count =
     (let (ups, max_count') = presence_updates S server (snd since) (presence_since S (fst since)) max_count []
      in (if ups = [] then None else Some (presence_edu S ups), max_count'))"

text \<open>The three selections run concurrently and share the largest count seen; here one after the other.\<close>

definition select_edus ::
    "sender_config \<Rightarrow> edu_sources \<Rightarrow> u8 list \<Rightarrow> sending_data \<Rightarrow> SendError + u8 list list \<times> u64" where
  "select_edus C S server s =
     (let since = (get_latest_educount server s, counter (send_short s));
          (device_changes, max1) = select_edus_device_changes S server since (fst since)
      in rbind (if allow_outgoing_read_receipts C
                then select_edus_receipts S server since max1 else Inr (None, max1)) (\<lambda>(receipts, max2).
         let (presence, max3) = (if allow_outgoing_presence C
                                 then select_edus_presence S server since max2 else (None, max2))
         in Inr (device_changes @ (case presence of None \<Rightarrow> [] | Some e \<Rightarrow> [e])
              @ (case receipts of None \<Rightarrow> [] | Some e \<Rightarrow> [e]), max3)))"

text \<open>
  What the worker relies on from the client handlers: a stored receipt of a local user has an event, and
  its first event a public read receipt of this user (the messages of the three \<open>expect\<close> calls).
\<close>

definition receipts_wf :: "edu_sources \<Rightarrow> bool" where
  "receipts_wf S \<longleftrightarrow>
     (\<forall>room since user count contents.
        (user, count, ReceiptEvent contents) \<in> set (readreceipts_since S room since) \<and> user_is_local S user \<longrightarrow>
        (\<exists>ev_id receipt more by_user data. contents = (ev_id, receipt) # more
           \<and> map_of receipt ReceiptRead = Some by_user \<and> map_of by_user user = Some data))"

section \<open>The worker\<close>

datatype TransactionStatus = Running | Failed nat nat | Retrying nat

record Msg =
  msg_dest :: Destination
  msg_event :: SendingEvent
  queue_id :: "u8 list"

text \<open>The worker with its channel and its transactions in flight; the clock is in nanoseconds.\<close>

record sender =
  sdata :: sending_data
  statuses :: "(Destination, TransactionStatus) hash_map"
  futures :: "(Destination \<times> SendingEvent list) list"
  channel :: "Msg list"
  clock :: nat

definition duration_max :: nat where "duration_max = 18446744073709551615999999999"

definition from_secs :: "nat \<Rightarrow> nat" where "from_secs n = n * 1000000000"

definition duration_mul :: "nat \<Rightarrow> nat \<Rightarrow> nat" where "duration_mul d n = min (d * n) duration_max"

definition continue_exponential_backoff :: "nat \<Rightarrow> nat \<Rightarrow> nat \<Rightarrow> nat \<Rightarrow> bool" where
  "continue_exponential_backoff mn mx elapsed tries \<longleftrightarrow>
     elapsed < min (duration_mul (duration_mul mn tries) tries) mx"

definition continue_exponential_backoff_secs :: "nat \<Rightarrow> nat \<Rightarrow> nat \<Rightarrow> nat \<Rightarrow> bool" where
  "continue_exponential_backoff_secs mn mx elapsed tries \<longleftrightarrow>
     continue_exponential_backoff (from_secs mn) (from_secs mx) elapsed tries"

definition u32_saturating_inc :: "nat \<Rightarrow> nat" where
  "u32_saturating_inc n = min (Suc n) 4294967295"

definition is_appservice :: "Destination \<Rightarrow> bool" where
  "is_appservice d \<longleftrightarrow> (case d of Appservice _ \<Rightarrow> True | _ \<Rightarrow> False)"

text \<open>Whether a transaction may start, and whether it is a retry.\<close>

definition select_events_current ::
    "sender_config \<Rightarrow> Destination \<Rightarrow> sender \<Rightarrow> (bool \<times> bool) \<times> sender" where
  "select_events_current C dest s =
     (case map_of (statuses s) dest of
        None \<Rightarrow> ((True, False), s\<lparr>statuses := hm_insert dest Running (statuses s)\<rparr>)
      | Some (Failed tries time) \<Rightarrow>
          if continue_exponential_backoff_secs (sender_timeout C) (sender_retry_backoff_limit C)
               (clock s - time) tries \<and> \<not> is_appservice dest
          then ((False, False), s)
          else ((True, True), s\<lparr>statuses := hm_insert dest (Retrying tries) (statuses s)\<rparr>)
      | Some _ \<Rightarrow> ((False, False), s))"

definition add_edus ::
    "sender_config \<Rightarrow> edu_sources \<Rightarrow> Destination \<Rightarrow> sender \<Rightarrow> SendError + SendingEvent list \<times> sender" where
  "add_edus C S dest s =
     (case dest of
        Federation server \<Rightarrow>
          rbind (select_edus C S server (sdata s)) (\<lambda>(edus, last_count).
          Inr (map EvEdu edus, s\<lparr>sdata := set_latest_educount server last_count (sdata s)\<rparr>))
      | _ \<Rightarrow> Inr ([], s))"

definition select_events ::
    "id_checks \<Rightarrow> sender_config \<Rightarrow> edu_sources \<Rightarrow> Destination \<Rightarrow> QueueItem list \<Rightarrow> sender
     \<Rightarrow> SendError + SendingEvent list option \<times> sender" where
  "select_events R C S dest new_events s =
     (let ((allow, retry), s1) = select_events_current C dest s
      in if \<not> allow then Inr (None, s1)
         else if retry then
           rbind (active_requests_for R dest (sdata s1)) (\<lambda>items. Inr (Some (map snd items), s1))
         else
           let s2 = s1\<lparr>sdata := mark_as_active new_events (sdata s1)\<rparr>
           in rbind (add_edus C S dest s2) (\<lambda>(edus, s3). Inr (Some (map snd new_events @ edus), s3)))"

definition start_transaction :: "Destination \<Rightarrow> SendingEvent list \<Rightarrow> sender \<Rightarrow> sender" where
  "start_transaction dest events s = s\<lparr>futures := futures s @ [(dest, events)]\<rparr>"

definition forget_status :: "Destination \<Rightarrow> sender \<Rightarrow> sender" where
  "forget_status dest s = s\<lparr>statuses := AList.delete dest (statuses s)\<rparr>"

definition handle_request ::
    "id_checks \<Rightarrow> sender_config \<Rightarrow> edu_sources \<Rightarrow> Msg \<Rightarrow> sender \<Rightarrow> SendError + sender" where
  "handle_request R C S msg s =
     rbind (select_events R C S (msg_dest msg) [(queue_id msg, msg_event msg)] s) (\<lambda>(selected, s1).
     case selected of
       None \<Rightarrow> Inr s1
     | Some events \<Rightarrow>
         if events \<noteq> [] then Inr (start_transaction (msg_dest msg) events s1)
         else Inr (forget_status (msg_dest msg) s1))"

definition handle_response_err :: "Destination \<Rightarrow> sender \<Rightarrow> SendError + sender" where
  "handle_response_err dest s =
     (case map_of (statuses s) dest of
        None \<Rightarrow> Inr s
      | Some Running \<Rightarrow> Inr (s\<lparr>statuses := hm_insert dest (Failed 1 (clock s)) (statuses s)\<rparr>)
      | Some (Retrying n) \<Rightarrow>
          Inr (s\<lparr>statuses := hm_insert dest (Failed (u32_saturating_inc n) (clock s)) (statuses s)\<rparr>)
      | Some (Failed _ _) \<Rightarrow> Inl SendPanic)"

definition handle_response_ok :: "id_checks \<Rightarrow> Destination \<Rightarrow> sender \<Rightarrow> SendError + sender" where
  "handle_response_ok R dest s =
     (let s1 = s\<lparr>sdata := delete_all_active_requests_for dest (sdata s)\<rparr>
      in rbind (queued_requests R dest (sdata s1)) (\<lambda>items.
         let new_events = take DEQUEUE_LIMIT items
         in if new_events \<noteq> [] then
              Inr (start_transaction dest (map snd new_events)
                     (s1\<lparr>sdata := mark_as_active new_events (sdata s1)\<rparr>))
            else Inr (forget_status dest s1)))"

definition handle_response :: "id_checks \<Rightarrow> Destination \<times> bool \<Rightarrow> sender \<Rightarrow> SendError + sender" where
  "handle_response R response s =
     (if snd response then handle_response_ok R (fst response) s else handle_response_err (fst response) s)"

text \<open>Start-up: the active entries of this worker are sent again, those beyond \<open>keep\<close> are dropped.\<close>

fun netburst_collect ::
    "sender_config \<Rightarrow> (Destination \<Rightarrow> bool) \<Rightarrow> (u8 list \<times> SendingEvent \<times> Destination) list
     \<Rightarrow> (Destination, SendingEvent list) hash_map \<Rightarrow> sending_data
     \<Rightarrow> (Destination, SendingEvent list) hash_map \<times> sending_data" where
  "netburst_collect C mine [] txns s = (txns, s)"
| "netburst_collect C mine ((key, event, dest) # items) txns s =
     (if \<not> mine dest then netburst_collect C mine items txns s
      else
        let entry = (case map_of txns dest of None \<Rightarrow> [] | Some es \<Rightarrow> es) in
        if startup_netburst_keep C \<ge> 0 \<and> int (length entry) \<ge> startup_netburst_keep C
        then netburst_collect C mine items (hm_insert dest entry txns) (delete_active_request key s)
        else netburst_collect C mine items (hm_insert dest (entry @ [event]) txns) s)"

definition startup_netburst ::
    "id_checks \<Rightarrow> sender_config \<Rightarrow> (Destination \<Rightarrow> bool) \<Rightarrow> sender \<Rightarrow> SendError + sender" where
  "startup_netburst R C mine s =
     rbind (active_requests R (sdata s)) (\<lambda>items.
     let (txns, data) = netburst_collect C mine items [] (sdata s)
     in Inr (fold (\<lambda>(dest, events) s.
               if startup_netburst_on C \<and> events \<noteq> []
               then start_transaction dest events (s\<lparr>statuses := hm_insert dest Running (statuses s)\<rparr>)
               else s) txns (s\<lparr>sdata := data\<rparr>)))"

definition finish_response :: "Destination \<times> bool \<Rightarrow> sender \<Rightarrow> sender" where
  "finish_response response s =
     (if snd response then s\<lparr>sdata := delete_all_active_requests_for (fst response) (sdata s)\<rparr> else s)"

section \<open>The interface of the service\<close>

definition dispatch :: "Msg \<Rightarrow> sender \<Rightarrow> sender" where
  "dispatch msg s = s\<lparr>channel := channel s @ [msg]\<rparr>"

definition send_requests :: "(Destination \<times> SendingEvent) list \<Rightarrow> sender \<Rightarrow> sender" where
  "send_requests reqs s =
     (let (keys, data) = queue_requests (map (\<lambda>(d, e). (e, d)) reqs) (sdata s)
      in fold (\<lambda>((d, e), key). dispatch \<lparr>msg_dest = d, msg_event = e, queue_id = key\<rparr>) (zip reqs keys)
           (s\<lparr>sdata := data\<rparr>))"

definition send_pdu_push :: "RawId \<Rightarrow> u8 list \<Rightarrow> u8 list \<Rightarrow> sender \<Rightarrow> sender" where
  "send_pdu_push pdu_id user pushkey s = send_requests [(Push user pushkey, EvPdu pdu_id)] s"

definition send_pdu_appservice :: "u8 list \<Rightarrow> RawId \<Rightarrow> sender \<Rightarrow> sender" where
  "send_pdu_appservice appservice pdu_id s = send_requests [(Appservice appservice, EvPdu pdu_id)] s"

definition send_pdu_servers :: "u8 list list \<Rightarrow> RawId \<Rightarrow> sender \<Rightarrow> sender" where
  "send_pdu_servers servers pdu_id s =
     send_requests (map (\<lambda>server. (Federation server, EvPdu pdu_id)) servers) s"

definition send_pdu_room :: "(u8 list \<Rightarrow> bool) \<Rightarrow> u8 list list \<Rightarrow> RawId \<Rightarrow> sender \<Rightarrow> sender" where
  "send_pdu_room server_is_ours room_servers pdu_id s =
     send_pdu_servers (filter (\<lambda>server. \<not> server_is_ours server) room_servers) pdu_id s"

definition send_edu_servers :: "u8 list list \<Rightarrow> u8 list \<Rightarrow> sender \<Rightarrow> sender" where
  "send_edu_servers servers edu s =
     send_requests (map (\<lambda>server. (Federation server, EvEdu edu)) servers) s"

definition send_edu_server :: "u8 list \<Rightarrow> u8 list \<Rightarrow> sender \<Rightarrow> sender" where
  "send_edu_server server edu s = send_requests [(Federation server, EvEdu edu)] s"

definition send_edu_room :: "(u8 list \<Rightarrow> bool) \<Rightarrow> u8 list list \<Rightarrow> u8 list \<Rightarrow> sender \<Rightarrow> sender" where
  "send_edu_room server_is_ours room_servers edu s =
     send_edu_servers (filter (\<lambda>server. \<not> server_is_ours server) room_servers) edu s"

definition flush_servers :: "u8 list list \<Rightarrow> sender \<Rightarrow> sender" where
  "flush_servers servers s =
     fold (\<lambda>server. dispatch \<lparr>msg_dest = Federation server, msg_event = Flush, queue_id = []\<rparr>) servers s"

definition flush_room :: "(u8 list \<Rightarrow> bool) \<Rightarrow> u8 list list \<Rightarrow> sender \<Rightarrow> sender" where
  "flush_room server_is_ours room_servers s =
     flush_servers (filter (\<lambda>server. \<not> server_is_ours server) room_servers) s"

definition cleanup_events ::
    "u8 list option \<Rightarrow> u8 list option \<Rightarrow> u8 list option \<Rightarrow> sender \<Rightarrow> sender" where
  "cleanup_events appservice user push_key s =
     (case (appservice, user, push_key) of
        (None, Some u, Some k) \<Rightarrow> s\<lparr>sdata := delete_all_requests_for (Push u k) (sdata s)\<rparr>
      | (Some a, None, None) \<Rightarrow> s\<lparr>sdata := delete_all_requests_for (Appservice a) (sdata s)\<rparr>
      | _ \<Rightarrow> s)"

section \<open>Keys name their destination\<close>

definition dest_ok :: "id_checks \<Rightarrow> Destination \<Rightarrow> bool" where
  "dest_ok R d \<longleftrightarrow>
     (case d of
        Appservice a \<Rightarrow> valid_utf8 a
      | Push u k \<Rightarrow> valid_utf8 u \<and> valid_utf8 k \<and> user_id_ok R u
      | Federation s \<Rightarrow> valid_utf8 s \<and> server_name_ok R s \<and> s \<noteq> [] \<and> hd s \<noteq> PLUS \<and> hd s \<noteq> DOLLAR)"

lemma split_sep_append: "SEP \<notin> set a \<Longrightarrow> split_sep (a @ SEP # r) = (a, Some r)"
proof -
  assume "SEP \<notin> set a"
  then have "\<forall>x \<in> set a. x \<noteq> SEP" by auto
  then have "takeWhile (\<lambda>b. b \<noteq> SEP) (a @ SEP # r) = a" "dropWhile (\<lambda>b. b \<noteq> SEP) (a @ SEP # r) = SEP # r"
    by (simp_all add: takeWhile_append2 dropWhile_append2)
  then show ?thesis by (simp add: split_sep_def)
qed

lemma parse_key:
  assumes "dest_ok R d"
  shows "parse_servercurrentevent R (get_prefix d @ sfx) v = rbind (event_of sfx v) (\<lambda>e. Inr (d, e))"
proof (cases d)
  case (Appservice a)
  with assms have "valid_utf8 a" "SEP \<notin> set a" by (auto simp: dest_ok_def dest: valid_utf8_no_sep)
  with Appservice show ?thesis
    by (simp add: parse_servercurrentevent_def split_sep_append str_from_bytes_def)
next
  case (Push u k)
  with assms have *: "valid_utf8 u" "SEP \<notin> set u" "valid_utf8 k" "SEP \<notin> set k" "user_id_ok R u"
    by (auto simp: dest_ok_def dest: valid_utf8_no_sep)
  then show ?thesis unfolding Push
    by (simp add: parse_servercurrentevent_def split_sep_append str_from_bytes_def PLUS_def DOLLAR_def)
next
  case (Federation s)
  with assms have *: "valid_utf8 s" "SEP \<notin> set s" "server_name_ok R s" "s \<noteq> []" "hd s \<noteq> PLUS" "hd s \<noteq> DOLLAR"
    by (auto simp: dest_ok_def dest: valid_utf8_no_sep)
  then show ?thesis unfolding Federation
    by (simp add: parse_servercurrentevent_def split_sep_append str_from_bytes_def hd_append)
qed

lemma prefix_unique:
  assumes "dest_ok R d" "dest_ok R d'" "get_prefix d @ x = get_prefix d' @ y"
  shows "d = d'" "x = y"
proof -
  have "Inr (d, EvEdu [0]) = (Inr (d', EvEdu [0]) :: SendError + Destination \<times> SendingEvent)"
    using parse_key [OF assms(1), of x "[0]"] parse_key [OF assms(2), of y "[0]"] assms(3)
    by (simp add: event_of_def)
  then show "d = d'" by simp
  with assms(3) show "x = y" by simp
qed

text \<open>An event that can be read back from its entry: an id of the right length, a text that is not empty.\<close>

definition sendable :: "SendingEvent \<Rightarrow> bool" where
  "sendable e \<longleftrightarrow> (case e of EvPdu r \<Rightarrow> rawid_wf r | EvEdu v \<Rightarrow> v \<noteq> [] | Flush \<Rightarrow> False)"

text \<open>The suffix of a key goes with an event.\<close>

definition suffix_ok :: "u8 list \<Rightarrow> SendingEvent \<Rightarrow> bool" where
  "suffix_ok sfx e \<longleftrightarrow> event_of sfx (event_value e) = Inr e"

lemma suffix_pdu: "rawid_wf r \<Longrightarrow> suffix_ok (as_bytes r) (EvPdu r)"
  by (simp add: suffix_ok_def event_of_def event_value_def raw_from_as_bytes)

lemma suffix_edu: "v \<noteq> [] \<Longrightarrow> suffix_ok sfx (EvEdu v)"
  by (simp add: suffix_ok_def event_of_def event_value_def)

lemma event_of_value: "event_of sfx v = Inr e \<Longrightarrow> event_value e = v"
  by (auto simp: event_of_def event_value_def result_simps split: if_splits)

lemma queue_keys_form:
  assumes "queue_keys reqs s = (keys, s')"
  shows "length keys = length reqs \<and> (\<forall>i < length reqs. sendable (fst (reqs ! i)) \<longrightarrow>
    (\<exists>sfx. keys ! i = get_prefix (snd (reqs ! i)) @ sfx \<and> suffix_ok sfx (fst (reqs ! i))))"
  using assms
proof (induction reqs s arbitrary: keys s' rule: queue_keys.induct)
  case (2 event dest reqs s)
  obtain sfx s1 where sfx: "(case event of EvPdu raw \<Rightarrow> (as_bytes raw, s)
      | _ \<Rightarrow> (let (count, s1) = next_count s in (to_be_bytes count, s1))) = (sfx, s1)" by fastforce
  obtain keys' where rest: "queue_keys reqs s1 = (keys', s')" "keys = (get_prefix dest @ sfx) # keys'"
    using "2.prems" sfx by (auto simp: Let_def split: prod.splits)
  have first: "suffix_ok sfx event" if "sendable event"
    using that sfx by (cases event) (auto simp: sendable_def suffix_pdu suffix_edu split: prod.splits)
  from "2.IH" [OF sfx [symmetric] refl rest(1)] rest(2) first show ?case
    by (auto simp: less_Suc_eq_0_disj)
qed auto

text \<open>
  C38: The database key of a queued event names its destination and its event: it is read back as both,
  and no other destination has a prefix of it.
\<close>

theorem sending_key_roundtrip:
  assumes "dest_ok R d" "sendable e" "queue_keys [(e, d)] s = ([key], s')"
  shows "parse_servercurrentevent R key (event_value e) = Inr (d, e)
    \<and> (\<forall>d'. dest_ok R d' \<longrightarrow> prefix (get_prefix d') key \<longrightarrow> d' = d)"
proof -
  obtain sfx where key: "key = get_prefix d @ sfx" "suffix_ok sfx e"
    using queue_keys_form [OF assms(3)] assms(2) by auto
  have "d' = d" if "dest_ok R d'" "prefix (get_prefix d') key" for d'
    using that(2) prefix_unique(1) [OF assms(1) that(1)] key(1) by (auto simp: prefix_def)
  with parse_key [OF assms(1), of sfx "event_value e"] key show ?thesis by (simp add: suffix_ok_def)
qed

section \<open>Columns\<close>

text \<open>An entry for a destination with an event that can be read; a column has only such entries.\<close>

definition entry_for :: "Destination \<Rightarrow> u8 list \<Rightarrow> u8 list \<Rightarrow> SendingEvent \<Rightarrow> bool" where
  "entry_for d k v e \<longleftrightarrow> (\<exists>sfx. k = get_prefix d @ sfx \<and> event_of sfx v = Inr e)"

definition col_ok :: "id_checks \<Rightarrow> db_map \<Rightarrow> bool" where
  "col_ok R m \<longleftrightarrow> hm_ok m \<and> (\<forall>k v. map_of m k = Some v \<longrightarrow> (\<exists>d e. dest_ok R d \<and> entry_for d k v e))"

lemma map_of_db_insert [simp]: "map_of (db_insert k v m) = (map_of m)(k \<mapsto> v)"
  by (simp add: db_insert_def)

lemma map_of_db_remove [simp]: "map_of (db_remove k m) = (map_of m)(k := None)"
  by (simp add: db_remove_def delete_conv')

lemma map_of_fold_remove: "map_of (fold db_remove ks m) = (\<lambda>k. if k \<in> set ks then None else map_of m k)"
  by (induction ks arbitrary: m) (auto simp: fun_eq_iff)

lemma map_of_remove_prefix:
  "map_of (remove_prefix p m) k = (if prefix p k then None else map_of m k)"
proof (cases "prefix p k \<and> k \<in> set (raw_keys m)")
  case False
  then have "prefix p k \<Longrightarrow> map_of m k = None"
    by (auto simp: raw_keys_def map_of_eq_None_iff)
  with False show ?thesis by (auto simp: remove_prefix_def map_of_fold_remove raw_keys_prefix_filter)
qed (simp add: remove_prefix_def map_of_fold_remove raw_keys_prefix_filter)

lemma hm_ok_db [simp]:
  "hm_ok m \<Longrightarrow> hm_ok (db_insert k v m)" "hm_ok m \<Longrightarrow> hm_ok (db_remove k m)"
  "hm_ok m \<Longrightarrow> hm_ok (remove_prefix p m)"
proof -
  show ins: "hm_ok m \<Longrightarrow> hm_ok (db_insert k v m)" by (simp add: db_insert_def)
  show del: "hm_ok m \<Longrightarrow> hm_ok (db_remove k m)" for k m by (simp add: db_remove_def distinct_delete)
  have "hm_ok m \<Longrightarrow> hm_ok (fold db_remove ks m)" for ks m
    by (induction ks arbitrary: m) (use del in auto)
  then show "hm_ok m \<Longrightarrow> hm_ok (remove_prefix p m)" by (simp add: remove_prefix_def)
qed

lemma col_ok_insert: "col_ok R m \<Longrightarrow> dest_ok R d \<Longrightarrow> entry_for d k v e \<Longrightarrow> col_ok R (db_insert k v m)"
  by (auto simp: col_ok_def)

lemma col_ok_remove: "col_ok R m \<Longrightarrow> col_ok R (db_remove k m)" "col_ok R m \<Longrightarrow> col_ok R (remove_prefix p m)"
  by (auto simp: col_ok_def map_of_remove_prefix split: if_splits)

lemma entry_for_unique:
  assumes "dest_ok R d" "dest_ok R d'" "entry_for d k v e" "entry_for d' k v' e'"
  shows "d' = d" "v = v' \<Longrightarrow> e' = e"
proof -
  obtain sfx sfx' where *: "k = get_prefix d @ sfx" "event_of sfx v = Inr e"
    "k = get_prefix d' @ sfx'" "event_of sfx' v' = Inr e'" using assms(3,4) unfolding entry_for_def by blast
  with prefix_unique [OF assms(1,2), of sfx sfx'] show "d' = d" "v = v' \<Longrightarrow> e' = e" by auto
qed

lemma entry_for_prefix:
  assumes "dest_ok R d" "dest_ok R d'" "entry_for d' k v e"
  shows "prefix (get_prefix d) k \<longleftrightarrow> d = d'"
proof -
  obtain sfx where k: "k = get_prefix d' @ sfx" using assms(3) unfolding entry_for_def by blast
  show ?thesis
  proof
    assume "prefix (get_prefix d) k"
    then obtain zs where "k = get_prefix d @ zs" by (rule prefixE)
    with k show "d = d'" by (intro prefix_unique(1) [OF assms(1,2), of zs sfx]) simp
  qed (simp add: k)
qed

lemma parse_items_ok:
  assumes "\<And>k v. (k, v) \<in> set kvs \<Longrightarrow> \<exists>d e. dest_ok R d \<and> entry_for d k v e"
  shows "\<exists>items. parse_items R kvs = Inr items \<and> map fst items = map fst kvs
    \<and> (\<forall>k e d. (k, e, d) \<in> set items \<longleftrightarrow> (\<exists>v. (k, v) \<in> set kvs \<and> dest_ok R d \<and> entry_for d k v e))"
  using assms
proof (induction kvs)
  case (Cons kv kvs)
  obtain k v where kv: "kv = (k, v)" by fastforce
  obtain d e where d: "dest_ok R d" "entry_for d k v e" using Cons.prems [of k v] kv by auto
  then have p: "parse_servercurrentevent R k v = Inr (d, e)"
    by (auto simp: entry_for_def parse_key)
  have only: "d' = d \<and> e' = e" if "dest_ok R d'" "entry_for d' k v e'" for d' e'
    using entry_for_unique [OF d(1) that(1) d(2) that(2)] by auto
  obtain items where items: "parse_items R kvs = Inr items" "map fst items = map fst kvs"
    "\<forall>k e d. (k, e, d) \<in> set items \<longleftrightarrow> (\<exists>v. (k, v) \<in> set kvs \<and> dest_ok R d \<and> entry_for d k v e)"
    using Cons.IH Cons.prems by auto
  have run: "parse_items R (kv # kvs) = Inr ((k, e, d) # items)" using items(1) p kv by simp
  have "(k', e', d') \<in> set ((k, e, d) # items) \<longleftrightarrow>
      (\<exists>w. (k', w) \<in> set (kv # kvs) \<and> dest_ok R d' \<and> entry_for d' k' w e')" for k' e' d'
  proof -
    have "(k', e', d') \<in> set items \<longleftrightarrow> (\<exists>w. (k', w) \<in> set kvs \<and> dest_ok R d' \<and> entry_for d' k' w e')"
      using items(3) by blast
    moreover have "(k', e', d') = (k, e, d) \<longleftrightarrow> k' = k \<and> dest_ok R d' \<and> entry_for d' k' v e'"
      using d only by blast
    ultimately show ?thesis unfolding kv list.set insert_iff by blast
  qed
  with run items(2) kv show ?case by (intro exI [of _ "(k, e, d) # items"]) simp
qed simp

lemma column_items_ok:
  assumes "col_ok R m" "dest_ok R d"
  shows "\<exists>items. column_items R d m = Inr items \<and> map fst items = raw_keys_prefix m (get_prefix d)
    \<and> (\<forall>k e. (k, e) \<in> set items \<longleftrightarrow> (\<exists>v. map_of m k = Some v \<and> entry_for d k v e))"
proof -
  let ?kvs = "raw_stream_prefix m (get_prefix d)"
  have mem: "(k, v) \<in> set ?kvs \<longleftrightarrow> map_of m k = Some v \<and> prefix (get_prefix d) k" for k v
    using assms(1) map_of_hm_ok by (fastforce simp: mem_raw_stream_prefix col_ok_def)
  have "\<exists>d e. dest_ok R d \<and> entry_for d k v e" if "(k, v) \<in> set ?kvs" for k v
    using that mem assms(1) by (auto simp: col_ok_def)
  from parse_items_ok [OF this] obtain items where items: "parse_items R ?kvs = Inr items"
    "map fst items = map fst ?kvs"
    "\<forall>k e d. (k, e, d) \<in> set items \<longleftrightarrow> (\<exists>v. (k, v) \<in> set ?kvs \<and> dest_ok R d \<and> entry_for d k v e)"
    by blast
  let ?r = "map (\<lambda>(key, event, _). (key, event)) items"
  have keys: "map fst ?kvs = raw_keys_prefix m (get_prefix d)"
    by (simp add: raw_keys_prefix_filter raw_stream_prefix_filter raw_keys_def filter_map comp_def)
  have "(k, e) \<in> set ?r \<longleftrightarrow> (\<exists>d'. (k, e, d') \<in> set items)" for k e by force
  then have "(k, e) \<in> set ?r \<longleftrightarrow> (\<exists>v. map_of m k = Some v \<and> entry_for d k v e)" for k e
  proof -
    have "(\<exists>d'. (k, e, d') \<in> set items) \<longleftrightarrow>
        (\<exists>d' v. map_of m k = Some v \<and> prefix (get_prefix d) k \<and> dest_ok R d' \<and> entry_for d' k v e)"
      using items(3) mem by blast
    also have "\<dots> \<longleftrightarrow> (\<exists>v. map_of m k = Some v \<and> entry_for d k v e)"
      using entry_for_prefix [OF assms(2)] assms(2) by blast
    finally show ?thesis by (simp only: \<open>\<And>e k. (k, e) \<in> set ?r \<longleftrightarrow> (\<exists>d'. (k, e, d') \<in> set items)\<close>)
  qed
  moreover have "map fst ?r = map fst items" by (simp add: comp_def case_prod_beta)
  ultimately show ?thesis using items(1,2) keys
    by (intro exI [of _ ?r]) (simp add: column_items_def)
qed

section \<open>What is active and what is pending\<close>

definition entries :: "db_map \<Rightarrow> Destination \<Rightarrow> QueueItem set" where
  "entries m d = {(k, e). \<exists>v. map_of m k = Some v \<and> entry_for d k v e}"

abbreviation active :: "sending_data \<Rightarrow> Destination \<Rightarrow> QueueItem set" where
  "active s \<equiv> entries (servercurrentevent_data s)"

definition pending_keys :: "sending_data \<Rightarrow> u8 list set" where
  "pending_keys s = dom (map_of (servercurrentevent_data s)) \<union> dom (map_of (servernameevent_data s))"

definition data_ok :: "id_checks \<Rightarrow> sending_data \<Rightarrow> bool" where
  "data_ok R s \<longleftrightarrow> col_ok R (servercurrentevent_data s) \<and> col_ok R (servernameevent_data s)"

text \<open>Items of one destination, as they are moved to the active column.\<close>

definition items_for :: "Destination \<Rightarrow> QueueItem list \<Rightarrow> bool" where
  "items_for d items \<longleftrightarrow> (\<forall>(k, e) \<in> set items. k = [] \<or> entry_for d k (event_value e) e)"

lemma entries_insert_other:
  assumes "dest_ok R d" "dest_ok R d'" "d' \<noteq> d" "entry_for d k v e"
  shows "entries (db_insert k v m) d' = entries m d'"
proof -
  have "\<not> entry_for d' k w e'" for w e'
    using entry_for_unique(1) [OF assms(1,2,4)] assms(3) by blast
  then show ?thesis by (auto simp: entries_def split: if_splits)
qed

lemma entries_insert:
  assumes "entry_for d k v e" shows "entries (db_insert k v m) d \<subseteq> insert (k, e) (entries m d)"
proof -
  have "e' = e" if "entry_for d k v e'" for e'
    using that assms unfolding entry_for_def by auto
  then show ?thesis by (auto simp: entries_def split: if_splits)
qed

lemma mark_one_active_spec:
  assumes "data_ok R s" "dest_ok R d" "items_for d [item]"
  shows "data_ok R (mark_one_active item s)"
    "active (mark_one_active item s) d \<subseteq> insert item (active s d)"
    "dest_ok R d' \<Longrightarrow> d' \<noteq> d \<Longrightarrow> active (mark_one_active item s) d' = active s d'"
    "pending_keys s \<subseteq> pending_keys (mark_one_active item s)"
proof -
  obtain k e where item: "item = (k, e)" by fastforce
  have ent: "k \<noteq> [] \<Longrightarrow> entry_for d k (event_value e) e" using assms(3) item by (auto simp: items_for_def)
  show "data_ok R (mark_one_active item s)"
    using assms(1,2) ent item by (auto simp: mark_one_active_def data_ok_def intro: col_ok_insert col_ok_remove)
  show "active (mark_one_active item s) d \<subseteq> insert item (active s d)"
    using entries_insert [OF ent] item by (auto simp: mark_one_active_def)
  show "dest_ok R d' \<Longrightarrow> d' \<noteq> d \<Longrightarrow> active (mark_one_active item s) d' = active s d'"
    using entries_insert_other [OF assms(2) _ _ ent] item by (auto simp: mark_one_active_def)
  show "pending_keys s \<subseteq> pending_keys (mark_one_active item s)"
    by (auto simp: mark_one_active_def pending_keys_def)
qed

lemma mark_as_active_spec:
  assumes "data_ok R s" "dest_ok R d" "items_for d items"
  shows "data_ok R (mark_as_active items s)
    \<and> active (mark_as_active items s) d \<subseteq> set items \<union> active s d
    \<and> (\<forall>d'. dest_ok R d' \<longrightarrow> d' \<noteq> d \<longrightarrow> active (mark_as_active items s) d' = active s d')
    \<and> pending_keys s \<subseteq> pending_keys (mark_as_active items s)"
  using assms(1,3)
proof (induction items arbitrary: s)
  case (Cons item items)
  have one: "items_for d [item]" "items_for d items" using Cons.prems(2) by (auto simp: items_for_def)
  note m = mark_one_active_spec [OF Cons.prems(1) assms(2) one(1)]
  from Cons.IH [OF m(1) one(2)] m(2-4) show ?case
    by (simp add: mark_as_active_def) blast
qed (simp add: mark_as_active_def)

lemma delete_all_active_spec:
  assumes "data_ok R s" "dest_ok R d"
  shows "data_ok R (delete_all_active_requests_for d s)"
    "active (delete_all_active_requests_for d s) d = {}"
    "dest_ok R d' \<Longrightarrow> d' \<noteq> d \<Longrightarrow> active (delete_all_active_requests_for d s) d' = active s d'"
    "k \<in> pending_keys s \<Longrightarrow> k \<in> pending_keys (delete_all_active_requests_for d s)
      \<or> (\<exists>e. (k, e) \<in> active s d)"
proof -
  show "data_ok R (delete_all_active_requests_for d s)"
    using assms(1) by (auto simp: data_ok_def delete_all_active_requests_for_def col_ok_remove)
  show "active (delete_all_active_requests_for d s) d = {}"
    by (auto simp: entries_def delete_all_active_requests_for_def map_of_remove_prefix entry_for_def)
  show "dest_ok R d' \<Longrightarrow> d' \<noteq> d \<Longrightarrow> active (delete_all_active_requests_for d s) d' = active s d'"
    using entry_for_prefix [OF assms(2)]
    by (auto simp: entries_def delete_all_active_requests_for_def map_of_remove_prefix)
  assume k: "k \<in> pending_keys s"
  show "k \<in> pending_keys (delete_all_active_requests_for d s) \<or> (\<exists>e. (k, e) \<in> active s d)"
  proof (cases "prefix (get_prefix d) k \<and> map_of (servercurrentevent_data s) k \<noteq> None")
    case True
    then obtain v where v: "map_of (servercurrentevent_data s) k = Some v" by auto
    then obtain d' e where d': "dest_ok R d'" "entry_for d' k v e"
      using assms(1) unfolding data_ok_def col_ok_def by blast
    with True entry_for_prefix [OF assms(2) d'] have "d' = d" by simp
    with v d' show ?thesis by (auto simp: entries_def)
  next
    case False
    with k show ?thesis
      by (auto simp: pending_keys_def delete_all_active_requests_for_def map_of_remove_prefix dom_def)
  qed
qed

lemma delete_all_spec:
  assumes "data_ok R s" "dest_ok R d"
  shows "data_ok R (delete_all_requests_for d s)"
    "dest_ok R d' \<Longrightarrow> active (delete_all_requests_for d s) d' \<subseteq> active s d'"
    "k \<in> pending_keys s \<Longrightarrow> k \<in> pending_keys (delete_all_requests_for d s) \<or> prefix (get_prefix d) k"
  using assms(1)
  by (auto simp: data_ok_def delete_all_requests_for_def col_ok_remove entries_def map_of_remove_prefix
      pending_keys_def dom_def split: if_splits)

section \<open>The invariant of the worker\<close>

definition busy :: "TransactionStatus \<Rightarrow> bool" where
  "busy st \<longleftrightarrow> (case st of Failed _ _ \<Rightarrow> False | _ \<Rightarrow> True)"

definition msg_ok :: "id_checks \<Rightarrow> Msg \<Rightarrow> bool" where
  "msg_ok R m \<longleftrightarrow> dest_ok R (msg_dest m) \<and> items_for (msg_dest m) [(queue_id m, msg_event m)]"

text \<open>
  A destination has a transaction in flight exactly when its status is running or retrying, and then
  only one, which carries every active entry of the destination; a destination without status has no
  active entries.  While a message or a response for the destination \<open>X\<close> is handled its transaction is
  missing.
\<close>

definition sender_inv_except :: "Destination option \<Rightarrow> id_checks \<Rightarrow> sender \<Rightarrow> bool" where
  "sender_inv_except X R s \<longleftrightarrow>
     data_ok R (sdata s) \<and> distinct (map fst (futures s))
     \<and> (\<forall>d. d \<in> fst ` set (futures s) \<longleftrightarrow> Some d \<noteq> X \<and> (\<exists>st. map_of (statuses s) d = Some st \<and> busy st))
     \<and> (\<forall>d. X = Some d \<longrightarrow> (\<exists>st. map_of (statuses s) d = Some st \<and> busy st))
     \<and> (\<forall>d. map_of (statuses s) d \<noteq> None \<longrightarrow> dest_ok R d)
     \<and> (\<forall>d es. (d, es) \<in> set (futures s) \<longrightarrow> snd ` active (sdata s) d \<subseteq> set es)
     \<and> (\<forall>d. dest_ok R d \<longrightarrow> map_of (statuses s) d = None \<longrightarrow> active (sdata s) d = {})
     \<and> (\<forall>m \<in> set (channel s). msg_ok R m)"

abbreviation sender_inv :: "id_checks \<Rightarrow> sender \<Rightarrow> bool" where
  "sender_inv \<equiv> sender_inv_except None"

lemma inv_dest_ok: "sender_inv_except X R s \<Longrightarrow> (d, es) \<in> set (futures s) \<Longrightarrow> dest_ok R d"
  unfolding sender_inv_except_def by (metis fst_conv image_eqI option.distinct(1))

lemma inv_except_dest_ok: "sender_inv_except (Some d) R s \<Longrightarrow> dest_ok R d"
  unfolding sender_inv_except_def by (metis option.distinct(1))

lemma inv_start:
  assumes "sender_inv_except (Some d) R s" "snd ` active (sdata s) d \<subseteq> set es"
  shows "sender_inv R (start_transaction d es s)"
  using assms unfolding sender_inv_except_def start_transaction_def by auto

lemma inv_forget:
  assumes "sender_inv_except (Some d) R s" "active (sdata s) d = {}"
  shows "sender_inv R (forget_status d s)"
proof -
  have "map_of (statuses (forget_status d s)) = (map_of (statuses s))(d := None)"
    by (simp add: forget_status_def delete_conv')
  then show ?thesis using assms unfolding sender_inv_except_def
    by (auto simp: forget_status_def fun_upd_apply split: if_splits)
qed

lemma inv_fail:
  assumes "sender_inv_except (Some d) R s"
  shows "sender_inv R (s\<lparr>statuses := hm_insert d (Failed n t) (statuses s)\<rparr>)"
  using assms unfolding sender_inv_except_def by (auto simp: busy_def)

lemma inv_data:
  assumes "sender_inv_except (Some d) R s" "data_ok R data"
    "\<And>d'. dest_ok R d' \<Longrightarrow> d' \<noteq> d \<Longrightarrow> active data d' = active (sdata s) d'"
  shows "sender_inv_except (Some d) R (s\<lparr>sdata := data\<rparr>)"
proof -
  have st: "\<exists>st. map_of (statuses s) d = Some st" using assms(1) unfolding sender_inv_except_def by blast
  have "snd ` active data d' \<subseteq> set es" if "(d', es) \<in> set (futures s)" for d' es
  proof -
    have "d' \<noteq> d" using that assms(1) unfolding sender_inv_except_def by (metis fst_conv image_eqI)
    with assms(3) [OF inv_dest_ok [OF assms(1) that]] that assms(1) show ?thesis
      unfolding sender_inv_except_def by metis
  qed
  moreover have "active data d' = {}" if "dest_ok R d'" "map_of (statuses s) d' = None" for d'
    using that st assms(1,3) unfolding sender_inv_except_def by (metis option.distinct(1))
  ultimately show ?thesis using assms(1,2) unfolding sender_inv_except_def by simp
qed

lemma inv_take_future:
  assumes "sender_inv R s" "(d, es) \<in> set (futures s)"
  shows "sender_inv_except (Some d) R (s\<lparr>futures := remove1 (d, es) (futures s)\<rparr>)"
    "snd ` active (sdata s) d \<subseteq> set es"
proof -
  have dist: "distinct (map fst (futures s))" using assms(1) by (simp add: sender_inv_except_def)
  have "distinct (futures s)" using dist by (simp add: distinct_map)
  then have rem: "set (remove1 (d, es) (futures s)) = set (futures s) - {(d, es)}" by (rule set_remove1_eq)
  have only: "es' = es" if "(d, es') \<in> set (futures s)" for es'
    using that assms(2) dist by (metis eq_key_imp_eq_value)
  have img: "fst ` (set (futures s) - {(d, es)}) = fst ` set (futures s) - {d}"
    using only by force
  have "distinct (map fst (remove1 (d, es) (futures s)))"
    using dist by (simp add: distinct_map inj_on_def rem)
  moreover have "\<exists>st. map_of (statuses s) d = Some st \<and> busy st"
    using assms unfolding sender_inv_except_def by (metis fst_conv image_eqI option.distinct(1))
  ultimately show "sender_inv_except (Some d) R (s\<lparr>futures := remove1 (d, es) (futures s)\<rparr>)"
    using assms(1) unfolding sender_inv_except_def by (simp add: rem img conj_commute)
  show "snd ` active (sdata s) d \<subseteq> set es"
    using assms unfolding sender_inv_except_def by metis
qed

lemma inv_open:
  assumes "sender_inv R s" "dest_ok R d" "busy st"
    "\<And>st. map_of (statuses s) d = Some st \<Longrightarrow> \<not> busy st"
  shows "sender_inv_except (Some d) R (s\<lparr>statuses := hm_insert d st (statuses s)\<rparr>)"
proof -
  have busy: "d' \<in> fst ` set (futures s) \<longleftrightarrow> (\<exists>st. map_of (statuses s) d' = Some st \<and> busy st)" for d'
    using assms(1) unfolding sender_inv_except_def by simp
  then have "d \<notin> fst ` set (futures s)" using assms(4) by blast
  then have "d' \<in> fst ` set (futures s) \<longleftrightarrow> d' \<noteq> d \<and> (\<exists>x. ((map_of (statuses s))(d \<mapsto> st)) d' = Some x \<and> busy x)" for d'
    using busy [of d'] by auto
  with assms show ?thesis unfolding sender_inv_except_def by simp
qed

lemma inv_select:
  assumes "sender_inv R s" "dest_ok R d" "select_events_current C d s = ((True, retry), s1)"
  shows "sender_inv_except (Some d) R s1" "sdata s1 = sdata s" "\<not> retry \<Longrightarrow> active (sdata s) d = {}"
proof -
  consider "map_of (statuses s) d = None" "\<not> retry" "s1 = s\<lparr>statuses := hm_insert d Running (statuses s)\<rparr>"
    | n t where "map_of (statuses s) d = Some (Failed n t)" "retry"
        "s1 = s\<lparr>statuses := hm_insert d (Retrying n) (statuses s)\<rparr>"
    using assms(3) by (auto simp: select_events_current_def split: option.splits TransactionStatus.splits if_splits)
  then have "sender_inv_except (Some d) R s1 \<and> sdata s1 = sdata s \<and> (\<not> retry \<longrightarrow> active (sdata s) d = {})"
  proof cases
    case 1
    then have "active (sdata s) d = {}" using assms(1,2) unfolding sender_inv_except_def by simp
    with 1 inv_open [OF assms(1,2), of Running] show ?thesis by (simp add: busy_def)
  next
    case (2 n t)
    with inv_open [OF assms(1,2), of "Retrying n"] show ?thesis by (simp add: busy_def)
  qed
  then show "sender_inv_except (Some d) R s1" "sdata s1 = sdata s" "\<not> retry \<Longrightarrow> active (sdata s) d = {}" by auto
qed

lemma select_not_allowed:
  "select_events_current C d s = ((False, retry), s1) \<Longrightarrow> s1 = s"
  by (auto simp: select_events_current_def split: option.splits TransactionStatus.splits if_splits)

section \<open>Every handler keeps the invariant\<close>

lemma receipts_room_returns:
  assumes "\<And>user count contents. (user, count, ReceiptEvent contents) \<in> set rs \<Longrightarrow> user_is_local S user \<Longrightarrow>
    \<exists>data. read_receipt_of user contents = Inr data"
  shows "\<exists>r. receipts_room S upper rs num m read = Inr r"
  using assms
proof (induction rs arbitrary: num m read)
  case (Cons r rs)
  obtain user count receipt where r: "r = (user, count, receipt)" by (cases r)
  have IH: "\<exists>r. receipts_room S upper rs num m read = Inr r" for num m read
  proof (rule Cons.IH)
    fix user count contents assume "(user, count, ReceiptEvent contents) \<in> set rs" "user_is_local S user"
    then show "\<exists>data. read_receipt_of user contents = Inr data" using Cons.prems [of user count contents] by simp
  qed
  have "\<exists>data. read_receipt_of user contents = Inr data"
    if "receipt = ReceiptEvent contents" "user_is_local S user" for contents
    using Cons.prems [of user count contents] that r by simp
  with IH show ?case unfolding r by (auto simp: Let_def split: stored_receipt.splits sum.splits)
qed simp

lemma select_edus_returns:
  assumes "receipts_wf S"
  shows "\<exists>r. select_edus C S server s = Inr r"
proof -
  have "\<exists>data. read_receipt_of user contents = Inr data"
    if mem: "(user, count, ReceiptEvent contents) \<in> set (readreceipts_since S room since)"
      and local: "user_is_local S user" for user count contents room since
  proof -
    obtain ev_id receipt more by_user data where "contents = (ev_id, receipt) # more"
        "map_of receipt ReceiptRead = Some by_user" "map_of by_user user = Some data"
      using assms mem local unfolding receipts_wf_def by blast
    then show ?thesis by (simp add: read_receipt_of_def)
  qed
  then have room: "\<exists>r. receipts_room S upper (readreceipts_since S room since) num m read = Inr r"
    for upper room since num m read by (rule receipts_room_returns)
  have rooms: "\<exists>r. select_receipts_rooms S since rooms m = Inr r" for since rooms m
  proof (induction rooms arbitrary: m)
    case (Cons x rooms)
    then show ?case using room [of "snd since" x "fst since" 0 m "[]"]
      by (auto simp: result_simps split: prod.splits) (metis sum.exhaust surj_pair)
  qed simp
  have receipts: "\<exists>r. select_edus_receipts S server since m = Inr r" for since m
    using rooms [of since "server_rooms S server" m] by (auto simp: select_edus_receipts_def split: prod.splits)
  let ?since = "(get_latest_educount server s, counter (send_short s))"
  obtain dev m1 where dev: "select_edus_device_changes S server ?since (fst ?since) = (dev, m1)" by fastforce
  obtain rec m2 where "(if allow_outgoing_read_receipts C then select_edus_receipts S server ?since m1
      else Inr (None, m1)) = Inr (rec, m2)"
    using receipts [of ?since m1] by (cases "allow_outgoing_read_receipts C") auto
  then show ?thesis unfolding select_edus_def Let_def dev by (simp add: case_prod_beta)
qed

lemma add_edus_data:
  assumes "add_edus C S d s = Inr (edus, s')"
  shows "active (sdata s') = active (sdata s)" "pending_keys (sdata s') = pending_keys (sdata s)"
    "data_ok R (sdata s') = data_ok R (sdata s)" "s' = s\<lparr>sdata := sdata s'\<rparr>"
  using assms by (auto simp: add_edus_def set_latest_educount_def Let_def pending_keys_def data_ok_def result_simps
      split: Destination.splits prod.splits)

lemma add_edus_returns: "receipts_wf S \<Longrightarrow> \<exists>edus s'. add_edus C S d s = Inr (edus, s')"
proof (cases d)
  case (Federation server)
  assume "receipts_wf S"
  then obtain edus c where "select_edus C S server (sdata s) = Inr (edus, c)"
    using select_edus_returns [of S C server "sdata s"] by auto
  with Federation show ?thesis by (simp add: add_edus_def)
qed (simp_all add: add_edus_def)

lemma column_events:
  assumes "col_ok R m" "dest_ok R d"
  shows "\<exists>items. column_items R d m = Inr items \<and> set items = entries m d \<and> items_for d items
    \<and> map fst items = raw_keys_prefix m (get_prefix d)"
proof -
  obtain items where items: "column_items R d m = Inr items" "map fst items = raw_keys_prefix m (get_prefix d)"
    "\<forall>k e. (k, e) \<in> set items \<longleftrightarrow> (\<exists>v. map_of m k = Some v \<and> entry_for d k v e)"
    using column_items_ok [OF assms] by blast
  have "set items = entries m d" unfolding entries_def set_eq_iff split_paired_all using items(3) by simp
  moreover have "entry_for d k (event_value e) e" if "entry_for d k v e" for k v e
    using that event_of_value unfolding entry_for_def by metis
  then have "items_for d items" using items(3) unfolding items_for_def by blast
  ultimately show ?thesis using items by blast
qed

lemma handle_request_inv:
  assumes "sender_inv R s" "msg_ok R m"
  shows "(\<exists>s'. handle_request R C S m s = Inr s' \<and> sender_inv R s'
      \<and> pending_keys (sdata s) \<subseteq> pending_keys (sdata s'))
    \<or> \<not> receipts_wf S \<and> (\<exists>e. handle_request R C S m s = Inl e)"
proof -
  let ?d = "msg_dest m" and ?new = "[(queue_id m, msg_event m)]"
  have d: "dest_ok R ?d" "items_for ?d ?new" using assms(2) by (auto simp: msg_ok_def)
  obtain allow retry s1 where cur: "select_events_current C ?d s = ((allow, retry), s1)"
    by (metis prod.exhaust)
  show ?thesis
  proof (cases allow)
    case False
    with cur select_not_allowed [of C ?d s retry s1] assms(1) show ?thesis
      by (simp add: handle_request_def select_events_def)
  next
    case True
    note sel = inv_select [OF assms(1) d(1), of C retry s1]
    have s1: "sender_inv_except (Some ?d) R s1" "sdata s1 = sdata s" using sel(1,2) cur True by simp_all
    have ok: "data_ok R (sdata s)" using assms(1) by (simp add: sender_inv_except_def)
    show ?thesis
    proof (cases retry)
      case True
      obtain items where items: "column_items R ?d (servercurrentevent_data (sdata s)) = Inr items"
        "set items = active (sdata s) ?d"
        using column_events [OF _ d(1), of "servercurrentevent_data (sdata s)"] ok by (auto simp: data_ok_def)
      have run: "select_events R C S ?d ?new s = Inr (Some (map snd items), s1)"
        using cur \<open>allow\<close> True items(1) s1(2) by (simp add: select_events_def active_requests_for_def)
      have "sender_inv R (start_transaction ?d (map snd items) s1)"
        using inv_start [OF s1(1)] items(2) s1(2) by simp
      moreover have "items = [] \<Longrightarrow> sender_inv R (forget_status ?d s1)"
        using inv_forget [OF s1(1)] items(2) s1(2) by simp
      ultimately show ?thesis using run s1(2)
        by (cases "items = []") (auto simp: handle_request_def start_transaction_def forget_status_def)
    next
      case False
      let ?s2 = "s1\<lparr>sdata := mark_as_active ?new (sdata s1)\<rparr>"
      consider e where "add_edus C S ?d ?s2 = Inl e" | edus s3 where "add_edus C S ?d ?s2 = Inr (edus, s3)"
        by (metis sum.exhaust surj_pair)
      then show ?thesis
      proof cases
      case (1 e)
      then have "select_events R C S ?d ?new s = Inl e"
        using cur \<open>allow\<close> False by (simp add: select_events_def Let_def)
      then show ?thesis using 1 add_edus_returns [of S C ?d ?s2] by (auto simp: handle_request_def)
      next
      case (2 edus s3)
      note edus = 2
      note ed = add_edus_data [OF edus]
      have none: "active (sdata s) ?d = {}" using sel(3) cur \<open>allow\<close> False by simp
      note mark = mark_as_active_spec [OF ok d]
      have "sender_inv_except (Some ?d) R (s1\<lparr>sdata := sdata s3\<rparr>)"
        using mark s1(2) ed(1) ed(3) [of R] by (intro inv_data [OF s1(1)]) auto
      then have inv3: "sender_inv_except (Some ?d) R s3" using ed(4) by simp
      have "snd ` active (sdata s3) ?d \<subseteq> set (map snd ?new @ edus)"
        using mark none s1(2) ed(1) by auto
      from inv_start [OF inv3 this]
      have "sender_inv R (start_transaction ?d (map snd ?new @ edus) s3)" .
      moreover have "select_events R C S ?d ?new s = Inr (Some (map snd ?new @ edus), s3)"
        using cur \<open>allow\<close> False edus by (simp add: select_events_def Let_def)
      moreover have "pending_keys (sdata s) \<subseteq> pending_keys (sdata s3)"
        using mark s1(2) ed(2) by simp
      ultimately show ?thesis by (simp add: handle_request_def start_transaction_def)
      qed
    qed
  qed
qed

lemma handle_response_err_inv:
  assumes "sender_inv_except (Some d) R s"
  shows "\<exists>s'. handle_response_err d s = Inr s' \<and> sender_inv R s' \<and> sdata s' = sdata s"
proof -
  obtain st where "map_of (statuses s) d = Some st" "busy st"
    using assms unfolding sender_inv_except_def by blast
  then show ?thesis using inv_fail [OF assms]
    by (cases st) (auto simp: handle_response_err_def busy_def)
qed

lemma queue_after_delete [simp]:
  "servernameevent_data (delete_all_active_requests_for d s) = servernameevent_data s"
  by (simp add: delete_all_active_requests_for_def)

lemma handle_response_ok_run:
  assumes "sender_inv_except (Some d) R s"
  shows "\<exists>items s'. queued_requests R d (sdata s) = Inr items \<and> handle_response_ok R d s = Inr s'
    \<and> sender_inv R s'
    \<and> (\<forall>k \<in> pending_keys (sdata s). k \<in> pending_keys (sdata s') \<or> k \<in> fst ` active (sdata s) d)
    \<and> sdata s' = mark_as_active (take DEQUEUE_LIMIT items) (delete_all_active_requests_for d (sdata s))
    \<and> (if items = [] then s' = forget_status d (s\<lparr>sdata := delete_all_active_requests_for d (sdata s)\<rparr>)
       else futures s' = futures s @ [(d, map snd (take DEQUEUE_LIMIT items))])"
proof -
  let ?data = "delete_all_active_requests_for d (sdata s)"
  let ?s1 = "s\<lparr>sdata := ?data\<rparr>"
  have d: "dest_ok R d" using inv_except_dest_ok [OF assms] .
  have ok: "data_ok R (sdata s)" using assms by (simp add: sender_inv_except_def)
  note del = delete_all_active_spec [OF ok d]
  have inv1: "sender_inv_except (Some d) R ?s1" by (rule inv_data [OF assms del(1,3)])
  obtain items where items: "queued_requests R d (sdata s) = Inr items" "items_for d items"
    using column_events [OF _ d, of "servernameevent_data (sdata s)"] ok
    by (auto simp: data_ok_def queued_requests_def)
  have q: "queued_requests R d ?data = Inr items" using items(1) by (simp add: queued_requests_def)
  have pend: "k \<in> pending_keys ?data \<or> k \<in> fst ` active (sdata s) d" if "k \<in> pending_keys (sdata s)" for k
    using del(4) [OF that] by force
  show ?thesis
  proof (cases "items = []")
    case True
    then have "handle_response_ok R d s = Inr (forget_status d ?s1)"
      using q by (simp add: handle_response_ok_def Let_def)
    moreover have "sender_inv R (forget_status d ?s1)" using inv_forget [OF inv1] del(2) by simp
    ultimately show ?thesis using items(1) True pend
      by (simp add: mark_as_active_def forget_status_def)
  next
    case False
    let ?new = "take DEQUEUE_LIMIT items"
    have new: "items_for d ?new" "?new \<noteq> []"
      using items(2) False by (auto simp: items_for_def DEQUEUE_LIMIT_def dest: in_set_takeD)
    note mark = mark_as_active_spec [OF del(1) d new(1)]
    have inv2: "sender_inv_except (Some d) R (?s1\<lparr>sdata := mark_as_active ?new ?data\<rparr>)"
      using mark by (intro inv_data [OF inv1]) auto
    have "snd ` active (mark_as_active ?new ?data) d \<subseteq> set (map snd ?new)" using mark del(2) by auto
    with inv_start [OF inv2]
    have "sender_inv R (start_transaction d (map snd ?new) (?s1\<lparr>sdata := mark_as_active ?new ?data\<rparr>))" by simp
    moreover have "handle_response_ok R d s =
        Inr (start_transaction d (map snd ?new) (?s1\<lparr>sdata := mark_as_active ?new ?data\<rparr>))"
      using q new(2) by (simp add: handle_response_ok_def Let_def)
    moreover have "k \<in> pending_keys (mark_as_active ?new ?data) \<or> k \<in> fst ` active (sdata s) d"
      if "k \<in> pending_keys (sdata s)" for k
      using pend [OF that] mark by blast
    ultimately show ?thesis using items(1) False by (simp add: start_transaction_def)
  qed
qed

end
