(* ===== verification/SenderMachine.thy ===== *)
theory SenderMachine
  imports Sending
begin

text \<open>
  The worker of the sending service as a state machine: its steps are the handlers of
  \<^verbatim>\<open>src/service/sending/sender.rs\<close>, the calls other services make to \<^verbatim>\<open>src/service/sending/mod.rs\<close> and
  the clock, in any order.  Every reachable state keeps the invariant of \<open>Sending\<close>, so no handler panics
  on well-formed receipts, with the netburst on no queued event is lost except by the start-up drop, and a
  destination that answers is served completely; last, the limits of the ephemeral data that \<open>select_edus\<close>
  adds to a transaction.
\<close>

section \<open>The worker as a state machine\<close>

datatype sender_label =
  LQueue "(Destination \<times> SendingEvent) list" | LFlush "u8 list list" | LTick nat | LRequest
| LResponse Destination bool | LCleanup Destination

inductive sender_step :: "id_checks \<Rightarrow> sender_config \<Rightarrow> edu_sources \<Rightarrow> sender \<Rightarrow> sender_label \<Rightarrow> sender \<Rightarrow> bool"
  for R C S where
  queue: "(\<And>d e. (d, e) \<in> set reqs \<Longrightarrow> dest_ok R d \<and> sendable e) \<Longrightarrow>
    sender_step R C S s (LQueue reqs) (send_requests reqs s)"
| flush: "(\<And>server. server \<in> set servers \<Longrightarrow> dest_ok R (Federation server)) \<Longrightarrow>
    sender_step R C S s (LFlush servers) (flush_servers servers s)"
| tick: "sender_step R C S s (LTick n) (s\<lparr>clock := clock s + n\<rparr>)"
| request: "channel s = m # ms \<Longrightarrow> handle_request R C S m (s\<lparr>channel := ms\<rparr>) = Inr s' \<Longrightarrow>
    sender_step R C S s LRequest s'"
| response: "(d, es) \<in> set (futures s) \<Longrightarrow>
    handle_response R (d, ok) (s\<lparr>futures := remove1 (d, es) (futures s)\<rparr>) = Inr s' \<Longrightarrow>
    sender_step R C S s (LResponse d ok) s'"
| cleanup_push: "dest_ok R (Push u k) \<Longrightarrow>
    sender_step R C S s (LCleanup (Push u k)) (cleanup_events None (Some u) (Some k) s)"
| cleanup_appservice: "dest_ok R (Appservice a) \<Longrightarrow>
    sender_step R C S s (LCleanup (Appservice a)) (cleanup_events (Some a) None None s)"

definition fresh_sender :: "sending_data \<Rightarrow> sender" where
  "fresh_sender data = \<lparr>sdata = data, statuses = [], futures = [], channel = [], clock = 0\<rparr>"

text \<open>What the other services deliver (\<open>S\<close>) may be different in every step.\<close>

inductive sender_reachable :: "id_checks \<Rightarrow> sender_config \<Rightarrow> sender \<Rightarrow> bool" for R C where
  start: "data_ok R data \<Longrightarrow> startup_netburst R C (\<lambda>_. True) (fresh_sender data) = Inr s \<Longrightarrow>
    sender_reachable R C s"
| step: "sender_reachable R C s \<Longrightarrow> sender_step R C S s l s' \<Longrightarrow> sender_reachable R C s'"

inductive_cases response_step: "sender_step R C S s (LResponse d ok) s'"

lemma insert_batch_cons: "db_insert_batch ((k, v) # kvs) m = db_insert_batch kvs (db_insert k v m)"
  by (simp add: db_insert_batch_def)

lemma insert_batch_dom: "dom (map_of m) \<subseteq> dom (map_of (db_insert_batch kvs m))"
proof (induction kvs arbitrary: m)
  case (Cons kv kvs)
  obtain k v where kv: "kv = (k, v)" by fastforce
  have "dom (map_of m) \<subseteq> dom (map_of (db_insert k v m))" by auto
  also have "\<dots> \<subseteq> dom (map_of (db_insert_batch (kv # kvs) m))"
    unfolding kv insert_batch_cons by (rule Cons.IH)
  finally show ?case .
qed (simp add: db_insert_batch_def)

lemma insert_batch_col:
  assumes "\<And>k v. (k, v) \<in> set kvs \<Longrightarrow> \<exists>d e. dest_ok R d \<and> entry_for d k v e" "col_ok R m"
  shows "col_ok R (db_insert_batch kvs m)"
  using assms
proof (induction kvs arbitrary: m)
  case (Cons kv kvs)
  obtain k v where kv: "kv = (k, v)" by fastforce
  then obtain d e where "dest_ok R d" "entry_for d k v e" using Cons.prems(1) [of k v] by auto
  then have "col_ok R (db_insert k v m)" using Cons.prems(2) col_ok_insert by blast
  from Cons.IH [OF _ this] Cons.prems(1) kv show ?case by (simp add: insert_batch_cons)
qed (simp add: db_insert_batch_def)

lemma fold_dispatch:
  "fold (\<lambda>x. dispatch (f x)) xs s = s\<lparr>channel := channel s @ map f xs\<rparr>"
  by (induction xs arbitrary: s) (simp_all add: dispatch_def)

lemma send_requests_spec:
  assumes "\<And>d e. (d, e) \<in> set reqs \<Longrightarrow> dest_ok R d \<and> sendable e"
  shows "\<exists>data msgs. send_requests reqs s = s\<lparr>sdata := data, channel := channel s @ msgs\<rparr>
    \<and> (data_ok R (sdata s) \<longrightarrow> data_ok R data) \<and> active data = active (sdata s)
    \<and> pending_keys (sdata s) \<subseteq> pending_keys data \<and> (\<forall>m \<in> set msgs. msg_ok R m)"
proof -
  let ?rs = "map (\<lambda>(d, e). (e, d)) reqs"
  obtain keys short where keys: "queue_keys ?rs (send_short (sdata s)) = (keys, short)" by fastforce
  let ?kvs = "zip keys (map (\<lambda>r. event_value (fst r)) ?rs)"
  let ?data = "(sdata s)\<lparr>send_short := short,
    servernameevent_data := db_insert_batch ?kvs (servernameevent_data (sdata s))\<rparr>"
  let ?msg = "\<lambda>((d, e), key). \<lparr>msg_dest = d, msg_event = e, queue_id = key\<rparr>"
  have form: "length keys = length reqs"
    "\<And>i. i < length reqs \<Longrightarrow> \<exists>sfx. keys ! i = get_prefix (fst (reqs ! i)) @ sfx \<and> suffix_ok sfx (snd (reqs ! i))"
    using queue_keys_form [OF keys] assms by (auto simp: case_prod_beta) (metis nth_mem prod.collapse)
  have at: "dest_ok R (fst (reqs ! i)) \<and> entry_for (fst (reqs ! i)) (keys ! i) (event_value (snd (reqs ! i))) (snd (reqs ! i))"
    if "i < length reqs" for i
    using form(2) [OF that] assms [of "fst (reqs ! i)" "snd (reqs ! i)"] that
    by (auto simp: entry_for_def suffix_ok_def)
  have col: "\<exists>d e. dest_ok R d \<and> entry_for d k v e" if kv: "(k, v) \<in> set ?kvs" for k v
  proof -
    obtain i where "i < length reqs" "k = keys ! i" "v = event_value (snd (reqs ! i))"
      using kv form(1) by (auto simp: in_set_zip case_prod_beta)
    with at show ?thesis by blast
  qed
  have msgs: "msg_ok R m" if "m \<in> set (map ?msg (zip reqs keys))" for m
    using that form(1) at by (fastforce simp: in_set_zip msg_ok_def items_for_def case_prod_beta)
  have "send_requests reqs s = s\<lparr>sdata := ?data, channel := channel s @ map ?msg (zip reqs keys)\<rparr>"
    using keys fold_dispatch [of ?msg "zip reqs keys"]
    by (simp add: send_requests_def queue_requests_def Let_def case_prod_unfold)
  moreover have "data_ok R (sdata s) \<longrightarrow> data_ok R ?data"
    using insert_batch_col [of ?kvs R "servernameevent_data (sdata s)"] col by (simp add: data_ok_def)
  moreover have "pending_keys (sdata s) \<subseteq> pending_keys ?data"
    unfolding pending_keys_def using insert_batch_dom [of "servernameevent_data (sdata s)" ?kvs] by auto
  ultimately show ?thesis using msgs
    by (intro exI [of _ ?data] exI [of _ "map ?msg (zip reqs keys)"]) simp
qed

lemma inv_grow:
  assumes "sender_inv R s" "data_ok R (sdata s) \<Longrightarrow> data_ok R data" "\<And>d. dest_ok R d \<Longrightarrow> active data d \<subseteq> active (sdata s) d"
    "\<And>m. m \<in> set msgs \<Longrightarrow> msg_ok R m"
  shows "sender_inv R (s\<lparr>sdata := data, channel := channel s @ msgs\<rparr>)" (is "sender_inv R ?s")
proof -
  have "snd ` active data d \<subseteq> set es" if "(d, es) \<in> set (futures s)" for d es
  proof -
    have "snd ` active data d \<subseteq> snd ` active (sdata s) d"
      by (rule image_mono [OF assms(3) [OF inv_dest_ok [OF assms(1) that]]])
    also have "\<dots> \<subseteq> set es" using assms(1) that unfolding sender_inv_except_def by blast
    finally show ?thesis .
  qed
  moreover have "active data d = {}" if "dest_ok R d" "map_of (statuses s) d = None" for d
  proof -
    have "active (sdata s) d = {}" using assms(1) that unfolding sender_inv_except_def by simp
    with assms(3) [OF that(1)] show ?thesis by simp
  qed
  moreover have "\<forall>m \<in> set (channel s @ msgs). msg_ok R m"
  proof -
    have "\<forall>m \<in> set (channel s). msg_ok R m" using assms(1) by (simp add: sender_inv_except_def)
    with assms(4) show ?thesis by auto
  qed
  moreover have "data_ok R data" using assms(1,2) unfolding sender_inv_except_def by blast
  moreover have "distinct (map fst (futures s))"
    "\<forall>d. d \<in> fst ` set (futures s) \<longleftrightarrow> Some d \<noteq> None \<and> (\<exists>st. map_of (statuses s) d = Some st \<and> busy st)"
    "\<forall>d. map_of (statuses s) d \<noteq> None \<longrightarrow> dest_ok R d"
    using assms(1) unfolding sender_inv_except_def by blast+
  moreover have "futures ?s = futures s" "statuses ?s = statuses s" "sdata ?s = data" "channel ?s = channel s @ msgs"
    by simp_all
  ultimately show ?thesis unfolding sender_inv_except_def by (simp only: simp_thms option.distinct) blast
qed

lemma send_requests_inv:
  assumes "sender_inv R s" "\<And>d e. (d, e) \<in> set reqs \<Longrightarrow> dest_ok R d \<and> sendable e"
  shows "sender_inv R (send_requests reqs s)" "pending_keys (sdata s) \<subseteq> pending_keys (sdata (send_requests reqs s))"
proof -
  obtain data msgs where *: "send_requests reqs s = s\<lparr>sdata := data, channel := channel s @ msgs\<rparr>"
    "data_ok R (sdata s) \<longrightarrow> data_ok R data" "active data = active (sdata s)"
    "pending_keys (sdata s) \<subseteq> pending_keys data" "\<forall>m \<in> set msgs. msg_ok R m"
    using send_requests_spec [of reqs R s] assms(2) by blast
  show "sender_inv R (send_requests reqs s)" unfolding *(1) using *(2,3,5) by (intro inv_grow [OF assms(1)]) auto
  show "pending_keys (sdata s) \<subseteq> pending_keys (sdata (send_requests reqs s))" using *(1,4) by simp
qed

lemma flush_servers_run:
  "flush_servers servers s =
     s\<lparr>channel := channel s @ map (\<lambda>server. \<lparr>msg_dest = Federation server, msg_event = Flush, queue_id = []\<rparr>) servers\<rparr>"
  unfolding flush_servers_def by (rule fold_dispatch)

lemma flush_servers_inv:
  assumes "sender_inv R s" "\<And>server. server \<in> set servers \<Longrightarrow> dest_ok R (Federation server)"
  shows "sender_inv R (flush_servers servers s)"
proof -
  let ?msgs = "map (\<lambda>server. \<lparr>msg_dest = Federation server, msg_event = Flush, queue_id = []\<rparr>) servers"
  have "msg_ok R m" if "m \<in> set ?msgs" for m using that assms(2) by (auto simp: msg_ok_def items_for_def)
  with inv_grow [OF assms(1), of "sdata s" ?msgs] show ?thesis by (simp add: flush_servers_run)
qed

lemma cleanup_inv:
  assumes "sender_inv R s" "dest_ok R d"
  shows "sender_inv R (s\<lparr>sdata := delete_all_requests_for d (sdata s)\<rparr>)"
  using inv_grow [OF assms(1), of "delete_all_requests_for d (sdata s)" "[]"]
    delete_all_spec(1) [of R "sdata s" d] delete_all_spec(2) [of R "sdata s" d] assms
  by (auto simp: sender_inv_except_def)

text \<open>A key leaves the columns only by a response or by a clean-up.\<close>

definition delivered :: "sender \<Rightarrow> sender_label \<Rightarrow> u8 list \<Rightarrow> bool" where
  "delivered s l k \<longleftrightarrow>
     (\<exists>d e es. l = LResponse d True \<and> (d, es) \<in> set (futures s) \<and> (k, e) \<in> active (sdata s) d \<and> e \<in> set es)"

definition cleaned :: "sender_label \<Rightarrow> u8 list \<Rightarrow> bool" where
  "cleaned l k \<longleftrightarrow> (\<exists>d. l = LCleanup d \<and> prefix (get_prefix d) k)"

lemma handle_response_inv:
  assumes "sender_inv R s" "(d, es) \<in> set (futures s)"
  shows "\<exists>s'. handle_response R (d, ok) (s\<lparr>futures := remove1 (d, es) (futures s)\<rparr>) = Inr s' \<and> sender_inv R s'
    \<and> (\<forall>k \<in> pending_keys (sdata s). k \<in> pending_keys (sdata s') \<or> delivered s (LResponse d ok) k)"
proof -
  note take = inv_take_future [OF assms]
  have del: "delivered s (LResponse d True) k" if "k \<in> fst ` active (sdata s) d" for k
    using that take(2) assms(2) unfolding delivered_def by force
  show ?thesis
  proof (cases ok)
    case True
    obtain s' where "handle_response_ok R d (s\<lparr>futures := remove1 (d, es) (futures s)\<rparr>) = Inr s'" "sender_inv R s'"
      "\<forall>k \<in> pending_keys (sdata s). k \<in> pending_keys (sdata s') \<or> k \<in> fst ` active (sdata s) d"
      using handle_response_ok_run [OF take(1)] by auto
    with del True show ?thesis unfolding handle_response_def by auto blast
  next
    case False
    then show ?thesis using handle_response_err_inv [OF take(1)] by (auto simp: handle_response_def)
  qed
qed

lemma sender_step_inv:
  assumes "sender_step R C S s l s'" "sender_inv R s"
  shows "sender_inv R s' \<and> (\<forall>k \<in> pending_keys (sdata s). k \<in> pending_keys (sdata s') \<or> delivered s l k \<or> cleaned l k)"
  using assms
proof cases
  case (queue reqs)
  then show ?thesis using send_requests_inv [OF assms(2), of reqs] by blast
next
  case (flush servers)
  then show ?thesis using flush_servers_inv [OF assms(2), of servers] by (auto simp: flush_servers_run)
next
  case (tick n)
  then show ?thesis using assms(2) by (simp add: sender_inv_except_def)
next
  case (request m ms)
  have "sender_inv R (s\<lparr>channel := ms\<rparr>)" "msg_ok R m"
    using assms(2) request(2) by (auto simp: sender_inv_except_def)
  from handle_request_inv [OF this, of C S] request(3) show ?thesis by auto
next
  case (response d es ok)
  from handle_response_inv [OF assms(2) response(2), of ok] response show ?thesis by auto
next
  case (cleanup_push u k)
  with cleanup_inv [OF assms(2) cleanup_push(3)] delete_all_spec(3) [of R "sdata s" "Push u k"] assms(2)
  show ?thesis by (auto simp: cleanup_events_def cleaned_def sender_inv_except_def)
next
  case (cleanup_appservice a)
  with cleanup_inv [OF assms(2) cleanup_appservice(3)] delete_all_spec(3) [of R "sdata s" "Appservice a"] assms(2)
  show ?thesis by (auto simp: cleanup_events_def cleaned_def sender_inv_except_def)
qed

section \<open>Start-up\<close>

lemma netburst_step:
  "\<exists>es s1. netburst_collect C (\<lambda>_. True) ((k, e, d) # items) txns s
      = netburst_collect C (\<lambda>_. True) items (hm_insert d es txns) s1
    \<and> (\<forall>es0. map_of txns d = Some es0 \<longrightarrow> set es0 \<subseteq> set es)
    \<and> (s1 = delete_active_request k s \<or> s1 = s \<and> e \<in> set es)"
proof -
  let ?entry = "case map_of txns d of None \<Rightarrow> [] | Some es \<Rightarrow> es"
  let ?drop = "startup_netburst_keep C \<ge> 0 \<and> int (length ?entry) \<ge> startup_netburst_keep C"
  have "netburst_collect C (\<lambda>_. True) ((k, e, d) # items) txns s =
     (if ?drop then netburst_collect C (\<lambda>_. True) items (hm_insert d ?entry txns) (delete_active_request k s)
      else netburst_collect C (\<lambda>_. True) items (hm_insert d (?entry @ [e]) txns) s)"
    by (simp add: Let_def)
  then show ?thesis by (cases ?drop) fastforce+
qed

lemma delete_active_run:
  "fold delete_active_request ks s = s\<lparr>servercurrentevent_data := fold db_remove ks (servercurrentevent_data s)\<rparr>"
  by (induction ks arbitrary: s) (simp_all add: delete_active_request_def)

lemma netburst_collect_spec:
  assumes "netburst_collect C (\<lambda>_. True) items txns s = (txns', s')" "hm_ok txns"
  shows "hm_ok txns' \<and> (\<exists>ks. s' = fold delete_active_request ks s)
    \<and> (\<forall>d es. map_of txns d = Some es \<longrightarrow> (\<exists>es'. map_of txns' d = Some es' \<and> set es \<subseteq> set es'))
    \<and> fst ` set txns' = fst ` set txns \<union> (\<lambda>i. snd (snd i)) ` set items
    \<and> (\<forall>k e d. (k, e, d) \<in> set items \<longrightarrow> map_of (servercurrentevent_data s') k = None
        \<or> (\<exists>es. map_of txns' d = Some es \<and> e \<in> set es))"
  using assms
proof (induction items arbitrary: txns s)
  case Nil
  then show ?case by (auto intro: exI [of _ "[]"])
next
  case (Cons i items)
  obtain k e d where i: "i = (k, e, d)" using prod_cases3 by blast
  obtain es s1 where st: "netburst_collect C (\<lambda>_. True) items (hm_insert d es txns) s1 = (txns', s')"
    "\<And>es0. map_of txns d = Some es0 \<Longrightarrow> set es0 \<subseteq> set es"
    "s1 = delete_active_request k s \<or> s1 = s \<and> e \<in> set es"
    using netburst_step [of C k e d items txns s] Cons.prems(1) i by metis
  have IH: "hm_ok txns'" "\<exists>ks. s' = fold delete_active_request ks s1"
    "\<And>d' es'. map_of (hm_insert d es txns) d' = Some es' \<Longrightarrow> \<exists>es''. map_of txns' d' = Some es'' \<and> set es' \<subseteq> set es''"
    "fst ` set txns' = insert d (fst ` set txns) \<union> (\<lambda>i. snd (snd i)) ` set items"
    using Cons.IH [OF st(1) hm_ok_insert [OF Cons.prems(2)]] unfolding keys_hm_insert by blast+
  have rest: "\<forall>k e d. (k, e, d) \<in> set items \<longrightarrow> map_of (servercurrentevent_data s') k = None
        \<or> (\<exists>es. map_of txns' d = Some es \<and> e \<in> set es)"
    using Cons.IH [OF st(1) hm_ok_insert [OF Cons.prems(2)]] by (elim conjE)
  have "\<exists>ks. s' = fold delete_active_request ks s"
    using IH(2) st(3) fold_simps(2) [of delete_active_request k] by metis
  moreover have "\<exists>es''. map_of txns' d' = Some es'' \<and> set es' \<subseteq> set es''" if "map_of txns d' = Some es'" for d' es'
    using IH(3) [of d'] st(2) that by (cases "d' = d") fastforce+
  moreover have "map_of (servercurrentevent_data s') k = None \<or> (\<exists>es. map_of txns' d = Some es \<and> e \<in> set es)"
    using st(3)
  proof
    assume "s1 = delete_active_request k s"
    then show ?thesis using IH(2) by (auto simp: delete_active_run map_of_fold_remove delete_active_request_def)
  next
    assume "s1 = s \<and> e \<in> set es"
    then show ?thesis using IH(3) [of d es] by auto
  qed
  ultimately show ?case using IH(1,4) rest i by auto
qed

lemma netburst_fold:
  assumes "startup_netburst_on C"
  shows "\<exists>sts. fold (\<lambda>(dest, events) s.
               if startup_netburst_on C \<and> events \<noteq> []
               then start_transaction dest events (s\<lparr>statuses := hm_insert dest Running (statuses s)\<rparr>)
               else s) txns s = s\<lparr>statuses := sts, futures := futures s @ filter (\<lambda>(d, es). es \<noteq> []) txns\<rparr>
     \<and> (\<forall>d. map_of sts d = (if d \<in> fst ` set (filter (\<lambda>(d, es). es \<noteq> []) txns) then Some Running else map_of (statuses s) d))"
proof (induction txns arbitrary: s)
  case Nil
  then show ?case by (intro exI [of _ "statuses s"]) simp
next
  case (Cons t txns)
  obtain d es where t: "t = (d, es)" by fastforce
  show ?case
  proof (cases "es = []")
    case True
    then show ?thesis using Cons.IH [of s] t by simp
  next
    case False
    let ?s = "start_transaction d es (s\<lparr>statuses := hm_insert d Running (statuses s)\<rparr>)"
    obtain sts where sts: "fold (\<lambda>(dest, events) s.
               if startup_netburst_on C \<and> events \<noteq> []
               then start_transaction dest events (s\<lparr>statuses := hm_insert dest Running (statuses s)\<rparr>)
               else s) txns ?s = ?s\<lparr>statuses := sts, futures := futures ?s @ filter (\<lambda>(d, es). es \<noteq> []) txns\<rparr>"
      "\<And>d'. map_of sts d' = (if d' \<in> fst ` set (filter (\<lambda>(d, es). es \<noteq> []) txns) then Some Running else map_of (statuses ?s) d')"
      using Cons.IH [of ?s] by blast
    show ?thesis using sts t False assms by (intro exI [of _ sts]) (auto simp: start_transaction_def)
  qed
qed

lemma active_requests_ok:
  assumes "data_ok R s"
  shows "\<exists>items. active_requests R s = Inr items
    \<and> (\<forall>k e d. (k, e, d) \<in> set items \<longleftrightarrow> dest_ok R d \<and> (k, e) \<in> active s d)"
proof -
  let ?m = "servercurrentevent_data s"
  have mem: "(k, v) \<in> set (raw_stream ?m) \<longleftrightarrow> map_of ?m k = Some v" for k v
    using assms map_of_hm_ok by (fastforce simp: data_ok_def col_ok_def)
  have "\<exists>d e. dest_ok R d \<and> entry_for d k v e" if "(k, v) \<in> set (raw_stream ?m)" for k v
    using that assms unfolding mem data_ok_def col_ok_def by blast
  then obtain items where "parse_items R (raw_stream ?m) = Inr items"
    "\<forall>k e d. (k, e, d) \<in> set items \<longleftrightarrow> (\<exists>v. (k, v) \<in> set (raw_stream ?m) \<and> dest_ok R d \<and> entry_for d k v e)"
    using parse_items_ok [of "raw_stream ?m" R] by blast
  moreover have "(k, e) \<in> active s d \<longleftrightarrow> (\<exists>v. (k, v) \<in> set (raw_stream ?m) \<and> entry_for d k v e)" for k e d
    unfolding mem entries_def by simp
  ultimately show ?thesis unfolding active_requests_def by blast
qed

lemma startup_inv:
  assumes "data_ok R data" "startup_netburst_on C"
  shows "\<exists>s. startup_netburst R C (\<lambda>_. True) (fresh_sender data) = Inr s \<and> sender_inv R s"
proof -
  obtain items where items: "active_requests R data = Inr items"
    "\<forall>k e d. (k, e, d) \<in> set items \<longleftrightarrow> dest_ok R d \<and> (k, e) \<in> active data d"
    using active_requests_ok [OF assms(1)] by blast
  obtain txns data' where coll: "netburst_collect C (\<lambda>_. True) items [] data = (txns, data')" by fastforce
  have txns: "hm_ok txns" "fst ` set txns = (\<lambda>i. snd (snd i)) ` set items"
    using netburst_collect_spec [OF coll] by simp_all
  obtain ks where "data' = fold delete_active_request ks data" using netburst_collect_spec [OF coll] by auto
  then have data': "servernameevent_data data' = servernameevent_data data"
      "servercurrentevent_data data' = fold db_remove ks (servercurrentevent_data data)"
    by (simp_all add: delete_active_run)
  have kept: "map_of (servercurrentevent_data data') k = None \<or> (\<exists>es. map_of txns d = Some es \<and> e \<in> set es)"
    if "(k, e, d) \<in> set items" for k e d
  proof -
    have "hm_ok ([] :: (Destination, SendingEvent list) hash_map)" by simp
    from netburst_collect_spec [OF coll this] that show ?thesis by (elim conjE) metis
  qed
  have ok: "data_ok R data'"
  proof -
    have "col_ok R m \<Longrightarrow> col_ok R (fold db_remove ks m)" for m ks
      by (induction ks arbitrary: m) (simp_all add: col_ok_remove)
    with assms(1) show ?thesis by (simp add: data_ok_def data')
  qed
  let ?run = "filter (\<lambda>(d, es). es \<noteq> []) txns"
  obtain sts where run: "startup_netburst R C (\<lambda>_. True) (fresh_sender data) =
      Inr ((fresh_sender data)\<lparr>sdata := data', statuses := sts, futures := ?run\<rparr>)"
    and sts: "\<forall>d. map_of sts d = (if d \<in> fst ` set ?run then Some Running else None)"
    using netburst_fold [OF assms(2), of txns "(fresh_sender data)\<lparr>sdata := data'\<rparr>"] items(1) coll
    by (auto simp: startup_netburst_def fresh_sender_def)
  have sent: "\<exists>es. (d, es) \<in> set ?run \<and> e \<in> set es" if d: "dest_ok R d" and act': "(k, e) \<in> active data' d" for k e d
  proof -
    have act: "(k, e) \<in> active data d" and "map_of (servercurrentevent_data data') k \<noteq> None"
      using act' by (auto simp: entries_def data' map_of_fold_remove split: if_splits)
    then obtain es where "map_of txns d = Some es" "e \<in> set es" using kept [of k e d] items(2) d by metis
    then show ?thesis by (auto dest!: map_of_SomeD)
  qed
  have dist: "distinct (map fst ?run)" using txns(1) by (simp add: distinct_map_filter)
  have dests: "dest_ok R d" if "d \<in> fst ` set ?run" for d
  proof -
    have "d \<in> fst ` set txns" using that by auto
    then have "d \<in> (\<lambda>i. snd (snd i)) ` set items" using txns(2) by simp
    then obtain k e where "(k, e, d) \<in> set items" by force
    with items(2) show ?thesis by blast
  qed
  let ?s = "(fresh_sender data)\<lparr>sdata := data', statuses := sts, futures := ?run\<rparr>"
  have "snd ` active data' d \<subseteq> set es" if "(d, es) \<in> set ?run" for d es
  proof
    fix e assume "e \<in> snd ` active data' d"
    then obtain k where k: "(k, e) \<in> active data' d" by force
    have "d \<in> fst ` set ?run" using that by (metis fst_conv image_eqI)
    from sent [OF dests [OF this] k] obtain es' where "(d, es') \<in> set ?run" "e \<in> set es'" by blast
    with eq_key_imp_eq_value [OF dist that] show "e \<in> set es" by blast
  qed
  moreover have "active data' d = {}" if "dest_ok R d" "map_of sts d = None" for d
  proof (rule ccontr)
    assume "active data' d \<noteq> {}"
    then obtain k e where "(k, e) \<in> active data' d" by fastforce
    from sent [OF that(1) this] have "d \<in> fst ` set ?run" by (metis fst_conv image_eqI)
    with sts that(2) show False by simp
  qed
  ultimately have "sender_inv R ?s"
    using ok dist dests sts unfolding sender_inv_except_def by (auto simp: fresh_sender_def busy_def)
  with run show ?thesis by blast
qed

lemma reachable_inv:
  assumes "sender_reachable R C s" "startup_netburst_on C"
  shows "sender_inv R s"
  using assms
proof (induction rule: sender_reachable.induct)
  case (start data s)
  with startup_inv [of R data C] show ?case by auto
next
  case (step s S l s')
  with sender_step_inv show ?case by blast
qed

text \<open>
  C6: With \<open>startup_netburst\<close> on, and stored receipts of local users as the client handlers write them
  (\<^const>\<open>receipts_wf\<close>), no handler of the worker panics, whatever the order of queueing, responses,
  failures, clean-ups and the clock: every queued message and every response of a transaction in flight
  is handled, and there is never more than one transaction per destination.
\<close>

theorem sender_never_panics:
  assumes "sender_reachable R C s" "startup_netburst_on C" "receipts_wf S"
  shows "distinct (map fst (futures s))
    \<and> (\<forall>m ms. channel s = m # ms \<longrightarrow> (\<exists>s'. handle_request R C S m (s\<lparr>channel := ms\<rparr>) = Inr s'))
    \<and> (\<forall>d es ok. (d, es) \<in> set (futures s) \<longrightarrow>
        (\<exists>s'. handle_response R (d, ok) (s\<lparr>futures := remove1 (d, es) (futures s)\<rparr>) = Inr s'))"
proof -
  have inv: "sender_inv R s" by (rule reachable_inv [OF assms(1,2)])
  then have "distinct (map fst (futures s))" by (simp add: sender_inv_except_def)
  moreover have "\<exists>s'. handle_request R C S m (s\<lparr>channel := ms\<rparr>) = Inr s'" if "channel s = m # ms" for m ms
  proof -
    have "sender_inv R (s\<lparr>channel := ms\<rparr>)" "msg_ok R m" using inv that by (auto simp: sender_inv_except_def)
    from handle_request_inv [OF this] assms(3) show ?thesis by blast
  qed
  ultimately show ?thesis using handle_response_inv [OF inv] by blast
qed

text \<open>
  C7: With \<open>startup_netburst\<close> on, no step of the running worker loses a queued event: its entry stays in
  the queue or the active column until a transaction that carried it succeeds, or the entries of its
  destination are cleaned up. Start-up itself is not such a step: it drops the active entries of a
  destination beyond \<open>startup_netburst_keep\<close>.
\<close>

theorem sender_no_loss:
  assumes "sender_reachable R C s" "startup_netburst_on C" "sender_step R C S s l s'" "k \<in> pending_keys (sdata s)"
  shows "k \<in> pending_keys (sdata s') \<or> delivered s l k \<or> cleaned l k"
  using sender_step_inv [OF assms(3) reachable_inv [OF assms(1,2)]] assms(4) by blast

section \<open>The queue drains\<close>

text \<open>
  The transaction of a destination in flight succeeds; the events it carried, and the worker after it.
  There is no result when no transaction is in flight or the handler panics.
\<close>

definition deliver_ok :: "id_checks \<Rightarrow> Destination \<Rightarrow> sender \<Rightarrow> (SendingEvent list \<times> sender) option" where
  "deliver_ok R d s =
     (case map_of (futures s) d of
        None \<Rightarrow> None
      | Some es \<Rightarrow>
          (case handle_response R (d, True) (s\<lparr>futures := remove1 (d, es) (futures s)\<rparr>) of
             Inl _ \<Rightarrow> None
           | Inr s' \<Rightarrow> Some (es, s')))"

text \<open>So many successes in a row, and the transactions that succeeded.\<close>

fun drain :: "id_checks \<Rightarrow> Destination \<Rightarrow> nat \<Rightarrow> sender \<Rightarrow> (SendingEvent list list \<times> sender) option" where
  "drain R d 0 s = Some ([], s)"
| "drain R d (Suc n) s =
     Option.bind (deliver_ok R d s) (\<lambda>(es, s1).
     map_option (\<lambda>(txns, s2). (es # txns, s2)) (drain R d n s1))"

definition keys_of :: "Destination \<Rightarrow> db_map \<Rightarrow> u8 list set" where
  "keys_of d m = {k. map_of m k \<noteq> None \<and> prefix (get_prefix d) k}"

lemma get_prefix_not_Nil [simp]: "get_prefix d \<noteq> []"
  by (cases d) simp_all

lemma mark_as_active_queue:
  assumes "\<And>item. item \<in> set items \<Longrightarrow> fst item \<noteq> []"
  shows "map_of (servernameevent_data (mark_as_active items s)) =
    (\<lambda>k. if k \<in> fst ` set items then None else map_of (servernameevent_data s) k)"
  using assms
proof (induction items arbitrary: s)
  case (Cons item items)
  then show ?case by (auto simp: mark_as_active_def mark_one_active_def fun_eq_iff)
qed (simp add: mark_as_active_def)

lemma queued_keys:
  assumes "data_ok R s" "dest_ok R d" "queued_requests R d s = Inr items"
  shows "distinct (map fst items)" "set (map fst items) = keys_of d (servernameevent_data s)"
    "\<And>item. item \<in> set items \<Longrightarrow> fst item \<noteq> []"
proof -
  let ?m = "servernameevent_data s"
  have m: "col_ok R ?m" "hm_ok ?m" using assms(1) by (auto simp: data_ok_def col_ok_def)
  have keys: "map fst items = raw_keys_prefix ?m (get_prefix d)"
    using column_events [OF m(1) assms(2)] assms(3) by (auto simp: queued_requests_def)
  have "distinct (raw_keys ?m)" using m(2) by (simp add: raw_keys_def raw_stream_def distinct_map)
  then show "distinct (map fst items)" unfolding keys raw_keys_prefix_filter by simp
  show set: "set (map fst items) = keys_of d ?m" unfolding keys raw_keys_prefix_filter keys_of_def
    by (auto simp: raw_keys_def map_of_eq_None_iff)
  show "fst item \<noteq> []" if "item \<in> set items" for item
  proof -
    have "fst item \<in> keys_of d ?m" using that set by (metis image_eqI set_map)
    then show ?thesis by (auto simp: keys_of_def)
  qed
qed

lemma keyed_lists_eq:
  assumes "distinct (map fst xs)" "set ys \<subseteq> set xs" "set zs \<subseteq> set xs" "map fst ys = map fst zs"
  shows "ys = zs"
proof -
  have "inj_on fst (set xs)" using assms(1) by (simp add: distinct_map)
  then have "inj_on fst (set ys \<union> set zs)" using assms(2,3) by (meson Un_least inj_on_subset)
  with assms(4) show ?thesis by (simp add: inj_on_map_eq_map)
qed

text \<open>Taking the first events out of the queue leaves the others, in their order.\<close>

lemma queued_after_mark:
  assumes "data_ok R s" "dest_ok R d" "queued_requests R d s = Inr items"
    "data_ok R s'" "servernameevent_data s' = servernameevent_data (mark_as_active (take n items) s)"
  shows "queued_requests R d s' = Inr (drop n items)"
proof -
  let ?m = "servernameevent_data s" and ?m' = "servernameevent_data s'"
  note q = queued_keys [OF assms(1-3)]
  have m: "col_ok R ?m" "col_ok R ?m'" using assms(1,4) by (simp_all add: data_ok_def)
  obtain items' where items': "queued_requests R d s' = Inr items'" "set items' = entries ?m' d"
      "map fst items' = raw_keys_prefix ?m' (get_prefix d)"
    using column_events [OF m(2) assms(2)] by (auto simp: queued_requests_def)
  have items: "set items = entries ?m d" "map fst items = raw_keys_prefix ?m (get_prefix d)"
    using column_events [OF m(1) assms(2)] assms(3) by (auto simp: queued_requests_def)
  note q' = queued_keys [OF assms(4,2) items'(1)]
  have new: "fst item \<noteq> []" if "item \<in> set (take n items)" for item by (rule q(3) [OF in_set_takeD [OF that]])
  have rest: "map_of ?m' = (\<lambda>k. if k \<in> fst ` set (take n items) then None else map_of ?m k)"
    unfolding assms(5) by (rule mark_as_active_queue [OF new])
  have split: "set (map fst items) - fst ` set (take n items) = set (map fst (drop n items))"
    using q(1) distinct_append [of "map fst (take n items)" "map fst (drop n items)"]
      set_append [of "map fst (take n items)" "map fst (drop n items)"]
    unfolding map_append [symmetric] append_take_drop_id set_map by blast
  have "set (map fst items') = set (map fst (drop n items))"
    unfolding q'(2) split [symmetric] q(2) by (auto simp: keys_of_def rest split: if_splits)
  moreover have "sorted (raw_keys_prefix m p)" for m p
    by (simp add: raw_keys_prefix_filter raw_keys_def sorted_raw_stream sorted_filter [of id, simplified])
  then have "sorted (map fst items')" "sorted (map fst items)" unfolding items'(3) items(2) by blast+
  then have "sorted (map fst items')" "sorted (map fst (drop n items))" by (simp_all add: drop_map [symmetric] sorted_wrt_drop)
  ultimately have "map fst items' = map fst (drop n items)"
    using q'(1) distinct_drop [OF q(1), of n] by (intro sorted_distinct_set_unique) (simp_all add: drop_map)
  moreover have "set items' \<subseteq> set items"
    unfolding items'(2) items(1) by (auto simp: entries_def rest split: if_splits)
  ultimately have "items' = drop n items"
    using keyed_lists_eq [OF q(1), of items' "drop n items"] set_drop_subset [of n items] by blast
  with items'(1) show ?thesis by simp
qed

lemma deliver_ok_spec:
  assumes "sender_inv R s" "(d, es) \<in> set (futures s)" "queued_requests R d (sdata s) = Inr items"
  shows "\<exists>s'. deliver_ok R d s = Some (es, s') \<and> sender_inv R s'
    \<and> (if items = [] then map_of (statuses s') d = None \<and> d \<notin> fst ` set (futures s')
         \<and> keys_of d (servercurrentevent_data (sdata s')) = {} \<and> keys_of d (servernameevent_data (sdata s')) = {}
       else (d, map snd (take 48 items)) \<in> set (futures s') \<and> queued_requests R d (sdata s') = Inr (drop 48 items))"
proof -
  let ?t = "s\<lparr>futures := remove1 (d, es) (futures s)\<rparr>"
  note take = inv_take_future [OF assms(1,2)]
  have ok: "data_ok R (sdata s)" "dest_ok R d"
    using assms(1) inv_dest_ok [OF assms(1,2)] by (simp_all add: sender_inv_except_def)
  have "map_of (futures s) d = Some es" using assms(1,2) by (simp add: sender_inv_except_def map_of_hm_ok)
  then have del: "deliver_ok R d s =
      (case handle_response_ok R d ?t of Inl _ \<Rightarrow> None | Inr s' \<Rightarrow> Some (es, s'))"
    by (simp add: deliver_ok_def handle_response_def)
  obtain s' where s': "handle_response_ok R d ?t = Inr s'" "sender_inv R s'"
    "sdata s' = mark_as_active (take DEQUEUE_LIMIT items) (delete_all_active_requests_for d (sdata s))"
    "if items = [] then s' = forget_status d (?t\<lparr>sdata := delete_all_active_requests_for d (sdata s)\<rparr>)
       else futures s' = futures ?t @ [(d, map snd (take DEQUEUE_LIMIT items))]"
    using handle_response_ok_run [OF take(1)] assms(3) by auto
  show ?thesis
  proof (cases "items = []")
    case True
    then have "sdata s' = delete_all_active_requests_for d (sdata s)" "map_of (statuses s') d = None"
      using s'(3,4) by (simp_all add: mark_as_active_def forget_status_def delete_conv')
    moreover have "keys_of d (servernameevent_data (sdata s)) = {}" using queued_keys(2) [OF ok assms(3)] True by simp
    moreover have "d \<notin> fst ` set (futures s')"
      using s'(2) \<open>map_of (statuses s') d = None\<close> by (auto simp: sender_inv_except_def)
    ultimately show ?thesis using del s'(1,2) True
      by (simp add: keys_of_def delete_all_active_requests_for_def map_of_remove_prefix)
  next
    case False
    let ?del = "delete_all_active_requests_for d (sdata s)"
    have ok': "data_ok R (sdata s')" "data_ok R ?del"
      using s'(2) delete_all_active_spec(1) [OF ok] by (simp_all add: sender_inv_except_def)
    have "queued_requests R d ?del = Inr items" using assms(3) by (simp add: queued_requests_def)
    from queued_after_mark [OF ok'(2) ok(2) this ok'(1), of DEQUEUE_LIMIT]
    have "queued_requests R d (sdata s') = Inr (drop 48 items)" using s'(3) by (simp add: DEQUEUE_LIMIT_def)
    then show ?thesis using del s'(1,2,4) False by (auto simp: DEQUEUE_LIMIT_def)
  qed
qed

lemma batches: "0 < n \<Longrightarrow> (n + 47) div 48 = Suc ((n - 48 + 47) div (48 :: nat))"
  by (cases "n < 48") (simp_all add: div_nat_eqI le_div_geq)

text \<open>The batches of 48 of a list of events.\<close>

definition batches_of :: "QueueItem list \<Rightarrow> SendingEvent list list" where
  "batches_of items = map (\<lambda>i. map snd (take 48 (drop (48 * i) items))) [0..<(length items + 47) div 48]"

lemma batches_of_Nil [simp]: "batches_of [] = []"
  by (simp add: batches_of_def)

lemma batches_of_step:
  assumes "items \<noteq> []"
  shows "batches_of items = map snd (take 48 items) # batches_of (drop 48 items)"
proof -
  have "(length items + 47) div 48 = Suc ((length (drop 48 items) + 47) div 48)"
    using batches [of "length items"] assms by simp
  then show ?thesis unfolding batches_of_def
    by (simp only: upt_conv_Cons zero_less_Suc map_Suc_upt [symmetric] map_map)
       (simp add: comp_def add.commute)
qed

lemma drain_spec:
  assumes "sender_inv R s" "(d, es) \<in> set (futures s)" "queued_requests R d (sdata s) = Inr items"
  shows "\<exists>s'. drain R d (Suc (length (batches_of items))) s = Some (es # batches_of items, s')
    \<and> map_of (statuses s') d = None \<and> d \<notin> fst ` set (futures s')
    \<and> keys_of d (servercurrentevent_data (sdata s')) = {} \<and> keys_of d (servernameevent_data (sdata s')) = {}"
  using assms
proof (induction "length items" arbitrary: s es items rule: less_induct)
  case less
  obtain s1 where s1: "deliver_ok R d s = Some (es, s1)" "sender_inv R s1"
    "if items = [] then map_of (statuses s1) d = None \<and> d \<notin> fst ` set (futures s1)
       \<and> keys_of d (servercurrentevent_data (sdata s1)) = {} \<and> keys_of d (servernameevent_data (sdata s1)) = {}
     else (d, map snd (take 48 items)) \<in> set (futures s1) \<and> queued_requests R d (sdata s1) = Inr (drop 48 items)"
    using deliver_ok_spec [OF less.prems] by blast
  show ?case
  proof (cases "items = []")
    case True
    then show ?thesis using s1 by simp
  next
    case False
    then have "length (drop 48 items) < length items" by simp
    from less.hyps [OF this s1(2)] s1(1,3) False show ?thesis by (auto simp: batches_of_step)
  qed
qed

text \<open>
  C8: With \<open>startup_netburst\<close> on, a destination that answers is served completely: when events wait behind
  a transaction in flight, one success for it and one for each further batch deliver the transaction in
  flight and then all the waiting events, in the order of their keys, in transactions of 48 events and the
  rest; after that no entry of the destination is left in either column, and no status and no transaction.
\<close>

theorem sender_drains:
  assumes "sender_reachable R C s" "startup_netburst_on C" "(d, es) \<in> set (futures s)"
    "queued_requests R d (sdata s) = Inr items"
  shows "\<exists>s'. drain R d (Suc ((length items + 47) div 48)) s
      = Some (es # map (\<lambda>i. map snd (take 48 (drop (48 * i) items))) [0..<(length items + 47) div 48], s')
    \<and> map_of (statuses s') d = None \<and> d \<notin> fst ` set (futures s')
    \<and> (\<forall>k. k \<in> pending_keys (sdata s') \<longrightarrow> \<not> prefix (get_prefix d) k)"
proof -
  have "k \<notin> pending_keys data" if "keys_of d (servercurrentevent_data data) = {}"
    "keys_of d (servernameevent_data data) = {}" "prefix (get_prefix d) k" for data k
    using that unfolding keys_of_def pending_keys_def by blast
  moreover have "length (batches_of items) = (length items + 47) div 48" by (simp add: batches_of_def)
  ultimately show ?thesis
    using drain_spec [OF reachable_inv [OF assms(1,2)] assms(3,4)] unfolding batches_of_def [symmetric] by metis
qed

section \<open>The limits of ephemeral data\<close>

text \<open>A selector moves the count forward, and not past the count at which the selection started.\<close>

definition count_within :: "u64 \<Rightarrow> u64 \<Rightarrow> u64 \<Rightarrow> bool" where
  "count_within low upper c \<longleftrightarrow> low \<le> c \<and> (c \<le> low \<or> c \<le> upper)"

lemma count_within_refl [simp]: "count_within c upper c"
  by (simp add: count_within_def)

lemma count_within_trans: "count_within a upper b \<Longrightarrow> count_within b upper c \<Longrightarrow> count_within a upper c"
  unfolding count_within_def by (meson order_trans)

lemma count_within_max: "c \<le> upper \<Longrightarrow> count_within a upper (max a c)"
  by (auto simp: count_within_def max_def)

lemma device_changes_room_bound:
  assumes "device_changes_room S upper changes (seen, m, events) = ((seen', m', events'), stop)"
    "length events < SELECT_EDU_LIMIT"
  shows "length events' \<le> SELECT_EDU_LIMIT \<and> (\<not> stop \<longrightarrow> length events' < SELECT_EDU_LIMIT) \<and> count_within m upper m'"
  using assms
proof (induction S upper changes "(seen, m, events)" arbitrary: seen m events rule: device_changes_room.induct)
  case (2 S upper user count changes seen m events)
  show ?case
  proof (cases "count > upper")
    case True
    with 2 show ?thesis by simp
  next
    case False
    then have w: "count_within m upper (max m count)" by (simp add: count_within_max)
    show ?thesis
    proof (cases "user \<in> set seen")
      case True
      with "2.hyps"(1) [OF False refl True] "2.prems" False w show ?thesis
        by (auto intro: count_within_trans)
    next
      case new: False
      show ?thesis
      proof (cases "length events \<ge> SELECT_EDU_LIMIT - 1")
        case True
        with "2.prems" False new w show ?thesis by (auto simp: Let_def)
      next
        case less: False
        with "2.hyps"(2) [OF False refl new refl less] "2.prems" False new w show ?thesis
          by (auto simp: Let_def intro: count_within_trans)
      qed
    qed
  qed
qed auto

lemma device_changes_rooms_bound:
  assumes "device_changes_rooms S since rooms (seen, m, events) = (seen', m', events')"
    "length events < SELECT_EDU_LIMIT"
  shows "length events' \<le> SELECT_EDU_LIMIT \<and> count_within m (snd since) m'"
  using assms
proof (induction rooms arbitrary: seen m events)
  case (Cons room rooms)
  let ?changes = "filter (\<lambda>(user, _). user_is_local S user) (room_keys_changed S room (fst since))"
  obtain seen1 m1 events1 stop where one:
    "device_changes_room S (snd since) ?changes (seen, m, events) = ((seen1, m1, events1), stop)"
    by (metis prod.exhaust)
  note b = device_changes_room_bound [OF one Cons.prems(2)]
  show ?case
  proof (cases stop)
    case True
    with Cons.prems(1) one b show ?thesis by simp
  next
    case False
    with Cons.IH [of seen1 m1 events1] Cons.prems(1) one b show ?thesis
      by (auto intro: count_within_trans)
  qed
qed auto

lemma receipts_room_bound:
  "receipts_room S upper rs num m read = Inr (read', m') \<Longrightarrow> count_within m upper m'"
proof (induction S upper rs num m read rule: receipts_room.induct)
  case (2 S upper user count receipt rs num m read)
  show ?case
  proof (cases "count > upper")
    case True
    with "2.prems" show ?thesis by simp
  next
    case False
    then have w: "count_within m upper (max m count)" by (simp add: count_within_max)
    with 2 False show ?thesis
      by (auto simp: Let_def split: stored_receipt.splits sum.splits if_splits intro: count_within_trans)
  qed
qed simp

lemma select_receipts_rooms_bound:
  "select_receipts_rooms S since rooms m = Inr (receipts, m') \<Longrightarrow> count_within m (snd since) m'"
proof (induction rooms arbitrary: m receipts)
  case (Cons room rooms)
  then obtain read m1 rest where one:
      "receipts_room S (snd since) (readreceipts_since S room (fst since)) 0 m [] = Inr (read, m1)"
      "select_receipts_rooms S since rooms m1 = Inr (rest, m')"
    by (auto simp: result_simps split: prod.splits)
  show ?case by (rule count_within_trans [OF receipts_room_bound [OF one(1)] Cons.IH [OF one(2)]])
qed simp

lemma presence_updates_bound:
  "count_within m upper (snd (presence_updates S server upper ps m ups))"
proof (induction S server upper ps m ups rule: presence_updates.induct)
  case (2 S server upper user count presence ps m ups)
  show ?case
  proof (cases "count > upper")
    case False
    then have w: "count_within m upper (max m count)" by (simp add: count_within_max)
    with 2 False show ?thesis by (auto simp: Let_def split: option.splits intro: count_within_trans)
  qed simp
qed simp

text \<open>
  C39: What \<open>select_edus\<close> adds to a transaction are at most \<open>EDU_LIMIT\<close> ephemeral events (an ephemeral event
  that is itself the queued message comes on top), and the count it returns to be stored for the server
  does not go back and does not run ahead of the global counter.
\<close>

theorem select_edus_limit:
  assumes "select_edus C S server s = Inr (edus, last_count)"
  shows "length edus \<le> EDU_LIMIT
   \<and> count_within (get_latest_educount server s) (counter (send_short s)) last_count"
proof -
  let ?since = "(get_latest_educount server s, counter (send_short s))"
  obtain dev m1 where dev: "select_edus_device_changes S server ?since (fst ?since) = (dev, m1)" by fastforce
  obtain rec m2 where rec: "(if allow_outgoing_read_receipts C then select_edus_receipts S server ?since m1
      else Inr (None, m1)) = Inr (rec, m2)"
    using assms unfolding select_edus_def Let_def dev by (auto simp: result_simps)
  obtain pre m3 where pre: "(if allow_outgoing_presence C then select_edus_presence S server ?since m2 else (None, m2))
    = (pre, m3)" by fastforce
  have "length dev \<le> SELECT_EDU_LIMIT \<and> count_within (fst ?since) (snd ?since) m1"
    using dev device_changes_rooms_bound [of S ?since "server_rooms S server" "[]" "fst ?since" "[]" _ m1 dev]
    by (auto simp: select_edus_device_changes_def SELECT_EDU_LIMIT_def EDU_LIMIT_def split: prod.splits)
  moreover have "count_within m1 (snd ?since) m2"
    using rec by (auto simp: select_edus_receipts_def result_simps dest!: select_receipts_rooms_bound
        split: if_splits prod.splits)
  moreover have "count_within m2 (snd ?since) m3"
    using pre presence_updates_bound [of m2 "snd ?since" S server]
    by (auto simp: select_edus_presence_def case_prod_beta split: if_splits)
  moreover have "edus = dev @ (case pre of None \<Rightarrow> [] | Some e \<Rightarrow> [e]) @ (case rec of None \<Rightarrow> [] | Some e \<Rightarrow> [e])
      \<and> last_count = m3"
    using assms rec pre unfolding select_edus_def Let_def dev by simp
  ultimately show ?thesis
    by (auto simp: SELECT_EDU_LIMIT_def EDU_LIMIT_def split: option.splits intro: count_within_trans)
qed

section \<open>Examples\<close>

definition ex_checks :: id_checks where
  "ex_checks = \<lparr>user_id_ok = (\<lambda>_. True), room_id_ok = (\<lambda>_. True), server_name_ok = (\<lambda>_. True)\<rparr>"

definition ex_config :: sender_config where
  "ex_config = \<lparr>sender_timeout = 180, sender_retry_backoff_limit = 86400, startup_netburst_on = True,
     startup_netburst_keep = 50, allow_outgoing_read_receipts = True, allow_outgoing_presence = True\<rparr>"

definition ex_sources :: edu_sources where
  "ex_sources = \<lparr>server_rooms = (\<lambda>_. []), room_keys_changed = (\<lambda>_ _. []), readreceipts_since = (\<lambda>_ _. []),
     presence_since = (\<lambda>_. []), user_is_local = (\<lambda>_. True), server_sees_user = (\<lambda>_ _. True),
     device_list_edu = (\<lambda>u. u), receipt_edu = (\<lambda>_. [0x7B]), presence_edu = (\<lambda>_. [0x7B])\<rparr>"

definition ex_short :: short_data where
  "ex_short = \<lparr>counter = 7, eventid_shorteventid = [], shorteventid_eventid = [], statekey_shortstatekey = [],
     shortstatekey_statekey = [], roomid_shortroomid = [], statehash_shortstatehash = []\<rparr>"

definition ex_data :: sending_data where
  "ex_data = \<lparr>send_short = ex_short, servercurrentevent_data = [], servernameevent_data = [], servername_educount = []\<rparr>"

abbreviation ex_dest :: Destination where "ex_dest \<equiv> Federation [0x61]"

definition ex_key :: "u8 list" where "ex_key = [0x61, SEP, 0, 0, 0, 0, 0, 0, 0, 8]"

text \<open>One message queued, and its transaction in flight.\<close>

definition ex_queued :: sender where
  "ex_queued = \<lparr>sdata = ex_data\<lparr>send_short := ex_short\<lparr>counter := 8\<rparr>, servernameevent_data := [(ex_key, [0x7B])]\<rparr>,
     statuses = [], futures = [],
     channel = [\<lparr>msg_dest = ex_dest, msg_event = EvEdu [0x7B], queue_id = ex_key\<rparr>], clock = 0\<rparr>"

definition ex_sent :: sender where
  "ex_sent = \<lparr>sdata = ex_data\<lparr>send_short := ex_short\<lparr>counter := 8\<rparr>, servercurrentevent_data := [(ex_key, [0x7B])],
       servername_educount := [([0x61], 0)]\<rparr>,
     statuses = [(ex_dest, Running)], futures = [(ex_dest, [EvEdu [0x7B]])], channel = [], clock = 0\<rparr>"

lemma ex_dest_ok: "dest_ok ex_checks ex_dest"
  by code_simp

lemma ex_keys: "queue_keys [(EvEdu [0x7B], ex_dest)] ex_short = ([ex_key], ex_short\<lparr>counter := 8\<rparr>)"
  by code_simp

lemma ex_queue: "send_requests [(ex_dest, EvEdu [0x7B])] (fresh_sender ex_data) = ex_queued"
  using ex_keys by (simp add: send_requests_def queue_requests_def fresh_sender_def ex_data_def ex_queued_def
      event_value_def db_insert_batch_def db_insert_def dispatch_def)

lemma ex_edus: "select_edus ex_config ex_sources server data = Inr ([], get_latest_educount server data)"
  by (simp add: select_edus_def select_edus_device_changes_def select_edus_receipts_def select_edus_presence_def
      ex_sources_def ex_config_def Let_def)

lemma ex_request: "handle_request ex_checks ex_config ex_sources (hd (channel ex_queued)) (ex_queued\<lparr>channel := []\<rparr>) = Inr ex_sent"
proof -
  let ?s1 = "ex_queued\<lparr>channel := [], statuses := [(ex_dest, Running)]\<rparr>"
  have cur: "select_events_current ex_config ex_dest (ex_queued\<lparr>channel := []\<rparr>) = ((True, False), ?s1)"
    by (simp add: select_events_current_def ex_queued_def)
  have mark: "mark_as_active [(ex_key, EvEdu [0x7B])] (sdata ?s1) =
      ex_data\<lparr>send_short := ex_short\<lparr>counter := 8\<rparr>, servercurrentevent_data := [(ex_key, [0x7B])]\<rparr>"
    by (simp add: ex_queued_def ex_data_def mark_as_active_def mark_one_active_def db_insert_def db_remove_def
        event_value_def) (simp add: ex_key_def)
  have msg: "hd (channel ex_queued) = \<lparr>msg_dest = ex_dest, msg_event = EvEdu [0x7B], queue_id = ex_key\<rparr>"
    by (simp add: ex_queued_def)
  have sel: "select_events ex_checks ex_config ex_sources ex_dest [(ex_key, EvEdu [0x7B])] (ex_queued\<lparr>channel := []\<rparr>)
      = Inr (Some [EvEdu [0x7B]], ex_sent\<lparr>futures := []\<rparr>)"
    unfolding select_events_def cur by (simp add: mark [simplified] add_edus_def ex_edus)
       (simp add: ex_data_def get_latest_educount_def set_latest_educount_def ex_sent_def ex_queued_def)
  show ?thesis unfolding handle_request_def msg by (simp add: sel start_transaction_def ex_sent_def)
qed

lemma ex_start: "startup_netburst ex_checks ex_config (\<lambda>_. True) (fresh_sender ex_data) = Inr (fresh_sender ex_data)"
  by (simp add: startup_netburst_def active_requests_def raw_stream_def fresh_sender_def ex_data_def)

lemma ex_queued_reachable: "sender_reachable ex_checks ex_config ex_queued"
proof -
  have "data_ok ex_checks ex_data" by (simp add: data_ok_def col_ok_def ex_data_def)
  then have "sender_reachable ex_checks ex_config (fresh_sender ex_data)"
    using ex_start sender_reachable.start by blast
  moreover have "sender_step ex_checks ex_config ex_sources (fresh_sender ex_data)
      (LQueue [(ex_dest, EvEdu [0x7B])]) ex_queued"
    using sender_step.queue [of "[(ex_dest, EvEdu [0x7B])]" ex_checks ex_config ex_sources "fresh_sender ex_data"]
      ex_dest_ok ex_queue by (simp add: sendable_def)
  ultimately show ?thesis by (rule sender_reachable.step)
qed

lemma ex_request_step: "sender_step ex_checks ex_config ex_sources ex_queued LRequest ex_sent"
proof -
  have "channel ex_queued = [hd (channel ex_queued)]" by (simp add: ex_queued_def)
  from sender_step.request [OF this ex_request] show ?thesis .
qed

lemmas ex_sent_reachable = sender_reachable.step [OF ex_queued_reachable ex_request_step]

theorem sending_key_roundtrip_witness:
  "parse_servercurrentevent ex_checks ex_key [0x7B] = Inr (ex_dest, EvEdu [0x7B])"
  using sending_key_roundtrip [OF ex_dest_ok _ ex_keys] by (simp add: sendable_def event_value_def)

text \<open>Sources with a read receipt of a local user.\<close>

definition ex_receipts :: edu_sources where
  "ex_receipts = ex_sources\<lparr>server_rooms := (\<lambda>_. [[0x72]]), readreceipts_since := (\<lambda>_ _.
     [([0x75], 5, ReceiptEvent [([0x65], [(ReceiptRead, [([0x75], [0x64])])])])])\<rparr>"

lemma ex_receipts_wf: "receipts_wf ex_receipts"
  by (simp add: receipts_wf_def ex_receipts_def)

lemma ex_receipts_edus: "select_edus ex_config ex_receipts [0x61] (sdata ex_sent) = Inr ([[0x7B]], 5)"
  by (simp add: select_edus_def select_edus_device_changes_def select_edus_receipts_def select_edus_presence_def
      ex_receipts_def ex_sources_def ex_config_def ex_sent_def ex_data_def ex_short_def get_latest_educount_def
      read_receipt_of_def SELECT_RECEIPT_LIMIT_def Let_def max_def)

theorem select_edus_limit_witness:
  "select_edus ex_config ex_receipts [0x61] (sdata ex_sent) = Inr ([[0x7B]], 5)
   \<and> length [[0x7B :: u8]] \<le> EDU_LIMIT
   \<and> count_within (get_latest_educount [0x61] (sdata ex_sent)) (counter (send_short (sdata ex_sent))) 5"
  using ex_receipts_edus select_edus_limit [OF ex_receipts_edus] by simp

theorem sender_never_panics_witness:
  "distinct (map fst (futures ex_sent))
   \<and> (\<exists>s'. handle_response ex_checks (ex_dest, False) (ex_sent\<lparr>futures := []\<rparr>) = Inr s')"
proof -
  have "\<exists>s'. handle_response ex_checks (ex_dest, False)
      (ex_sent\<lparr>futures := remove1 (ex_dest, [EvEdu [0x7B]]) (futures ex_sent)\<rparr>) = Inr s'"
    using sender_never_panics [OF ex_sent_reachable _ ex_receipts_wf] by (auto simp: ex_sent_def ex_config_def)
  then show ?thesis by (simp add: ex_sent_def)
qed

theorem sender_no_loss_witness:
  "ex_key \<in> pending_keys (sdata ex_sent) \<or> delivered ex_queued LRequest ex_key \<or> cleaned LRequest ex_key"
  by (rule sender_no_loss [OF ex_queued_reachable _ ex_request_step])
    (simp_all add: ex_config_def pending_keys_def ex_queued_def)

theorem sender_drains_witness:
  "\<exists>s'. drain ex_checks ex_dest 1 ex_sent = Some ([[EvEdu [0x7B]]], s') \<and> map_of (statuses s') ex_dest = None"
proof -
  have "queued_requests ex_checks ex_dest (sdata ex_sent) = Inr []" by code_simp
  from sender_drains [OF ex_sent_reachable _ _ this, of "[EvEdu [0x7B]]"]
  show ?thesis by (auto simp: ex_config_def ex_sent_def)
qed

end
