(* ===== verification/AccountData.thy ===== *)
theory AccountData
  imports DbMap PduId ShortIds
begin

text \<open>
  Account data, \<^verbatim>\<open>src/service/account_data/mod.rs\<close>: one event per room (or none, for global data), user and
  event type.  The rows are keyed by room, user, a fresh count and the type, so that a scan finds the
  changes after a count; an index maps room, user and type to the current row.  Events are JSON texts;
  \<open>has_fields\<close> says which have a type and a content.
\<close>

section \<open>Operations\<close>

datatype AccountError = InvalidParam | AccountNotFound | AccountPanic CodecError

record account_data =
  acc_short :: short_data
  roomuserdataid_accountdata :: db_map
  roomusertype_roomuserdataid :: db_map

definition opt_room :: "u8 list option \<Rightarrow> DbVal" where
  "opt_room room = (case room of None \<Rightarrow> VNone | Some r \<Rightarrow> VSome (VStr r))"

definition roomuserdataid :: "u8 list option \<Rightarrow> u8 list \<Rightarrow> u64 \<Rightarrow> u8 list \<Rightarrow> DbVal" where
  "roomuserdataid room user count event_type = VTuple [opt_room room, VStr user, VU64 count, VStr event_type]"

definition roomusertype :: "u8 list option \<Rightarrow> u8 list \<Rightarrow> u8 list \<Rightarrow> DbVal" where
  "roomusertype room user event_type = VTuple [opt_room room, VStr user, VStr event_type]"

definition expect_codec :: "CodecError + 'a \<Rightarrow> AccountError + 'a" where
  "expect_codec r = (case r of Inl e \<Rightarrow> Inl (AccountPanic e) | Inr v \<Rightarrow> Inr v)"

definition update_account_data ::
    "(u8 list \<Rightarrow> bool) \<Rightarrow> u8 list option \<Rightarrow> u8 list \<Rightarrow> u8 list \<Rightarrow> u8 list \<Rightarrow> account_data
     \<Rightarrow> AccountError + account_data" where
  "update_account_data has_fields room user event_type data s =
     (if \<not> has_fields data then Inl InvalidParam
      else
        let (count, short) = next_count (acc_short s);
            id = roomuserdataid room user count event_type;
            key = roomusertype room user event_type
        in rbind (expect_codec (db_put id (VJson data) (roomuserdataid_accountdata s))) (\<lambda>rows.
           rbind (expect_codec (db_qry (roomusertype_roomuserdataid s) key)) (\<lambda>prev.
           rbind (expect_codec (db_put key id (roomusertype_roomuserdataid s))) (\<lambda>index.
           Inr \<lparr>acc_short = short,
                roomuserdataid_accountdata = (case prev of None \<Rightarrow> rows | Some p \<Rightarrow> db_remove p rows),
                roomusertype_roomuserdataid = index\<rparr>))))"

definition get_raw :: "u8 list option \<Rightarrow> u8 list \<Rightarrow> u8 list \<Rightarrow> account_data \<Rightarrow> AccountError + u8 list" where
  "get_raw room user ev_kind s =
     rbind (expect_codec (db_qry (roomusertype_roomuserdataid s) (roomusertype room user ev_kind))) (\<lambda>id.
     rbind (ok_or AccountNotFound id) (\<lambda>id. ok_or AccountNotFound (db_get (roomuserdataid_accountdata s) id)))"

text \<open>The parsers of the stored events are third-party code: \<open>json_ok\<close> says which bytes they take.\<close>

definition get_global :: "(u8 list \<Rightarrow> bool) \<Rightarrow> u8 list \<Rightarrow> u8 list \<Rightarrow> account_data \<Rightarrow> AccountError + u8 list" where
  "get_global json_ok user ev_kind s =
     rbind (get_raw None user ev_kind s) (\<lambda>v. if json_ok v then Inr v else Inl (AccountPanic SerdeDe))"

definition get_room :: "(u8 list \<Rightarrow> bool) \<Rightarrow> u8 list \<Rightarrow> u8 list \<Rightarrow> u8 list \<Rightarrow> account_data \<Rightarrow> AccountError + u8 list" where
  "get_room json_ok room user ev_kind s =
     rbind (get_raw (Some room) user ev_kind s) (\<lambda>v. if json_ok v then Inr v else Inl (AccountPanic SerdeDe))"

text \<open>A key of \<open>changes_since\<close>, with the checks of the identifiers; the type is skipped.\<close>

definition change_of :: "id_checks \<Rightarrow> DbVal \<times> DbVal \<Rightarrow> ((u8 list option \<times> u8 list \<times> u64) \<times> u8 list) option" where
  "change_of R kv =
     (case kv of
        (VTuple [room, user, VU64 c, _], VBytes v) \<Rightarrow>
          (case (as_opt_id (room_id_ok R) room, as_id (user_id_ok R) user) of
             (Some r, Some u) \<Rightarrow> Some ((r, u, c), v)
           | _ \<Rightarrow> None)
      | _ \<Rightarrow> None)"

definition changes_since ::
    "id_checks \<Rightarrow> (u8 list \<Rightarrow> bool) \<Rightarrow> u8 list option \<Rightarrow> u8 list \<Rightarrow> u64 option \<Rightarrow> u64 option \<Rightarrow> account_data
     \<Rightarrow> CodecError + (u64 \<times> u8 list) list" where
  "changes_since R json_ok room user since limit s =
     (let first_possible = VTuple [opt_room room, VStr user,
            VU64 (case since of None \<Rightarrow> 0 | Some n \<Rightarrow> u64_saturating_add n 1)]
      in rbind (stream_from json_ok (roomuserdataid_accountdata s) (TTuple [TOption TStr, TStr, TU64, TIgnore]) TBytes
                  first_possible) (\<lambda>rs.
         Inr (filter (\<lambda>(_, v). json_ok v)
               (map (\<lambda>((_, _, c), v). (c, v))
                 (takeWhile (\<lambda>((r, u, c), _). room = r \<and> user = u \<and> (case limit of None \<Rightarrow> True | Some t \<Rightarrow> c \<le> t))
                   (List.map_filter (change_of R) (ignore_err rs)))))))"

section \<open>Keys\<close>

definition ids_ok :: "id_checks \<Rightarrow> u8 list option \<Rightarrow> u8 list \<Rightarrow> u8 list \<Rightarrow> bool" where
  "ids_ok R room user event_type \<longleftrightarrow>
     valid_utf8 user \<and> user_id_ok R user \<and> valid_utf8 event_type
     \<and> (case room of None \<Rightarrow> True | Some r \<Rightarrow> valid_utf8 r \<and> r \<noteq> [] \<and> room_id_ok R r)"

definition row_prefix :: "u8 list option \<Rightarrow> u8 list \<Rightarrow> u8 list" where
  "row_prefix room user = (case room of None \<Rightarrow> [] | Some r \<Rightarrow> r) @ SEP # user @ [SEP]"

definition row_key :: "u8 list option \<Rightarrow> u8 list \<Rightarrow> u64 \<Rightarrow> u8 list \<Rightarrow> u8 list" where
  "row_key room user c event_type = row_prefix room user @ to_be_bytes c @ SEP # event_type"

definition index_key :: "u8 list option \<Rightarrow> u8 list \<Rightarrow> u8 list \<Rightarrow> u8 list" where
  "index_key room user event_type = row_prefix room user @ event_type"

lemma ser_row_key [simp]: "serialize (roomuserdataid room user c t) = Inr (row_key room user c t)"
  by (simp add: serialize_def roomuserdataid_def opt_room_def row_key_def row_prefix_def split: option.splits)

lemma ser_index_key [simp]: "serialize (roomusertype room user t) = Inr (index_key room user t)"
  by (simp add: serialize_def roomusertype_def opt_room_def index_key_def row_prefix_def split: option.splits)

lemma ids_fields:
  assumes "ids_ok R room user t"
  shows "fields_ok json_ok [opt_room room, VStr user, VU64 c, VStr t] [TOption TStr, TStr, TU64, TStr]"
    "fields_ok json_ok [opt_room room, VStr user, VStr t] [TOption TStr, TStr, TStr]"
    "leading_ok json_ok [opt_room room, VStr user, VU64 c] [TOption TStr, TStr, TU64]"
proof -
  have "field_ok json_ok (opt_room room) (TOption TStr)"
  proof (cases room)
    case (Some r)
    then have r: "valid_utf8 r" "r \<noteq> []" using assms by (auto simp: ids_ok_def)
    then obtain b bs where "r = b # bs" by (cases r) auto
    moreover have "b \<noteq> SEP" using valid_utf8_no_sep [OF r(1)] calculation by auto
    ultimately show ?thesis using r Some by (simp add: opt_room_def)
  qed (simp add: opt_room_def)
  then show "fields_ok json_ok [opt_room room, VStr user, VU64 c, VStr t] [TOption TStr, TStr, TU64, TStr]"
    "fields_ok json_ok [opt_room room, VStr user, VStr t] [TOption TStr, TStr, TStr]"
    "leading_ok json_ok [opt_room room, VStr user, VU64 c] [TOption TStr, TStr, TU64]"
    using assms by (simp_all add: ids_ok_def leading_ok_def)
qed

lemma opt_room_inject [simp]: "opt_room a = opt_room b \<longleftrightarrow> a = b"
  by (auto simp: opt_room_def split: option.splits)

lemma row_key_inject:
  assumes "ids_ok R r u t" "ids_ok R r' u' t'" "row_key r u c t = row_key r' u' c' t'"
  shows "r = r' \<and> u = u' \<and> c = c' \<and> t = t'"
  using serialize_inject [OF ids_fields(1) [OF assms(1), of "\<lambda>_. True" c] ids_fields(1) [OF assms(2), of _ c']]
    ser_row_key [of r u c t] ser_row_key [of r' u' c' t'] assms(3)
  by (simp add: roomuserdataid_def)

lemma index_key_inject:
  assumes "ids_ok R r u t" "ids_ok R r' u' t'" "index_key r u t = index_key r' u' t'"
  shows "r = r' \<and> u = u' \<and> t = t'"
  using serialize_inject [OF ids_fields(2) [OF assms(1), of "\<lambda>_. True"] ids_fields(2) [OF assms(2)]]
    ser_index_key [of r u t] ser_index_key [of r' u' t'] assms(3)
  by (simp add: roomusertype_def)

section \<open>The table refines a map\<close>

text \<open>The current event of a room, user and type, with its count.\<close>

definition account_view :: "account_data \<Rightarrow> u8 list option \<times> u8 list \<times> u8 list \<Rightarrow> (u64 \<times> u8 list) option" where
  "account_view s = (\<lambda>(r, u, t).
     case map_of (roomusertype_roomuserdataid s) (index_key r u t) of
       None \<Rightarrow> None
     | Some k \<Rightarrow> map_option (\<lambda>v. (from_be_bytes (take 8 (drop (length (row_prefix r u)) k)), v))
                  (map_of (roomuserdataid_accountdata s) k))"

definition acc_inv :: "id_checks \<Rightarrow> account_data \<Rightarrow> bool" where
  "acc_inv R s \<longleftrightarrow>
     hm_ok (roomuserdataid_accountdata s) \<and> hm_ok (roomusertype_roomuserdataid s)
     \<and> (\<forall>k v. map_of (roomusertype_roomuserdataid s) k = Some v \<longrightarrow>
          (\<exists>r u t c. ids_ok R r u t \<and> k = index_key r u t \<and> v = row_key r u c t
             \<and> map_of (roomuserdataid_accountdata s) v \<noteq> None))
     \<and> (\<forall>k v. map_of (roomuserdataid_accountdata s) k = Some v \<longrightarrow>
          (\<exists>r u t c. ids_ok R r u t \<and> k = row_key r u c t \<and> c \<le> counter (acc_short s)
             \<and> map_of (roomusertype_roomuserdataid s) (index_key r u t) = Some k))"

lemma count_of_row: "from_be_bytes (take 8 (drop (length (row_prefix r u)) (row_key r u c t))) = c"
  by (simp add: row_key_def)

lemma account_view_row:
  assumes "acc_inv R s" "ids_ok R r u t"
  shows "account_view s (r, u, t) = Some (c, v) \<longleftrightarrow> map_of (roomuserdataid_accountdata s) (row_key r u c t) = Some v"
proof
  assume "account_view s (r, u, t) = Some (c, v)"
  then obtain k where k: "map_of (roomusertype_roomuserdataid s) (index_key r u t) = Some k"
    "map_of (roomuserdataid_accountdata s) k = Some v"
    "from_be_bytes (take 8 (drop (length (row_prefix r u)) k)) = c"
    by (auto simp: account_view_def split: option.splits)
  then obtain r' u' t' c' where i: "ids_ok R r' u' t'" "index_key r u t = index_key r' u' t'" "k = row_key r' u' c' t'"
    using assms(1) unfolding acc_inv_def by blast
  have "k = row_key r u c' t" using index_key_inject [OF assms(2) i(1,2)] i(3) by simp
  moreover from this have "c' = c" using k(3) count_of_row by simp
  ultimately show "map_of (roomuserdataid_accountdata s) (row_key r u c t) = Some v" using k(2) by simp
next
  assume *: "map_of (roomuserdataid_accountdata s) (row_key r u c t) = Some v"
  then obtain r' u' t' c' where "ids_ok R r' u' t'" "row_key r u c t = row_key r' u' c' t'"
    "map_of (roomusertype_roomuserdataid s) (index_key r' u' t') = Some (row_key r u c t)"
    using assms(1) unfolding acc_inv_def by blast
  with row_key_inject [OF assms(2)] have "map_of (roomusertype_roomuserdataid s) (index_key r u t) = Some (row_key r u c t)"
    by blast
  with * count_of_row show "account_view s (r, u, t) = Some (c, v)" by (simp add: account_view_def)
qed


text \<open>The columns after an update: one row and one index entry are replaced.\<close>

definition account_updated ::
    "id_checks \<Rightarrow> u8 list option \<times> u8 list \<times> u8 list \<Rightarrow> u8 list \<Rightarrow> account_data \<Rightarrow> account_data \<Rightarrow> u64 \<Rightarrow> bool" where
  "account_updated R key data s s' c \<longleftrightarrow>
     (case key of (r, u, t) \<Rightarrow>
        hm_ok (roomuserdataid_accountdata s') \<and> hm_ok (roomusertype_roomuserdataid s')
        \<and> counter (acc_short s) < c \<and> counter (acc_short s') = c
        \<and> (\<forall>k. map_of (roomuserdataid_accountdata s') k =
             (if k = row_key r u c t then Some data
              else if map_of (roomusertype_roomuserdataid s) (index_key r u t) = Some k then None
              else map_of (roomuserdataid_accountdata s) k))
        \<and> (\<forall>k. map_of (roomusertype_roomuserdataid s') k =
             (if k = index_key r u t then Some (row_key r u c t) else map_of (roomusertype_roomuserdataid s) k)))"

lemma index_entry:
  assumes "acc_inv R s" "ids_ok R r u t" "map_of (roomusertype_roomuserdataid s) (index_key r u t) = Some k"
  shows "\<exists>c. k = row_key r u c t \<and> map_of (roomuserdataid_accountdata s) k \<noteq> None"
proof -
  obtain r' u' t' c' where i: "ids_ok R r' u' t'" "index_key r u t = index_key r' u' t'" "k = row_key r' u' c' t'"
    "map_of (roomuserdataid_accountdata s) k \<noteq> None" using assms(1,3) unfolding acc_inv_def by blast
  from index_key_inject [OF assms(2) i(1,2)] i(3,4) show ?thesis by blast
qed

lemma row_entry:
  assumes "acc_inv R s" "ids_ok R r u t" "map_of (roomuserdataid_accountdata s) (row_key r u c t) \<noteq> None"
  shows "c \<le> counter (acc_short s)"
    "map_of (roomusertype_roomuserdataid s) (index_key r u t) = Some (row_key r u c t)"
proof -
  obtain r' u' t' c' where i: "ids_ok R r' u' t'" "row_key r u c t = row_key r' u' c' t'" "c' \<le> counter (acc_short s)"
    "map_of (roomusertype_roomuserdataid s) (index_key r' u' t') = Some (row_key r u c t)"
    using assms(1,3) unfolding acc_inv_def by blast
  from row_key_inject [OF assms(2) i(1,2)] i(3,4)
  show "c \<le> counter (acc_short s)"
    "map_of (roomusertype_roomuserdataid s) (index_key r u t) = Some (row_key r u c t)" by simp_all
qed

lemma update_account_data_run:
  assumes "acc_inv R s" "ids_ok R r u t" "has_fields data" "0 < ids_left (acc_short s)"
  shows "\<exists>s' c. update_account_data has_fields r u t data s = Inr s' \<and> account_updated R (r, u, t) data s s' c"
proof -
  obtain c short where nc: "next_count (acc_short s) = (c, short)" by fastforce
  note c = next_count_fresh [OF assms(4) nc]
  let ?rows = "roomuserdataid_accountdata s" and ?index = "roomusertype_roomuserdataid s"
  let ?new = "row_key r u c t" and ?key = "index_key r u t"
  let ?rows' = "case map_of ?index ?key of None \<Rightarrow> db_insert ?new data ?rows
    | Some p \<Rightarrow> db_remove p (db_insert ?new data ?rows)"
  let ?s' = "\<lparr>acc_short = short, roomuserdataid_accountdata = ?rows', roomusertype_roomuserdataid = db_insert ?key ?new ?index\<rparr>"
  have run: "update_account_data has_fields r u t data s = Inr ?s'"
    using nc assms(3) by (simp add: update_account_data_def db_put_def db_qry_def db_get_def expect_codec_def Let_def
        serialize_def [of "VJson data"])
  have "map_of ?rows' k = (if k = ?new then Some data else if map_of ?index ?key = Some k then None else map_of ?rows k)" for k
  proof (cases "map_of ?index ?key")
    case (Some p)
    then obtain c' where "p = row_key r u c' t" "map_of ?rows p \<noteq> None" using index_entry [OF assms(1,2)] by blast
    then have "p \<noteq> ?new" using row_entry(1) [OF assms(1,2), of c] c(2) by auto
    with Some show ?thesis by (auto simp: db_insert_def db_remove_def delete_conv')
  qed (auto simp: db_insert_def)
  moreover have "hm_ok ?rows'" "hm_ok (db_insert ?key ?new ?index)"
    using assms(1) by (auto simp: acc_inv_def db_insert_def db_remove_def distinct_delete split: option.splits)
  ultimately have "account_updated R (r, u, t) data s ?s' c"
    using c(1,2) by (simp add: account_updated_def db_insert_def)
  with run show ?thesis by blast
qed

lemma account_updated_inv:
  assumes "acc_inv R s" "ids_ok R r u t" "account_updated R (r, u, t) data s s' c"
  shows "acc_inv R s'"
proof -
  let ?rows = "map_of (roomuserdataid_accountdata s)" and ?index = "map_of (roomusertype_roomuserdataid s)"
  let ?rows' = "map_of (roomuserdataid_accountdata s')" and ?index' = "map_of (roomusertype_roomuserdataid s')"
  have rows': "?rows' k = (if k = row_key r u c t then Some data else if ?index (index_key r u t) = Some k then None else ?rows k)"
    and index': "?index' k = (if k = index_key r u t then Some (row_key r u c t) else ?index k)" for k
    using assms(3) by (simp_all add: account_updated_def)
  have short: "counter (acc_short s') = c" "counter (acc_short s) < c" using assms(3) by (simp_all add: account_updated_def)
  have "\<exists>r' u' t' c'. ids_ok R r' u' t' \<and> k = index_key r' u' t' \<and> v = row_key r' u' c' t' \<and> ?rows' v \<noteq> None"
    if kv: "?index' k = Some v" for k v
  proof (cases "k = index_key r u t")
    case True
    with kv index' [of k] rows' [of v] have "v = row_key r u c t" "?rows' v \<noteq> None" by simp_all
    with True assms(2) show ?thesis by blast
  next
    case False
    then have "?index k = Some v" using kv index' by simp
    then obtain r' u' t' c' where i: "ids_ok R r' u' t'" "k = index_key r' u' t'" "v = row_key r' u' c' t'" "?rows v \<noteq> None"
      using assms(1) unfolding acc_inv_def by blast
    have "?index (index_key r u t) \<noteq> Some v"
    proof
      assume "?index (index_key r u t) = Some v"
      from index_entry [OF assms(1,2) this] obtain c2 where "v = row_key r u c2 t" by blast
      with row_key_inject [OF i(1) assms(2), of c' c2] i(2,3) False show False by simp
    qed
    with i(4) rows' [of v] have "?rows' v \<noteq> None" by simp
    with i(1-3) show ?thesis by blast
  qed
  moreover have "\<exists>r' u' t' c'. ids_ok R r' u' t' \<and> k = row_key r' u' c' t' \<and> c' \<le> c \<and> ?index' (index_key r' u' t') = Some k"
    if kv: "?rows' k = Some v" for k v
  proof (cases "k = row_key r u c t")
    case True
    with assms(2) index' [of "index_key r u t"] show ?thesis
      by (intro exI [of _ r] exI [of _ u] exI [of _ t] exI [of _ c]) simp
  next
    case False
    then have old: "?rows k = Some v" "?index (index_key r u t) \<noteq> Some k" using kv rows' [of k] by (auto split: if_splits)
    then obtain r' u' t' c' where i: "ids_ok R r' u' t'" "k = row_key r' u' c' t'" "c' \<le> counter (acc_short s)"
        "?index (index_key r' u' t') = Some k" using assms(1) unfolding acc_inv_def by blast
    have "index_key r' u' t' \<noteq> index_key r u t" using i(4) old(2) by auto
    with i(4) index' [of "index_key r' u' t'"] have "?index' (index_key r' u' t') = Some k" by simp
    moreover have "c' \<le> c" using i(3) short(2) by simp
    ultimately show ?thesis using i(1,2) by blast
  qed
  ultimately show ?thesis using assms(3) short(1) by (simp add: acc_inv_def account_updated_def)
qed

lemma account_updated_view:
  assumes "acc_inv R s" "ids_ok R r u t" "account_updated R (r, u, t) data s s' c" "ids_ok R r' u' t'"
  shows "account_view s' (r', u', t') = (if (r', u', t') = (r, u, t) then Some (c, data) else account_view s (r', u', t'))"
proof -
  have rows': "map_of (roomuserdataid_accountdata s') k =
      (if k = row_key r u c t then Some data
       else if map_of (roomusertype_roomuserdataid s) (index_key r u t) = Some k then None
       else map_of (roomuserdataid_accountdata s) k)" for k
    using assms(3) by (simp add: account_updated_def)
  note view' = account_view_row [OF account_updated_inv [OF assms(1-3)] assms(4)]
  note view = account_view_row [OF assms(1,4)]
  have row: "account_view s' (r', u', t') = Some (c', v) \<longleftrightarrow>
      (if (r', u', t') = (r, u, t) then c' = c \<and> v = data else account_view s (r', u', t') = Some (c', v))" for c' v
  proof -
    have new: "row_key r' u' c' t' = row_key r u c t \<longleftrightarrow> (r', u', t') = (r, u, t) \<and> c' = c"
      using row_key_inject [OF assms(4,2)] by auto
    have prev: "(r', u', t') = (r, u, t)" if "map_of (roomusertype_roomuserdataid s) (index_key r u t) = Some (row_key r' u' c' t')"
      using index_entry [OF assms(1,2) that] row_key_inject [OF assms(4,2)] by blast
    have old: "map_of (roomusertype_roomuserdataid s) (index_key r u t) = Some (row_key r' u' c' t')"
      if "(r', u', t') = (r, u, t)" "map_of (roomuserdataid_accountdata s) (row_key r' u' c' t') = Some v"
      using row_entry(2) [OF assms(1,4), of c'] that by simp
    show ?thesis
    proof (cases "(r', u', t') = (r, u, t)")
      case True
      then have "map_of (roomuserdataid_accountdata s') (row_key r' u' c' t') = Some v \<longleftrightarrow> c' = c \<and> v = data"
        using rows' [of "row_key r' u' c' t'"] new old by (cases "c' = c") auto
      with True show ?thesis unfolding view' by simp
    next
      case False
      then have "map_of (roomuserdataid_accountdata s') (row_key r' u' c' t') = map_of (roomuserdataid_accountdata s) (row_key r' u' c' t')"
        using rows' [of "row_key r' u' c' t'"] new prev by (simp only: if_False) (metis (no_types, lifting))
      with False show ?thesis unfolding view' view by (simp only: if_False)
    qed
  qed
  show ?thesis
  proof (cases "account_view s' (r', u', t')")
    case None
    then have "(r', u', t') \<noteq> (r, u, t)" using row [of c data] by auto
    moreover have "account_view s (r', u', t') = None" using row [of "fst (the (account_view s (r', u', t')))" "snd (the (account_view s (r', u', t')))"]
      None calculation by (cases "account_view s (r', u', t')") auto
    ultimately show ?thesis using None by simp
  next
    case (Some cv)
    then show ?thesis using row [of "fst cv" "snd cv"] by (cases cv) (auto split: if_splits)
  qed
qed

text \<open>
  C28: The account data service is a map from room, user and type to the last event written: an update
  replaces this entry with the new event at a fresh count and keeps every other one, and the index and
  the rows stay consistent.
\<close>

theorem account_data_refines:
  assumes "acc_inv R s" "ids_ok R r u t" "has_fields data" "0 < ids_left (acc_short s)"
  shows "\<exists>s' c. update_account_data has_fields r u t data s = Inr s' \<and> acc_inv R s' \<and> counter (acc_short s) < c
    \<and> (\<forall>r' u' t'. ids_ok R r' u' t' \<longrightarrow>
        account_view s' (r', u', t') = ((account_view s)((r, u, t) \<mapsto> (c, data))) (r', u', t'))
    \<and> get_raw r u t s' = Inr data"
proof -
  obtain s' c where run: "update_account_data has_fields r u t data s = Inr s'" "account_updated R (r, u, t) data s s' c"
    using update_account_data_run [OF assms(1,2), of has_fields data] assms(3,4) by blast
  note inv = account_updated_inv [OF assms(1,2) run(2)]
  note view = account_updated_view [OF assms(1,2) run(2)]
  have "map_of (roomuserdataid_accountdata s') (row_key r u c t) = Some data"
    "map_of (roomusertype_roomuserdataid s') (index_key r u t) = Some (row_key r u c t)"
    using run(2) by (simp_all add: account_updated_def)
  then have "get_raw r u t s' = Inr data"
    by (simp add: get_raw_def db_qry_def db_get_def expect_codec_def ok_or_def)
  moreover have "counter (acc_short s) < c" using run(2) by (simp add: account_updated_def)
  ultimately show ?thesis using run(1) inv view by (intro exI [of _ s'] exI [of _ c]) auto
qed

section \<open>Changes\<close>

lemma append_le_same: "p @ xs \<le> p @ ys \<longleftrightarrow> xs \<le> (ys :: 'a :: linorder list)"
  by (induction p) auto

lemma be_bytes_le_append:
  "to_be_bytes a @ us \<le> to_be_bytes b @ vs \<longleftrightarrow> a < b \<or> a = b \<and> us \<le> vs"
  by (auto simp: not_less [symmetric] append_less_append byte_simps)

lemma row_key_from: "row_prefix r u @ to_be_bytes first \<le> row_key r u c t \<longleftrightarrow> first \<le> c"
  unfolding row_key_def using be_bytes_le_append [of first "[]" c "SEP # t"] by (auto simp: append_le_same)

lemma row_key_le: "row_key r u c t \<le> row_key r u c' t' \<Longrightarrow> c \<le> c'"
  unfolding row_key_def by (auto simp: append_le_same be_bytes_le_append)

lemma row_prefix_iff:
  assumes "ids_ok R r u t" "ids_ok R r' u' t'"
  shows "prefix (row_prefix r u) (row_key r' u' c t') \<longleftrightarrow> r' = r \<and> u' = u"
proof -
  have "serialize (VTuple ([opt_room r, VStr u] @ [VInterfix])) = Inr (row_prefix r u)"
    by (simp add: serialize_def opt_room_def row_prefix_def split: option.splits)
  moreover have "leading_ok (\<lambda>_. True) [opt_room r, VStr u] [TOption TStr, TStr]"
    using ids_fields(2) [OF assms(1), of "\<lambda>_. True"] by (simp add: leading_ok_def)
  moreover have "fields_ok (\<lambda>_. True) [opt_room r', VStr u', VU64 c, VStr t'] ([TOption TStr, TStr] @ [TU64, TStr])"
    using ids_fields(1) [OF assms(2)] by simp
  ultimately show ?thesis
    using key_prefix_iff [of "\<lambda>_. True" "[opt_room r, VStr u]" "[TOption TStr, TStr]"
        "[opt_room r', VStr u', VU64 c, VStr t']" "[TU64, TStr]" "row_prefix r u" "row_key r' u' c t'"]
      ser_row_key [of r' u' c t'] by (auto simp: roomuserdataid_def)
qed

lemma change_of_row:
  assumes "ids_ok R r u t"
  shows "\<exists>kv. result_deserialize json_ok (TTuple [TOption TStr, TStr, TU64, TIgnore]) TBytes (row_key r u c t, v) = Inr kv
    \<and> change_of R kv = Some ((r, u, c), v)"
proof -
  have ser: "ser_fields [opt_room r, VStr u, VU64 c] False = Inr (row_prefix r u @ to_be_bytes c, True)"
    by (simp add: opt_room_def row_prefix_def split: option.splits)
  have "from_slice json_ok (TTuple ([TOption TStr, TStr, TU64] @ [TIgnore])) (row_key r u c t)
      = Inr (VTuple ([opt_room r, VStr u, VU64 c] @ [VNone]))"
    by (rule read_skip_last [OF ids_fields(3) [OF assms] ser]) (simp add: row_key_def)
  moreover have "from_slice json_ok TBytes v = Inr (VBytes v)"
    by (simp add: from_slice_def from_slice_state_def record_trail_def)
  ultimately show ?thesis using assms
    by (auto simp: result_deserialize_def change_of_def as_opt_id_def as_id_def opt_room_def ids_ok_def split: option.splits)
qed


lemma changes_kept:
  assumes "\<And>kv. kv \<in> set kvs \<Longrightarrow> \<exists>x. h kv = Inr x \<and> g x = Some (f kv)"
  shows "List.map_filter g (ignore_err (map h kvs)) = map f kvs"
  using assms by (induction kvs) (fastforce simp: List.map_filter_simps)+

definition change_wanted :: "u8 list option \<Rightarrow> u8 list \<Rightarrow> u64 option \<Rightarrow> (u8 list option \<times> u8 list \<times> u64) \<times> u8 list \<Rightarrow> bool" where
  "change_wanted room user limit =
     (\<lambda>((r, u, c), _). room = r \<and> user = u \<and> (case limit of None \<Rightarrow> True | Some l \<Rightarrow> c \<le> l))"

text \<open>The parts of the keys a scan meets.\<close>

definition row_parts :: "id_checks \<Rightarrow> (u8 list \<times> u8 list) list \<Rightarrow>
    (u8 list \<times> u8 list \<Rightarrow> (u8 list option \<times> u8 list \<times> u64) \<times> u8 list) \<Rightarrow> bool" where
  "row_parts R kvs f \<longleftrightarrow>
     (\<forall>kv \<in> set kvs. \<exists>r u c t. ids_ok R r u t \<and> fst kv = row_key r u c t \<and> f kv = ((r, u, c), snd kv))"

lemma row_parts_exist:
  assumes "acc_inv R s"
  shows "\<exists>f. row_parts R (raw_stream_from (roomuserdataid_accountdata s) from) f"
proof -
  have "\<exists>x r u c t. ids_ok R r u t \<and> fst kv = row_key r u c t \<and> x = ((r, u, c), snd kv)"
    if "kv \<in> set (raw_stream_from (roomuserdataid_accountdata s) from)" for kv
  proof -
    have "map_of (roomuserdataid_accountdata s) (fst kv) = Some (snd kv)"
      using that assms by (auto simp: raw_stream_from_def acc_inv_def)
    with assms show ?thesis unfolding acc_inv_def by blast
  qed
  then have "\<forall>kv \<in> set (raw_stream_from (roomuserdataid_accountdata s) from). \<exists>x.
      \<exists>r u c t. ids_ok R r u t \<and> fst kv = row_key r u c t \<and> x = ((r, u, c), snd kv)" by blast
  from bchoice [OF this] show ?thesis unfolding row_parts_def by blast
qed

lemma row_parts_before:
  assumes "row_parts R kvs f" "kv \<in> set kvs" "kv' \<in> set kvs" "fst kv \<le> fst kv'" "ids_ok R room user t0"
    "row_prefix room user \<le> fst kv" "change_wanted room user limit (f kv')"
  shows "change_wanted room user limit (f kv)" "snd (snd (fst (f kv))) \<le> snd (snd (fst (f kv')))"
proof -
  obtain r u c t where k: "ids_ok R r u t" "fst kv = row_key r u c t" "f kv = ((r, u, c), snd kv)"
    using assms(1,2) unfolding row_parts_def by blast
  obtain r' u' c' t' where k': "ids_ok R r' u' t'" "fst kv' = row_key r' u' c' t'" "f kv' = ((r', u', c'), snd kv')"
    using assms(1,3) unfolding row_parts_def by blast
  have here: "r' = room" "u' = user" using assms(7) k'(3) by (simp_all add: change_wanted_def)
  then have "prefix (row_prefix room user) (fst kv')" using k'(2) by (simp add: row_key_def)
  with assms(4,6) have "prefix (row_prefix room user) (fst kv)" by (blast intro: prefix_between)
  with row_prefix_iff [OF assms(5) k(1)] k(2) have "r = room" "u = user" by simp_all
  moreover from this have "c \<le> c'" using assms(4) k(2) k'(2) here row_key_le by simp
  ultimately show "change_wanted room user limit (f kv)" "snd (snd (fst (f kv))) \<le> snd (snd (fst (f kv')))"
    using assms(7) k(3) k'(3) by (auto simp: change_wanted_def split: option.splits)
qed

lemma changes_since_run:
  assumes "ids_ok R room user t0" "row_parts R stream f"
    "stream = raw_stream_from (roomuserdataid_accountdata s) (row_prefix room user @ to_be_bytes first)"
    "first = (case since of None \<Rightarrow> 0 | Some n \<Rightarrow> u64_saturating_add n 1)"
  shows "changes_since R json_ok room user since limit s = Inr (filter (\<lambda>(_, v). json_ok v)
    (map (\<lambda>((_, _, c), v). (c, v)) (map f (filter (\<lambda>kv. change_wanted room user limit (f kv)) stream))))"
proof -
  let ?ty = "TTuple [TOption TStr, TStr, TU64, TIgnore]"
  have "List.map_filter (change_of R) (ignore_err (map (result_deserialize json_ok ?ty TBytes) stream)) = map f stream"
  proof (rule changes_kept)
    fix kv assume "kv \<in> set stream"
    then obtain r u c t where "ids_ok R r u t" "fst kv = row_key r u c t" "f kv = ((r, u, c), snd kv)"
      using assms(2) unfolding row_parts_def by blast
    with change_of_row [of R r u t json_ok c "snd kv"]
    show "\<exists>x. result_deserialize json_ok ?ty TBytes kv = Inr x \<and> change_of R x = Some (f kv)" by (metis prod.collapse)
  qed
  moreover have "takeWhile (\<lambda>kv. change_wanted room user limit (f kv)) stream
      = filter (\<lambda>kv. change_wanted room user limit (f kv)) stream"
  proof (rule sorted_tail_false [where f = fst])
    show "sorted (map fst stream)" by (simp add: assms(3) raw_stream_from_def sorted_filter sorted_raw_stream)
    fix kv kv' assume kv: "kv \<in> set stream" "kv' \<in> set stream" "fst kv \<le> fst kv'" "change_wanted room user limit (f kv')"
    have "row_prefix room user \<le> fst kv"
      using kv(1) assms(3) prefix_le [of "row_prefix room user" "row_prefix room user @ to_be_bytes first"]
      by (auto simp: raw_stream_from_def intro: order_trans)
    from row_parts_before(1) [OF assms(2) kv(1-3) assms(1) this kv(4)] show "change_wanted room user limit (f kv)" .
  qed
  moreover have "serialize (VTuple [opt_room room, VStr user, VU64 first]) = Inr (row_prefix room user @ to_be_bytes first)"
    by (simp add: serialize_def opt_room_def row_prefix_def split: option.splits)
  ultimately show ?thesis using assms(3,4)
    by (simp add: changes_since_def stream_from_def stream_from_raw_def takeWhile_map comp_def change_wanted_def [symmetric])
qed

text \<open>
  The changes after a count are exactly the current events of the user in the room (or the global
  ones) whose count is past it and within the limit, in the order of their counts.
\<close>

lemma changes_since_exact:
  assumes "acc_inv R s" "ids_ok R room user t0"
    "first = (case since of None \<Rightarrow> 0 | Some n \<Rightarrow> u64_saturating_add n 1)"
  shows "\<exists>cs. changes_since R json_ok room user since limit s = Inr cs \<and> sorted (map fst cs)
    \<and> set cs = {(c, v). \<exists>t. ids_ok R room user t \<and> account_view s (room, user, t) = Some (c, v)
        \<and> first \<le> c \<and> (case limit of None \<Rightarrow> True | Some l \<Rightarrow> c \<le> l) \<and> json_ok v}"
proof -
  let ?rows = "roomuserdataid_accountdata s"
  let ?stream = "raw_stream_from ?rows (row_prefix room user @ to_be_bytes first)"
  obtain f where f: "row_parts R ?stream f" using row_parts_exist [OF assms(1)] by blast
  let ?S = "filter (\<lambda>kv. change_wanted room user limit (f kv)) ?stream"
  let ?cs = "filter (\<lambda>(_, v). json_ok v) (map (\<lambda>((_, _, c), v). (c, v)) (map f ?S))"
  have stream: "(k, v) \<in> set ?stream \<longleftrightarrow> map_of ?rows k = Some v \<and> row_prefix room user @ to_be_bytes first \<le> k" for k v
    using assms(1) map_of_hm_ok [of ?rows] by (auto simp: raw_stream_from_def acc_inv_def)
  have prefix: "row_prefix room user \<le> fst kv" if "kv \<in> set ?stream" for kv
    using that prefix_le [of "row_prefix room user" "row_prefix room user @ to_be_bytes first"]
    by (auto simp: raw_stream_from_def intro: order_trans)
  have "sorted_wrt (\<lambda>x y. fst x \<le> fst y) ?S"
    using sorted_raw_stream [of ?rows] by (simp add: raw_stream_from_def sorted_wrt_filter sorted_wrt_map)
  then have "sorted_wrt (\<lambda>x y. snd (snd (fst (f x))) \<le> snd (snd (fst (f y)))) ?S"
    by (rule sorted_wrt_mono_rel [rotated]) (use row_parts_before(2) [OF f _ _ _ assms(2) prefix] in auto)
  then have "sorted_wrt (\<lambda>x y. snd (snd (fst (f x))) \<le> snd (snd (fst (f y)))) (filter (\<lambda>kv. json_ok (snd (f kv))) ?S)"
    by (rule sorted_wrt_filter)
  then have "sorted (map fst ?cs)" by (simp add: sorted_wrt_map filter_map comp_def case_prod_beta)
  moreover have "(c, v) \<in> set ?cs \<longleftrightarrow> (\<exists>t. ids_ok R room user t \<and> account_view s (room, user, t) = Some (c, v)
        \<and> first \<le> c \<and> (case limit of None \<Rightarrow> True | Some l \<Rightarrow> c \<le> l) \<and> json_ok v)" for c v
  proof -
    have "(c, v) \<in> set ?cs \<longleftrightarrow> (\<exists>kv \<in> set ?stream. f kv = ((room, user, c), v))
        \<and> (case limit of None \<Rightarrow> True | Some l \<Rightarrow> c \<le> l) \<and> json_ok v"
      by (force simp: change_wanted_def image_iff)
    also have "(\<exists>kv \<in> set ?stream. f kv = ((room, user, c), v)) \<longleftrightarrow>
        (\<exists>t. ids_ok R room user t \<and> map_of ?rows (row_key room user c t) = Some v \<and> first \<le> c)"
    proof
      assume "\<exists>kv \<in> set ?stream. f kv = ((room, user, c), v)"
      then obtain kv where kv: "kv \<in> set ?stream" "f kv = ((room, user, c), v)" by blast
      with f obtain t where "ids_ok R room user t" "kv = (row_key room user c t, v)"
        unfolding row_parts_def by (metis prod.collapse prod.inject)
      with kv(1) stream row_key_from show "\<exists>t. ids_ok R room user t \<and> map_of ?rows (row_key room user c t) = Some v \<and> first \<le> c" by blast
    next
      assume "\<exists>t. ids_ok R room user t \<and> map_of ?rows (row_key room user c t) = Some v \<and> first \<le> c"
      then obtain t where t: "ids_ok R room user t" "(row_key room user c t, v) \<in> set ?stream"
        using stream row_key_from by blast
      with f obtain r' u' c' t' where "ids_ok R r' u' t'" "row_key room user c t = row_key r' u' c' t'"
        "f (row_key room user c t, v) = ((r', u', c'), v)" unfolding row_parts_def by fastforce
      with row_key_inject [OF t(1)] t(2) show "\<exists>kv \<in> set ?stream. f kv = ((room, user, c), v)" by blast
    qed
    finally show ?thesis using account_view_row [OF assms(1)] by blast
  qed
  ultimately show ?thesis using changes_since_run [OF assms(2) f refl assms(3)] by blast
qed

section \<open>Examples\<close>

definition any_ids :: id_checks where
  "any_ids = \<lparr>user_id_ok = (\<lambda>_. True), room_id_ok = (\<lambda>_. True), server_name_ok = (\<lambda>_. True)\<rparr>"

definition no_account_data :: account_data where
  "no_account_data = \<lparr>acc_short = \<lparr>counter = 7, eventid_shorteventid = [], shorteventid_eventid = [],
       statekey_shortstatekey = [], shortstatekey_statekey = [], roomid_shortroomid = [], statehash_shortstatehash = []\<rparr>,
     roomuserdataid_accountdata = [], roomusertype_roomuserdataid = []\<rparr>"

lemma no_account_data_ok:
  "acc_inv any_ids no_account_data" "ids_ok any_ids None [0x40] [0x6D]" "0 < ids_left (acc_short no_account_data)"
  by (simp_all add: acc_inv_def no_account_data_def ids_ok_def any_ids_def ids_left_def u64_max_def)

theorem account_data_refines_witness:
  "\<exists>s'. update_account_data (\<lambda>_. True) None [0x40] [0x6D] [0x7B] no_account_data = Inr s'
    \<and> get_raw None [0x40] [0x6D] s' = Inr [0x7B]"
  using account_data_refines [OF no_account_data_ok(1,2), of "\<lambda>_. True" "[0x7B]"] no_account_data_ok(3) by blast

end
