(* ===== verification/StateCache.thy ===== *)
theory StateCache
  imports AccountData Events
begin

text \<open>
  The membership tables, \<^verbatim>\<open>src/service/rooms/state_cache\<close>: who joined, was invited to, left or knocked on which
  room, in columns keyed by user and room and their mirrors keyed by room and user, the member counts and
  the servers of every room.  Identifiers are the bytes of their strings.  A key of two identifiers is
  \<open>pair_key\<close>, which is what the serialiser writes.  The account data and the global counter are those of
  \<open>AccountData\<close>; what other services and third-party parsers answer is in \<open>cache_env\<close>.
\<close>

section \<open>Columns\<close>

definition pair_key :: "u8 list \<Rightarrow> u8 list \<Rightarrow> u8 list" where
  "pair_key a b = a @ SEP # b"

lemma serialize_pair: "serialize (VTuple [VStr a, VStr b]) = Inr (pair_key a b)"
  by (simp add: serialize_def pair_key_def)

lemma serialize_pair_prefix: "serialize (VTuple [VStr a, VInterfix]) = Inr (a @ [SEP])"
  by (simp add: serialize_def)

record cache_data =
  sc_account :: account_data
  userid_password :: db_map
  userid_origin :: db_map
  roomid_invitedcount :: db_map
  roomid_inviteviaservers :: db_map
  roomid_joinedcount :: db_map
  roomserverids :: db_map
  roomuserid_invitecount :: db_map
  roomuserid_joined :: db_map
  roomuserid_leftcount :: db_map
  roomuserid_knockedcount :: db_map
  roomuseroncejoinedids :: db_map
  serverroomids :: db_map
  userroomid_invitestate :: db_map
  userroomid_joined :: db_map
  userroomid_leftstate :: db_map
  userroomid_knockedstate :: db_map
  userroomid_invitesender :: db_map
  appservice_in_room_cache :: "(u8 list, (u8 list, bool) hash_map) hash_map"

datatype FilterLevel = FilterAllow | FilterIgnore | FilterBlock

record cache_env =
  env_ids :: id_checks
  user_local :: "u8 list \<Rightarrow> bool"
  user_server :: "u8 list \<Rightarrow> u8 list"
  forget_forced_upon_leave :: bool
  room_is_banned :: "u8 list \<Rightarrow> bool"
  room_is_disabled :: "u8 list \<Rightarrow> bool"
  room_predecessor :: "u8 list \<Rightarrow> u8 list option"
  json_value :: "u8 list \<Rightarrow> bool"
  account_fields :: "u8 list \<Rightarrow> bool"
  parse_direct :: "u8 list \<Rightarrow> (u8 list, u8 list list) hash_map option"
  print_direct :: "(u8 list, u8 list list) hash_map \<Rightarrow> u8 list"
  parse_ignored :: "u8 list \<Rightarrow> u8 list list option"
  invite_permission_type :: "u8 list"
  user_filter_level :: "u8 list \<Rightarrow> u8 list \<Rightarrow> FilterLevel option"
  room_power_users :: "u8 list \<Rightarrow> (u8 list, js_int) hash_map option"

datatype CacheError = BadContent | InviteBlocked | CachePanic | CacheAccount AccountError

abbreviation "tag_type \<equiv> [0x6D, 0x2E, 0x74, 0x61, 0x67] :: u8 list"
abbreviation "direct_type \<equiv> [0x6D, 0x2E, 0x64, 0x69, 0x72, 0x65, 0x63, 0x74] :: u8 list"
abbreviation "ignored_type \<equiv> [0x6D, 0x2E, 0x69, 0x67, 0x6E, 0x6F, 0x72, 0x65, 0x64, 0x5F, 0x75, 0x73, 0x65, 0x72, 0x5F, 0x6C, 0x69, 0x73, 0x74] :: u8 list"

section \<open>Queries\<close>

text \<open>The second identifiers of the keys that start with a given one; a key that does not parse is dropped.\<close>

definition second_ids :: "(u8 list \<Rightarrow> bool) \<Rightarrow> (CodecError + DbVal) list \<Rightarrow> u8 list list" where
  "second_ids ok ks =
     List.map_filter (\<lambda>v. case v of VTuple [_, w] \<Rightarrow> as_id ok w | _ \<Rightarrow> None) (ignore_err ks)"

definition scan_pairs :: "(u8 list \<Rightarrow> bool) \<Rightarrow> db_map \<Rightarrow> u8 list \<Rightarrow> u8 list list" where
  "scan_pairs ok m a =
     (case keys_prefix (\<lambda>_. True) m (TTuple [TIgnore, TStr]) (VTuple [VStr a, VInterfix]) of
        Inl _ \<Rightarrow> [] | Inr ks \<Rightarrow> second_ids ok ks)"

definition is_joined :: "cache_data \<Rightarrow> u8 list \<Rightarrow> u8 list \<Rightarrow> bool" where
  "is_joined s user room \<longleftrightarrow> db_exists (userroomid_joined s) (pair_key user room)"

definition is_invited :: "cache_data \<Rightarrow> u8 list \<Rightarrow> u8 list \<Rightarrow> bool" where
  "is_invited s user room \<longleftrightarrow> db_exists (userroomid_invitestate s) (pair_key user room)"

definition is_left :: "cache_data \<Rightarrow> u8 list \<Rightarrow> u8 list \<Rightarrow> bool" where
  "is_left s user room \<longleftrightarrow> db_exists (userroomid_leftstate s) (pair_key user room)"

definition is_knocked :: "cache_data \<Rightarrow> u8 list \<Rightarrow> u8 list \<Rightarrow> bool" where
  "is_knocked s user room \<longleftrightarrow> db_exists (userroomid_knockedstate s) (pair_key user room)"

definition once_joined :: "cache_data \<Rightarrow> u8 list \<Rightarrow> u8 list \<Rightarrow> bool" where
  "once_joined s user room \<longleftrightarrow> db_exists (roomuseroncejoinedids s) (pair_key user room)"

definition user_membership :: "cache_data \<Rightarrow> u8 list \<Rightarrow> u8 list \<Rightarrow> MembershipState option" where
  "user_membership s user room =
     (if is_joined s user room then Some Join
      else if is_left s user room then Some Leave
      else if is_knocked s user room then Some Knock
      else if is_invited s user room then Some Invite
      else if once_joined s user room then Some Ban
      else None)"

definition room_members :: "id_checks \<Rightarrow> cache_data \<Rightarrow> u8 list \<Rightarrow> u8 list list" where
  "room_members R s room = scan_pairs (user_id_ok R) (roomuserid_joined s) room"

definition room_members_invited :: "id_checks \<Rightarrow> cache_data \<Rightarrow> u8 list \<Rightarrow> u8 list list" where
  "room_members_invited R s room = scan_pairs (user_id_ok R) (roomuserid_invitecount s) room"

definition room_members_knocked :: "id_checks \<Rightarrow> cache_data \<Rightarrow> u8 list \<Rightarrow> u8 list list" where
  "room_members_knocked R s room = scan_pairs (user_id_ok R) (roomuserid_knockedcount s) room"

definition room_useroncejoined :: "id_checks \<Rightarrow> cache_data \<Rightarrow> u8 list \<Rightarrow> u8 list list" where
  "room_useroncejoined R s room = scan_pairs (user_id_ok R) (roomuseroncejoinedids s) room"

definition room_servers :: "id_checks \<Rightarrow> cache_data \<Rightarrow> u8 list \<Rightarrow> u8 list list" where
  "room_servers R s room = scan_pairs (server_name_ok R) (roomserverids s) room"

definition sc_server_rooms :: "id_checks \<Rightarrow> cache_data \<Rightarrow> u8 list \<Rightarrow> u8 list list" where
  "sc_server_rooms R s server = scan_pairs (room_id_ok R) (serverroomids s) server"

definition server_in_room :: "cache_data \<Rightarrow> u8 list \<Rightarrow> u8 list \<Rightarrow> bool" where
  "server_in_room s server room \<longleftrightarrow> db_exists (serverroomids s) (pair_key server room)"

definition sc_server_sees_user :: "id_checks \<Rightarrow> cache_data \<Rightarrow> u8 list \<Rightarrow> u8 list \<Rightarrow> bool" where
  "sc_server_sees_user R s server user \<longleftrightarrow> list_ex (\<lambda>room. is_joined s user room) (sc_server_rooms R s server)"

text \<open>The rooms of a user are scanned by the bare user id, with no separator after it.\<close>

definition rooms_joined :: "id_checks \<Rightarrow> cache_data \<Rightarrow> u8 list \<Rightarrow> u8 list list" where
  "rooms_joined R s user =
     second_ids (room_id_ok R) (keys_raw_prefix (\<lambda>_. True) (userroomid_joined s) (TTuple [TIgnore, TStr]) user)"

definition local_users_in_room :: "cache_env \<Rightarrow> cache_data \<Rightarrow> u8 list \<Rightarrow> u8 list list" where
  "local_users_in_room E s room = filter (user_local E) (room_members (env_ids E) s room)"

text \<open>A user is active when its password is not empty.\<close>

definition active_local_users_in_room :: "cache_env \<Rightarrow> cache_data \<Rightarrow> u8 list \<Rightarrow> u8 list list" where
  "active_local_users_in_room E s room =
     filter (\<lambda>user. case db_get (userid_password s) user of None \<Rightarrow> False | Some v \<Rightarrow> v \<noteq> [])
       (local_users_in_room E s room)"

definition get_u64 :: "u8 list option \<Rightarrow> CodecError + u64" where
  "get_u64 v =
     (case v of None \<Rightarrow> Inl SerdeDe
      | Some b \<Rightarrow> (case from_slice (\<lambda>_. True) TU64 b of Inr (VU64 w) \<Rightarrow> Inr w | _ \<Rightarrow> Inl SerdeDe))"

definition room_joined_count :: "cache_data \<Rightarrow> u8 list \<Rightarrow> CodecError + u64" where
  "room_joined_count s room = get_u64 (db_get (roomid_joinedcount s) room)"

definition room_invited_count :: "cache_data \<Rightarrow> u8 list \<Rightarrow> CodecError + u64" where
  "room_invited_count s room = get_u64 (db_get (roomid_invitedcount s) room)"

definition get_invite_count :: "cache_data \<Rightarrow> u8 list \<Rightarrow> u8 list \<Rightarrow> CodecError + u64" where
  "get_invite_count s room user = get_u64 (db_get (roomuserid_invitecount s) (pair_key room user))"

definition get_knock_count :: "cache_data \<Rightarrow> u8 list \<Rightarrow> u8 list \<Rightarrow> CodecError + u64" where
  "get_knock_count s room user = get_u64 (db_get (roomuserid_knockedcount s) (pair_key room user))"

definition get_left_count :: "cache_data \<Rightarrow> u8 list \<Rightarrow> u8 list \<Rightarrow> CodecError + u64" where
  "get_left_count s room user = get_u64 (db_get (roomuserid_leftcount s) (pair_key room user))"

text \<open>
  The stripped state of an invite or a knock and the event of a leave are JSON: \<open>json_ok\<close> says what the JSON
  parser takes and \<open>parse\<close> is the deserialiser of the content.
\<close>

definition state_rows ::
    "id_checks \<Rightarrow> (u8 list \<Rightarrow> bool) \<Rightarrow> (u8 list \<Rightarrow> 'v option) \<Rightarrow> db_map \<Rightarrow> u8 list \<Rightarrow> (u8 list \<times> 'v) list" where
  "state_rows R json_ok parse m user =
     (case stream_prefix json_ok m (TTuple [TStr, TStr]) TJson (VTuple [VStr user, VInterfix]) of
        Inl _ \<Rightarrow> []
      | Inr rows \<Rightarrow>
          List.map_filter
            (\<lambda>(k, v). case k of
               VTuple [u, r] \<Rightarrow>
                 Option.bind (as_id (user_id_ok R) u) (\<lambda>_. Option.bind (as_id (room_id_ok R) r) (\<lambda>room.
                   (case v of VJson state \<Rightarrow> map_option (Pair room) (parse state) | _ \<Rightarrow> None)))
             | _ \<Rightarrow> None)
            (ignore_err rows))"

definition rooms_invited :: "id_checks \<Rightarrow> (u8 list \<Rightarrow> bool) \<Rightarrow> (u8 list \<Rightarrow> 'v option) \<Rightarrow> cache_data \<Rightarrow> u8 list \<Rightarrow> (u8 list \<times> 'v) list" where
  "rooms_invited R json_ok parse s user = state_rows R json_ok parse (userroomid_invitestate s) user"

definition rooms_knocked :: "id_checks \<Rightarrow> (u8 list \<Rightarrow> bool) \<Rightarrow> (u8 list \<Rightarrow> 'v option) \<Rightarrow> cache_data \<Rightarrow> u8 list \<Rightarrow> (u8 list \<times> 'v) list" where
  "rooms_knocked R json_ok parse s user = state_rows R json_ok parse (userroomid_knockedstate s) user"

definition rooms_left :: "id_checks \<Rightarrow> (u8 list \<Rightarrow> bool) \<Rightarrow> (u8 list \<Rightarrow> 'v option) \<Rightarrow> cache_data \<Rightarrow> u8 list \<Rightarrow> (u8 list \<times> 'v) list" where
  "rooms_left R json_ok parse s user = state_rows R json_ok parse (userroomid_leftstate s) user"

definition state_at :: "(u8 list \<Rightarrow> bool) \<Rightarrow> (u8 list \<Rightarrow> 'v option) \<Rightarrow> db_map \<Rightarrow> u8 list \<Rightarrow> u8 list \<Rightarrow> 'v option" where
  "state_at json_ok parse m user room =
     Option.bind (db_get m (pair_key user room)) (\<lambda>b.
     (case from_slice json_ok TJson b of Inr (VJson state) \<Rightarrow> parse state | _ \<Rightarrow> None))"

definition invite_state :: "(u8 list \<Rightarrow> bool) \<Rightarrow> (u8 list \<Rightarrow> 'v option) \<Rightarrow> cache_data \<Rightarrow> u8 list \<Rightarrow> u8 list \<Rightarrow> 'v option" where
  "invite_state json_ok parse s user room = state_at json_ok parse (userroomid_invitestate s) user room"

definition knock_state :: "(u8 list \<Rightarrow> bool) \<Rightarrow> (u8 list \<Rightarrow> 'v option) \<Rightarrow> cache_data \<Rightarrow> u8 list \<Rightarrow> u8 list \<Rightarrow> 'v option" where
  "knock_state json_ok parse s user room = state_at json_ok parse (userroomid_knockedstate s) user room"

definition left_state :: "(u8 list \<Rightarrow> bool) \<Rightarrow> (u8 list \<Rightarrow> 'v option) \<Rightarrow> cache_data \<Rightarrow> u8 list \<Rightarrow> u8 list \<Rightarrow> 'v option" where
  "left_state json_ok parse s user room = state_at json_ok parse (userroomid_leftstate s) user room"

definition invite_sender :: "cache_data \<Rightarrow> u8 list \<Rightarrow> u8 list \<Rightarrow> u8 list option" where
  "invite_sender s user room = db_get (userroomid_invitesender s) (pair_key user room)"

text \<open>The elements common to two sorted streams; the second one is consumed as the first advances.\<close>

fun advance :: "('a :: linorder) \<Rightarrow> 'a list \<Rightarrow> bool \<times> 'a list" where
  "advance ai [] = (False, [])"
| "advance ai (bi # bs) =
     (if bi \<le> ai then if ai = bi then (True, bs) else advance ai bs else (False, bi # bs))"

fun intersection_sorted_stream2 :: "('a :: linorder) list \<Rightarrow> 'a list \<Rightarrow> 'a list" where
  "intersection_sorted_stream2 [] b = []"
| "intersection_sorted_stream2 (ai # a) b =
     (let (found, b') = advance ai b; rest = intersection_sorted_stream2 a b' in
      if found then ai # rest else rest)"

definition get_shared_rooms :: "id_checks \<Rightarrow> cache_data \<Rightarrow> u8 list \<Rightarrow> u8 list \<Rightarrow> u8 list list" where
  "get_shared_rooms R s user_a user_b =
     intersection_sorted_stream2 (rooms_joined R s user_a) (rooms_joined R s user_b)"

definition user_sees_user :: "id_checks \<Rightarrow> cache_data \<Rightarrow> u8 list \<Rightarrow> u8 list \<Rightarrow> bool" where
  "user_sees_user R s user_a user_b \<longleftrightarrow> get_shared_rooms R s user_a user_b \<noteq> []"

section \<open>Appservices and routing\<close>

record appservice =
  as_id_text :: "u8 list"
  as_bridge_user :: "u8 list option"
  as_matches :: "u8 list \<Rightarrow> bool"

definition appservice_in_room :: "id_checks \<Rightarrow> appservice \<Rightarrow> u8 list \<Rightarrow> cache_data \<Rightarrow> bool \<times> cache_data" where
  "appservice_in_room R a room s =
     (case Option.bind (map_of (appservice_in_room_cache s) room) (\<lambda>m. map_of m (as_id_text a)) of
        Some cached \<Rightarrow> (cached, s)
      | None \<Rightarrow>
          (case as_bridge_user a of
             None \<Rightarrow> (False, s)
           | Some bridge \<Rightarrow>
               (let in_room = is_joined s bridge room \<or> list_ex (as_matches a) (room_members R s room)
                in (in_room, s\<lparr>appservice_in_room_cache :=
                      hm_modify room [] (hm_insert (as_id_text a) in_room) (appservice_in_room_cache s)\<rparr>))))"

definition clear_appservice_in_room_cache :: "cache_data \<Rightarrow> cache_data" where
  "clear_appservice_in_room_cache s = s\<lparr>appservice_in_room_cache := []\<rparr>"

text \<open>A list of server names in one value; an empty value is the empty list.\<close>

function split_records :: "u8 list \<Rightarrow> u8 list list" where
  "split_records bs =
     (case dropWhile (\<lambda>b. b \<noteq> SEP) bs of
        [] \<Rightarrow> [bs]
      | _ # rest \<Rightarrow> takeWhile (\<lambda>b. b \<noteq> SEP) bs # split_records rest)"
  by pat_completeness auto
termination
proof (relation "measure length")
  fix bs rest :: "u8 list" and x assume "dropWhile (\<lambda>b. b \<noteq> SEP) bs = x # rest"
  then have "length (x # rest) \<le> length bs" by (metis length_dropWhile_le)
  then show "(rest, bs) \<in> measure length" by simp
qed simp

definition server_list :: "id_checks \<Rightarrow> u8 list \<Rightarrow> u8 list list option" where
  "server_list R v =
     (if v = [] then Some []
      else if list_all (\<lambda>b. valid_utf8 b \<and> server_name_ok R b) (split_records v) then Some (split_records v)
      else None)"

text \<open>Every row whose key starts with the room id yields its last server; a row with none is a panic.\<close>

definition servers_invite_via :: "id_checks \<Rightarrow> cache_data \<Rightarrow> u8 list \<Rightarrow> (unit + u8 list list)" where
  "servers_invite_via R s room =
     (let rows = List.map_filter (server_list R) (map snd (raw_stream_prefix (roomid_inviteviaservers s) room))
      in if [] \<in> set rows then Inl () else Inr (map last rows))"

fun join_records :: "u8 list list \<Rightarrow> u8 list" where
  "join_records [] = []"
| "join_records [b] = b"
| "join_records (b # bs) = b @ SEP # join_records bs"

definition add_servers_invite_via :: "id_checks \<Rightarrow> u8 list \<Rightarrow> u8 list list \<Rightarrow> cache_data \<Rightarrow> unit + cache_data" where
  "add_servers_invite_via R room servers s =
     rbind (servers_invite_via R s room) (\<lambda>old.
     Inr (s\<lparr>roomid_inviteviaservers :=
            db_insert room (join_records (remdups_adj (sort (old @ servers)))) (roomid_inviteviaservers s)\<rparr>))"

text \<open>\<open>max_by_key\<close> returns the last of the largest.\<close>

fun max_power :: "(u8 list \<times> js_int) list \<Rightarrow> (u8 list \<times> js_int) option" where
  "max_power [] = None"
| "max_power ((u, p) # xs) =
     (case max_power xs of
        None \<Rightarrow> Some (u, p)
      | Some (v, q) \<Rightarrow> if p \<le> q then Some (v, q) else Some (u, p))"

definition count_servers :: "(u8 list \<Rightarrow> u8 list) \<Rightarrow> u8 list list \<Rightarrow> (u8 list, nat) hash_map" where
  "count_servers server_of users = fold (\<lambda>u. hm_modify (server_of u) 0 Suc) users []"

definition servers_route_via :: "cache_env \<Rightarrow> cache_data \<Rightarrow> u8 list \<Rightarrow> u8 list list" where
  "servers_route_via E s room =
     (let powerful = Option.bind (Option.bind (room_power_users E room) max_power)
            (\<lambda>(u, p). if p \<ge> 50 then Some (user_server E u) else None);
          servers = take 5 (rev (map fst (sort_key snd (count_servers (user_server E) (room_members (env_ids E) s room)))))
      in case powerful of None \<Rightarrow> servers | Some server \<Rightarrow> take 5 (server # servers))"

section \<open>Updates\<close>

definition mark_as_joined :: "u8 list \<Rightarrow> u8 list \<Rightarrow> cache_data \<Rightarrow> cache_data" where
  "mark_as_joined user room s =
     (let userroom_id = pair_key user room; roomuser_id = pair_key room user
      in s\<lparr>userroomid_joined := db_insert userroom_id [] (userroomid_joined s),
           roomuserid_joined := db_insert roomuser_id [] (roomuserid_joined s),
           userroomid_invitestate := db_remove userroom_id (userroomid_invitestate s),
           roomuserid_invitecount := db_remove roomuser_id (roomuserid_invitecount s),
           userroomid_invitesender := db_remove userroom_id (userroomid_invitesender s),
           userroomid_leftstate := db_remove userroom_id (userroomid_leftstate s),
           roomuserid_leftcount := db_remove roomuser_id (roomuserid_leftcount s),
           userroomid_knockedstate := db_remove userroom_id (userroomid_knockedstate s),
           roomuserid_knockedcount := db_remove roomuser_id (roomuserid_knockedcount s),
           roomid_inviteviaservers := db_remove room (roomid_inviteviaservers s)\<rparr>)"

definition sc_next_count :: "cache_data \<Rightarrow> u64 \<times> cache_data" where
  "sc_next_count s =
     (let (count, short) = next_count (acc_short (sc_account s))
      in (count, s\<lparr>sc_account := (sc_account s)\<lparr>acc_short := short\<rparr>\<rparr>))"

definition forget :: "u8 list \<Rightarrow> u8 list \<Rightarrow> cache_data \<Rightarrow> cache_data" where
  "forget room user s =
     s\<lparr>userroomid_leftstate := db_remove (pair_key user room) (userroomid_leftstate s),
       roomuserid_leftcount := db_remove (pair_key room user) (roomuserid_leftcount s)\<rparr>"

text \<open>\<open>leave_pdu\<close> is the JSON text of the leave event, or \<open>null\<close>.\<close>

definition left_tables :: "u8 list \<Rightarrow> u8 list \<Rightarrow> u8 list \<Rightarrow> u64 \<Rightarrow> cache_data \<Rightarrow> cache_data" where
  "left_tables user room leave_pdu count s =
     s\<lparr>userroomid_leftstate := db_insert (pair_key user room) leave_pdu (userroomid_leftstate s),
       roomuserid_leftcount := db_insert (pair_key room user) (to_be_bytes count) (roomuserid_leftcount s),
       userroomid_joined := db_remove (pair_key user room) (userroomid_joined s),
       roomuserid_joined := db_remove (pair_key room user) (roomuserid_joined s),
       userroomid_invitestate := db_remove (pair_key user room) (userroomid_invitestate s),
       roomuserid_invitecount := db_remove (pair_key room user) (roomuserid_invitecount s),
       userroomid_invitesender := db_remove (pair_key user room) (userroomid_invitesender s),
       userroomid_knockedstate := db_remove (pair_key user room) (userroomid_knockedstate s),
       roomuserid_knockedcount := db_remove (pair_key room user) (roomuserid_knockedcount s),
       roomid_inviteviaservers := db_remove room (roomid_inviteviaservers s)\<rparr>"

definition mark_as_left :: "cache_env \<Rightarrow> u8 list \<Rightarrow> u8 list \<Rightarrow> u8 list \<Rightarrow> cache_data \<Rightarrow> cache_data" where
  "mark_as_left E user room leave_pdu s =
     (let (count, s1) = sc_next_count s; s2 = left_tables user room leave_pdu count s1
      in if user_local E user \<and> (forget_forced_upon_leave E \<or> room_is_banned E room \<or> room_is_disabled E room)
         then forget room user s2 else s2)"

definition mark_as_knocked :: "u8 list \<Rightarrow> u8 list \<Rightarrow> u8 list \<Rightarrow> cache_data \<Rightarrow> cache_data" where
  "mark_as_knocked user room knocked_state s =
     (let userroom_id = pair_key user room; roomuser_id = pair_key room user;
          (count, s1) = sc_next_count s
      in s1\<lparr>userroomid_knockedstate := db_insert userroom_id knocked_state (userroomid_knockedstate s1),
            roomuserid_knockedcount := db_insert roomuser_id (to_be_bytes count) (roomuserid_knockedcount s1),
            userroomid_joined := db_remove userroom_id (userroomid_joined s1),
            roomuserid_joined := db_remove roomuser_id (roomuserid_joined s1),
            userroomid_invitestate := db_remove userroom_id (userroomid_invitestate s1),
            roomuserid_invitecount := db_remove roomuser_id (roomuserid_invitecount s1),
            userroomid_invitesender := db_remove userroom_id (userroomid_invitesender s1),
            userroomid_leftstate := db_remove userroom_id (userroomid_leftstate s1),
            roomuserid_leftcount := db_remove roomuser_id (roomuserid_leftcount s1),
            roomid_inviteviaservers := db_remove room (roomid_inviteviaservers s1)\<rparr>)"

definition mark_as_once_joined :: "u8 list \<Rightarrow> u8 list \<Rightarrow> cache_data \<Rightarrow> cache_data" where
  "mark_as_once_joined user room s =
     s\<lparr>roomuseroncejoinedids := db_insert (pair_key user room) [] (roomuseroncejoinedids s)\<rparr>"

definition user_is_ignored :: "cache_env \<Rightarrow> cache_data \<Rightarrow> u8 list \<Rightarrow> u8 list \<Rightarrow> bool" where
  "user_is_ignored E s sender_user recipient \<longleftrightarrow>
     (case get_raw None recipient ignored_type (sc_account s) of
        Inl _ \<Rightarrow> False
      | Inr v \<Rightarrow> (case parse_ignored E v of None \<Rightarrow> False | Some users \<Rightarrow> sender_user \<in> set users))"

definition invite_filter_level :: "cache_env \<Rightarrow> cache_data \<Rightarrow> u8 list \<Rightarrow> u8 list \<Rightarrow> FilterLevel" where
  "invite_filter_level E s sender_user recipient =
     (if user_is_ignored E s sender_user recipient then FilterIgnore
      else case get_raw None recipient (invite_permission_type E) (sc_account s) of
        Inl _ \<Rightarrow> FilterAllow
      | Inr v \<Rightarrow> (case user_filter_level E v sender_user of None \<Rightarrow> FilterAllow | Some l \<Rightarrow> l))"

definition invited_tables :: "u8 list \<Rightarrow> u8 list \<Rightarrow> u8 list \<Rightarrow> u8 list \<Rightarrow> u64 \<Rightarrow> cache_data \<Rightarrow> cache_data" where
  "invited_tables user room sender_user last_state count s =
     s\<lparr>userroomid_invitestate := db_insert (pair_key user room) last_state (userroomid_invitestate s),
       roomuserid_invitecount := db_insert (pair_key room user) (to_be_bytes count) (roomuserid_invitecount s),
       userroomid_invitesender := db_insert (pair_key user room) sender_user (userroomid_invitesender s),
       userroomid_joined := db_remove (pair_key user room) (userroomid_joined s),
       roomuserid_joined := db_remove (pair_key room user) (roomuserid_joined s),
       userroomid_leftstate := db_remove (pair_key user room) (userroomid_leftstate s),
       roomuserid_leftcount := db_remove (pair_key room user) (roomuserid_leftcount s),
       userroomid_knockedstate := db_remove (pair_key user room) (userroomid_knockedstate s),
       roomuserid_knockedcount := db_remove (pair_key room user) (roomuserid_knockedcount s)\<rparr>"

definition mark_as_invited ::
    "cache_env \<Rightarrow> u8 list \<Rightarrow> u8 list \<Rightarrow> u8 list \<Rightarrow> u8 list \<Rightarrow> u8 list list option \<Rightarrow> cache_data
     \<Rightarrow> CacheError + cache_data" where
  "mark_as_invited E user room sender_user last_state invite_via s =
     (if invite_filter_level E s sender_user user = FilterBlock then Inl InviteBlocked
      else
        let (count, s1) = sc_next_count s; s2 = invited_tables user room sender_user last_state count s1
        in case invite_via of
             None \<Rightarrow> Inr s2
           | Some servers \<Rightarrow>
               if servers = [] then Inr s2
               else (case add_servers_invite_via (env_ids E) room servers s2 of
                       Inl _ \<Rightarrow> Inl CachePanic
                     | Inr s3 \<Rightarrow> Inr s3))"

definition sort_out_server :: "u8 list \<Rightarrow> u8 list \<Rightarrow> u8 list hash_set \<times> cache_data \<Rightarrow> u8 list hash_set \<times> cache_data" where
  "sort_out_server room old_server acc =
     (case acc of (joined_servers, s) \<Rightarrow>
        if old_server \<in> set joined_servers then (hs_remove old_server joined_servers, s)
        else (joined_servers,
              s\<lparr>roomserverids := db_remove (pair_key room old_server) (roomserverids s),
                serverroomids := db_remove (pair_key old_server room) (serverroomids s)\<rparr>))"

definition add_server :: "u8 list \<Rightarrow> u8 list \<Rightarrow> cache_data \<Rightarrow> cache_data" where
  "add_server room server s =
     s\<lparr>roomserverids := db_insert (pair_key room server) [] (roomserverids s),
       serverroomids := db_insert (pair_key server room) [] (serverroomids s)\<rparr>"

definition update_joined_count :: "cache_env \<Rightarrow> u8 list \<Rightarrow> cache_data \<Rightarrow> cache_data" where
  "update_joined_count E room s =
     (let R = env_ids E;
          members = room_members R s room;
          joined_servers = hs_extend (map (user_server E) members) [];
          joinedcount = fold (\<lambda>_ c. u64_saturating_add c 1) members 0;
          invitedcount = u64_saturating_add 0 (of_nat (length (room_members_invited R s room)));
          knockedcount = u64_saturating_add 0 (of_nat (length (room_members_knocked R s room)));
          s1 = s\<lparr>roomid_joinedcount := db_insert room (to_be_bytes joinedcount) (roomid_joinedcount s),
                 roomid_invitedcount := db_insert room (to_be_bytes invitedcount) (roomid_invitedcount s),
                 roomuserid_knockedcount := db_insert room (to_be_bytes knockedcount) (roomuserid_knockedcount s)\<rparr>;
          (new_servers, s2) = fold (sort_out_server room) (room_servers R s1 room) (joined_servers, s1);
          s3 = fold (add_server room) new_servers s2
      in s3\<lparr>appservice_in_room_cache := AList.delete room (appservice_in_room_cache s3)\<rparr>)"

text \<open>What the first join does when the room replaces another one: tags and direct chats are carried over.\<close>

definition copy_tags :: "cache_env \<Rightarrow> u8 list \<Rightarrow> u8 list \<Rightarrow> u8 list \<Rightarrow> account_data \<Rightarrow> account_data" where
  "copy_tags E user room predecessor a =
     (case get_room (json_value E) predecessor user tag_type a of
        Inl _ \<Rightarrow> a
      | Inr tag_event \<Rightarrow>
          (case update_account_data (account_fields E) (Some room) user tag_type tag_event a of
             Inl _ \<Rightarrow> a | Inr a' \<Rightarrow> a'))"

definition copy_direct :: "cache_env \<Rightarrow> u8 list \<Rightarrow> u8 list \<Rightarrow> u8 list \<Rightarrow> account_data \<Rightarrow> AccountError + account_data" where
  "copy_direct E user room predecessor a =
     (case get_raw None user direct_type a of
        Inl _ \<Rightarrow> Inr a
      | Inr v \<Rightarrow>
          (case parse_direct E v of
             None \<Rightarrow> Inr a
           | Some direct \<Rightarrow>
               if list_ex (\<lambda>(_, rooms). predecessor \<in> set rooms) direct
               then update_account_data (account_fields E) None user direct_type
                      (print_direct E (map (\<lambda>(u, rooms). (u, if predecessor \<in> set rooms then rooms @ [room] else rooms)) direct)) a
               else Inr a))"

text \<open>An operation that fails leaves what it has already written: it returns its result with the state.\<close>

definition first_join :: "cache_env \<Rightarrow> u8 list \<Rightarrow> u8 list \<Rightarrow> cache_data \<Rightarrow> (CacheError + unit) \<times> cache_data" where
  "first_join E user room s =
     (if once_joined s user room then (Inr (), s)
      else
        let s1 = mark_as_once_joined user room s in
        case room_predecessor E room of
          None \<Rightarrow> (Inr (), s1)
        | Some predecessor \<Rightarrow>
            let tagged = copy_tags E user room predecessor (sc_account s1) in
            (case copy_direct E user room predecessor tagged of
               Inl e \<Rightarrow> (Inl (CacheAccount e), s1\<lparr>sc_account := tagged\<rparr>)
             | Inr a \<Rightarrow> (Inr (), s1\<lparr>sc_account := a\<rparr>)))"

definition create_remote_user :: "cache_env \<Rightarrow> u8 list \<Rightarrow> cache_data \<Rightarrow> cache_data" where
  "create_remote_user E user s =
     (if \<not> user_local E user \<and> \<not> db_exists (userid_password s) user
      then s\<lparr>userid_origin := db_insert user [0x70, 0x61, 0x73, 0x73, 0x77, 0x6F, 0x72, 0x64] (userid_origin s),
             userid_password := db_insert user [] (userid_password s)\<rparr>
      else s)"

text \<open>
  The membership event is given by its content (\<^const>\<open>None\<close> when it does not parse), its sender, its JSON text
  and the stripped state that goes with an invite.
\<close>

record member_event =
  me_membership :: "MembershipState option"
  me_sender :: "u8 list"
  me_json :: "u8 list"
  me_stripped :: "u8 list"

definition update_membership ::
    "cache_env \<Rightarrow> u8 list \<Rightarrow> u8 list \<Rightarrow> member_event \<Rightarrow> bool \<Rightarrow> cache_data \<Rightarrow> (CacheError + unit) \<times> cache_data" where
  "update_membership E room user pdu update_count s =
     (case me_membership pdu of
        None \<Rightarrow> (Inl BadContent, s)
      | Some membership \<Rightarrow>
          let s1 = create_remote_user E user s in
          case (case membership of
              Join \<Rightarrow>
                (case first_join E user room s1 of
                   (Inl e, s2) \<Rightarrow> (Inl e, s2)
                 | (Inr _, s2) \<Rightarrow> (Inr (), mark_as_joined user room s2))
            | Invite \<Rightarrow>
                (case mark_as_invited E user room (me_sender pdu) (me_stripped pdu) None s1 of
                   Inl e \<Rightarrow> (Inl e, s1)
                 | Inr s2 \<Rightarrow> (Inr (), s2))
            | Leave \<Rightarrow> (Inr (), mark_as_left E user room (me_json pdu) s1)
            | Ban \<Rightarrow> (Inr (), mark_as_left E user room (me_json pdu) s1)
            | _ \<Rightarrow> (Inr (), s1)) of
            (Inl e, s2) \<Rightarrow> (Inl e, s2)
          | (Inr _, s2) \<Rightarrow> (Inr (), if update_count then update_joined_count E room s2 else s2))"

section \<open>Tables of pairs\<close>

text \<open>The relation a column of pairs holds, and a column with only such keys or with keys of one field.\<close>

definition pair_rel :: "(u8 list \<Rightarrow> bool) \<Rightarrow> (u8 list \<Rightarrow> bool) \<Rightarrow> db_map \<Rightarrow> (u8 list \<times> u8 list) set" where
  "pair_rel okA okB m = {(a, b). okA a \<and> okB b \<and> map_of m (pair_key a b) \<noteq> None}"

definition pair_table :: "(u8 list \<Rightarrow> bool) \<Rightarrow> (u8 list \<Rightarrow> bool) \<Rightarrow> db_map \<Rightarrow> bool" where
  "pair_table okA okB m \<longleftrightarrow>
     hm_ok m \<and> (\<forall>k. map_of m k \<noteq> None \<longrightarrow> SEP \<notin> set k \<or> (\<exists>a b. okA a \<and> okB b \<and> k = pair_key a b))"

definition second_of :: "u8 list \<Rightarrow> u8 list" where
  "second_of k = tl (dropWhile (\<lambda>b. b \<noteq> SEP) k)"

locale pair_keys =
  fixes okA okB check :: "u8 list \<Rightarrow> bool"
  assumes okA: "okA a \<Longrightarrow> valid_utf8 a"
    and okB: "okB b \<Longrightarrow> valid_utf8 b \<and> check b"
begin

lemma no_sep: "okA a \<Longrightarrow> SEP \<notin> set a" "okB b \<Longrightarrow> SEP \<notin> set b"
  using okA okB valid_utf8_no_sep by blast+

lemma pair_inject:
  assumes "okA a" "okA a'" shows "pair_key a b = pair_key a' b' \<longleftrightarrow> a = a' \<and> b = b'"
proof
  assume "pair_key a b = pair_key a' b'"
  then have "takeWhile (\<lambda>x. x \<noteq> SEP) (a @ SEP # b) = takeWhile (\<lambda>x. x \<noteq> SEP) (a' @ SEP # b')"
    by (simp add: pair_key_def)
  moreover have "takeWhile (\<lambda>x. x \<noteq> SEP) (c @ SEP # d) = c" if "okA c" for c d
    using no_sep(1) [OF that] by (auto simp: takeWhile_append takeWhile_eq_all_conv)
  ultimately show "a = a' \<and> b = b'" using assms \<open>pair_key a b = pair_key a' b'\<close> by (simp add: pair_key_def)
qed simp

lemma rel_insert [simp]:
  assumes "okA a" "okB b"
  shows "pair_rel okA okB (db_insert (pair_key a b) v m) = insert (a, b) (pair_rel okA okB m)"
  using assms pair_inject by (auto simp: pair_rel_def db_insert_def split: if_splits)

lemma rel_remove [simp]:
  assumes "okA a"
  shows "pair_rel okA okB (db_remove (pair_key a b) m) = pair_rel okA okB m - {(a, b)}"
  using assms pair_inject by (auto simp: pair_rel_def db_remove_def delete_conv' split: if_splits)

lemma rel_bare [simp]:
  "SEP \<notin> set k \<Longrightarrow> pair_rel okA okB (db_insert k v m) = pair_rel okA okB m"
  by (auto simp: pair_rel_def db_insert_def pair_key_def split: if_splits)

lemma table_insert [simp]: "pair_table okA okB m \<Longrightarrow> okA a \<Longrightarrow> okB b \<Longrightarrow> pair_table okA okB (db_insert (pair_key a b) v m)"
  by (auto simp: pair_table_def db_insert_def)

lemma table_bare [simp]: "pair_table okA okB m \<Longrightarrow> SEP \<notin> set k \<Longrightarrow> pair_table okA okB (db_insert k v m)"
  by (auto simp: pair_table_def db_insert_def)

lemma table_remove [simp]: "pair_table okA okB m \<Longrightarrow> pair_table okA okB (db_remove k m)"
  by (auto simp: pair_table_def db_remove_def delete_conv' distinct_delete split: if_splits)

lemma exists_rel: "okA a \<Longrightarrow> okB b \<Longrightarrow> db_exists m (pair_key a b) \<longleftrightarrow> (a, b) \<in> pair_rel okA okB m"
  by (simp add: db_exists_def db_get_def pair_rel_def)

lemma second_of_pair: "okA a \<Longrightarrow> second_of (pair_key a b) = b"
  using no_sep(1) [of a] by (auto simp: second_of_def pair_key_def dropWhile_append)

lemma second_ids_pairs:
  assumes "\<And>k. k \<in> set ks \<Longrightarrow> \<exists>a b. okA a \<and> okB b \<and> k = pair_key a b"
  shows "second_ids check (map (from_slice (\<lambda>_. True) (TTuple [TIgnore, TStr])) ks) = map second_of ks"
  using assms
proof (induction ks)
  case (Cons k ks)
  obtain a b where k: "okA a" "okB b" "k = pair_key a b" using Cons.prems [of k] by auto
  have read: "from_slice (\<lambda>_. True) (TTuple [TIgnore, TStr]) k = Inr (VTuple [VNone, VStr b])"
    unfolding k(3) pair_key_def using read_second no_sep(1) [OF k(1)] okB [OF k(2)] by blast
  have "as_id check (VStr b) = Some b" using okB [OF k(2)] by (simp add: as_id_def)
  moreover have "second_of k = b" using second_of_pair k by simp
  ultimately show ?case using Cons.IH Cons.prems read by (simp add: second_ids_def List.map_filter_simps)
qed (simp add: second_ids_def List.map_filter_simps)

lemma pair_scan:
  assumes "pair_table okA okB m" "\<And>k. map_of m k \<noteq> None \<Longrightarrow> P k \<Longrightarrow> SEP \<in> set k"
  shows "second_ids check (map (from_slice (\<lambda>_. True) (TTuple [TIgnore, TStr])) (filter P (raw_keys m)))
      = map second_of (filter P (raw_keys m))"
    "set (map second_of (filter P (raw_keys m))) = {b. \<exists>a. (a, b) \<in> pair_rel okA okB m \<and> P (pair_key a b)}"
proof -
  have dom: "k \<in> set (raw_keys m) \<longleftrightarrow> map_of m k \<noteq> None" for k
    by (auto simp: raw_keys_def map_of_eq_None_iff)
  have pairs: "\<exists>a b. okA a \<and> okB b \<and> k = pair_key a b" if "k \<in> set (filter P (raw_keys m))" for k
    using that dom assms unfolding pair_table_def by auto
  then show "second_ids check (map (from_slice (\<lambda>_. True) (TTuple [TIgnore, TStr])) (filter P (raw_keys m)))
      = map second_of (filter P (raw_keys m))" by (rule second_ids_pairs)
  show "set (map second_of (filter P (raw_keys m))) = {b. \<exists>a. (a, b) \<in> pair_rel okA okB m \<and> P (pair_key a b)}"
  proof (intro set_eqI iffI)
    fix b assume "b \<in> set (map second_of (filter P (raw_keys m)))"
    then obtain k where k: "k \<in> set (filter P (raw_keys m))" "b = second_of k" by auto
    from pairs [OF k(1)] obtain a b' where "okA a" "okB b'" "k = pair_key a b'" by blast
    with k dom second_of_pair show "b \<in> {b. \<exists>a. (a, b) \<in> pair_rel okA okB m \<and> P (pair_key a b)}"
      by (auto simp: pair_rel_def)
  next
    fix b assume "b \<in> {b. \<exists>a. (a, b) \<in> pair_rel okA okB m \<and> P (pair_key a b)}"
    then obtain a where a: "okA a" "map_of m (pair_key a b) \<noteq> None" "P (pair_key a b)" by (auto simp: pair_rel_def)
    then have "pair_key a b \<in> set (filter P (raw_keys m))" using dom by simp
    then show "b \<in> set (map second_of (filter P (raw_keys m)))" using second_of_pair [OF a(1), of b] by (metis image_eqI set_map)
  qed
qed

lemma scan_pairs_spec:
  assumes "pair_table okA okB m" "okA a"
  shows "set (scan_pairs check m a) = {b. (a, b) \<in> pair_rel okA okB m}" "distinct (scan_pairs check m a)"
    "sorted (scan_pairs check m a)"
proof -
  let ?ks = "filter (prefix (a @ [SEP])) (raw_keys m)"
  have sep: "SEP \<in> set k" if "prefix (a @ [SEP]) k" for k using that by (auto simp: prefix_def)
  note scan = pair_scan [OF assms(1), of "prefix (a @ [SEP])", OF sep]
  have run: "scan_pairs check m a = map second_of ?ks"
    using scan(1) by (simp add: scan_pairs_def keys_prefix_def keys_prefix_raw_def serialize_pair_prefix raw_keys_prefix_filter)
  have pre: "prefix (a @ [SEP]) (pair_key a' b) \<longleftrightarrow> a' = a" if "okA a'" for a' b
    using pair_inject [OF that assms(2)] by (auto simp: prefix_def pair_key_def)
  show "set (scan_pairs check m a) = {b. (a, b) \<in> pair_rel okA okB m}"
    unfolding run using scan(2) pre assms(2) by (auto simp: pair_rel_def)
  have form: "k = a @ SEP # second_of k" if "k \<in> set ?ks" for k
    using that second_of_pair [OF assms(2)] by (auto simp: prefix_def pair_key_def)
  have "sorted ?ks"
    unfolding raw_keys_def using sorted_raw_stream [of m] by (simp add: sorted_wrt_filter)
  have "distinct ?ks"
    using assms(1) by (simp add: raw_keys_def raw_stream_def pair_table_def distinct_map)
  show "distinct (scan_pairs check m a)" unfolding run using form \<open>distinct ?ks\<close>
    by (auto simp: distinct_map inj_on_def) metis
  show "sorted (scan_pairs check m a)" unfolding run
  proof -
    have "second_of x \<le> second_of y" if "x \<in> set ?ks" "y \<in> set ?ks" "x \<le> y" for x y
      using form [OF that(1)] form [OF that(2)] that(3) append_le_same [of "a @ [SEP]" "second_of x" "second_of y"]
      by simp
    with \<open>sorted ?ks\<close> show "sorted (map second_of ?ks)"
      unfolding sorted_wrt_map by (rule sorted_wrt_mono_rel [rotated])
  qed
qed

text \<open>A scan by a bare first field also meets the keys whose first field only starts with it.\<close>

lemma prefix_pair: "SEP \<notin> set a \<Longrightarrow> prefix a (pair_key a' b) \<longleftrightarrow> prefix a a'"
  by (auto simp: pair_key_def prefix_append prefix_Cons)

lemma raw_scan:
  assumes "pair_table okA okB m" "\<And>k. map_of m k \<noteq> None \<Longrightarrow> SEP \<in> set k" "SEP \<notin> set a"
  shows "set (second_ids check (keys_raw_prefix (\<lambda>_. True) m (TTuple [TIgnore, TStr]) a))
    = {b. \<exists>a'. prefix a a' \<and> (a', b) \<in> pair_rel okA okB m}"
proof -
  note scan = pair_scan [OF assms(1), of "prefix a", OF assms(2)]
  show ?thesis
    unfolding keys_raw_prefix_def raw_keys_prefix_filter using scan prefix_pair [OF assms(3)] by auto
qed

end

definition uid_ok :: "id_checks \<Rightarrow> u8 list \<Rightarrow> bool" where
  "uid_ok R u \<longleftrightarrow> valid_utf8 u \<and> user_id_ok R u"

definition rid_ok :: "id_checks \<Rightarrow> u8 list \<Rightarrow> bool" where
  "rid_ok R r \<longleftrightarrow> valid_utf8 r \<and> room_id_ok R r"

definition sid_ok :: "id_checks \<Rightarrow> u8 list \<Rightarrow> bool" where
  "sid_ok R v \<longleftrightarrow> valid_utf8 v \<and> server_name_ok R v"

interpretation user_room: pair_keys "uid_ok R" "rid_ok R" "room_id_ok R" for R
  by unfold_locales (simp_all add: uid_ok_def rid_ok_def)

interpretation room_user: pair_keys "rid_ok R" "uid_ok R" "user_id_ok R" for R
  by unfold_locales (simp_all add: uid_ok_def rid_ok_def)

interpretation room_server: pair_keys "rid_ok R" "sid_ok R" "server_name_ok R" for R
  by unfold_locales (simp_all add: rid_ok_def sid_ok_def)

interpretation server_room: pair_keys "sid_ok R" "rid_ok R" "room_id_ok R" for R
  by unfold_locales (simp_all add: rid_ok_def sid_ok_def)

end
