(* ===== verification/Membership.thy ===== *)
theory Membership
  imports StateCache
begin

text \<open>
  What the membership tables of \<open>StateCache\<close> promise.  \<open>cache_inv\<close> says that every column holds well-formed pairs, that
  the columns keyed by room mirror those keyed by user and that the four memberships exclude each other;
  every operation keeps it, and \<open>cache_step\<close> is the relation of all operations.  The server tables are exact
  after a count, and the scans for the rooms of a user are characterised.
\<close>

section \<open>The invariant of the tables\<close>

abbreviation user_rooms :: "id_checks \<Rightarrow> db_map \<Rightarrow> (u8 list \<times> u8 list) set" where
  "user_rooms R \<equiv> pair_rel (uid_ok R) (rid_ok R)"

abbreviation room_users :: "id_checks \<Rightarrow> db_map \<Rightarrow> (u8 list \<times> u8 list) set" where
  "room_users R \<equiv> pair_rel (rid_ok R) (uid_ok R)"

definition all_pairs :: "db_map \<Rightarrow> bool" where
  "all_pairs m \<longleftrightarrow> (\<forall>k. map_of m k \<noteq> None \<longrightarrow> SEP \<in> set k)"

lemma all_pairs_change [simp]:
  "all_pairs m \<Longrightarrow> all_pairs (db_insert (pair_key a b) v m)" "all_pairs m \<Longrightarrow> all_pairs (db_remove k m)"
  by (auto simp: all_pairs_def db_insert_def db_remove_def delete_conv' pair_key_def)

definition cache_tables :: "id_checks \<Rightarrow> cache_data \<Rightarrow> bool" where
  "cache_tables R s \<longleftrightarrow>
     list_all (pair_table (uid_ok R) (rid_ok R)) [userroomid_joined s, userroomid_invitestate s, userroomid_leftstate s,
       userroomid_knockedstate s, userroomid_invitesender s, roomuseroncejoinedids s]
     \<and> list_all (pair_table (rid_ok R) (uid_ok R)) [roomuserid_joined s, roomuserid_invitecount s, roomuserid_leftcount s,
         roomuserid_knockedcount s]
     \<and> pair_table (rid_ok R) (sid_ok R) (roomserverids s) \<and> pair_table (sid_ok R) (rid_ok R) (serverroomids s)
     \<and> all_pairs (userroomid_joined s) \<and> all_pairs (roomuseroncejoinedids s)"

definition cache_mirrors :: "id_checks \<Rightarrow> cache_data \<Rightarrow> bool" where
  "cache_mirrors R s \<longleftrightarrow>
     room_users R (roomuserid_joined s) = (user_rooms R (userroomid_joined s))\<inverse>
     \<and> room_users R (roomuserid_invitecount s) = (user_rooms R (userroomid_invitestate s))\<inverse>
     \<and> user_rooms R (userroomid_invitesender s) = user_rooms R (userroomid_invitestate s)
     \<and> room_users R (roomuserid_leftcount s) = (user_rooms R (userroomid_leftstate s))\<inverse>
     \<and> room_users R (roomuserid_knockedcount s) = (user_rooms R (userroomid_knockedstate s))\<inverse>
     \<and> pair_rel (rid_ok R) (sid_ok R) (roomserverids s) = (pair_rel (sid_ok R) (rid_ok R) (serverroomids s))\<inverse>"

definition cache_exclusive :: "id_checks \<Rightarrow> cache_data \<Rightarrow> bool" where
  "cache_exclusive R s \<longleftrightarrow>
     user_rooms R (userroomid_joined s) \<inter> user_rooms R (userroomid_invitestate s) = {}
     \<and> user_rooms R (userroomid_joined s) \<inter> user_rooms R (userroomid_leftstate s) = {}
     \<and> user_rooms R (userroomid_joined s) \<inter> user_rooms R (userroomid_knockedstate s) = {}
     \<and> user_rooms R (userroomid_invitestate s) \<inter> user_rooms R (userroomid_leftstate s) = {}
     \<and> user_rooms R (userroomid_invitestate s) \<inter> user_rooms R (userroomid_knockedstate s) = {}
     \<and> user_rooms R (userroomid_leftstate s) \<inter> user_rooms R (userroomid_knockedstate s) = {}"

definition cache_inv :: "id_checks \<Rightarrow> cache_data \<Rightarrow> bool" where
  "cache_inv R s \<longleftrightarrow> cache_tables R s \<and> cache_mirrors R s \<and> cache_exclusive R s"

lemma converse_pair [simp]:
  "(r - {(a, b)})\<inverse> = r\<inverse> - {(b, a)}" "(insert (a, b) r)\<inverse> = insert (b, a) (r\<inverse>)"
  by auto

text \<open>A step moves a pair into one of the four tables and out of the others, or only out.\<close>

lemma mark_as_joined_inv:
  assumes "cache_inv R s" "uid_ok R u" "rid_ok R r"
  shows "cache_inv R (mark_as_joined u r s)"
proof -
  have "cache_tables R (mark_as_joined u r s)"
    using assms by (simp add: cache_inv_def cache_tables_def mark_as_joined_def Let_def)
  moreover have "cache_mirrors R (mark_as_joined u r s)"
    using assms by (simp add: cache_inv_def cache_mirrors_def mark_as_joined_def Let_def)
  moreover have "cache_exclusive R (mark_as_joined u r s)"
    using assms by (auto simp: cache_inv_def cache_exclusive_def mark_as_joined_def Let_def)
  ultimately show ?thesis by (simp add: cache_inv_def)
qed

lemma cache_inv_cong:
  assumes "cache_inv R s" "userroomid_joined s' = userroomid_joined s" "userroomid_invitestate s' = userroomid_invitestate s"
    "userroomid_leftstate s' = userroomid_leftstate s" "userroomid_knockedstate s' = userroomid_knockedstate s"
    "userroomid_invitesender s' = userroomid_invitesender s" "roomuseroncejoinedids s' = roomuseroncejoinedids s"
    "roomuserid_joined s' = roomuserid_joined s" "roomuserid_invitecount s' = roomuserid_invitecount s"
    "roomuserid_leftcount s' = roomuserid_leftcount s" "roomuserid_knockedcount s' = roomuserid_knockedcount s"
    "roomserverids s' = roomserverids s" "serverroomids s' = serverroomids s"
  shows "cache_inv R s'"
  using assms by (simp add: cache_inv_def cache_tables_def cache_mirrors_def cache_exclusive_def)

lemma forget_inv:
  assumes "cache_inv R s" "uid_ok R u" "rid_ok R r"
  shows "cache_inv R (forget r u s)"
proof -
  have "cache_tables R (forget r u s)" using assms by (simp add: cache_inv_def cache_tables_def forget_def)
  moreover have "cache_mirrors R (forget r u s)" using assms by (simp add: cache_inv_def cache_mirrors_def forget_def)
  moreover have "cache_exclusive R (forget r u s)" using assms by (auto simp: cache_inv_def cache_exclusive_def forget_def)
  ultimately show ?thesis by (simp add: cache_inv_def)
qed

lemma sc_next_count_inv: "cache_inv R s \<Longrightarrow> sc_next_count s = (c, s1) \<Longrightarrow> cache_inv R s1"
  by (erule cache_inv_cong) (auto simp: sc_next_count_def split: prod.splits)

lemmas cache_parts = cache_inv_def cache_tables_def cache_mirrors_def cache_exclusive_def Let_def

lemma mark_as_left_inv:
  assumes "cache_inv (env_ids E) s" "uid_ok (env_ids E) u" "rid_ok (env_ids E) r"
  shows "cache_inv (env_ids E) (mark_as_left E u r pdu s)"
proof -
  obtain c s1 where n: "sc_next_count s = (c, s1)" by fastforce
  note inv = sc_next_count_inv [OF assms(1) n]
  obtain s2 where s2: "mark_as_left E u r pdu s = (if user_local E u \<and> (forget_forced_upon_leave E \<or> room_is_banned E r
      \<or> room_is_disabled E r) then forget r u s2 else s2)" "cache_inv (env_ids E) s2"
  proof
    show "mark_as_left E u r pdu s = (if user_local E u \<and> (forget_forced_upon_leave E \<or> room_is_banned E r
      \<or> room_is_disabled E r) then forget r u (left_tables u r pdu c s1) else left_tables u r pdu c s1)"
      by (simp add: mark_as_left_def n Let_def)
    have "cache_tables (env_ids E) (left_tables u r pdu c s1)" "cache_mirrors (env_ids E) (left_tables u r pdu c s1)"
      using inv assms(2,3) by (simp_all add: cache_parts left_tables_def)
    moreover have "cache_exclusive (env_ids E) (left_tables u r pdu c s1)"
      using inv assms(2,3) by (auto simp: cache_inv_def cache_exclusive_def left_tables_def)
    ultimately show "cache_inv (env_ids E) (left_tables u r pdu c s1)" by (simp add: cache_inv_def)
  qed
  then show ?thesis using forget_inv [OF s2(2) assms(2,3)] by simp
qed

lemma mark_as_knocked_inv:
  assumes "cache_inv R s" "uid_ok R u" "rid_ok R r"
  shows "cache_inv R (mark_as_knocked u r state s)"
proof -
  obtain c s1 where n: "sc_next_count s = (c, s1)" by fastforce
  note inv = sc_next_count_inv [OF assms(1) n]
  have "cache_tables R (mark_as_knocked u r state s)" "cache_mirrors R (mark_as_knocked u r state s)"
    using inv assms(2,3) by (simp_all add: cache_parts mark_as_knocked_def n)
  moreover have "cache_exclusive R (mark_as_knocked u r state s)"
    using inv assms(2,3) by (auto simp: cache_inv_def cache_exclusive_def mark_as_knocked_def n Let_def)
  ultimately show ?thesis by (simp add: cache_inv_def)
qed

lemma mark_as_invited_inv:
  assumes "cache_inv (env_ids E) s" "uid_ok (env_ids E) u" "rid_ok (env_ids E) r"
    "mark_as_invited E u r sender_user state via s = Inr s'"
  shows "cache_inv (env_ids E) s'"
proof -
  obtain c s1 where n: "sc_next_count s = (c, s1)" by fastforce
  note inv = sc_next_count_inv [OF assms(1) n]
  obtain s2 where s2: "s' = s2 \<or> (\<exists>via. add_servers_invite_via (env_ids E) r via s2 = Inr s')"
    "s2 = invited_tables u r sender_user state c s1"
    using assms(4) n by (auto simp: mark_as_invited_def Let_def split: if_splits option.splits sum.splits)
  have "cache_tables (env_ids E) s2" "cache_mirrors (env_ids E) s2"
    using inv assms(2,3) by (simp_all add: cache_parts invited_tables_def s2(2))
  moreover have "cache_exclusive (env_ids E) s2"
    using inv assms(2,3) by (auto simp: cache_inv_def cache_exclusive_def invited_tables_def s2(2))
  ultimately have inv2: "cache_inv (env_ids E) s2" by (simp add: cache_inv_def)
  from s2(1) show ?thesis
  proof
    assume "\<exists>via. add_servers_invite_via (env_ids E) r via s2 = Inr s'"
    then show ?thesis
      by (auto simp: add_servers_invite_via_def result_simps intro!: cache_inv_cong [OF inv2])
  qed (simp add: inv2)
qed

section \<open>Counts and servers\<close>

lemma saturating_count:
  "unat c + length xs < 2 ^ 64 \<Longrightarrow> fold (\<lambda>_ c. u64_saturating_add c 1) xs c = c + of_nat (length xs)"
proof (induction xs arbitrary: c)
  case (Cons x xs)
  have lt: "unat c + 1 < 2 ^ 64" using Cons.prems by simp
  then have "int (unat c + 1) < int (2 ^ 64)" by (simp only: of_nat_less_iff)
  then have "uint c + uint (1 :: u64) \<le> u64_max" by (simp add: u64_max_def)
  then have add: "u64_saturating_add c 1 = c + 1" by (simp add: u64_saturating_add_def u64_checked_add_def)
  have "unat (c + 1) = unat c + 1" using lt by (simp add: unat_word_ariths)
  with Cons.IH [of "c + 1"] Cons.prems add show ?case by simp
qed simp

lemma get_u64_bytes [simp]: "get_u64 (Some (to_be_bytes w)) = Inr w"
  by (simp add: get_u64_def from_slice_def from_slice_state_def deserialize_word_def)

lemma sort_out_run:
  assumes "distinct olds"
  shows "fold (sort_out_server r) olds (J, s) =
    (filter (\<lambda>v. v \<notin> set olds) J,
     s\<lparr>roomserverids := fold (\<lambda>v. db_remove (pair_key r v)) (filter (\<lambda>v. v \<notin> set J) olds) (roomserverids s),
       serverroomids := fold (\<lambda>v. db_remove (pair_key v r)) (filter (\<lambda>v. v \<notin> set J) olds) (serverroomids s)\<rparr>)"
  using assms
proof (induction olds arbitrary: J s)
  case (Cons v olds)
  show ?case
  proof (cases "v \<in> set J")
    case True
    have same: "filter (\<lambda>w. w \<notin> set J - {v}) olds = filter (\<lambda>w. w \<notin> set J) olds"
      using Cons.prems by (intro filter_cong) auto
    have "filter (\<lambda>w. w \<notin> set olds) (hs_remove v J) = filter (\<lambda>w. w \<notin> set (v # olds)) J"
      by (auto simp: hs_remove_def intro: filter_cong)
    with True Cons same show ?thesis by (simp add: sort_out_server_def)
  next
    case False
    then have "filter (\<lambda>w. w \<notin> set olds) J = filter (\<lambda>w. w \<notin> set (v # olds)) J" by (auto intro: filter_cong)
    with False Cons show ?thesis by (simp add: sort_out_server_def)
  qed
qed simp

lemma add_servers_run:
  "fold (add_server r) vs s =
     s\<lparr>roomserverids := fold (\<lambda>v. db_insert (pair_key r v) []) vs (roomserverids s),
       serverroomids := fold (\<lambda>v. db_insert (pair_key v r) []) vs (serverroomids s)\<rparr>"
  by (induction vs arbitrary: s) (simp_all add: add_server_def)

context pair_keys
begin

lemma fold_remove_second:
  assumes "okA a"
  shows "pair_rel okA okB (fold (\<lambda>b. db_remove (pair_key a b)) bs m) = pair_rel okA okB m - {a} \<times> set bs"
    "pair_table okA okB m \<Longrightarrow> pair_table okA okB (fold (\<lambda>b. db_remove (pair_key a b)) bs m)"
  by (induction bs arbitrary: m) (auto simp: assms)

lemma fold_remove_first:
  assumes "\<And>a. a \<in> set as \<Longrightarrow> okA a"
  shows "pair_rel okA okB (fold (\<lambda>a. db_remove (pair_key a b)) as m) = pair_rel okA okB m - set as \<times> {b}"
    "pair_table okA okB m \<Longrightarrow> pair_table okA okB (fold (\<lambda>a. db_remove (pair_key a b)) as m)"
  using assms by (induction as arbitrary: m) auto

lemma fold_insert_second:
  assumes "okA a" "\<And>b. b \<in> set bs \<Longrightarrow> okB b"
  shows "pair_rel okA okB (fold (\<lambda>b. db_insert (pair_key a b) v) bs m) = pair_rel okA okB m \<union> {a} \<times> set bs"
    "pair_table okA okB m \<Longrightarrow> pair_table okA okB (fold (\<lambda>b. db_insert (pair_key a b) v) bs m)"
  using assms by (induction bs arbitrary: m) auto

lemma fold_insert_first:
  assumes "okB b" "\<And>a. a \<in> set as \<Longrightarrow> okA a"
  shows "pair_rel okA okB (fold (\<lambda>a. db_insert (pair_key a b) v) as m) = pair_rel okA okB m \<union> set as \<times> {b}"
    "pair_table okA okB m \<Longrightarrow> pair_table okA okB (fold (\<lambda>a. db_insert (pair_key a b) v) as m)"
  using assms by (induction as arbitrary: m) auto

end

text \<open>The server name of a valid user id is a valid server name.\<close>

definition env_ok :: "cache_env \<Rightarrow> bool" where
  "env_ok E \<longleftrightarrow> (\<forall>u. uid_ok (env_ids E) u \<longrightarrow> sid_ok (env_ids E) (user_server E u))"

definition room_server_set :: "id_checks \<Rightarrow> cache_data \<Rightarrow> u8 list \<Rightarrow> u8 list set" where
  "room_server_set R s room = {v. (room, v) \<in> pair_rel (rid_ok R) (sid_ok R) (roomserverids s)}"

definition joined_servers_of :: "cache_env \<Rightarrow> cache_data \<Rightarrow> u8 list \<Rightarrow> u8 list set" where
  "joined_servers_of E s room = user_server E ` {u. (u, room) \<in> user_rooms (env_ids E) (userroomid_joined s)}"

lemma members_set:
  assumes "cache_inv R s" "rid_ok R r"
  shows "set (room_members R s r) = {u. (u, r) \<in> user_rooms R (userroomid_joined s)}" "distinct (room_members R s r)"
proof -
  have t: "pair_table (rid_ok R) (uid_ok R) (roomuserid_joined s)"
    "room_users R (roomuserid_joined s) = (user_rooms R (userroomid_joined s))\<inverse>"
    using assms(1) by (simp_all add: cache_inv_def cache_tables_def cache_mirrors_def)
  show "set (room_members R s r) = {u. (u, r) \<in> user_rooms R (userroomid_joined s)}" "distinct (room_members R s r)"
    unfolding room_members_def using room_user.scan_pairs_spec(1,2) [OF t(1) assms(2)] t(2) by simp_all
qed

lemma sid_of_servers: "v \<in> room_server_set R s r \<Longrightarrow> sid_ok R v"
  by (simp add: room_server_set_def pair_rel_def)

definition recounted :: "cache_env \<Rightarrow> u8 list \<Rightarrow> u8 list \<Rightarrow> db_map \<Rightarrow> cache_data \<Rightarrow> cache_data" where
  "recounted E r kc ic s =
     (let R = env_ids E; members = room_members R s r; olds = room_servers R s r;
          servers = hs_extend (map (user_server E) members) [];
          gone = filter (\<lambda>v. v \<notin> set servers) olds; new = filter (\<lambda>v. v \<notin> set olds) servers
      in s\<lparr>roomid_joinedcount := db_insert r (to_be_bytes (fold (\<lambda>_ c. u64_saturating_add c 1) members 0)) (roomid_joinedcount s),
           roomid_invitedcount := ic, roomuserid_knockedcount := db_insert r kc (roomuserid_knockedcount s),
           roomserverids := fold (\<lambda>v. db_insert (pair_key r v) []) new (fold (\<lambda>v. db_remove (pair_key r v)) gone (roomserverids s)),
           serverroomids := fold (\<lambda>v. db_insert (pair_key v r) []) new (fold (\<lambda>v. db_remove (pair_key v r)) gone (serverroomids s)),
           appservice_in_room_cache := AList.delete r (appservice_in_room_cache s)\<rparr>)"

lemma update_joined_count_run:
  assumes "distinct (room_servers (env_ids E) s r)"
  shows "\<exists>kc ic. update_joined_count E r s = recounted E r kc ic s"
proof -
  let ?R = "env_ids E"
  let ?kc = "to_be_bytes (u64_saturating_add 0 (of_nat (length (room_members_knocked ?R s r))))"
  let ?ic = "db_insert r (to_be_bytes (u64_saturating_add 0 (of_nat (length (room_members_invited ?R s r))))) (roomid_invitedcount s)"
  let ?s1 = "s\<lparr>roomid_joinedcount := db_insert r (to_be_bytes (fold (\<lambda>_ c. u64_saturating_add c 1) (room_members ?R s r) 0)) (roomid_joinedcount s),
       roomid_invitedcount := ?ic, roomuserid_knockedcount := db_insert r ?kc (roomuserid_knockedcount s)\<rparr>"
  have olds: "room_servers ?R ?s1 r = room_servers ?R s r" by (simp add: room_servers_def)
  note sorted = sort_out_run [OF assms, of r "hs_extend (map (user_server E) (room_members ?R s r)) []" ?s1]
  have "update_joined_count E r s = recounted E r ?kc ?ic s"
    unfolding update_joined_count_def Let_def olds sorted prod.case add_servers_run recounted_def
    by simp
  then show ?thesis by blast
qed

lemma update_joined_count_spec:
  assumes "cache_inv (env_ids E) s" "env_ok E" "rid_ok (env_ids E) r"
  defines "R \<equiv> env_ids E" and "s' \<equiv> update_joined_count E r s"
  shows "cache_inv R s'"
    "room_server_set R s' r = joined_servers_of E s r"
    "r' \<noteq> r \<Longrightarrow> room_server_set R s' r' = room_server_set R s r'"
    "userroomid_joined s' = userroomid_joined s"
    "roomid_joinedcount s' = db_insert r (to_be_bytes (fold (\<lambda>_ c. u64_saturating_add c 1) (room_members R s r) 0)) (roomid_joinedcount s)"
proof -
  let ?J = "hs_extend (map (user_server E) (room_members R s r)) []"
  let ?olds = "room_servers R s r"
  let ?gone = "filter (\<lambda>v. v \<notin> set ?J) ?olds" and ?new = "filter (\<lambda>v. v \<notin> set ?olds) ?J"
  have R: "rid_ok R r" "cache_inv R s" using assms(1,3) by (simp_all add: R_def)
  have t: "pair_table (rid_ok R) (sid_ok R) (roomserverids s)" "pair_table (sid_ok R) (rid_ok R) (serverroomids s)"
    using R(2) by (simp_all add: cache_inv_def cache_tables_def)
  have olds: "set ?olds = room_server_set R s r" "distinct ?olds"
    using room_server.scan_pairs_spec(1,2) [OF t(1) R(1)] by (simp_all add: room_servers_def room_server_set_def)
  have J: "set ?J = joined_servers_of E s r"
    using members_set(1) [OF R(2,1)] by (simp add: joined_servers_of_def R_def)
  have Jok: "sid_ok R v" if "v \<in> set ?J" for v
  proof -
    have "v \<in> joined_servers_of E s r" using that J by simp
    then show ?thesis using assms(2) by (auto simp: joined_servers_of_def env_ok_def R_def pair_rel_def)
  qed
  have gone: "sid_ok R v" if "v \<in> set ?gone" for v using that olds(1) sid_of_servers by auto
  obtain kc ic where s': "s' = recounted E r kc ic s"
    using update_joined_count_run [of E s r] olds(2) unfolding s'_def R_def by blast
  note s' = s' [unfolded recounted_def Let_def, folded R_def]
  have cols: "roomserverids s' = fold (\<lambda>v. db_insert (pair_key r v) []) ?new (fold (\<lambda>v. db_remove (pair_key r v)) ?gone (roomserverids s))"
    "serverroomids s' = fold (\<lambda>v. db_insert (pair_key v r) []) ?new (fold (\<lambda>v. db_remove (pair_key v r)) ?gone (serverroomids s))"
    unfolding s' by simp_all
  have new: "sid_ok R v" if "v \<in> set ?new" for v using that Jok by simp
  note ins = room_server.fold_insert_second [where R = R and a = r and bs = ?new and v = "[]", OF R(1) new]
  note rem = room_server.fold_remove_second [where R = R and a = r and bs = ?gone, OF R(1)]
  note ins' = server_room.fold_insert_first [where R = R and b = r and as = ?new and v = "[]", OF R(1) new]
  note rem' = server_room.fold_remove_first [where R = R and b = r and as = ?gone, OF gone]
  have rel: "pair_rel (rid_ok R) (sid_ok R) (roomserverids s') =
      pair_rel (rid_ok R) (sid_ok R) (roomserverids s) - {r} \<times> set ?gone \<union> {r} \<times> set ?new"
    by (simp only: cols(1) ins(1) rem(1))
  have rel': "pair_rel (sid_ok R) (rid_ok R) (serverroomids s') =
      pair_rel (sid_ok R) (rid_ok R) (serverroomids s) - set ?gone \<times> {r} \<union> set ?new \<times> {r}"
    by (simp only: cols(2) ins'(1) rem'(1))
  show "room_server_set R s' r = joined_servers_of E s r" "r' \<noteq> r \<Longrightarrow> room_server_set R s' r' = room_server_set R s r'"
    using rel olds(1) J by (auto simp: room_server_set_def)
  have "pair_table (rid_ok R) (sid_ok R) (roomserverids s')" "pair_table (sid_ok R) (rid_ok R) (serverroomids s')"
    by (simp only: cols(1) ins(2) rem(2) t(1), simp only: cols(2) ins'(2) rem'(2) t(2))
  then have "cache_tables R s'"
    using R(2) room_user.no_sep(1) [OF R(1)] by (simp add: s' cache_inv_def cache_tables_def)
  moreover have "cache_mirrors R s'"
  proof -
    have "pair_rel (rid_ok R) (sid_ok R) (roomserverids s') = (pair_rel (sid_ok R) (rid_ok R) (serverroomids s'))\<inverse>"
      using R(2) unfolding rel rel' cache_inv_def cache_mirrors_def by auto
    then show ?thesis using R(2) room_user.no_sep(1) [OF R(1)] by (simp add: s' cache_inv_def cache_mirrors_def)
  qed
  moreover have "cache_exclusive R s'" using R(2) by (simp add: s' cache_inv_def cache_exclusive_def)
  ultimately show "cache_inv R s'" by (simp add: cache_inv_def)
  show "userroomid_joined s' = userroomid_joined s"
    "roomid_joinedcount s' = db_insert r (to_be_bytes (fold (\<lambda>_ c. u64_saturating_add c 1) (room_members R s r) 0)) (roomid_joinedcount s)"
    by (simp_all add: s')
qed

section \<open>Runs\<close>

lemma first_join_tables:
  assumes "first_join E u r s = (res, s')"
  shows "\<exists>a. s' = s\<lparr>sc_account := a\<rparr> \<or> s' = (mark_as_once_joined u r s)\<lparr>sc_account := a\<rparr>"
proof (cases "once_joined s u r")
  case True
  with assms have "s' = s\<lparr>sc_account := sc_account s\<rparr>" by (simp add: first_join_def)
  then show ?thesis by blast
next
  case False
  show ?thesis
  proof (cases "room_predecessor E r")
    case None
    with False assms have "s' = (mark_as_once_joined u r s)\<lparr>sc_account := sc_account (mark_as_once_joined u r s)\<rparr>"
      by (simp add: first_join_def)
    then show ?thesis by blast
  next
    case (Some p)
    with False assms show ?thesis by (auto simp: first_join_def Let_def split: sum.splits)
  qed
qed

lemma mark_as_once_joined_inv:
  assumes "cache_inv R s" "uid_ok R u" "rid_ok R r"
  shows "cache_inv R (mark_as_once_joined u r s)"
  using assms by (simp add: cache_parts mark_as_once_joined_def)

lemma account_inv [simp]: "cache_inv R (s\<lparr>sc_account := a\<rparr>) \<longleftrightarrow> cache_inv R s"
  by (simp add: cache_parts)

lemma first_join_inv:
  assumes "first_join E u r s = (res, s')" "cache_inv R s" "uid_ok R u" "rid_ok R r"
  shows "cache_inv R s'"
  using first_join_tables [OF assms(1)] assms(2) mark_as_once_joined_inv [OF assms(2-4)] by auto

lemma create_remote_user_inv [simp]: "cache_inv R (create_remote_user E u s) \<longleftrightarrow> cache_inv R s"
  by (simp add: cache_parts create_remote_user_def)

text \<open>The part of \<^const>\<open>update_membership\<close> before the counts are brought up to date.\<close>

definition moved :: "cache_env \<Rightarrow> u8 list \<Rightarrow> u8 list \<Rightarrow> member_event \<Rightarrow> cache_data \<Rightarrow> (CacheError + unit) \<times> cache_data" where
  "moved E r u pdu s = update_membership E r u pdu False s"

lemma update_membership_counts:
  "update_membership E r u pdu True s = (case moved E r u pdu s of
     (Inl e, s1) \<Rightarrow> (Inl e, s1) | (Inr _, s1) \<Rightarrow> (Inr (), update_joined_count E r s1))"
  by (simp add: moved_def update_membership_def Let_def split: option.split prod.split sum.split)

lemma moved_cases:
  assumes "moved E r u pdu s = (res, s')"
  obtains (join) s1 where "me_membership pdu = Some Join" "first_join E u r (create_remote_user E u s) = (Inr (), s1)"
      "s' = mark_as_joined u r s1"
    | (join_failed) e where "me_membership pdu = Some Join" "res = Inl e"
      "first_join E u r (create_remote_user E u s) = (Inl e, s')"
    | (invite) "me_membership pdu = Some Invite"
      "mark_as_invited E u r (me_sender pdu) (me_stripped pdu) None (create_remote_user E u s) = Inr s'"
    | (leave) "me_membership pdu \<in> {Some Leave, Some Ban}" "s' = mark_as_left E u r (me_json pdu) (create_remote_user E u s)"
    | (only_user) "s' = create_remote_user E u s"
    | (nothing) "s' = s"
proof (cases "me_membership pdu")
  case None
  with assms have "s' = s" by (simp add: moved_def update_membership_def)
  then show ?thesis by (rule nothing)
next
  case (Some m)
  note run = assms [unfolded moved_def update_membership_def Some option.case Let_def]
  show ?thesis
  proof (cases m)
    case Join
    obtain res1 s1 where first: "first_join E u r (create_remote_user E u s) = (res1, s1)" by fastforce
    show ?thesis
    proof (cases res1)
      case (Inl e) with run first Some Join show ?thesis by (intro join_failed [of e]) simp_all
    next
      case (Inr x) with run first Some Join show ?thesis by (intro join [of s1]) simp_all
    qed
  next
    case Invite
    show ?thesis
    proof (cases "mark_as_invited E u r (me_sender pdu) (me_stripped pdu) None (create_remote_user E u s)")
      case (Inl e) with run Invite show ?thesis by (intro only_user) simp
    next
      case (Inr s2) with run Invite Some show ?thesis by (intro invite) simp_all
    qed
  next
    case Leave with run Some show ?thesis by (intro leave) simp_all
  next
    case Ban with run Some show ?thesis by (intro leave) simp_all
  qed (use run in \<open>auto intro!: only_user\<close>)
qed

lemma moved_inv:
  assumes "moved E r u pdu s = (res, s')" "cache_inv (env_ids E) s" "uid_ok (env_ids E) u" "rid_ok (env_ids E) r"
  shows "cache_inv (env_ids E) s'"
  using assms(1)
proof (cases rule: moved_cases)
  case (join s1)
  from first_join_inv [OF join(2)] assms(2-) have "cache_inv (env_ids E) s1" by simp
  then show ?thesis unfolding join(3) using assms(3,4) by (rule mark_as_joined_inv)
next
  case (join_failed e)
  from first_join_inv [OF join_failed(3)] assms(2-) show ?thesis by simp
next
  case invite
  with mark_as_invited_inv assms(2-) create_remote_user_inv show ?thesis by blast
next
  case leave
  then show ?thesis using assms(2-) by (auto intro: mark_as_left_inv)
qed (use assms in simp_all)

lemma update_membership_inv:
  assumes "update_membership E r u pdu b s = (res, s')" "cache_inv (env_ids E) s" "env_ok E"
    "uid_ok (env_ids E) u" "rid_ok (env_ids E) r"
  shows "cache_inv (env_ids E) s'"
proof -
  obtain res1 s1 where s1: "moved E r u pdu s = (res1, s1)" by fastforce
  note inv = moved_inv [OF s1 assms(2,4,5)]
  have "s' = s1 \<or> s' = update_joined_count E r s1"
  proof (cases b)
    case True
    with assms(1) s1 update_membership_counts [of E r u pdu s] show ?thesis by (cases res1) auto
  next
    case False
    with assms(1) s1 show ?thesis by (simp add: moved_def)
  qed
  then show ?thesis using inv update_joined_count_spec(1) [OF inv assms(3,5)] by blast
qed

lemma appservice_in_room_inv: "cache_inv R s \<Longrightarrow> cache_inv R (snd (appservice_in_room R a r s))"
  by (erule cache_inv_cong) (simp_all add: appservice_in_room_def Let_def split: option.splits)

text \<open>
  The service starts on empty tables.  Other services read them and call the operations below; account data
  may change at any time.  A membership update that fails is a step too, to the state it leaves; an invite that
  fails changes nothing.
\<close>

definition no_members :: "account_data \<Rightarrow> cache_data" where
  "no_members a = \<lparr>sc_account = a, userid_password = [], userid_origin = [], roomid_invitedcount = [],
     roomid_inviteviaservers = [], roomid_joinedcount = [], roomserverids = [], roomuserid_invitecount = [],
     roomuserid_joined = [], roomuserid_leftcount = [], roomuserid_knockedcount = [], roomuseroncejoinedids = [],
     serverroomids = [], userroomid_invitestate = [], userroomid_joined = [], userroomid_leftstate = [],
     userroomid_knockedstate = [], userroomid_invitesender = [], appservice_in_room_cache = []\<rparr>"

inductive cache_step :: "cache_env \<Rightarrow> cache_data \<Rightarrow> cache_data \<Rightarrow> bool" for E where
  step_membership: "uid_ok (env_ids E) u \<Longrightarrow> rid_ok (env_ids E) r \<Longrightarrow> update_membership E r u pdu b s = (res, s')
    \<Longrightarrow> cache_step E s s'"
| step_invited: "uid_ok (env_ids E) u \<Longrightarrow> rid_ok (env_ids E) r \<Longrightarrow> mark_as_invited E u r v state via s = Inr s'
    \<Longrightarrow> cache_step E s s'"
| step_joined: "uid_ok (env_ids E) u \<Longrightarrow> rid_ok (env_ids E) r \<Longrightarrow> cache_step E s (mark_as_joined u r s)"
| step_left: "uid_ok (env_ids E) u \<Longrightarrow> rid_ok (env_ids E) r \<Longrightarrow> cache_step E s (mark_as_left E u r pdu_json s)"
| step_knocked: "uid_ok (env_ids E) u \<Longrightarrow> rid_ok (env_ids E) r \<Longrightarrow> cache_step E s (mark_as_knocked u r state s)"
| step_forget: "uid_ok (env_ids E) u \<Longrightarrow> rid_ok (env_ids E) r \<Longrightarrow> cache_step E s (forget r u s)"
| step_count: "rid_ok (env_ids E) r \<Longrightarrow> cache_step E s (update_joined_count E r s)"
| step_appservice: "cache_step E s (snd (appservice_in_room (env_ids E) a r s))"
| step_clear: "cache_step E s (clear_appservice_in_room_cache s)"
| step_account: "cache_step E s (s\<lparr>sc_account := acc\<rparr>)"

inductive cache_reachable :: "cache_env \<Rightarrow> cache_data \<Rightarrow> bool" for E where
  start: "cache_reachable E (no_members a)"
| step: "cache_reachable E s \<Longrightarrow> cache_step E s s' \<Longrightarrow> cache_reachable E s'"

lemma cache_step_inv:
  assumes "cache_step E s s'" "cache_inv (env_ids E) s" "env_ok E"
  shows "cache_inv (env_ids E) s'"
  using assms
proof (cases rule: cache_step.cases)
  case step_membership then show ?thesis using update_membership_inv assms(2,3) by blast
next
  case step_invited then show ?thesis using mark_as_invited_inv assms(2) by blast
next
  case step_clear
  then show ?thesis using assms(2) by (auto simp: clear_appservice_in_room_cache_def intro: cache_inv_cong)
qed (auto intro: assms mark_as_joined_inv mark_as_left_inv mark_as_knocked_inv forget_inv
      update_joined_count_spec(1) appservice_in_room_inv)

lemma no_members_inv: "cache_inv R (no_members a)"
  by (simp add: cache_parts no_members_def pair_table_def pair_rel_def all_pairs_def)

lemma cache_reachable_inv: "cache_reachable E s \<Longrightarrow> env_ok E \<Longrightarrow> cache_inv (env_ids E) s"
  by (induction rule: cache_reachable.induct) (auto intro: no_members_inv cache_step_inv)

lemma inv_is:
  assumes "uid_ok R u" "rid_ok R r"
  shows "is_joined s u r \<longleftrightarrow> (u, r) \<in> user_rooms R (userroomid_joined s)"
    "is_invited s u r \<longleftrightarrow> (u, r) \<in> user_rooms R (userroomid_invitestate s)"
    "is_left s u r \<longleftrightarrow> (u, r) \<in> user_rooms R (userroomid_leftstate s)"
    "is_knocked s u r \<longleftrightarrow> (u, r) \<in> user_rooms R (userroomid_knockedstate s)"
  unfolding is_joined_def is_invited_def is_left_def is_knocked_def
  by (simp_all add: user_room.exists_rel [OF assms])

lemma server_in_room_rel:
  assumes "cache_inv R s" "sid_ok R v" "rid_ok R r"
  shows "server_in_room s v r \<longleftrightarrow> v \<in> room_server_set R s r"
  using assms(1) unfolding server_in_room_def server_room.exists_rel [OF assms(2,3)] room_server_set_def
  by (simp add: cache_inv_def cache_mirrors_def)

lemma inv_lists:
  assumes "cache_inv R s" "rid_ok R r"
  shows "set (room_members_invited R s r) = {u. (u, r) \<in> user_rooms R (userroomid_invitestate s)}"
    "set (room_members_knocked R s r) = {u. (u, r) \<in> user_rooms R (userroomid_knockedstate s)}"
    "sorted (room_members R s r)"
  using assms room_user.scan_pairs_spec [where R = R and a = r]
  by (simp_all add: cache_inv_def cache_tables_def cache_mirrors_def room_members_def room_members_invited_def room_members_knocked_def)

text \<open>
  C26: In every state the service reaches from empty tables, through any sequence of its operations, a user has at
  most one of the four memberships of a room, the answer of \<^verbatim>\<open>user_membership\<close> is that one, and the member,
  invited and knocked lists of the room, read from the mirror columns, name the user exactly when the columns
  keyed by the user do.  The member list is sorted and has no user twice.
\<close>

theorem membership_exclusive:
  assumes "cache_reachable E s" "env_ok E" "uid_ok (env_ids E) u" "rid_ok (env_ids E) r"
  shows "length (filter id [is_joined s u r, is_invited s u r, is_left s u r, is_knocked s u r]) \<le> 1
    \<and> (is_joined s u r \<longleftrightarrow> user_membership s u r = Some Join)
    \<and> (is_invited s u r \<longleftrightarrow> user_membership s u r = Some Invite)
    \<and> (is_left s u r \<longleftrightarrow> user_membership s u r = Some Leave)
    \<and> (is_knocked s u r \<longleftrightarrow> user_membership s u r = Some Knock)
    \<and> (u \<in> set (room_members (env_ids E) s r) \<longleftrightarrow> is_joined s u r)
    \<and> (u \<in> set (room_members_invited (env_ids E) s r) \<longleftrightarrow> is_invited s u r)
    \<and> (u \<in> set (room_members_knocked (env_ids E) s r) \<longleftrightarrow> is_knocked s u r)
    \<and> sorted_wrt (<) (room_members (env_ids E) s r)"
proof -
  let ?R = "env_ids E"
  have inv: "cache_inv ?R s" using assms(1,2) by (rule cache_reachable_inv)
  note rel = inv_is [OF assms(3,4), of s]
  have excl: "\<not> (is_joined s u r \<and> is_invited s u r)" "\<not> (is_joined s u r \<and> is_left s u r)"
    "\<not> (is_joined s u r \<and> is_knocked s u r)" "\<not> (is_invited s u r \<and> is_left s u r)"
    "\<not> (is_invited s u r \<and> is_knocked s u r)" "\<not> (is_left s u r \<and> is_knocked s u r)"
    using inv unfolding rel cache_inv_def cache_exclusive_def by blast+
  then have "length (filter id [is_joined s u r, is_invited s u r, is_left s u r, is_knocked s u r]) \<le> 1"
    "is_joined s u r \<longleftrightarrow> user_membership s u r = Some Join" "is_invited s u r \<longleftrightarrow> user_membership s u r = Some Invite"
    "is_left s u r \<longleftrightarrow> user_membership s u r = Some Leave" "is_knocked s u r \<longleftrightarrow> user_membership s u r = Some Knock"
    by (auto simp: user_membership_def)
  moreover have "sorted_wrt (<) (room_members ?R s r)"
    using members_set(2) inv_lists(3) inv assms(4) by (auto simp: strict_sorted_iff)
  ultimately show ?thesis
    using members_set(1) [OF inv assms(4)] inv_lists(1,2) [OF inv assms(4)] unfolding rel by simp
qed

text \<open>What an operation on one pair leaves alone: the other pairs of the joined table and all servers.\<close>

definition same_elsewhere :: "u8 list \<Rightarrow> u8 list \<Rightarrow> cache_data \<Rightarrow> cache_data \<Rightarrow> bool" where
  "same_elsewhere u r s s' \<longleftrightarrow>
     userroomid_joined s' \<in> {userroomid_joined s, db_insert (pair_key u r) [] (userroomid_joined s),
       db_remove (pair_key u r) (userroomid_joined s)}
     \<and> roomserverids s' = roomserverids s \<and> serverroomids s' = serverroomids s"

lemma mark_as_invited_elsewhere:
  "mark_as_invited E u r v state via s = Inr s' \<Longrightarrow> same_elsewhere u r s s'"
  by (auto simp: mark_as_invited_def invited_tables_def sc_next_count_def add_servers_invite_via_def
      same_elsewhere_def Let_def result_simps split: prod.splits if_splits option.splits sum.splits)

lemma mark_as_left_elsewhere: "same_elsewhere u r s (mark_as_left E u r pdu s)"
  by (auto simp: mark_as_left_def left_tables_def sc_next_count_def forget_def same_elsewhere_def Let_def split: prod.splits)

lemma moved_elsewhere:
  assumes "moved E r u pdu s = (res, s')"
  shows "same_elsewhere u r s s'"
proof -
  have created: "same_elsewhere u r (create_remote_user E u s) s' = same_elsewhere u r s s'"
    by (simp add: same_elsewhere_def create_remote_user_def)
  from assms show ?thesis unfolding created [symmetric]
  proof (cases rule: moved_cases)
    case (join s1)
    from first_join_tables [OF join(2)] show "same_elsewhere u r (create_remote_user E u s) s'"
      unfolding join(3) by (auto simp: same_elsewhere_def mark_as_joined_def mark_as_once_joined_def Let_def)
  next
    case (join_failed e)
    from first_join_tables [OF join_failed(3)] show "same_elsewhere u r (create_remote_user E u s) s'"
      by (auto simp: same_elsewhere_def mark_as_once_joined_def)
  next
    case only_user
    then show "same_elsewhere u r (create_remote_user E u s) s'" by (simp add: same_elsewhere_def)
  next
    case nothing
    then show "same_elsewhere u r (create_remote_user E u s) s'" by (simp add: same_elsewhere_def create_remote_user_def)
  qed (auto intro: mark_as_left_elsewhere mark_as_invited_elsewhere)
qed

lemma same_elsewhere_joined:
  assumes "same_elsewhere u r s s'" "uid_ok R u" "rid_ok R r" "r' \<noteq> r"
  shows "(u', r') \<in> user_rooms R (userroomid_joined s') \<longleftrightarrow> (u', r') \<in> user_rooms R (userroomid_joined s)"
  using assms by (auto simp: same_elsewhere_def)

lemma room_server_set_cong: "roomserverids s' = roomserverids s \<Longrightarrow> room_server_set R s' r = room_server_set R s r"
  by (simp add: room_server_set_def)

lemma joined_servers_of_is:
  assumes "rid_ok (env_ids E) r"
  shows "joined_servers_of E s r = {user_server E u | u. uid_ok (env_ids E) u \<and> is_joined s u r}"
proof -
  have "{u. (u, r) \<in> user_rooms (env_ids E) (userroomid_joined s)} = {u. uid_ok (env_ids E) u \<and> is_joined s u r}"
    using inv_is(1) [OF _ assms] by (auto simp: pair_rel_def)
  then show ?thesis by (auto simp: joined_servers_of_def)
qed

text \<open>
  C27: A membership update that brings the counts up to date leaves the server tables of the room exact: a server
  is in the room if and only if one of its users is joined, the stored joined count is the number of joined
  users, and neither the members nor the servers of any other room change.
\<close>

theorem joined_servers_exact:
  assumes "cache_reachable E s" "env_ok E" "uid_ok (env_ids E) u" "rid_ok (env_ids E) r"
    "update_membership E r u pdu True s = (Inr (), s')"
    "card {u. uid_ok (env_ids E) u \<and> is_joined s' u r} < 2 ^ 64"
  shows "(\<forall>v. sid_ok (env_ids E) v \<longrightarrow>
        (server_in_room s' v r \<longleftrightarrow> (\<exists>u. uid_ok (env_ids E) u \<and> is_joined s' u r \<and> user_server E u = v)))
    \<and> room_joined_count s' r = Inr (of_nat (card {u. uid_ok (env_ids E) u \<and> is_joined s' u r}))
    \<and> (\<forall>r' v. rid_ok (env_ids E) r' \<and> r' \<noteq> r \<and> sid_ok (env_ids E) v \<longrightarrow> server_in_room s' v r' = server_in_room s v r')
    \<and> (\<forall>r' u'. rid_ok (env_ids E) r' \<and> r' \<noteq> r \<and> uid_ok (env_ids E) u' \<longrightarrow> is_joined s' u' r' = is_joined s u' r')"
proof -
  let ?R = "env_ids E"
  obtain res s1 where s1: "moved E r u pdu s = (res, s1)" "s' = update_joined_count E r s1"
    using assms(5) update_membership_counts [of E r u pdu s] by (auto split: prod.splits sum.splits)
  have inv: "cache_inv ?R s" using assms(1,2) by (rule cache_reachable_inv)
  note inv1 = moved_inv [OF s1(1) inv assms(3,4)] and else1 = moved_elsewhere [OF s1(1)]
  note spec = update_joined_count_spec [OF inv1 assms(2,4), folded s1(2)]
  have joined: "is_joined s' = is_joined s1" by (simp add: is_joined_def fun_eq_iff spec(4))
  have "server_in_room s' v r \<longleftrightarrow> (\<exists>u. uid_ok ?R u \<and> is_joined s' u r \<and> user_server E u = v)" if "sid_ok ?R v" for v
    unfolding server_in_room_rel [OF spec(1) that assms(4)] spec(2) joined_servers_of_is [OF assms(4)] joined by blast
  moreover have "room_joined_count s' r = Inr (of_nat (card {u. uid_ok ?R u \<and> is_joined s' u r}))"
  proof -
    have "set (room_members ?R s1 r) = {u. uid_ok ?R u \<and> is_joined s' u r}"
      using members_set(1) [OF inv1 assms(4)] inv_is(1) [OF _ assms(4), of _ s1] unfolding joined by (auto simp: pair_rel_def)
    then have "card {u. uid_ok ?R u \<and> is_joined s' u r} = length (room_members ?R s1 r)"
      using members_set(2) [OF inv1 assms(4)] distinct_card by metis
    with saturating_count [of 0 "room_members ?R s1 r"] assms(6) spec(5) show ?thesis
      by (simp add: room_joined_count_def db_get_def db_insert_def)
  qed
  moreover have "server_in_room s' v r' = server_in_room s v r'" if "rid_ok ?R r'" "r' \<noteq> r" "sid_ok ?R v" for r' v
    using spec(3) [OF that(2)] room_server_set_cong [of s1 s] else1
    unfolding server_in_room_rel [OF spec(1) that(3,1)] server_in_room_rel [OF inv that(3,1)] same_elsewhere_def by simp
  moreover have "is_joined s' u' r' = is_joined s u' r'" if "rid_ok ?R r'" "r' \<noteq> r" "uid_ok ?R u'" for r' u'
    using same_elsewhere_joined [OF else1 assms(3,4) that(2)] unfolding joined inv_is(1) [OF that(3,1)] .
  ultimately show ?thesis by blast
qed

text \<open>The state that came with an invite is read back until the membership changes.\<close>

lemma from_slice_json: "SEP \<notin> set b \<Longrightarrow> json_ok b \<Longrightarrow> from_slice json_ok TJson b = Inr (VJson b)"
proof -
  assume "SEP \<notin> set b" "json_ok b"
  moreover from this have "takeWhile (\<lambda>x. x \<noteq> SEP) b = b" by (auto simp: takeWhile_eq_all_conv)
  ultimately show ?thesis unfolding from_slice_def from_slice_state_def
    by (simp add: deserialize_json_def record_next_def Let_def del: takeWhile_eq_all_conv)
qed

lemma mark_as_invited_state:
  assumes "mark_as_invited E u r v state via s = Inr s'" "SEP \<notin> set state" "json_ok state"
  shows "invite_state json_ok parse s' u r = parse state" "invite_sender s' u r = Some v"
proof -
  have "map_of (userroomid_invitestate s') (pair_key u r) = Some state" "map_of (userroomid_invitesender s') (pair_key u r) = Some v"
    using assms(1)
    by (auto simp: mark_as_invited_def invited_tables_def sc_next_count_def add_servers_invite_via_def Let_def result_simps
        db_insert_def split: prod.splits if_splits option.splits sum.splits)
  then show "invite_state json_ok parse s' u r = parse state" "invite_sender s' u r = Some v"
    by (simp_all add: invite_state_def state_at_def invite_sender_def db_get_def from_slice_json assms(2,3))
qed

section \<open>The rooms of a user\<close>

text \<open>
  \<^verbatim>\<open>rooms_joined\<close> scans the joined table by the bare user id: it returns the rooms that some user has joined whose
  id starts with the given one, a superset of the user's own rooms.
\<close>

lemma rooms_joined_set:
  assumes "cache_inv R s" "uid_ok R u"
  shows "set (rooms_joined R s u) = {r. rid_ok R r \<and> (\<exists>u'. uid_ok R u' \<and> prefix u u' \<and> is_joined s u' r)}"
proof -
  have table: "pair_table (uid_ok R) (rid_ok R) (userroomid_joined s)" "all_pairs (userroomid_joined s)"
    using assms(1) by (simp_all add: cache_inv_def cache_tables_def)
  have "set (rooms_joined R s u) = {r. \<exists>u'. prefix u u' \<and> (u', r) \<in> user_rooms R (userroomid_joined s)}"
    unfolding rooms_joined_def
    by (rule user_room.raw_scan [OF table(1)]) (use table(2) user_room.no_sep(1) [OF assms(2)] in \<open>auto simp: all_pairs_def\<close>)
  also have "\<dots> = {r. rid_ok R r \<and> (\<exists>u'. uid_ok R u' \<and> prefix u u' \<and> is_joined s u' r)}"
    using inv_is(1) by (auto simp: pair_rel_def is_joined_def db_exists_def db_get_def)
  finally show ?thesis .
qed

lemma advance_sorted:
  "sorted_wrt (<) b \<Longrightarrow> advance ai b = (ai \<in> set b, filter (\<lambda>x. ai < x) b)"
proof (induction b)
  case (Cons bi bs)
  then have above: "\<forall>x \<in> set bs. bi < x" by simp
  consider "bi < ai" | "bi = ai" | "ai < bi" by fastforce
  then show ?case
  proof cases
    case 2
    with above have "filter (\<lambda>x. ai < x) bs = bs" by (simp add: filter_id_conv)
    with 2 show ?thesis by simp
  next
    case 3
    with above have "filter (\<lambda>x. ai < x) bs = bs" "ai \<notin> set bs" by (auto simp: filter_id_conv)
    with 3 show ?thesis by (simp add: not_le [symmetric])
  qed (use Cons in auto)
qed simp

lemma intersection_sorted:
  "sorted_wrt (<) a \<Longrightarrow> sorted_wrt (<) b \<Longrightarrow> intersection_sorted_stream2 a b = filter (\<lambda>x. x \<in> set b) a"
proof (induction a arbitrary: b)
  case (Cons ai a)
  have "intersection_sorted_stream2 a (filter (\<lambda>x. ai < x) b) = filter (\<lambda>x. x \<in> set (filter (\<lambda>x. ai < x) b)) a"
    using Cons by (simp add: sorted_wrt_filter)
  also have "\<dots> = filter (\<lambda>x. x \<in> set b) a" using Cons.prems(1) by (intro filter_cong) auto
  finally show ?case using Cons.prems(2) by (simp add: advance_sorted)
qed simp

lemma rooms_joined_scan:
  assumes "cache_inv R s" "uid_ok R u"
    "\<And>u' r. uid_ok R u' \<Longrightarrow> rid_ok R r \<Longrightarrow> strict_prefix u u' \<Longrightarrow> \<not> is_joined s u' r"
  shows "rooms_joined R s u = scan_pairs (room_id_ok R) (userroomid_joined s) u"
proof -
  let ?m = "userroomid_joined s"
  have table: "pair_table (uid_ok R) (rid_ok R) ?m" "all_pairs ?m"
    using assms(1) by (simp_all add: cache_inv_def cache_tables_def)
  have "prefix u k \<longleftrightarrow> prefix (u @ [SEP]) k" if "k \<in> set (raw_keys ?m)" for k
  proof -
    have k: "map_of ?m k \<noteq> None" using that by (auto simp: raw_keys_def map_of_eq_None_iff)
    with table obtain u' r where u': "uid_ok R u'" "rid_ok R r" "k = pair_key u' r"
      unfolding pair_table_def all_pairs_def by blast
    have "is_joined s u' r" using k by (simp add: u'(3) is_joined_def db_exists_def db_get_def)
    with assms(3) u' have "\<not> strict_prefix u u'" by blast
    then show ?thesis
      unfolding u'(3) user_room.prefix_pair [OF user_room.no_sep(1) [OF assms(2)]]
      using user_room.no_sep(1) [OF assms(2)] by (auto simp: pair_key_def strict_prefix_def prefix_def append_eq_append_conv2 append_eq_Cons_conv Cons_eq_append_conv)
  qed
  then have "filter (prefix u) (raw_keys ?m) = filter (prefix (u @ [SEP])) (raw_keys ?m)" by (intro filter_cong) auto
  then show ?thesis
    by (simp add: rooms_joined_def scan_pairs_def keys_prefix_def keys_prefix_raw_def keys_raw_prefix_def
        serialize_pair_prefix raw_keys_prefix_filter)
qed

definition id_unextended :: "id_checks \<Rightarrow> cache_data \<Rightarrow> u8 list \<Rightarrow> bool" where
  "id_unextended R s u \<longleftrightarrow> (\<forall>u' r. uid_ok R u' \<and> rid_ok R r \<and> strict_prefix u u' \<longrightarrow> \<not> is_joined s u' r)"

text \<open>
  C40: In every reachable state in which no joined user's id properly extends one of two given ids, \<open>rooms_joined\<close>
  returns exactly the rooms the user has joined, the merge of the two sorted scans is exactly the list of
  rooms both users have joined, in order and without repetition, and the two users see each other if and
  only if they share a room.
\<close>

theorem shared_rooms_exact:
  assumes "cache_reachable E s" "env_ok E" "uid_ok (env_ids E) a" "uid_ok (env_ids E) b"
    "id_unextended (env_ids E) s a" "id_unextended (env_ids E) s b"
  shows "set (rooms_joined (env_ids E) s a) = {r. rid_ok (env_ids E) r \<and> is_joined s a r}
    \<and> set (get_shared_rooms (env_ids E) s a b) = {r. rid_ok (env_ids E) r \<and> is_joined s a r \<and> is_joined s b r}
    \<and> sorted_wrt (<) (get_shared_rooms (env_ids E) s a b)
    \<and> (user_sees_user (env_ids E) s a b \<longleftrightarrow> (\<exists>r. rid_ok (env_ids E) r \<and> is_joined s a r \<and> is_joined s b r))"
proof -
  let ?R = "env_ids E"
  have inv: "cache_inv ?R s" using assms(1,2) by (rule cache_reachable_inv)
  then have table: "pair_table (uid_ok ?R) (rid_ok ?R) (userroomid_joined s)" by (simp add: cache_inv_def cache_tables_def)
  have scan: "sorted_wrt (<) (rooms_joined ?R s u)" "set (rooms_joined ?R s u) = {r. rid_ok ?R r \<and> is_joined s u r}"
    if "uid_ok ?R u" "id_unextended ?R s u" for u
  proof -
    have eq: "rooms_joined ?R s u = scan_pairs (room_id_ok ?R) (userroomid_joined s) u"
      using rooms_joined_scan [OF inv that(1)] that(2) unfolding id_unextended_def by blast
    note spec = user_room.scan_pairs_spec [OF table that(1)]
    show "sorted_wrt (<) (rooms_joined ?R s u)" unfolding eq using spec(2,3) by (simp add: strict_sorted_iff)
    show "set (rooms_joined ?R s u) = {r. rid_ok ?R r \<and> is_joined s u r}"
      unfolding eq spec(1) using inv_is(1) [OF that(1)] by (auto simp: pair_rel_def)
  qed
  note a = scan [OF assms(3,5)] and b = scan [OF assms(4,6)]
  have shared: "get_shared_rooms ?R s a b = filter (\<lambda>r. r \<in> set (rooms_joined ?R s b)) (rooms_joined ?R s a)"
    unfolding get_shared_rooms_def by (rule intersection_sorted [OF a(1) b(1)])
  have set: "set (get_shared_rooms ?R s a b) = {r. rid_ok ?R r \<and> is_joined s a r \<and> is_joined s b r}"
    unfolding shared using a(2) b(2) by auto
  moreover have "sorted_wrt (<) (get_shared_rooms ?R s a b)"
    unfolding shared using a(1) by (rule sorted_wrt_filter)
  moreover have "user_sees_user ?R s a b \<longleftrightarrow> set (get_shared_rooms ?R s a b) \<noteq> {}"
    by (simp add: user_sees_user_def)
  ultimately show ?thesis unfolding set using a(2) by blast
qed

text \<open>
  The table of users that once joined is keyed by user and room, but the list of a room's former members is
  scanned by room: no room id is a user id, and the scan finds nothing.
\<close>

lemma room_useroncejoined_empty:
  assumes "cache_inv R s" "rid_ok R r" "\<not> uid_ok R r"
  shows "room_useroncejoined R s r = []"
proof -
  let ?m = "roomuseroncejoinedids s"
  have table: "pair_table (uid_ok R) (rid_ok R) ?m" using assms(1) by (simp add: cache_inv_def cache_tables_def)
  have "\<not> prefix (r @ [SEP]) k" if "k \<in> set (raw_keys ?m)" for k
  proof
    assume pre: "prefix (r @ [SEP]) k"
    have "map_of ?m k \<noteq> None" using that by (auto simp: raw_keys_def map_of_eq_None_iff)
    moreover have "SEP \<in> set k" using pre by (auto simp: prefix_def)
    ultimately obtain u r' where k: "uid_ok R u" "k = pair_key u r'" using table unfolding pair_table_def by blast
    obtain zs where "pair_key u r' = pair_key r zs" using pre k(2) by (auto simp: prefix_def pair_key_def)
    moreover have "takeWhile (\<lambda>x. x \<noteq> SEP) (pair_key c d) = c" if "SEP \<notin> set c" for c d
      using that by (auto simp: pair_key_def takeWhile_append takeWhile_eq_all_conv)
    ultimately have "u = r" using user_room.no_sep(1) [OF k(1)] room_user.no_sep(1) [OF assms(2)] by metis
    with k(1) assms(3) show False by simp
  qed
  then have "filter (prefix (r @ [SEP])) (raw_keys ?m) = []" by (simp add: filter_empty_conv)
  then show ?thesis
    by (simp add: room_useroncejoined_def scan_pairs_def keys_prefix_def keys_prefix_raw_def second_ids_def
        serialize_pair_prefix raw_keys_prefix_filter List.map_filter_simps)
qed

section \<open>Examples\<close>

text \<open>Ids of seven-bit characters that start with their sigil; the server name follows the first colon.\<close>

definition ascii_ids :: id_checks where
  "ascii_ids = \<lparr>user_id_ok = (\<lambda>u. list_all (\<lambda>b. b < 0x80) u \<and> take 1 u = [0x40]),
     room_id_ok = (\<lambda>r. list_all (\<lambda>b. b < 0x80) r \<and> take 1 r = [0x21]), server_name_ok = (\<lambda>_. True)\<rparr>"

definition example_env :: cache_env where
  "example_env = \<lparr>env_ids = ascii_ids, user_local = (\<lambda>_. True), user_server = (\<lambda>u. tl (dropWhile (\<lambda>b. b \<noteq> 0x3A) u)),
     forget_forced_upon_leave = False, room_is_banned = (\<lambda>_. False), room_is_disabled = (\<lambda>_. False),
     room_predecessor = (\<lambda>_. None), json_value = (\<lambda>_. True), account_fields = (\<lambda>_. True), parse_direct = (\<lambda>_. None),
     print_direct = (\<lambda>_. []), parse_ignored = (\<lambda>_. None), invite_permission_type = [], user_filter_level = (\<lambda>_ _. None),
     room_power_users = (\<lambda>_. None)\<rparr>"

abbreviation "ann \<equiv> [0x40, 0x61, 0x3A, 0x73] :: u8 list"
abbreviation "ann_t \<equiv> [0x40, 0x61, 0x3A, 0x73, 0x74] :: u8 list"
abbreviation "bob \<equiv> [0x40, 0x62, 0x3A, 0x73] :: u8 list"
abbreviation "lobby \<equiv> [0x21, 0x72] :: u8 list"

lemma ascii_utf8: "list_all (\<lambda>b. b < 0x80) bs \<Longrightarrow> valid_utf8 bs"
  by (induction bs) simp_all

lemma example_env_ok: "env_ok example_env"
proof -
  have "list_all (\<lambda>b. b < 0x80) (tl (dropWhile P u))" if "list_all (\<lambda>b. b < 0x80) u" for P and u :: "u8 list"
    using that by (induction u) (simp_all add: list_all_iff)
  then show ?thesis using ascii_utf8 by (auto simp: env_ok_def example_env_def ascii_ids_def uid_ok_def sid_ok_def)
qed

lemma example_ids:
  "uid_ok (env_ids example_env) ann" "uid_ok (env_ids example_env) ann_t" "uid_ok (env_ids example_env) bob"
  "rid_ok (env_ids example_env) lobby" "sid_ok (env_ids example_env) [0x73]"
  by (simp_all add: example_env_def ascii_ids_def uid_ok_def rid_ok_def sid_ok_def)

definition nobody :: cache_data where
  "nobody = no_members no_account_data"

definition joined_by :: "u8 list list \<Rightarrow> cache_data" where
  "joined_by us = fold (\<lambda>u. mark_as_joined u lobby) us nobody"

lemma joined_by_reachable: "list_all (uid_ok (env_ids example_env)) us \<Longrightarrow> cache_reachable example_env (joined_by us)"
proof (induction us rule: rev_induct)
  case Nil
  show ?case using cache_reachable.start by (simp add: joined_by_def nobody_def)
next
  case (snoc u us)
  then have "cache_reachable example_env (joined_by us)" "uid_ok (env_ids example_env) u" by simp_all
  then have "cache_reachable example_env (mark_as_joined u lobby (joined_by us))"
    using cache_step.step_joined example_ids(4) by (blast intro: cache_reachable.step)
  then show ?case by (simp add: joined_by_def)
qed

lemma joined_by_members: "is_joined (joined_by us) u r \<longleftrightarrow> pair_key u r \<in> (\<lambda>v. pair_key v lobby) ` set us"
proof (induction us rule: rev_induct)
  case Nil
  show ?case by (simp add: joined_by_def nobody_def no_members_def is_joined_def db_exists_def db_get_def)
next
  case (snoc v us)
  then show ?case by (auto simp: joined_by_def mark_as_joined_def Let_def is_joined_def db_exists_def db_get_def db_insert_def)
qed

theorem membership_exclusive_witness:
  "user_membership (joined_by [ann]) ann lobby = Some Join \<and> ann \<in> set (room_members ascii_ids (joined_by [ann]) lobby)"
proof -
  have "cache_reachable example_env (joined_by [ann])" using joined_by_reachable example_ids(1) by simp
  note all = membership_exclusive [OF this example_env_ok example_ids(1,4)]
  have "is_joined (joined_by [ann]) ann lobby" by (simp add: joined_by_members)
  with all show ?thesis by (simp add: example_env_def)
qed

definition joining :: member_event where
  "joining = \<lparr>me_membership = Some Join, me_sender = ann, me_json = [], me_stripped = []\<rparr>"

theorem joined_servers_exact_witness:
  "\<exists>s'. update_membership example_env lobby ann joining True nobody = (Inr (), s')
     \<and> server_in_room s' [0x73] lobby \<and> room_joined_count s' lobby = Inr 1"
proof -
  let ?s1 = "mark_as_joined ann lobby (mark_as_once_joined ann lobby nobody)"
  have run: "update_membership example_env lobby ann joining True nobody = (Inr (), update_joined_count example_env lobby ?s1)"
    by (simp add: update_membership_def joining_def create_remote_user_def example_env_def first_join_def Let_def
        nobody_def no_members_def once_joined_def db_exists_def db_get_def)
  have inv: "cache_inv (env_ids example_env) ?s1"
    using no_members_inv mark_as_joined_inv mark_as_once_joined_inv example_ids(1,4) unfolding nobody_def by blast
  have "is_joined (update_joined_count example_env lobby ?s1) u lobby \<longleftrightarrow> u = ann" for u
    unfolding is_joined_def update_joined_count_spec(4) [OF inv example_env_ok example_ids(4)]
    by (auto simp: mark_as_joined_def mark_as_once_joined_def Let_def nobody_def no_members_def db_exists_def db_get_def
        db_insert_def pair_key_def)
  then have who: "{u. uid_ok (env_ids example_env) u \<and> is_joined (update_joined_count example_env lobby ?s1) u lobby} = {ann}"
    "is_joined (update_joined_count example_env lobby ?s1) ann lobby" using example_ids(1) by auto
  have "cache_reachable example_env nobody" unfolding nobody_def by (rule cache_reachable.start)
  note exact = joined_servers_exact [OF this example_env_ok example_ids(1,4) run]
  have "user_server example_env ann = [0x73]" by (simp add: example_env_def)
  with exact who run example_ids show ?thesis unfolding who(1) by fastforce
qed

text \<open>With the id of one user extending that of another, the scan returns a room the user has not joined.\<close>

lemma rooms_joined_other:
  "lobby \<in> set (rooms_joined ascii_ids (joined_by [ann_t]) ann) \<and> \<not> is_joined (joined_by [ann_t]) ann lobby"
proof -
  have "cache_reachable example_env (joined_by [ann_t])" using joined_by_reachable example_ids(2) by simp
  then have "cache_inv (env_ids example_env) (joined_by [ann_t])"
    using cache_reachable_inv example_env_ok by blast
  then have inv: "cache_inv ascii_ids (joined_by [ann_t])" by (simp add: example_env_def)
  have "is_joined (joined_by [ann_t]) ann_t lobby" "\<not> is_joined (joined_by [ann_t]) ann lobby"
    by (simp_all add: joined_by_members pair_key_def)
  moreover have "prefix ann ann_t" by simp
  ultimately show ?thesis
    using rooms_joined_set [OF inv] example_ids(1,2,4) by (auto simp: example_env_def)
qed

theorem shared_rooms_exact_witness:
  "lobby \<in> set (get_shared_rooms ascii_ids (joined_by [ann, bob]) ann bob)
   \<and> user_sees_user ascii_ids (joined_by [ann, bob]) ann bob"
proof -
  let ?s = "joined_by [ann, bob]"
  have reach: "cache_reachable example_env ?s" using joined_by_reachable example_ids(1,3) by simp
  have key: "pair_key u r = pair_key v lobby \<longleftrightarrow> u = v \<and> r = lobby" if "uid_ok (env_ids example_env) u"
    "uid_ok (env_ids example_env) v" for u v r using user_room.pair_inject [OF that] by blast
  have who: "is_joined ?s u r \<longleftrightarrow> u \<in> {ann, bob} \<and> r = lobby" if "uid_ok (env_ids example_env) u" for u r
    using key [OF that] example_ids(1,3) by (auto simp: joined_by_members)
  have "id_unextended (env_ids example_env) ?s ann" "id_unextended (env_ids example_env) ?s bob"
    using who by (auto simp: id_unextended_def)
  from shared_rooms_exact [OF reach example_env_ok example_ids(1,3) this]
  show ?thesis using who [OF example_ids(1)] who [OF example_ids(3)] example_ids(4) by (auto simp: example_env_def)
qed

end
