(* ===== verification/Timeline.thy ===== *)
theory Timeline
  imports AccountData
begin

text \<open>
  The timeline store, \<^verbatim>\<open>src/service/rooms/timeline/data.rs\<close> and \<^verbatim>\<open>src/service/rooms/outlier/mod.rs\<close>: accepted
  events under the key of their room and count, an index from event ids to keys, and the outliers, events
  known but not placed.  Events are JSON texts; \<open>parse\<close> is the deserialiser of the caller's type, third-party
  code.  The theorems say that paging in both directions is paging through one list of events per room, that
  appending, backfilling and replacing change that list at its end, at its front and in place, and that an
  event is in one of the two stores, so that a look-up does not depend on which one answers first.  A key of a
  wrong length is a panic, \<open>BadPduId\<close>.
\<close>

section \<open>Operations\<close>

datatype TimelineError = RoomNotFound | PduNotFound | BadJson | BadPduId

record timeline_data =
  tl_short :: short_data
  eventid_outlierpdu :: "(EventId, u8 list) hash_map"
  eventid_pduid :: "(EventId, u8 list) hash_map"
  pduid_pdu :: db_map
  userroomid_highlightcount :: db_map
  userroomid_notificationcount :: db_map

definition get_pdu_id :: "timeline_data \<Rightarrow> EventId \<Rightarrow> TimelineError + RawId" where
  "get_pdu_id s event =
     rbind (ok_or PduNotFound (map_of (eventid_pduid s) event)) (\<lambda>bytes. ok_or BadPduId (raw_from_bytes bytes))"

definition get_pdu_count :: "timeline_data \<Rightarrow> EventId \<Rightarrow> TimelineError + Count" where
  "get_pdu_count s event = rbind (get_pdu_id s event) (\<lambda>pdu_id. Inr (pdu_count pdu_id))"

definition get_pdu_from_id :: "(u8 list \<Rightarrow> 'p option) \<Rightarrow> timeline_data \<Rightarrow> RawId \<Rightarrow> TimelineError + 'p" where
  "get_pdu_from_id parse s pdu_id =
     rbind (ok_or PduNotFound (db_get (pduid_pdu s) (as_bytes pdu_id))) (\<lambda>json. ok_or BadJson (parse json))"

definition get_non_outlier_pdu :: "(u8 list \<Rightarrow> 'p option) \<Rightarrow> timeline_data \<Rightarrow> EventId \<Rightarrow> TimelineError + 'p" where
  "get_non_outlier_pdu parse s event = rbind (get_pdu_id s event) (get_pdu_from_id parse s)"

definition get_pdu_outlier :: "(u8 list \<Rightarrow> 'p option) \<Rightarrow> timeline_data \<Rightarrow> EventId \<Rightarrow> TimelineError + 'p" where
  "get_pdu_outlier parse s event =
     rbind (ok_or PduNotFound (map_of (eventid_outlierpdu s) event)) (\<lambda>json. ok_or BadJson (parse json))"

text \<open>
  \<open>select_ok\<close> on two futures returns the first that completes without an error, and the error of the last one
  when both fail; \<open>first\<close> says whether the first future completes first.
\<close>

definition select_ok :: "bool \<Rightarrow> 'e + 'a \<Rightarrow> 'e + 'a \<Rightarrow> 'e + 'a" where
  "select_ok first a b =
     (let (x, y) = (if first then (a, b) else (b, a)) in case x of Inr v \<Rightarrow> Inr v | Inl _ \<Rightarrow> y)"

definition get_pdu :: "bool \<Rightarrow> (u8 list \<Rightarrow> 'p option) \<Rightarrow> timeline_data \<Rightarrow> EventId \<Rightarrow> TimelineError + 'p" where
  "get_pdu first parse s event = select_ok first (get_non_outlier_pdu parse s event) (get_pdu_outlier parse s event)"

definition non_outlier_pdu_exists :: "timeline_data \<Rightarrow> EventId \<Rightarrow> TimelineError + unit" where
  "non_outlier_pdu_exists s event =
     rbind (get_pdu_id s event) (\<lambda>pdu_id. if db_exists (pduid_pdu s) (as_bytes pdu_id) then Inr () else Inl PduNotFound)"

definition outlier_pdu_exists :: "timeline_data \<Rightarrow> EventId \<Rightarrow> TimelineError + unit" where
  "outlier_pdu_exists s event = (if map_of (eventid_outlierpdu s) event \<noteq> None then Inr () else Inl PduNotFound)"

definition pdu_exists :: "bool \<Rightarrow> timeline_data \<Rightarrow> EventId \<Rightarrow> TimelineError + unit" where
  "pdu_exists first s event = select_ok first (non_outlier_pdu_exists s event) (outlier_pdu_exists s event)"

definition tl_append_pdu :: "RawId \<Rightarrow> EventId \<Rightarrow> u8 list \<Rightarrow> timeline_data \<Rightarrow> timeline_data" where
  "tl_append_pdu pdu_id event json s =
     s\<lparr>pduid_pdu := db_insert (as_bytes pdu_id) json (pduid_pdu s),
       eventid_pduid := hm_insert event (as_bytes pdu_id) (eventid_pduid s),
       eventid_outlierpdu := AList.delete event (eventid_outlierpdu s)\<rparr>"

definition prepend_backfill_pdu :: "RawId \<Rightarrow> EventId \<Rightarrow> u8 list \<Rightarrow> timeline_data \<Rightarrow> timeline_data" where
  "prepend_backfill_pdu pdu_id event json s =
     s\<lparr>pduid_pdu := db_insert (as_bytes pdu_id) json (pduid_pdu s),
       eventid_pduid := hm_insert event (as_bytes pdu_id) (eventid_pduid s),
       eventid_outlierpdu := AList.delete event (eventid_outlierpdu s)\<rparr>"

definition replace_pdu :: "RawId \<Rightarrow> u8 list \<Rightarrow> timeline_data \<Rightarrow> TimelineError + timeline_data" where
  "replace_pdu pdu_id json s =
     (if db_get (pduid_pdu s) (as_bytes pdu_id) = None then Inl PduNotFound
      else Inr (s\<lparr>pduid_pdu := db_insert (as_bytes pdu_id) json (pduid_pdu s)\<rparr>))"

definition add_pdu_outlier :: "EventId \<Rightarrow> u8 list \<Rightarrow> timeline_data \<Rightarrow> timeline_data" where
  "add_pdu_outlier event json s = s\<lparr>eventid_outlierpdu := hm_insert event json (eventid_outlierpdu s)\<rparr>"

text \<open>The key a scan starts from is one step past the given count.\<close>

definition count_to_id :: "timeline_data \<Rightarrow> RoomId \<Rightarrow> Count \<Rightarrow> Direction \<Rightarrow> TimelineError + RawId" where
  "count_to_id s room count dir =
     rbind (ok_or RoomNotFound (get_shortroomid (tl_short s) room)) (\<lambda>shortroom.
     Inr (raw_from_id \<lparr>shortroomid = shortroom, shorteventid = saturating_inc count dir\<rparr>))"

definition from_json_slice :: "(u8 list \<Rightarrow> 'p option) \<Rightarrow> u8 list \<times> u8 list \<Rightarrow> TimelineError + Count \<times> 'p" where
  "from_json_slice parse kv =
     rbind (ok_or BadPduId (raw_from_bytes (fst kv))) (\<lambda>pdu_id.
     rbind (ok_or BadJson (parse (snd kv))) (\<lambda>pdu. Inr (pdu_count pdu_id, pdu)))"

text \<open>A stream of results is the list of its items; a failure to find the room is its only item.\<close>

definition tl_pdus_rev :: "(u8 list \<Rightarrow> 'p option) \<Rightarrow> timeline_data \<Rightarrow> RoomId \<Rightarrow> Count \<Rightarrow> (TimelineError + Count \<times> 'p) list" where
  "tl_pdus_rev parse s room upto_count =
     (case count_to_id s room upto_count Backward of
        Inl e \<Rightarrow> [Inl e]
      | Inr current \<Rightarrow>
          map (from_json_slice parse)
            (takeWhile (\<lambda>kv. prefix (raw_shortroomid current) (fst kv))
              (rev_raw_stream_from (pduid_pdu s) (as_bytes current))))"

definition tl_pdus :: "(u8 list \<Rightarrow> 'p option) \<Rightarrow> timeline_data \<Rightarrow> RoomId \<Rightarrow> Count \<Rightarrow> (TimelineError + Count \<times> 'p) list" where
  "tl_pdus parse s room from =
     (case count_to_id s room from Forward of
        Inl e \<Rightarrow> [Inl e]
      | Inr current \<Rightarrow>
          map (from_json_slice parse)
            (takeWhile (\<lambda>kv. prefix (raw_shortroomid current) (fst kv))
              (raw_stream_from (pduid_pdu s) (as_bytes current))))"

definition pdus :: "(u8 list \<Rightarrow> 'p option) \<Rightarrow> timeline_data \<Rightarrow> RoomId \<Rightarrow> Count option \<Rightarrow> (TimelineError + Count \<times> 'p) list" where
  "pdus parse s room from = tl_pdus parse s room (case from of None \<Rightarrow> count_min | Some c \<Rightarrow> c)"

definition pdus_rev :: "(u8 list \<Rightarrow> 'p option) \<Rightarrow> timeline_data \<Rightarrow> RoomId \<Rightarrow> Count option \<Rightarrow> (TimelineError + Count \<times> 'p) list" where
  "pdus_rev parse s room upto_count = tl_pdus_rev parse s room (case upto_count of None \<Rightarrow> count_max | Some c \<Rightarrow> c)"

definition all_pdus :: "(u8 list \<Rightarrow> 'p option) \<Rightarrow> timeline_data \<Rightarrow> RoomId \<Rightarrow> (Count \<times> 'p) list" where
  "all_pdus parse s room = ignore_err (pdus parse s room None)"

definition try_next :: "('e + 'a) list \<Rightarrow> 'e + 'a option" where
  "try_next xs = (case xs of [] \<Rightarrow> Inr None | x # _ \<Rightarrow> rbind x (\<lambda>v. Inr (Some v)))"

definition first_item_in_room :: "(u8 list \<Rightarrow> 'p option) \<Rightarrow> timeline_data \<Rightarrow> RoomId \<Rightarrow> TimelineError + Count \<times> 'p" where
  "first_item_in_room parse s room = rbind (try_next (pdus parse s room None)) (ok_or PduNotFound)"

definition first_pdu_in_room :: "(u8 list \<Rightarrow> 'p option) \<Rightarrow> timeline_data \<Rightarrow> RoomId \<Rightarrow> TimelineError + 'p" where
  "first_pdu_in_room parse s room = rbind (first_item_in_room parse s room) (\<lambda>item. Inr (snd item))"

definition latest_pdu_in_room :: "(u8 list \<Rightarrow> 'p option) \<Rightarrow> timeline_data \<Rightarrow> RoomId \<Rightarrow> TimelineError + 'p" where
  "latest_pdu_in_room parse s room =
     rbind (try_next (tl_pdus_rev parse s room count_max)) (\<lambda>item. ok_or PduNotFound (map_option snd item))"

definition last_timeline_count :: "(u8 list \<Rightarrow> 'p option) \<Rightarrow> timeline_data \<Rightarrow> RoomId \<Rightarrow> TimelineError + Count" where
  "last_timeline_count parse s room =
     rbind (try_next (tl_pdus_rev parse s room count_max)) (\<lambda>item.
     Inr (case map_option fst item of Some (Normal n) \<Rightarrow> Normal n | _ \<Rightarrow> count_max))"

text \<open>The unread counts: eight bytes that wrap around; a shorter value counts as zero.\<close>

definition increment :: "u8 list option \<Rightarrow> u8 list" where
  "increment old = to_be_bytes ((case old of None \<Rightarrow> 0 | Some b \<Rightarrow> (case u64_from_bytes b of None \<Rightarrow> 0 | Some w \<Rightarrow> w)) + 1)"

definition tl_increment :: "u8 list \<Rightarrow> db_map \<Rightarrow> db_map" where
  "tl_increment key m = db_insert key (increment (db_get m key)) m"

definition increment_notification_counts :: "u8 list \<Rightarrow> u8 list list \<Rightarrow> u8 list list \<Rightarrow> timeline_data \<Rightarrow> timeline_data" where
  "increment_notification_counts room notifies highlights s =
     s\<lparr>userroomid_notificationcount :=
         fold (\<lambda>user. tl_increment (user @ SEP # room)) notifies (userroomid_notificationcount s),
       userroomid_highlightcount :=
         fold (\<lambda>user. tl_increment (user @ SEP # room)) highlights (userroomid_highlightcount s)\<rparr>"

text \<open>
  How the callers number an event before they store it: \<open>append_pdu\<close> takes the next count, \<open>backfill_pdu\<close> its
  negation, which fails when the count does not fit a signed integer.
\<close>

definition place_new :: "u64 \<Rightarrow> EventId \<Rightarrow> u8 list \<Rightarrow> timeline_data \<Rightarrow> RawId \<times> timeline_data" where
  "place_new shortroom event json s =
     (let (count, short) = next_count (tl_short s);
          pdu_id = raw_from_id \<lparr>shortroomid = shortroom, shorteventid = Normal count\<rparr>
      in (pdu_id, tl_append_pdu pdu_id event json (s\<lparr>tl_short := short\<rparr>)))"

definition place_backfilled :: "u64 \<Rightarrow> EventId \<Rightarrow> u8 list \<Rightarrow> timeline_data \<Rightarrow> count_error + RawId \<times> timeline_data" where
  "place_backfilled shortroom event json s =
     (let (count, short) = next_count (tl_short s)
      in if uint count > i64_max then Inl ArithmeticError
         else
           let pdu_id = raw_from_id \<lparr>shortroomid = shortroom, shorteventid = Backfilled (- count)\<rparr>
           in Inr (pdu_id, prepend_backfill_pdu pdu_id event json (s\<lparr>tl_short := short\<rparr>)))"

section \<open>Keys\<close>

definition count_key :: "u64 \<Rightarrow> Count \<Rightarrow> u8 list" where
  "count_key r c = as_bytes (raw_from_id \<lparr>shortroomid = r, shorteventid = c\<rparr>)"

abbreviation signed_count :: "Count \<Rightarrow> int" where
  "signed_count c \<equiv> sint (into_signed c)"

definition count_ok :: "u64 \<Rightarrow> Count \<Rightarrow> bool" where
  "count_ok hi c \<longleftrightarrow> canonical c \<and> signed_count c \<noteq> 0 \<and> \<bar>signed_count c\<bar> \<le> uint hi"

lemma count_key_eq:
  "count_key r (Normal i) = to_be_bytes r @ to_be_bytes i"
  "count_key r (Backfilled i) = to_be_bytes r @ to_be_bytes 0 @ to_be_bytes i"
  by (simp_all add: count_key_def raw_from_id_def)

lemma count_key_prefix [simp]: "prefix (to_be_bytes r) (count_key r' c) \<longleftrightarrow> r = r'"
  by (cases c) (auto simp: count_key_eq prefix_def append_eq_append_conv to_be_bytes_inject)

lemma count_key_parts:
  assumes "canonical c"
  shows "raw_from_bytes (count_key r c) = Some (raw_from_id \<lparr>shortroomid = r, shorteventid = c\<rparr>)"
    "pdu_count (raw_from_id \<lparr>shortroomid = r, shorteventid = c\<rparr>) = c"
  using id_raw_roundtrip [of "\<lparr>shortroomid = r, shorteventid = c\<rparr>"] assms by (simp_all add: count_key_def)

lemma count_key_inject:
  assumes "canonical c" "canonical d"
  shows "count_key r c = count_key r' d \<longleftrightarrow> r = r' \<and> c = d"
proof
  assume eq: "count_key r c = count_key r' d"
  with count_key_prefix [of r r c] have "r = r'" by simp
  moreover from count_key_parts [OF assms(1), of r] count_key_parts [OF assms(2), of r'] eq have "c = d" by simp
  ultimately show "r = r' \<and> c = d" by simp
qed simp

lemma key_less:
  assumes "canonical c" "canonical d" "signed_count c \<noteq> 0" "signed_count d \<noteq> 0"
  shows "count_key r c < count_key r d \<longleftrightarrow> signed_count c < signed_count d"
proof -
  have "into_signed c \<noteq> 0" "into_signed d \<noteq> 0" using assms(3,4) by auto
  from raw_key_order [OF assms(1,2) this, of r] show ?thesis by (simp add: count_key_def count_cmp_def)
qed

lemma key_le:
  assumes "canonical c" "canonical d" "signed_count c \<noteq> 0" "signed_count d \<noteq> 0"
  shows "count_key r c \<le> count_key r d \<longleftrightarrow> signed_count c \<le> signed_count d"
  using key_less [OF assms(2,1,4,3), of r] by (simp add: linorder_not_less [symmetric])

lemma saturating_up:
  assumes "sint i < i64_max" shows "i64_saturating_add i 1 = i + 1" "sint (i + 1) = sint i + 1"
proof -
  have add: "i64_checked_add i 1 = Some (i + 1)" using assms sint_range64(1) [of i] by (simp add: i64_checked_add_def)
  then show "i64_saturating_add i 1 = i + 1" by (simp add: i64_saturating_add_def)
  from sint_i64_checked_add [OF add] show "sint (i + 1) = sint i + 1" by simp
qed

lemma saturating_down:
  assumes "i64_min < sint i" shows "i64_saturating_sub i 1 = i - 1" "sint (i - 1) = sint i - 1"
proof -
  have sub: "i64_checked_sub i 1 = Some (i - 1)" using assms sint_range64(2) [of i] by (simp add: i64_checked_sub_def)
  then show "i64_saturating_sub i 1 = i - 1" by (simp add: i64_saturating_sub_def)
  from sint_i64_checked_sub [OF sub] show "sint (i - 1) = sint i - 1" by simp
qed

lemma normal_step:
  assumes "0 < sint (i :: u64)"
  shows "u64_saturating_add i 1 = i + 1" "uint (i + 1) = sint i + 1" "u64_saturating_sub i 1 = i - 1" "sint (i - 1) = sint i - 1"
proof -
  have i: "uint i = sint i" using assms by (simp add: uint_via_sint)
  have add: "u64_checked_add i 1 = Some (i + 1)"
    using i sint_range64(2) [of i] by (simp add: u64_checked_add_def int_bounds)
  then show "u64_saturating_add i 1 = i + 1" by (simp add: u64_saturating_add_def)
  from uint_u64_checked_add [OF add] i show "uint (i + 1) = sint i + 1" by simp
  have sub: "u64_checked_sub i 1 = Some (i - 1)" using i assms by (simp add: u64_checked_sub_def)
  then show "u64_saturating_sub i 1 = i - 1" by (simp add: u64_saturating_sub_def)
  show "sint (i - 1) = sint i - 1" using saturating_down(2) [of i] assms by (simp add: i64_min_def)
qed

text \<open>Where a scan starts: one step past the count, for all counts but the ones next to zero.\<close>

lemma start_forward:
  assumes "canonical c" "signed_count c \<notin> {- 1, 0}" "count_ok hi d" "uint hi < i64_max"
  shows "count_key r (saturating_inc c Forward) \<le> count_key r d \<longleftrightarrow> signed_count c < signed_count d"
proof (cases c)
  case (Normal i)
  have i: "0 < sint i" using assms(1) Normal by simp
  note step = normal_step [OF i]
  have pos: "0 < i + 1" using step(2) i by (simp add: word_less_def)
  show ?thesis
  proof (cases d)
    case d: (Normal n)
    have n: "uint n = sint n" using assms(3) d by (simp add: count_ok_def uint_via_sint)
    have "count_key r (saturating_inc c Forward) \<le> count_key r d \<longleftrightarrow> \<not> n < i + 1"
      by (simp add: Normal d count_key_eq step(1) linorder_not_less [symmetric] append_less_simps to_be_bytes_less)
    then show ?thesis using step(2) n by (auto simp: Normal d word_less_def)
  next
    case d: (Backfilled j)
    have "\<not> count_key r (saturating_inc c Forward) \<le> count_key r d"
      using pos by (simp add: Normal d count_key_eq step(1) linorder_not_le append_less_simps to_be_bytes_zero_less)
    then show ?thesis using assms(3) i by (simp add: Normal d count_ok_def)
  qed
next
  case (Backfilled i)
  have i: "sint i < - 1" using assms(1,2) Backfilled by auto
  have step: "i64_saturating_add i 1 = i + 1" "sint (i + 1) = sint i + 1"
    using saturating_up [of i] i by (simp_all add: i64_max_def)
  have "count_key r (Backfilled (i + 1)) \<le> count_key r d \<longleftrightarrow> signed_count (Backfilled (i + 1)) \<le> signed_count d"
    using assms(3) i step(2) by (intro key_le) (simp_all add: count_ok_def)
  then show ?thesis using step by (auto simp: Backfilled)
qed

lemma start_backward:
  assumes "canonical c" "signed_count c \<noteq> 1" "count_ok hi d" "uint hi < i64_max"
  shows "count_key r d \<le> count_key r (saturating_inc c Backward) \<longleftrightarrow> signed_count d < signed_count c"
proof (cases c)
  case (Normal i)
  have i: "1 < sint i" using assms(1,2) Normal by simp
  have step: "u64_saturating_sub i 1 = i - 1" "sint (i - 1) = sint i - 1" using normal_step(3,4) [of i] i by simp_all
  have "count_key r d \<le> count_key r (Normal (i - 1)) \<longleftrightarrow> signed_count d \<le> signed_count (Normal (i - 1))"
    using assms(3) i step(2) by (intro key_le) (simp_all add: count_ok_def)
  then show ?thesis using step by (auto simp: Normal)
next
  case (Backfilled i)
  have d: "- i64_max < signed_count d" using assms(3,4) by (auto simp: count_ok_def)
  show ?thesis
  proof (cases "sint i = i64_min")
    case True
    then have stay: "i64_saturating_sub i 1 = i"
      by (auto simp: i64_saturating_sub_def i64_checked_sub_def intro!: signed_word_eqI simp: sint_word_of_int64 int_bounds)
    have "count_key r d \<le> count_key r (Backfilled i) \<longleftrightarrow> signed_count d \<le> signed_count (Backfilled i)"
      using assms(3) True by (intro key_le) (simp_all add: count_ok_def i64_min_def)
    then show ?thesis using stay d True by (simp add: Backfilled int_bounds)
  next
    case False
    then have "i64_min < sint i" using sint_range64(1) [of i] by simp
    note step = saturating_down [OF this]
    have "sint i \<le> 0" using assms(1) Backfilled by simp
    have "count_key r d \<le> count_key r (Backfilled (i - 1)) \<longleftrightarrow> signed_count d \<le> signed_count (Backfilled (i - 1))"
      using assms(3) \<open>sint i \<le> 0\<close> step(2) by (intro key_le) (simp_all add: count_ok_def)
    then show ?thesis using step by (auto simp: Backfilled)
  qed
qed

section \<open>The log of a room\<close>

text \<open>The entries of a room in the order of their keys, and the same with the counts the keys stand for.\<close>

definition room_rows :: "db_map \<Rightarrow> u64 \<Rightarrow> (u8 list \<times> u8 list) list" where
  "room_rows m r = filter (\<lambda>kv. prefix (to_be_bytes r) (fst kv)) (raw_stream m)"

definition key_count :: "u8 list \<Rightarrow> Count" where
  "key_count k = pdu_count (the (raw_from_bytes k))"

definition room_log :: "timeline_data \<Rightarrow> u64 \<Rightarrow> (Count \<times> u8 list) list" where
  "room_log s r = map (\<lambda>(k, v). (key_count k, v)) (room_rows (pduid_pdu s) r)"

definition read_item :: "(u8 list \<Rightarrow> 'p option) \<Rightarrow> Count \<times> u8 list \<Rightarrow> TimelineError + Count \<times> 'p" where
  "read_item parse item = rbind (ok_or BadJson (parse (snd item))) (\<lambda>pdu. Inr (fst item, pdu))"

definition rows_ok :: "u64 \<Rightarrow> db_map \<Rightarrow> bool" where
  "rows_ok hi m \<longleftrightarrow> hm_ok m \<and> (\<forall>k. map_of m k \<noteq> None \<longrightarrow> (\<exists>r c. count_ok hi c \<and> k = count_key r c))"

definition timeline_inv :: "timeline_data \<Rightarrow> bool" where
  "timeline_inv s \<longleftrightarrow>
     rows_ok (counter (tl_short s)) (pduid_pdu s)
     \<and> (\<forall>e k. map_of (eventid_pduid s) e = Some k \<longrightarrow> map_of (pduid_pdu s) k \<noteq> None)
     \<and> inj_on (map_of (eventid_pduid s)) (dom (map_of (eventid_pduid s)))"

lemma entries_eqI:
  assumes "sorted_wrt (\<lambda>x y. fst x < fst y) xs" "sorted_wrt (\<lambda>x y. fst x < fst y) ys" "set xs = set ys"
  shows "xs = (ys :: ('a :: linorder \<times> 'b) list)"
proof -
  have "sorted_wrt (<) (map fst xs)" "sorted_wrt (<) (map fst ys)" using assms(1,2) by (simp_all add: sorted_wrt_map)
  then have "map fst xs = map fst ys"
    unfolding strict_sorted_iff using assms(3) by (intro sorted_distinct_set_unique) auto
  moreover have "inj_on fst (set ys)"
    using assms(2) by (induction ys) (auto simp: inj_on_def)
  ultimately show ?thesis using assms(3) by (metis map_inj_on Un_absorb)
qed

lemma strict_raw_stream: "hm_ok m \<Longrightarrow> sorted_wrt (\<lambda>x y. fst x < fst y) (raw_stream m)"
proof -
  assume "hm_ok m"
  then have "distinct (map fst (raw_stream m))" by (simp add: raw_stream_def distinct_map)
  with sorted_raw_stream [of m] have "sorted_wrt (<) (map fst (raw_stream m))" unfolding strict_sorted_iff by blast
  then show ?thesis by (simp only: sorted_wrt_map)
qed

lemma strict_room_rows: "hm_ok m \<Longrightarrow> sorted_wrt (\<lambda>x y. fst x < fst y) (room_rows m r)"
  unfolding room_rows_def by (intro sorted_wrt_filter strict_raw_stream)

lemma set_room_rows: "hm_ok m \<Longrightarrow> (k, v) \<in> set (room_rows m r) \<longleftrightarrow> map_of m k = Some v \<and> prefix (to_be_bytes r) k"
  by (auto simp: room_rows_def map_of_hm_ok)

lemma room_row:
  assumes "rows_ok hi m" "kv \<in> set (room_rows m r)"
  obtains c where "count_ok hi c" "fst kv = count_key r c" "key_count (fst kv) = c" "canonical c"
proof -
  have "hm_ok m" using assms(1) by (simp add: rows_ok_def)
  from set_room_rows [OF this, of "fst kv" "snd kv" r] assms(2)
  have "map_of m (fst kv) \<noteq> None" "prefix (to_be_bytes r) (fst kv)" by simp_all
  with assms(1) obtain r' c where c: "count_ok hi c" "fst kv = count_key r' c" unfolding rows_ok_def by blast
  with \<open>prefix (to_be_bytes r) (fst kv)\<close> have "r' = r" by simp
  moreover from c have "canonical c" by (simp add: count_ok_def)
  ultimately show ?thesis using c count_key_parts [of c r] by (intro that [of c]) (simp_all add: key_count_def)
qed

lemma key_count_key [simp]: "canonical c \<Longrightarrow> key_count (count_key r c) = c"
  by (simp add: key_count_def count_key_parts)

lemma takeWhile_filter_sorted:
  assumes "sorted_wrt R xs" "\<And>x y. x \<in> set xs \<Longrightarrow> y \<in> set xs \<Longrightarrow> R x y \<Longrightarrow> P y \<Longrightarrow> P x"
  shows "takeWhile P xs = filter P xs"
  using assms
proof (induction xs)
  case (Cons x xs)
  have "filter P xs = []" if "\<not> P x" using that Cons.prems by (auto simp: filter_empty_conv)
  with Cons show ?case by auto
qed simp

lemma scan_forward:
  assumes "rows_ok hi m" "prefix (to_be_bytes r) k0"
  shows "takeWhile (\<lambda>kv. prefix (to_be_bytes r) (fst kv)) (raw_stream_from m k0) = filter (\<lambda>kv. k0 \<le> fst kv) (room_rows m r)"
proof -
  have "takeWhile (\<lambda>kv. prefix (to_be_bytes r) (fst kv)) (raw_stream_from m k0)
      = filter (\<lambda>kv. prefix (to_be_bytes r) (fst kv)) (raw_stream_from m k0)"
  proof (rule takeWhile_filter_sorted [where R = "\<lambda>x y. fst x < fst y"])
    show "sorted_wrt (\<lambda>x y. fst x < fst y) (raw_stream_from m k0)"
      using assms(1) strict_raw_stream [of m] by (simp add: raw_stream_from_def sorted_wrt_filter rows_ok_def)
    fix x y :: "u8 list \<times> u8 list"
    assume "x \<in> set (raw_stream_from m k0)" "fst x < fst y" "prefix (to_be_bytes r) (fst y)"
    moreover from this have "to_be_bytes r \<le> fst x" using prefix_le [OF assms(2)] by (auto simp: raw_stream_from_def)
    ultimately show "prefix (to_be_bytes r) (fst x)" by (metis prefix_between less_imp_le)
  qed
  then show ?thesis by (simp add: raw_stream_from_def room_rows_def conj_commute)
qed

lemma scan_backward:
  assumes "rows_ok hi m" "prefix (to_be_bytes r) k0"
  shows "takeWhile (\<lambda>kv. prefix (to_be_bytes r) (fst kv)) (rev_raw_stream_from m k0)
    = rev (filter (\<lambda>kv. fst kv \<le> k0) (room_rows m r))"
proof -
  have "takeWhile (\<lambda>kv. prefix (to_be_bytes r) (fst kv)) (rev_raw_stream_from m k0)
      = filter (\<lambda>kv. prefix (to_be_bytes r) (fst kv)) (rev_raw_stream_from m k0)"
  proof (rule takeWhile_filter_sorted [where R = "\<lambda>x y. fst y < fst x"])
    show "sorted_wrt (\<lambda>x y. fst y < fst x) (rev_raw_stream_from m k0)"
      using assms(1) strict_raw_stream [of m]
      by (simp add: rev_raw_stream_from_def rev_raw_stream_def sorted_wrt_filter sorted_wrt_rev rows_ok_def)
    fix x y :: "u8 list \<times> u8 list"
    assume "x \<in> set (rev_raw_stream_from m k0)" "fst y < fst x" "prefix (to_be_bytes r) (fst y)"
    moreover from this have "to_be_bytes r \<le> fst x" "fst x \<le> k0"
      using prefix_le [of "to_be_bytes r" "fst y"] by (auto simp: rev_raw_stream_from_def)
    ultimately show "prefix (to_be_bytes r) (fst x)" using assms(2) prefix_between by blast
  qed
  then show ?thesis by (simp add: rev_raw_stream_from_def rev_raw_stream_def room_rows_def rev_filter conj_commute)
qed

lemma read_rows:
  assumes "rows_ok hi m" "set kvs \<subseteq> set (room_rows m r)"
  shows "map (from_json_slice parse) kvs = map (read_item parse) (map (\<lambda>(k, v). (key_count k, v)) kvs)"
proof -
  have "from_json_slice parse kv = read_item parse (case kv of (k, v) \<Rightarrow> (key_count k, v))" if "kv \<in> set kvs" for kv
  proof -
    have "kv \<in> set (room_rows m r)" using that assms(2) by auto
    then obtain c where "count_ok hi c" "fst kv = count_key r c" "key_count (fst kv) = c" "canonical c"
      by (rule room_row [OF assms(1)])
    then show ?thesis
      by (simp add: from_json_slice_def read_item_def case_prod_beta key_count_def count_key_parts)
  qed
  then show ?thesis by simp
qed

lemma raw_shortroomid_id [simp]: "raw_shortroomid (raw_from_id \<lparr>shortroomid = r, shorteventid = c\<rparr>) = to_be_bytes r"
  by (cases c) (simp_all add: raw_shortroomid_def raw_from_id_def INT_LEN_def)

lemma paging_forward:
  assumes "timeline_inv s" "get_shortroomid (tl_short s) room = Some r" "uint (counter (tl_short s)) < i64_max"
    "canonical c" "signed_count c \<notin> {- 1, 0}"
  shows "tl_pdus parse s room c = map (read_item parse) (filter (\<lambda>item. count_cmp c (fst item) = Less) (room_log s r))"
proof -
  let ?hi = "counter (tl_short s)" and ?rows = "room_rows (pduid_pdu s) r"
  let ?k0 = "count_key r (saturating_inc c Forward)"
  have ok: "rows_ok ?hi (pduid_pdu s)" using assms(1) by (simp add: timeline_inv_def)
  have eq: "filter (\<lambda>kv. ?k0 \<le> fst kv) ?rows = filter (\<lambda>kv. count_cmp c (key_count (fst kv)) = Less) ?rows"
  proof (rule filter_cong [OF refl])
    fix kv assume "kv \<in> set ?rows"
    then obtain d where d: "count_ok ?hi d" "fst kv = count_key r d" "key_count (fst kv) = d" "canonical d"
      by (rule room_row [OF ok])
    then show "(?k0 \<le> fst kv) = (count_cmp c (key_count (fst kv)) = Less)"
      using start_forward [OF assms(4,5) d(1) assms(3), of r] by (simp add: count_cmp_def)
  qed
  have run: "tl_pdus parse s room c = map (from_json_slice parse) (filter (\<lambda>kv. ?k0 \<le> fst kv) ?rows)"
    using assms(2) scan_forward [OF ok, of r ?k0] count_key_prefix [of r r] by (simp add: tl_pdus_def count_to_id_def count_key_def)
  have log: "filter (\<lambda>item. count_cmp c (fst item) = Less) (room_log s r)
      = map (\<lambda>(k, v). (key_count k, v)) (filter (\<lambda>kv. count_cmp c (key_count (fst kv)) = Less) ?rows)"
    by (simp add: room_log_def filter_map comp_def case_prod_beta)
  have "tl_pdus parse s room c = map (read_item parse) (map (\<lambda>(k, v). (key_count k, v)) (filter (\<lambda>kv. ?k0 \<le> fst kv) ?rows))"
    unfolding run by (rule read_rows [OF ok, where r = r]) auto
  then show ?thesis by (simp only: log eq)
qed

lemma paging_backward:
  assumes "timeline_inv s" "get_shortroomid (tl_short s) room = Some r" "uint (counter (tl_short s)) < i64_max"
    "canonical c" "signed_count c \<noteq> 1"
  shows "tl_pdus_rev parse s room c = map (read_item parse) (rev (filter (\<lambda>item. count_cmp (fst item) c = Less) (room_log s r)))"
proof -
  let ?hi = "counter (tl_short s)" and ?rows = "room_rows (pduid_pdu s) r"
  let ?k0 = "count_key r (saturating_inc c Backward)"
  have ok: "rows_ok ?hi (pduid_pdu s)" using assms(1) by (simp add: timeline_inv_def)
  have eq: "filter (\<lambda>kv. fst kv \<le> ?k0) ?rows = filter (\<lambda>kv. count_cmp (key_count (fst kv)) c = Less) ?rows"
  proof (rule filter_cong [OF refl])
    fix kv assume "kv \<in> set ?rows"
    then obtain d where d: "count_ok ?hi d" "fst kv = count_key r d" "key_count (fst kv) = d" "canonical d"
      by (rule room_row [OF ok])
    then show "(fst kv \<le> ?k0) = (count_cmp (key_count (fst kv)) c = Less)"
      using start_backward [OF assms(4,5) d(1) assms(3), of r] by (simp add: count_cmp_def)
  qed
  have run: "tl_pdus_rev parse s room c = map (from_json_slice parse) (rev (filter (\<lambda>kv. fst kv \<le> ?k0) ?rows))"
    using assms(2) scan_backward [OF ok, of r ?k0] count_key_prefix [of r r] by (simp add: tl_pdus_rev_def count_to_id_def count_key_def)
  have log: "rev (filter (\<lambda>item. count_cmp (fst item) c = Less) (room_log s r))
      = map (\<lambda>(k, v). (key_count k, v)) (rev (filter (\<lambda>kv. count_cmp (key_count (fst kv)) c = Less) ?rows))"
    by (simp add: room_log_def filter_map comp_def case_prod_beta rev_map)
  have "tl_pdus_rev parse s room c = map (read_item parse) (map (\<lambda>(k, v). (key_count k, v)) (rev (filter (\<lambda>kv. fst kv \<le> ?k0) ?rows)))"
    unfolding run by (rule read_rows [OF ok, where r = r]) auto
  then show ?thesis by (simp only: log eq)
qed

lemma paging_from_zero:
  assumes "timeline_inv s" "get_shortroomid (tl_short s) room = Some r"
  shows "tl_pdus parse s room (from_signed 0) = map (read_item parse) (room_log s r)"
proof -
  let ?hi = "counter (tl_short s)" and ?rows = "room_rows (pduid_pdu s) r"
  have ok: "rows_ok ?hi (pduid_pdu s)" using assms(1) by (simp add: timeline_inv_def)
  have start: "count_saturating_add (from_signed 0) 1 = Backfilled 1"
    by (simp add: from_signed_def i64_saturating_add_def i64_checked_add_def int_bounds)
  have "count_key r (Backfilled 1) \<le> count_key r d" if d: "count_ok ?hi d" for d
  proof (cases d)
    case (Normal n)
    with d have "n \<noteq> 0" by (auto simp: count_ok_def)
    then show ?thesis
      by (simp add: Normal count_key_eq linorder_not_less [symmetric] append_less_simps to_be_bytes_less)
  next
    case (Backfilled j)
    with d have "sint j < 0" by (auto simp: count_ok_def)
    then have "1 \<le> uint j" using uint_via_sint [of j] sint_range64(1) [of j] by (simp add: i64_min_def)
    then have "\<not> j < 1" by (simp add: word_less_def)
    then show ?thesis
      by (simp add: Backfilled count_key_eq linorder_not_less [symmetric] append_less_simps to_be_bytes_less)
  qed
  then have "count_key r (Backfilled 1) \<le> fst kv" if "kv \<in> set ?rows" for kv
    using room_row [OF ok that] by metis
  then have all: "filter (\<lambda>kv. count_key r (Backfilled 1) \<le> fst kv) ?rows = ?rows" by (simp add: filter_id_conv)
  have "tl_pdus parse s room (from_signed 0) = map (from_json_slice parse) ?rows"
    using assms(2) scan_forward [OF ok, of r "count_key r (Backfilled 1)"] count_key_prefix [of r r] all
    by (simp add: tl_pdus_def count_to_id_def start flip: count_key_def)
  then show ?thesis unfolding room_log_def using read_rows [OF ok, of ?rows r parse] by simp
qed

section \<open>Changes of the log\<close>

lemma rows_insert:
  assumes "rows_ok hi m" "count_ok hi' c" "hi \<le> hi'"
  shows "rows_ok hi' (db_insert (count_key r c) v m)"
proof -
  have "count_ok hi' d" if "count_ok hi d" for d using that assms(3) by (auto simp: count_ok_def word_le_def)
  with assms(1) have "\<exists>r c. count_ok hi' c \<and> k = count_key r c" if "map_of m k \<noteq> None" for k
    using that unfolding rows_ok_def by blast
  with assms show ?thesis unfolding rows_ok_def db_insert_def by (metis fun_upd_apply hm_ok_insert map_of_hm_insert)
qed

lemma rows_other:
  assumes "hm_ok m" "r' \<noteq> r"
  shows "room_rows (db_insert (count_key r c) v m) r' = room_rows m r'"
  using assms by (intro entries_eqI strict_room_rows) (auto simp: db_insert_def set_room_rows split: if_splits)

lemma rows_fresh:
  assumes "hm_ok m" "\<And>kv. kv \<in> set (room_rows m r) \<Longrightarrow> fst kv \<noteq> count_key r c"
  shows "map_of m (count_key r c) = None"
proof (rule ccontr)
  assume "map_of m (count_key r c) \<noteq> None"
  then obtain w where "(count_key r c, w) \<in> set (room_rows m r)" using set_room_rows [OF assms(1)] by fastforce
  from assms(2) [OF this] show False by simp
qed

lemma rows_last:
  assumes "hm_ok m" "\<And>kv. kv \<in> set (room_rows m r) \<Longrightarrow> fst kv < count_key r c"
  shows "room_rows (db_insert (count_key r c) v m) r = room_rows m r @ [(count_key r c, v)]"
proof (rule entries_eqI)
  have new: "map_of m (count_key r c) = None" using assms(2) by (intro rows_fresh [OF assms(1)]) (metis less_irrefl)
  show "sorted_wrt (\<lambda>x y. fst x < fst y) (room_rows (db_insert (count_key r c) v m) r)"
    using assms(1) by (intro strict_room_rows) (simp add: db_insert_def)
  show "sorted_wrt (\<lambda>x y. fst x < fst y) (room_rows m r @ [(count_key r c, v)])"
    using strict_room_rows [OF assms(1)] assms(2) by (simp add: sorted_wrt_append)
  show "set (room_rows (db_insert (count_key r c) v m) r) = set (room_rows m r @ [(count_key r c, v)])"
    using assms(1) new by (auto simp: db_insert_def set_room_rows split: if_splits)
qed

lemma rows_first:
  assumes "hm_ok m" "\<And>kv. kv \<in> set (room_rows m r) \<Longrightarrow> count_key r c < fst kv"
  shows "room_rows (db_insert (count_key r c) v m) r = (count_key r c, v) # room_rows m r"
proof (rule entries_eqI)
  have new: "map_of m (count_key r c) = None" using assms(2) by (intro rows_fresh [OF assms(1)]) (metis less_irrefl)
  show "sorted_wrt (\<lambda>x y. fst x < fst y) (room_rows (db_insert (count_key r c) v m) r)"
    using assms(1) by (intro strict_room_rows) (simp add: db_insert_def)
  show "sorted_wrt (\<lambda>x y. fst x < fst y) ((count_key r c, v) # room_rows m r)"
    using strict_room_rows [OF assms(1)] assms(2) by simp
  show "set (room_rows (db_insert (count_key r c) v m) r) = set ((count_key r c, v) # room_rows m r)"
    using assms(1) new by (auto simp: db_insert_def set_room_rows split: if_splits)
qed

lemma rows_replace:
  assumes "hm_ok m" "map_of m k \<noteq> None"
  shows "room_rows (db_insert k v m) r = map (\<lambda>(k', w). (k', if k' = k then v else w)) (room_rows m r)"
proof (rule entries_eqI)
  show "sorted_wrt (\<lambda>x y. fst x < fst y) (room_rows (db_insert k v m) r)"
    using assms(1) by (intro strict_room_rows) (simp add: db_insert_def)
  show "sorted_wrt (\<lambda>x y. fst x < fst y) (map (\<lambda>(k', w). (k', if k' = k then v else w)) (room_rows m r))"
    using strict_room_rows [OF assms(1), of r] by (simp add: sorted_wrt_map case_prod_beta)
  show "set (room_rows (db_insert k v m) r) = set (map (\<lambda>(k', w). (k', if k' = k then v else w)) (room_rows m r))"
  proof (intro set_eqI iffI)
    fix x assume "x \<in> set (room_rows (db_insert k v m) r)"
    then have x: "map_of (db_insert k v m) (fst x) = Some (snd x)" "prefix (to_be_bytes r) (fst x)"
      using set_room_rows [of "db_insert k v m" "fst x" "snd x" r] assms(1) by (simp_all add: db_insert_def)
    obtain w where "map_of m (fst x) = Some w" "snd x = (if fst x = k then v else w)"
      using x(1) assms(2) by (cases "fst x = k") (auto simp: db_insert_def simp del: map_of_eq_Some_iff)
    then have "(fst x, w) \<in> set (room_rows m r)" "x = (\<lambda>(k', w). (k', if k' = k then v else w)) (fst x, w)"
      using x(2) set_room_rows [OF assms(1), of "fst x" w r] by (simp_all add: prod_eq_iff)
    then show "x \<in> set (map (\<lambda>(k', w). (k', if k' = k then v else w)) (room_rows m r))"
      unfolding set_map by (intro image_eqI)
  next
    fix x assume "x \<in> set (map (\<lambda>(k', w). (k', if k' = k then v else w)) (room_rows m r))"
    then obtain k' w where x: "(k', w) \<in> set (room_rows m r)" "x = (k', if k' = k then v else w)" by auto
    then show "x \<in> set (room_rows (db_insert k v m) r)"
      using set_room_rows [OF assms(1), of k' w r] set_room_rows [of "db_insert k v m" k' "snd x" r] assms(1)
      by (simp add: db_insert_def)
  qed
qed

text \<open>Storing an unknown event under a fresh key.\<close>

lemma timeline_inv_place:
  assumes "timeline_inv s" "count_ok (counter short) c" "counter (tl_short s) \<le> counter short"
    "map_of (pduid_pdu s) (count_key r c) = None" "map_of (eventid_pduid s) e = None"
  shows "timeline_inv (tl_append_pdu (raw_from_id \<lparr>shortroomid = r, shorteventid = c\<rparr>) e json (s\<lparr>tl_short := short\<rparr>))"
    (is "timeline_inv ?s'")
proof -
  let ?k = "count_key r c"
  have inv: "rows_ok (counter (tl_short s)) (pduid_pdu s)"
    "\<And>e k. map_of (eventid_pduid s) e = Some k \<Longrightarrow> map_of (pduid_pdu s) k \<noteq> None"
    "inj_on (map_of (eventid_pduid s)) (dom (map_of (eventid_pduid s)))"
    using assms(1) by (simp_all add: timeline_inv_def)
  have cols: "pduid_pdu ?s' = db_insert ?k json (pduid_pdu s)" "map_of (eventid_pduid ?s') = (map_of (eventid_pduid s))(e \<mapsto> ?k)"
    "tl_short ?s' = short"
    by (simp_all add: tl_append_pdu_def count_key_def)
  have "rows_ok (counter short) (pduid_pdu ?s')" unfolding cols(1) by (rule rows_insert [OF inv(1) assms(2,3)])
  moreover have "map_of (pduid_pdu ?s') k \<noteq> None" if "map_of (eventid_pduid ?s') e' = Some k" for e' k
    using that inv(2) [of e' k] unfolding cols by (auto simp: db_insert_def split: if_splits)
  moreover have "inj_on (map_of (eventid_pduid ?s')) (dom (map_of (eventid_pduid ?s')))"
  proof -
    have "map_of (eventid_pduid s) e' \<noteq> Some ?k" for e' using inv(2) [of e' ?k] assms(4) by auto
    then show ?thesis unfolding cols(2) using inv(3) by (auto simp: inj_on_def dom_def split: if_splits)
  qed
  ultimately show ?thesis unfolding timeline_inv_def cols(3) by blast
qed

lemma next_count_step:
  assumes "uint (counter s) < i64_max" "next_count s = (c, s1)"
  shows "c = counter s + 1" "s1 = s\<lparr>counter := c\<rparr>" "uint c = uint (counter s) + 1" "sint c = uint c"
    "sint (- c) = - uint c" "counter s \<le> c" "0 < uint c"
proof -
  have add: "u64_checked_add (counter s) 1 = Some (counter s + 1)"
    using assms(1) by (simp add: u64_checked_add_def int_bounds)
  then show c: "c = counter s + 1" and "s1 = s\<lparr>counter := c\<rparr>" using assms(2) by (auto simp: next_count_def Let_def)
  show u: "uint c = uint (counter s) + 1" using uint_u64_checked_add [OF add] c by simp
  then have le: "uint c \<le> i64_max" using assms(1) by simp
  show pos: "0 < uint c" using u uint_ge_0 [of "counter s"] by linarith
  show "sint c = uint c" using le uint_via_sint [of c] sint_range64(1) [of c] by (auto simp: int_bounds split: if_splits)
  then show "sint (- c) = - uint c" using le pos by (simp add: sint_word_ariths signed_take_bit_int_eq_self_iff int_bounds)
  show "counter s \<le> c" using u by (simp add: word_le_def)
qed

lemma row_bound:
  assumes "timeline_inv s" "kv \<in> set (room_rows (pduid_pdu s) r)"
  obtains d where "fst kv = count_key r d" "canonical d" "signed_count d \<noteq> 0" "\<bar>signed_count d\<bar> \<le> uint (counter (tl_short s))"
proof -
  have "rows_ok (counter (tl_short s)) (pduid_pdu s)" using assms(1) by (simp add: timeline_inv_def)
  from this assms(2) show ?thesis by (rule room_row) (auto intro: that simp: count_ok_def)
qed

definition log_elsewhere :: "u64 \<Rightarrow> timeline_data \<Rightarrow> timeline_data \<Rightarrow> bool" where
  "log_elsewhere r s s' \<longleftrightarrow> (\<forall>r'. r' \<noteq> r \<longrightarrow> room_log s' r' = room_log s r')"

lemma place_new_spec:
  assumes "timeline_inv s" "uint (counter (tl_short s)) < i64_max" "map_of (eventid_pduid s) e = None"
    "place_new r e json s = (pdu_id, s')"
  shows "timeline_inv s'" "room_log s' r = room_log s r @ [(Normal (counter (tl_short s) + 1), json)]"
    "log_elsewhere r s s'" "get_non_outlier_pdu parse s' e = ok_or BadJson (parse json)"
proof -
  obtain c short where n: "next_count (tl_short s) = (c, short)" by fastforce
  note step = next_count_step [OF assms(2) n]
  let ?c = "Normal c"
  have s': "pdu_id = raw_from_id \<lparr>shortroomid = r, shorteventid = ?c\<rparr>" "s' = tl_append_pdu pdu_id e json (s\<lparr>tl_short := short\<rparr>)"
    using assms(4) n by (auto simp: place_new_def Let_def)
  have ok: "count_ok (counter short) ?c" "canonical ?c" using step(2,4-7) by (simp_all add: count_ok_def)
  have above: "fst kv < count_key r ?c" if "kv \<in> set (room_rows (pduid_pdu s) r)" for kv
    using assms(1) that
  proof (rule row_bound)
    fix d assume "fst kv = count_key r d" "canonical d" "signed_count d \<noteq> 0" "\<bar>signed_count d\<bar> \<le> uint (counter (tl_short s))"
    then show ?thesis using key_less [of d ?c r] ok(2) step(3-7) by simp
  qed
  have hm: "hm_ok (pduid_pdu s)" using assms(1) by (simp add: timeline_inv_def rows_ok_def)
  have fresh: "map_of (pduid_pdu s) (count_key r ?c) = None" using above by (intro rows_fresh [OF hm]) (metis less_irrefl)
  have le: "counter (tl_short s) \<le> counter short" using step by simp
  show "timeline_inv s'" unfolding s' by (rule timeline_inv_place [OF assms(1) ok(1) le fresh assms(3)])
  have rows: "pduid_pdu s' = db_insert (count_key r ?c) json (pduid_pdu s)"
    by (simp add: s' tl_append_pdu_def count_key_def)
  show "room_log s' r = room_log s r @ [(Normal (counter (tl_short s) + 1), json)]"
    using rows_last [of "pduid_pdu s" r ?c json, OF hm above] ok(2) by (simp add: room_log_def rows flip: step(1))
  show "log_elsewhere r s s'" unfolding log_elsewhere_def room_log_def rows using rows_other [OF hm] by simp
  show "get_non_outlier_pdu parse s' e = ok_or BadJson (parse json)"
    using count_key_parts(1) [OF ok(2), of r]
    by (simp add: s' get_non_outlier_pdu_def get_pdu_id_def get_pdu_from_id_def tl_append_pdu_def db_get_def db_insert_def
        count_key_def)
qed

lemma place_backfilled_spec:
  assumes "timeline_inv s" "uint (counter (tl_short s)) < i64_max" "map_of (eventid_pduid s) e = None"
  shows "\<exists>pdu_id s'. place_backfilled r e json s = Inr (pdu_id, s') \<and> timeline_inv s'
    \<and> room_log s' r = (Backfilled (- (counter (tl_short s) + 1)), json) # room_log s r
    \<and> log_elsewhere r s s' \<and> get_non_outlier_pdu parse s' e = ok_or BadJson (parse json)"
proof -
  obtain c short where n: "next_count (tl_short s) = (c, short)" by fastforce
  note step = next_count_step [OF assms(2) n]
  let ?c = "Backfilled (- c)"
  let ?id = "raw_from_id \<lparr>shortroomid = r, shorteventid = ?c\<rparr>"
  let ?s' = "tl_append_pdu ?id e json (s\<lparr>tl_short := short\<rparr>)"
  have run: "place_backfilled r e json s = Inr (?id, ?s')"
    using step assms(2) by (simp add: place_backfilled_def n prepend_backfill_pdu_def tl_append_pdu_def Let_def)
  have ok: "count_ok (counter short) ?c" "canonical ?c" using step(2,4-7) by (simp_all add: count_ok_def)
  have below: "count_key r ?c < fst kv" if "kv \<in> set (room_rows (pduid_pdu s) r)" for kv
    using assms(1) that
  proof (rule row_bound)
    fix d assume "fst kv = count_key r d" "canonical d" "signed_count d \<noteq> 0" "\<bar>signed_count d\<bar> \<le> uint (counter (tl_short s))"
    then show ?thesis using key_less [of ?c d r] ok(2) step(3-7) by simp
  qed
  have hm: "hm_ok (pduid_pdu s)" using assms(1) by (simp add: timeline_inv_def rows_ok_def)
  have fresh: "map_of (pduid_pdu s) (count_key r ?c) = None" using below by (intro rows_fresh [OF hm]) (metis less_irrefl)
  have le: "counter (tl_short s) \<le> counter short" using step by simp
  have "timeline_inv ?s'" by (rule timeline_inv_place [OF assms(1) ok(1) le fresh assms(3)])
  moreover have rows: "pduid_pdu ?s' = db_insert (count_key r ?c) json (pduid_pdu s)"
    by (simp add: tl_append_pdu_def count_key_def)
  moreover have "room_log ?s' r = (Backfilled (- (counter (tl_short s) + 1)), json) # room_log s r"
    using rows_first [of "pduid_pdu s" r ?c json, OF hm below] ok(2) by (simp only: room_log_def rows flip: step(1)) simp
  moreover have "log_elsewhere r s ?s'" unfolding log_elsewhere_def room_log_def rows using rows_other [OF hm] by simp
  moreover have "get_non_outlier_pdu parse ?s' e = ok_or BadJson (parse json)"
    using count_key_parts(1) [OF ok(2), of r]
    by (simp add: get_non_outlier_pdu_def get_pdu_id_def get_pdu_from_id_def tl_append_pdu_def db_get_def db_insert_def
        count_key_def)
  ultimately show ?thesis using run by blast
qed

lemma replace_pdu_spec:
  assumes "timeline_inv s" "replace_pdu pdu_id json s = Inr s'"
  shows "timeline_inv s'"
    "room_log s' r = map (\<lambda>(k, v). (key_count k, if k = as_bytes pdu_id then json else v)) (room_rows (pduid_pdu s) r)"
    "length (room_log s' r) = length (room_log s r)"
proof -
  have s': "map_of (pduid_pdu s) (as_bytes pdu_id) \<noteq> None" "s' = s\<lparr>pduid_pdu := db_insert (as_bytes pdu_id) json (pduid_pdu s)\<rparr>"
    using assms(2) by (auto simp: replace_pdu_def db_get_def split: if_splits)
  have rows: "rows_ok (counter (tl_short s)) (pduid_pdu s)" using assms(1) by (simp add: timeline_inv_def)
  then have hm: "hm_ok (pduid_pdu s)" by (simp add: rows_ok_def)
  obtain r0 c where "count_ok (counter (tl_short s)) c" "as_bytes pdu_id = count_key r0 c"
    using rows s'(1) unfolding rows_ok_def by blast
  then have "rows_ok (counter (tl_short s)) (pduid_pdu s')" using rows_insert [OF rows] by (simp add: s'(2))
  then show "timeline_inv s'" using assms(1) by (auto simp: timeline_inv_def s'(2) db_insert_def)
  show "room_log s' r = map (\<lambda>(k, v). (key_count k, if k = as_bytes pdu_id then json else v)) (room_rows (pduid_pdu s) r)"
    using rows_replace [OF hm s'(1), of json r] by (simp add: room_log_def s'(2) case_prod_beta)
  then show "length (room_log s' r) = length (room_log s r)" by (simp add: room_log_def)
qed

section \<open>Runs\<close>

text \<open>
  What happens to the store: new and backfilled events that the callers know not to be in the timeline,
  replacements by redacted forms, outliers (also of events that are already in the timeline: no caller of
  \<open>add_pdu_outlier\<close> is required to look, and joining a room again stores the whole state it is sent), unread
  counts, and counts and short ids taken by other services.
\<close>

inductive timeline_step :: "timeline_data \<Rightarrow> timeline_data \<Rightarrow> bool" where
  tl_new: "map_of (eventid_pduid s) e = None \<Longrightarrow> place_new r e json s = (pdu_id, s') \<Longrightarrow> timeline_step s s'"
| tl_backfilled: "map_of (eventid_pduid s) e = None \<Longrightarrow> place_backfilled r e json s = Inr (pdu_id, s') \<Longrightarrow> timeline_step s s'"
| tl_replace: "replace_pdu pdu_id json s = Inr s' \<Longrightarrow> timeline_step s s'"
| tl_outlier: "timeline_step s (add_pdu_outlier e json s)"
| tl_notify: "timeline_step s (increment_notification_counts room notifies highlights s)"
| tl_other: "counter (tl_short s) \<le> counter short \<Longrightarrow> timeline_step s (s\<lparr>tl_short := short\<rparr>)"

definition no_events :: "short_data \<Rightarrow> timeline_data" where
  "no_events short = \<lparr>tl_short = short, eventid_outlierpdu = [], eventid_pduid = [], pduid_pdu = [],
     userroomid_highlightcount = [], userroomid_notificationcount = []\<rparr>"

inductive timeline_reachable :: "timeline_data \<Rightarrow> bool" where
  tl_start: "timeline_reachable (no_events short)"
| tl_step: "timeline_reachable s \<Longrightarrow> timeline_step s s' \<Longrightarrow> timeline_reachable s'"

lemma place_counter:
  assumes "place_new r e json s = (pdu_id, s') \<or> place_backfilled r e json s = Inr (pdu_id, s')"
  shows "counter (tl_short s') = fst (next_count (tl_short s))"
  using assms by (auto simp: place_new_def place_backfilled_def next_count_def tl_append_pdu_def prepend_backfill_pdu_def
      Let_def split: if_splits)

lemma next_count_le: "counter s \<le> fst (next_count s)"
  using uint_u64_checked_add [of "counter s" 1] by (auto simp: next_count_def Let_def word_le_def split: option.split)

lemma next_count_below:
  assumes "uint (fst (next_count s)) \<le> i64_max"
  shows "uint (counter s) < i64_max"
proof (cases "u64_checked_add (counter s) 1")
  case None
  then have "u64_max < uint (counter s) + 1" by (simp add: u64_checked_add_def split: if_splits)
  with None assms show ?thesis by (simp add: next_count_def Let_def int_bounds)
next
  case (Some c)
  with uint_u64_checked_add [OF Some] assms show ?thesis by (simp add: next_count_def Let_def)
qed

lemma timeline_step_counter: "timeline_step s s' \<Longrightarrow> counter (tl_short s) \<le> counter (tl_short s')"
proof (induction rule: timeline_step.induct)
  case tl_new then show ?case using place_counter next_count_le by metis
next
  case tl_backfilled then show ?case using place_counter next_count_le by metis
qed (auto simp: replace_pdu_def add_pdu_outlier_def increment_notification_counts_def split: if_splits)

lemma timeline_step_inv:
  assumes "timeline_step s s'" "timeline_inv s" "uint (counter (tl_short s')) \<le> i64_max"
  shows "timeline_inv s'"
  using assms
proof (cases rule: timeline_step.cases)
  case (tl_new e r json pdu_id)
  then have lt: "uint (counter (tl_short s)) < i64_max" using place_counter assms(3) by (intro next_count_below) metis
  show ?thesis by (rule place_new_spec(1) [OF assms(2) lt tl_new])
next
  case (tl_backfilled e r json pdu_id)
  then have lt: "uint (counter (tl_short s)) < i64_max" using place_counter assms(3) by (intro next_count_below) metis
  show ?thesis using place_backfilled_spec [OF assms(2) lt tl_backfilled(1), of r json] tl_backfilled(2) by auto
next
  case (tl_replace pdu_id json)
  then show ?thesis using replace_pdu_spec(1) assms(2) by blast
next
  case (tl_outlier e json)
  then show ?thesis using assms(2) by (auto simp: timeline_inv_def add_pdu_outlier_def)
next
  case tl_notify
  then show ?thesis using assms(2) by (simp add: timeline_inv_def increment_notification_counts_def)
next
  case (tl_other short)
  have "rows_ok (counter short) (pduid_pdu s)"
    using assms(2) tl_other(2) unfolding timeline_inv_def rows_ok_def count_ok_def word_le_def by (meson order_trans)
  then show ?thesis using assms(2) by (simp add: timeline_inv_def tl_other(1))
qed

lemma timeline_reachable_inv: "timeline_reachable s \<Longrightarrow> uint (counter (tl_short s)) \<le> i64_max \<Longrightarrow> timeline_inv s"
proof (induction rule: timeline_reachable.induct)
  case (tl_start short)
  show ?case by (simp add: no_events_def timeline_inv_def rows_ok_def)
next
  case (tl_step s s')
  then have "uint (counter (tl_short s)) \<le> i64_max" using timeline_step_counter [of s s'] by (simp add: word_le_def)
  with tl_step timeline_step_inv show ?case by blast
qed

section \<open>Properties\<close>

text \<open>
  C22: Paging is paging through one list per room.  In every reachable state, as long as counts fit a signed
  integer, the forward scan from a count yields the events of the room's log with a larger count, in order,
  and the backward scan those with a smaller count, in reverse; an event that does not parse is an error at
  its place.  The counts next to zero are excepted: a forward scan from zero yields the whole log, backfilled
  events included.
\<close>

theorem timeline_paging:
  assumes "timeline_reachable s" "uint (counter (tl_short s)) < i64_max" "get_shortroomid (tl_short s) room = Some r"
    "canonical c" "signed_count c \<notin> {- 1, 0, 1}"
  shows "pdus parse s room (Some c) = map (read_item parse) (filter (\<lambda>item. count_cmp c (fst item) = Less) (room_log s r))
    \<and> pdus_rev parse s room (Some c) = map (read_item parse) (rev (filter (\<lambda>item. count_cmp (fst item) c = Less) (room_log s r)))
    \<and> sorted_wrt (\<lambda>x y. count_cmp (fst x) (fst y) = Less) (room_log s r)
    \<and> pdus parse s room (Some (from_signed 0)) = map (read_item parse) (room_log s r)"
proof -
  have inv: "timeline_inv s" using assms(1,2) by (intro timeline_reachable_inv) simp_all
  then have rows: "rows_ok (counter (tl_short s)) (pduid_pdu s)" "hm_ok (pduid_pdu s)"
    by (simp_all add: timeline_inv_def rows_ok_def)
  have "count_cmp (key_count (fst x)) (key_count (fst y)) = Less"
    if xy: "x \<in> set (room_rows (pduid_pdu s) r)" "y \<in> set (room_rows (pduid_pdu s) r)" "fst x < fst y" for x y
  proof -
    obtain d where d: "count_ok (counter (tl_short s)) d" "fst x = count_key r d" "key_count (fst x) = d" "canonical d"
      by (rule room_row [OF rows(1) xy(1)])
    obtain e where e: "count_ok (counter (tl_short s)) e" "fst y = count_key r e" "key_count (fst y) = e" "canonical e"
      by (rule room_row [OF rows(1) xy(2)])
    from xy(3) have "signed_count d < signed_count e"
      using key_less [OF d(4) e(4), of r] d(1,2) e(1,2) by (simp add: count_ok_def)
    then show ?thesis by (simp add: d(3) e(3) count_cmp_def)
  qed
  then have "sorted_wrt (\<lambda>x y. count_cmp (key_count (fst x)) (key_count (fst y)) = Less) (room_rows (pduid_pdu s) r)"
    by (rule sorted_wrt_mono_rel [OF _ strict_room_rows [OF rows(2)]])
  then have "sorted_wrt (\<lambda>x y. count_cmp (fst x) (fst y) = Less) (room_log s r)"
    by (simp add: room_log_def sorted_wrt_map case_prod_beta)
  then show ?thesis
    using paging_forward [OF inv assms(3,2,4), of parse] paging_backward [OF inv assms(3,2,4), of parse]
      paging_from_zero [OF inv assms(3), of parse] assms(5) by (simp add: pdus_def pdus_rev_def)
qed

text \<open>
  C21: The store refines the list of events of every room.  Storing a new event appends it to the log of its
  room with the next count, storing a backfilled one puts it in front with the negated count, no other room
  changes, and the event is found under its id afterwards.
\<close>

theorem timeline_refines:
  assumes "timeline_reachable s" "uint (counter (tl_short s)) < i64_max" "map_of (eventid_pduid s) e = None"
  shows "(\<exists>pdu_id s'. place_new r e json s = (pdu_id, s')
      \<and> room_log s' r = room_log s r @ [(Normal (counter (tl_short s) + 1), json)] \<and> log_elsewhere r s s'
      \<and> get_non_outlier_pdu parse s' e = ok_or BadJson (parse json))
    \<and> (\<exists>pdu_id s'. place_backfilled r e json s = Inr (pdu_id, s')
      \<and> room_log s' r = (Backfilled (- (counter (tl_short s) + 1)), json) # room_log s r \<and> log_elsewhere r s s'
      \<and> get_non_outlier_pdu parse s' e = ok_or BadJson (parse json))"
proof -
  have inv: "timeline_inv s" using assms(1,2) by (intro timeline_reachable_inv) simp_all
  obtain pdu_id s' where new: "place_new r e json s = (pdu_id, s')" by fastforce
  from place_new_spec(2-4) [OF inv assms(2,3) new] new place_backfilled_spec [OF inv assms(2,3), of r json parse]
  show ?thesis by blast
qed

text \<open>
  C23: The two stores a look-up by event id races against each other. In every reachable state an event exists
  exactly when it is indexed in the timeline or is an outlier, whichever store answers first. Placing an
  event, new or backfilled, removes its copy among the outliers, so that the look-up right after it gives the
  placed event in either order; it does so as long as no outlier with that id is stored again.
\<close>

theorem timeline_lookup:
  assumes "timeline_reachable s" "uint (counter (tl_short s)) < i64_max"
  shows "(pdu_exists first s e = Inr () \<longleftrightarrow>
        map_of (eventid_pduid s) e \<noteq> None \<or> map_of (eventid_outlierpdu s) e \<noteq> None)
    \<and> (map_of (eventid_outlierpdu s) e = None \<longrightarrow>
        (get_pdu first parse s e = Inr p \<longleftrightarrow> get_non_outlier_pdu parse s e = Inr p))
    \<and> (map_of (eventid_pduid s) e = None \<longrightarrow>
        (\<exists>pdu_id s'. place_new r e json s = (pdu_id, s') \<and> map_of (eventid_outlierpdu s') e = None
           \<and> (get_pdu first parse s' e = Inr p \<longleftrightarrow> parse json = Some p))
        \<and> (\<exists>pdu_id s'. place_backfilled r e json s = Inr (pdu_id, s') \<and> map_of (eventid_outlierpdu s') e = None
           \<and> (get_pdu first parse s' e = Inr p \<longleftrightarrow> parse json = Some p)))"
proof -
  have inv: "timeline_inv s" using assms by (intro timeline_reachable_inv) simp_all
  have found: "non_outlier_pdu_exists s e = Inr ()" if "map_of (eventid_pduid s) e = Some k" for k
  proof -
    have "map_of (pduid_pdu s) k \<noteq> None" using inv that by (auto simp: timeline_inv_def)
    moreover from this obtain r c where "count_ok (counter (tl_short s)) c" "k = count_key r c"
      using inv unfolding timeline_inv_def rows_ok_def by blast
    ultimately show ?thesis
      using that count_key_parts(1) [of c r]
      by (simp add: non_outlier_pdu_exists_def get_pdu_id_def db_exists_def db_get_def count_ok_def count_key_def)
  qed
  have none: "non_outlier_pdu_exists s e = Inl PduNotFound" if "map_of (eventid_pduid s) e = None"
    using that by (simp add: non_outlier_pdu_exists_def get_pdu_id_def)
  have "pdu_exists first s e = Inr () \<longleftrightarrow>
      map_of (eventid_pduid s) e \<noteq> None \<or> map_of (eventid_outlierpdu s) e \<noteq> None"
    using found none
    by (cases "map_of (eventid_pduid s) e"; cases "map_of (eventid_outlierpdu s) e"; cases first)
      (simp_all add: pdu_exists_def select_ok_def outlier_pdu_exists_def)
  moreover have one: "get_pdu first parse t e = Inr p \<longleftrightarrow> get_non_outlier_pdu parse t e = Inr p"
    if "map_of (eventid_outlierpdu t) e = None" for t
    using that by (cases "get_non_outlier_pdu parse t e") (auto simp: get_pdu_def select_ok_def get_pdu_outlier_def)
  moreover have "(\<exists>pdu_id s'. place_new r e json s = (pdu_id, s') \<and> map_of (eventid_outlierpdu s') e = None
           \<and> (get_pdu first parse s' e = Inr p \<longleftrightarrow> parse json = Some p))
        \<and> (\<exists>pdu_id s'. place_backfilled r e json s = Inr (pdu_id, s') \<and> map_of (eventid_outlierpdu s') e = None
           \<and> (get_pdu first parse s' e = Inr p \<longleftrightarrow> parse json = Some p))"
    if free: "map_of (eventid_pduid s) e = None"
  proof
    obtain pdu_id s' where new: "place_new r e json s = (pdu_id, s')" by fastforce
    have "map_of (eventid_outlierpdu s') e = None"
      using new by (auto simp: place_new_def tl_append_pdu_def delete_conv' Let_def split: prod.splits)
    moreover have "get_non_outlier_pdu parse s' e = ok_or BadJson (parse json)"
      using place_new_spec(2-4) [OF inv assms(2) free new] by blast
    ultimately show "\<exists>pdu_id s'. place_new r e json s = (pdu_id, s') \<and> map_of (eventid_outlierpdu s') e = None
           \<and> (get_pdu first parse s' e = Inr p \<longleftrightarrow> parse json = Some p)"
      using new one [of s'] by (auto simp: result_simps)
  next
    obtain i t where bf: "place_backfilled r e json s = Inr (i, t)"
        "get_non_outlier_pdu parse t e = ok_or BadJson (parse json)"
      using place_backfilled_spec [OF inv assms(2) free, of r json parse] by blast
    have "map_of (eventid_outlierpdu t) e = None"
      using bf(1) by (auto simp: place_backfilled_def prepend_backfill_pdu_def delete_conv' Let_def split: prod.splits if_splits)
    then show "\<exists>pdu_id s'. place_backfilled r e json s = Inr (pdu_id, s') \<and> map_of (eventid_outlierpdu s') e = None
           \<and> (get_pdu first parse s' e = Inr p \<longleftrightarrow> parse json = Some p)"
      using bf one [of t] by (auto simp: result_simps)
  qed
  ultimately show ?thesis using assms by blast
qed

text \<open>
  When a placed event is stored among the outliers again, as by joining the room a second time, the look-up gives one
  copy or the other, as the race goes.
\<close>

lemma stored_again_races:
  assumes "get_non_outlier_pdu parse s e = Inr p" "parse json = Some q"
  shows "get_pdu True parse (add_pdu_outlier e json s) e = Inr p \<and> get_pdu False parse (add_pdu_outlier e json s) e = Inr q
    \<or> get_pdu True parse (add_pdu_outlier e json s) e = Inr q \<and> get_pdu False parse (add_pdu_outlier e json s) e = Inr p"
proof -
  have "get_non_outlier_pdu parse (add_pdu_outlier e json s) e = Inr p"
    using assms(1) by (auto simp: get_non_outlier_pdu_def get_pdu_id_def get_pdu_from_id_def add_pdu_outlier_def result_simps)
  then show ?thesis using assms(2)
    by (simp add: get_pdu_def select_ok_def get_pdu_outlier_def add_pdu_outlier_def)
qed

section \<open>Examples\<close>

definition one_room :: timeline_data where
  "one_room = no_events ((acc_short no_account_data)\<lparr>roomid_shortroomid := [(''!r'', 5)]\<rparr>)"

lemma one_room_ok:
  "timeline_reachable one_room" "uint (counter (tl_short one_room)) < i64_max" "map_of (eventid_pduid one_room) ''$e'' = None"
  "get_shortroomid (tl_short one_room) ''!r'' = Some 5"
  unfolding one_room_def using tl_start
  by (simp_all add: no_events_def no_account_data_def int_bounds get_shortroomid_def)

definition one_event :: timeline_data where
  "one_event = snd (place_new 5 ''$e'' [0x7B, 0x7D] one_room)"

lemma one_event_log: "room_log one_event 5 = [(Normal 8, [0x7B, 0x7D])]"
proof -
  obtain i where new: "place_new 5 ''$e'' [0x7B, 0x7D] one_room = (i, one_event)"
    unfolding one_event_def by (metis prod.collapse)
  have "timeline_inv one_room" using one_room_ok(1,2) by (intro timeline_reachable_inv) simp_all
  from place_new_spec(2) [OF this one_room_ok(2,3) new] show ?thesis
    by (simp add: room_log_def room_rows_def raw_stream_def one_room_def no_events_def no_account_data_def)
qed

lemma one_event_ok:
  "timeline_reachable one_event" "uint (counter (tl_short one_event)) < i64_max" "get_shortroomid (tl_short one_event) ''!r'' = Some 5"
proof -
  obtain i where new: "place_new 5 ''$e'' [0x7B, 0x7D] one_room = (i, one_event)"
    unfolding one_event_def by (metis prod.collapse)
  show "timeline_reachable one_event" using timeline_step.tl_new [OF one_room_ok(3) new] one_room_ok(1) tl_step by blast
  have "next_count (tl_short one_room) = (8, (tl_short one_room)\<lparr>counter := 8\<rparr>)"
    by (simp add: next_count_def u64_checked_add_def u64_max_def one_room_def no_events_def no_account_data_def)
  then show "uint (counter (tl_short one_event)) < i64_max" "get_shortroomid (tl_short one_event) ''!r'' = Some 5"
    using one_room_ok(4) by (simp_all add: one_event_def place_new_def tl_append_pdu_def int_bounds get_shortroomid_def Let_def)
qed

theorem timeline_paging_witness:
  "pdus Some one_event ''!r'' (Some (Normal 3)) = [Inr (Normal 8, [0x7B, 0x7D])]
    \<and> pdus_rev Some one_event ''!r'' (Some (Normal 3)) = []"
  using timeline_paging [OF one_event_ok, of "Normal 3" Some] unfolding one_event_log
  by (simp add: read_item_def count_cmp_def)

theorem timeline_refines_witness:
  "\<exists>pdu_id s'. place_new 5 ''$e'' [0x7B] one_room = (pdu_id, s') \<and> room_log s' 5 = room_log one_room 5 @ [(Normal 8, [0x7B])]"
  using timeline_refines [OF one_room_ok(1-3), of 5 "[0x7B]" Some]
  by (auto simp: one_room_def no_events_def no_account_data_def)

theorem timeline_lookup_witness:
  "\<exists>pdu_id s'. place_new 5 ''$e'' [0x7B] one_room = (pdu_id, s') \<and> map_of (eventid_outlierpdu s') ''$e'' = None
     \<and> get_pdu False Some s' ''$e'' = Inr [0x7B]"
  using timeline_lookup [OF one_room_ok(1,2), of False "''$e''" Some "[0x7B]" 5 "[0x7B]"] one_room_ok(3) by auto

end
