(* ===== verification/RoomState.thy ===== *)
theory RoomState
  imports StateCompressor PduId "HOL-Library.Char_ord" "HOL-Library.List_Lexorder" "HOL-Library.Sublist"
begin

text \<open>
  The state of a room, \<^verbatim>\<open>src/service/rooms/state/mod.rs\<close>: which stored state is the current one of a room, which
  one was current before an event, and the forward extremities, the events nobody has built on yet.  The
  states themselves are those of \<open>StateCompressor\<close>; keys of the columns are decoded.  The main theorem says
  that appending a state event is the update of one entry of the room's state map, with the state before it
  recorded for the event and no other room touched.
\<close>

section \<open>Operations\<close>

record 'c room_states =
  rs_comp :: "'c compressor"
  shorteventid_shortstatehash :: "(u64, u64) hash_map"
  roomid_shortstatehash :: "(RoomId, u64) hash_map"
  roomid_pduleaves :: "(RoomId \<times> EventId, EventId) hash_map"

definition get_room_shortstatehash :: "'c room_states \<Rightarrow> RoomId \<Rightarrow> u64 option" where
  "get_room_shortstatehash s room = map_of (roomid_shortstatehash s) room"

definition set_room_state :: "RoomId \<Rightarrow> u64 \<Rightarrow> 'c room_states \<Rightarrow> 'c room_states" where
  "set_room_state room h s = s\<lparr>roomid_shortstatehash := hm_insert room h (roomid_shortstatehash s)\<rparr>"

definition rs_short :: "'c room_states \<Rightarrow> short_data" where
  "rs_short s = comp_short (rs_comp s)"

definition set_short :: "short_data \<Rightarrow> 'c room_states \<Rightarrow> 'c room_states" where
  "set_short short s = s\<lparr>rs_comp := (rs_comp s)\<lparr>comp_short := short\<rparr>\<rparr>"

definition set_cache :: "'c \<Rightarrow> 'c room_states \<Rightarrow> 'c room_states" where
  "set_cache c s = s\<lparr>rs_comp := (rs_comp s)\<lparr>comp_cache := c\<rparr>\<rparr>"

definition set_diffs :: "statediffs \<Rightarrow> 'c room_states \<Rightarrow> 'c room_states" where
  "set_diffs db s = s\<lparr>rs_comp := (rs_comp s)\<lparr>comp_diffs := db\<rparr>\<rparr>"

text \<open>The layers of the room's state; a room without a state has none, and a failed load is an error.\<close>

definition load_room_layers ::
    "'c state_lru \<Rightarrow> u64 option \<Rightarrow> 'c room_states \<Rightarrow> ((StoreError + ShortStateInfo list) \<times> 'c room_states) option" where
  "load_room_layers L previous s =
     (case previous of
        None \<Rightarrow> Some (Inr [], s)
      | Some p \<Rightarrow>
          map_option (\<lambda>(r, c). (r, set_cache c s))
            (load_shortstatehash_info L (comp_diffs (rs_comp s)) p (comp_cache (rs_comp s))))"

text \<open>\<open>set_event_state\<close> stores the state before an incoming event and records it for the event.\<close>

definition save_event_state ::
    "'c state_lru \<Rightarrow> u64 option \<Rightarrow> u64 \<Rightarrow> CompressedState \<Rightarrow> 'c room_states
     \<Rightarrow> ((StoreError + unit) \<times> 'c room_states) option" where
  "save_event_state L previous h state s =
     Option.bind (load_room_layers L previous s) (\<lambda>(r, s1).
       case r of
         Inl e \<Rightarrow> Some (Inl e, s1)
       | Inr states_parents \<Rightarrow>
           (let (statediffnew, statediffremoved) = diff_to_parent states_parents state
            in case save_state_from_diff h statediffnew statediffremoved 1000000 states_parents (comp_diffs (rs_comp s1)) of
                 Inl e \<Rightarrow> Some (Inl e, s1)
               | Inr db \<Rightarrow> Some (Inr (), set_diffs db s1)))"

definition set_event_state ::
    "'c state_lru \<Rightarrow> (u8 list \<Rightarrow> u8 list) \<Rightarrow> EventId \<Rightarrow> RoomId \<Rightarrow> CompressedState \<Rightarrow> 'c room_states
     \<Rightarrow> ((StoreError + u64) \<times> 'c room_states) option" where
  "set_event_state L sha256 event room state s =
     (let (shorteventid, short1) = get_or_create_shorteventid event (rs_short s);
          previous = get_room_shortstatehash s room;
          ((h, already_existed), short2) = get_or_create_shortstatehash (calculate_hash sha256 state) short1;
          s1 = set_short short2 s
      in Option.bind (if already_existed then Some (Inr (), s1) else save_event_state L previous h state s1) (\<lambda>(r, s2).
         case r of
           Inl e \<Rightarrow> Some (Inl e, s2)
         | Inr () \<Rightarrow>
             Some (Inr h, s2\<lparr>shorteventid_shortstatehash := hm_insert shorteventid h (shorteventid_shortstatehash s2)\<rparr>)))"

text \<open>
  \<open>append_to_state\<close>: the event's state is the room's current one, and a state event makes a new state with
  its own entry in place of the one with the same key.
\<close>

definition find_replaced :: "u64 \<Rightarrow> ShortStateInfo list \<Rightarrow> CompressedStateEvent option" where
  "find_replaced shortstatekey states_parents =
     (if states_parents = [] then None
      else find (prefix (to_be_bytes shortstatekey)) (sorted_list_of_set (full_state (last states_parents))))"

definition append_state_entry ::
    "u64 option \<Rightarrow> EventId \<Rightarrow> TypeStateKey \<Rightarrow> ShortStateInfo list \<Rightarrow> 'c room_states
     \<Rightarrow> (StoreError + u64) \<times> 'c room_states" where
  "append_state_entry previous event key states_parents s =
     (let (shortstatekey, short1) = get_or_create_shortstatekey key (rs_short s);
          (new, short2) = compress_one_state_event shortstatekey event short1;
          replaces = find_replaced shortstatekey states_parents
      in if Some new = replaces then
           ((case previous of None \<Rightarrow> Inl StorePanic | Some p \<Rightarrow> Inr p), set_short short2 s)
         else
           let (h, short3) = next_count short2; s1 = set_short short3 s
           in case save_state_from_diff h {new} (set_option replaces) 2 states_parents (comp_diffs (rs_comp s1)) of
                Inl e \<Rightarrow> (Inl e, s1)
              | Inr db \<Rightarrow> (Inr h, set_diffs db s1))"

definition append_to_state ::
    "'c state_lru \<Rightarrow> EventId \<Rightarrow> TypeStateKey option \<Rightarrow> RoomId \<Rightarrow> 'c room_states
     \<Rightarrow> ((StoreError + u64) \<times> 'c room_states) option" where
  "append_to_state L event key room s =
     (let (shorteventid, short) = get_or_create_shorteventid event (rs_short s);
          previous = get_room_shortstatehash s room;
          s1 = set_short short s;
          s2 = (case previous of
                  None \<Rightarrow> s1
                | Some p \<Rightarrow> s1\<lparr>shorteventid_shortstatehash := hm_insert shorteventid p (shorteventid_shortstatehash s1)\<rparr>)
      in case key of
           None \<Rightarrow> Some (case previous of None \<Rightarrow> Inl StorePanic | Some p \<Rightarrow> Inr p, s2)
         | Some key \<Rightarrow>
             Option.bind (load_room_layers L previous s2) (\<lambda>(r, s3).
               case r of
                 Inl e \<Rightarrow> Some (Inl e, s3)
               | Inr states_parents \<Rightarrow> Some (append_state_entry previous event key states_parents s3)))"

text \<open>The forward extremities come out in the order of their keys.\<close>

definition get_forward_extremities :: "'c room_states \<Rightarrow> RoomId \<Rightarrow> EventId list" where
  "get_forward_extremities s room = sort (map snd (filter (\<lambda>(r, _). r = room) (map fst (roomid_pduleaves s))))"

definition set_forward_extremities :: "RoomId \<Rightarrow> EventId list \<Rightarrow> 'c room_states \<Rightarrow> 'c room_states" where
  "set_forward_extremities room events s =
     s\<lparr>roomid_pduleaves :=
         fold (\<lambda>event. hm_insert (room, event) event) events
           (filter (\<lambda>((r, _), _). r \<noteq> room) (roomid_pduleaves s))\<rparr>"

section \<open>Reading\<close>

text \<open>
  The readers of \<^verbatim>\<open>src/service/rooms/state_accessor/state.rs\<close> that look into a stored state.  They load it through
  the cache, so they return the state of the service too.
\<close>

definition load_full_state :: "'c state_lru \<Rightarrow> u64 \<Rightarrow> 'c room_states \<Rightarrow> ((StoreError + CompressedState) \<times> 'c room_states) option" where
  "load_full_state L h s =
     map_option (\<lambda>(r, c). (rbind r (\<lambda>layers. if layers = [] then Inl StorePanic else Inr (full_state (last layers))), set_cache c s))
       (load_shortstatehash_info L (comp_diffs (rs_comp s)) h (comp_cache (rs_comp s)))"

definition range_next :: "CompressedStateEvent \<Rightarrow> CompressedStateEvent \<Rightarrow> CompressedState \<Rightarrow> CompressedStateEvent option" where
  "range_next start stop t = find (\<lambda>v. start \<le> v \<and> v \<le> stop) (sorted_list_of_set t)"

definition state_get_shortid :: "'c state_lru \<Rightarrow> u64 \<Rightarrow> TypeStateKey \<Rightarrow> 'c room_states \<Rightarrow> ((StoreError + u64) \<times> 'c room_states) option" where
  "state_get_shortid L h key s =
     (case get_shortstatekey (rs_short s) key of
        None \<Rightarrow> Some (Inl StoreNotFound, s)
      | Some k \<Rightarrow>
          map_option (\<lambda>(r, s'). (rbind r (\<lambda>t.
              case range_next (compress_state_event k 0) (compress_state_event k (- 1)) t of
                None \<Rightarrow> Inl StoreNotFound
              | Some v \<Rightarrow> Inr (snd (parse_compressed_state_event v))), s'))
            (load_full_state L h s))"

definition state_get_id :: "'c state_lru \<Rightarrow> u64 \<Rightarrow> TypeStateKey \<Rightarrow> 'c room_states \<Rightarrow> ((StoreError + EventId) \<times> 'c room_states) option" where
  "state_get_id L h key s =
     map_option (\<lambda>(r, s'). (rbind r (\<lambda>e. ok_or StoreNotFound (get_eventid_from_short (rs_short s') e)), s'))
       (state_get_shortid L h key s)"

definition state_contains :: "'c state_lru \<Rightarrow> u64 \<Rightarrow> TypeStateKey \<Rightarrow> 'c room_states \<Rightarrow> (bool \<times> 'c room_states) option" where
  "state_contains L h key s =
     (case get_shortstatekey (rs_short s) key of
        None \<Rightarrow> Some (False, s)
      | Some k \<Rightarrow>
          map_option (\<lambda>(r, s'). (case r of
              Inl _ \<Rightarrow> False
            | Inr t \<Rightarrow> range_next (compress_state_event k 0) (compress_state_event k (- 1)) t \<noteq> None, s'))
            (load_full_state L h s))"

definition state_full_shortids :: "'c state_lru \<Rightarrow> u64 \<Rightarrow> 'c room_states \<Rightarrow> ((StoreError + (u64 \<times> u64) list) \<times> 'c room_states) option" where
  "state_full_shortids L h s =
     map_option (\<lambda>(r, s'). (rbind r (\<lambda>t. Inr (map parse_compressed_state_event (sorted_list_of_set t))), s'))
       (load_full_state L h s)"

definition state_keys_with_shortids :: "'c state_lru \<Rightarrow> u64 \<Rightarrow> EventType \<Rightarrow> 'c room_states \<Rightarrow> ((StateKey \<times> u64) list \<times> 'c room_states) option" where
  "state_keys_with_shortids L h event_type s =
     map_option (\<lambda>(r, s'). (case r of
         Inl _ \<Rightarrow> []
       | Inr ids \<Rightarrow>
           List.map_filter (\<lambda>(k, e). case get_statekey_from_short (rs_short s') k of
               None \<Rightarrow> None
             | Some (ty, sk) \<Rightarrow> if ty = event_type then Some (sk, e) else None) ids, s'))
       (state_full_shortids L h s)"

definition state_keys :: "'c state_lru \<Rightarrow> u64 \<Rightarrow> EventType \<Rightarrow> 'c room_states \<Rightarrow> (StateKey list \<times> 'c room_states) option" where
  "state_keys L h event_type s = map_option (\<lambda>(xs, s'). (map fst xs, s')) (state_keys_with_shortids L h event_type s)"

definition state_keys_with_ids :: "'c state_lru \<Rightarrow> u64 \<Rightarrow> EventType \<Rightarrow> 'c room_states \<Rightarrow> ((StateKey \<times> EventId) list \<times> 'c room_states) option" where
  "state_keys_with_ids L h event_type s =
     map_option (\<lambda>(xs, s'). (List.map_filter (\<lambda>(sk, e). map_option (Pair sk) (get_eventid_from_short (rs_short s') e)) xs, s'))
       (state_keys_with_shortids L h event_type s)"

definition state_contains_type :: "'c state_lru \<Rightarrow> u64 \<Rightarrow> EventType \<Rightarrow> 'c room_states \<Rightarrow> (bool \<times> 'c room_states) option" where
  "state_contains_type L h event_type s = map_option (\<lambda>(ks, s'). (ks \<noteq> [], s')) (state_keys L h event_type s)"

definition state_full_ids :: "'c state_lru \<Rightarrow> u64 \<Rightarrow> 'c room_states \<Rightarrow> ((u64 \<times> EventId) list \<times> 'c room_states) option" where
  "state_full_ids L h s =
     map_option (\<lambda>(r, s'). (case r of
         Inl _ \<Rightarrow> []
       | Inr ids \<Rightarrow> List.map_filter (\<lambda>(k, e). map_option (Pair k) (get_eventid_from_short (rs_short s') e)) ids, s'))
       (state_full_shortids L h s)"

definition state_added_between :: "'c state_lru \<Rightarrow> u64 \<times> u64 \<Rightarrow> 'c room_states \<Rightarrow> ((StoreError + (u64 \<times> u64) list) \<times> 'c room_states) option" where
  "state_added_between L hs s =
     Option.bind (load_full_state L (fst hs) s) (\<lambda>(a, s1).
       case a of
         Inl e \<Rightarrow> Some (Inl e, s1)
       | Inr full_state_a \<Rightarrow>
           map_option (\<lambda>(b, s2). (rbind b (\<lambda>full_state_b.
               Inr (map parse_compressed_state_event (sorted_list_of_set (full_state_b - full_state_a)))), s2))
             (load_full_state L (snd hs) s1))"

definition state_removed_between :: "'c state_lru \<Rightarrow> u64 \<times> u64 \<Rightarrow> 'c room_states \<Rightarrow> ((StoreError + (u64 \<times> u64) list) \<times> 'c room_states) option" where
  "state_removed_between L hs s = state_added_between L (snd hs, fst hs) s"

definition pdu_shortstatehash :: "'c room_states \<Rightarrow> EventId \<Rightarrow> u64 option" where
  "pdu_shortstatehash s event =
     Option.bind (get_shorteventid (rs_short s) event) (map_of (shorteventid_shortstatehash s))"

definition room_state_get_id :: "'c state_lru \<Rightarrow> RoomId \<Rightarrow> TypeStateKey \<Rightarrow> 'c room_states \<Rightarrow> ((StoreError + EventId) \<times> 'c room_states) option" where
  "room_state_get_id L room key s =
     (case get_room_shortstatehash s room of
        None \<Rightarrow> Some (Inl StoreNotFound, s)
      | Some h \<Rightarrow> state_get_id L h key s)"

definition room_state_keys :: "'c state_lru \<Rightarrow> RoomId \<Rightarrow> EventType \<Rightarrow> 'c room_states \<Rightarrow> ((StoreError + StateKey list) \<times> 'c room_states) option" where
  "room_state_keys L room event_type s =
     (case get_room_shortstatehash s room of
        None \<Rightarrow> Some (Inl StoreNotFound, s)
      | Some h \<Rightarrow> map_option (\<lambda>(ks, s'). (Inr ks, s')) (state_keys L h event_type s))"

section \<open>The state as a map\<close>

text \<open>A stored state with a well-formed stack, with one entry per state key, and with numbers that are in use.\<close>

definition good_state :: "statediffs \<Rightarrow> u64 \<Rightarrow> CompressedState \<Rightarrow> bool" where
  "good_state db h t \<longleftrightarrow>
     (\<exists>stack. stack_of db h stack \<and> good_layers {} stack \<and> length stack \<le> 4 \<and> top_state stack = t)"

definition one_per_key :: "CompressedState \<Rightarrow> bool" where
  "one_per_key t \<longleftrightarrow> (\<forall>v \<in> t. \<forall>w \<in> t. take 8 v = take 8 w \<longrightarrow> v = w)"

definition numbered_state :: "short_data \<Rightarrow> CompressedState \<Rightarrow> bool" where
  "numbered_state short t \<longleftrightarrow> (\<forall>v \<in> t. \<exists>key eid k e. get_shortstatekey short key = Some k
     \<and> get_shorteventid short eid = Some e \<and> v = compress_state_event k e)"

definition in_state :: "short_data \<Rightarrow> CompressedState \<Rightarrow> TypeStateKey \<Rightarrow> EventId \<Rightarrow> bool" where
  "in_state short t key eid \<longleftrightarrow> (\<exists>k e. get_shortstatekey short key = Some k \<and> get_shorteventid short eid = Some e
     \<and> compress_state_event k e \<in> t)"

definition room_state_ok :: "short_data \<Rightarrow> statediffs \<Rightarrow> u64 \<Rightarrow> bool" where
  "room_state_ok short db h \<longleftrightarrow> (\<exists>t. good_state db h t \<and> one_per_key t \<and> numbered_state short t)"

definition room_inv :: "'c state_lru \<Rightarrow> (u8 list \<Rightarrow> u8 list) \<Rightarrow> 'c room_states \<Rightarrow> bool" where
  "room_inv L sha256 s \<longleftrightarrow> store_inv L sha256 (rs_comp s)
     \<and> (\<forall>room h. get_room_shortstatehash s room = Some h \<longrightarrow> room_state_ok (rs_short s) (comp_diffs (rs_comp s)) h)"

lemma compress_parts [simp]:
  "take 8 (compress_state_event k e) = to_be_bytes k" "drop 8 (compress_state_event k e) = to_be_bytes e"
  "length (compress_state_event k e) = 16"
  by (simp_all add: compress_state_event_def)

lemma compress_inject [simp]: "compress_state_event k e = compress_state_event k' e' \<longleftrightarrow> k = k' \<and> e = e'"
  by (metis parse_compress prod.inject)

lemma compress_range: "compress_state_event k 0 \<le> compress_state_event k' e \<and> compress_state_event k' e \<le> compress_state_event k (- 1) \<longleftrightarrow> k' = k"
proof -
  have "compress_state_event k 0 \<le> compress_state_event k' e \<longleftrightarrow> k < k' \<or> k = k'"
    unfolding compress_state_event_def linorder_not_less [symmetric]
    by (auto simp: append_less_append to_be_bytes_less to_be_bytes_inject)
  moreover have "compress_state_event k' e \<le> compress_state_event k (- 1) \<longleftrightarrow> k' < k \<or> k = k'"
    unfolding compress_state_event_def linorder_not_less [symmetric]
    by (auto simp: append_less_append to_be_bytes_less to_be_bytes_inject linorder_not_less)
  ultimately show ?thesis by auto
qed

lemma find_unique:
  assumes "finite t" "v \<in> t" "P v" "\<And>w. w \<in> t \<Longrightarrow> P w \<Longrightarrow> w = v"
  shows "find P (sorted_list_of_set t) = Some v"
proof -
  obtain w where w: "find P (sorted_list_of_set t) = Some w"
    using assms(1-3) by (cases "find P (sorted_list_of_set t)") (auto simp: find_None_iff)
  then have "w \<in> t" "P w" unfolding find_Some_iff using assms(1) by (metis nth_mem set_sorted_list_of_set)+
  with w assms(4) show ?thesis by simp
qed

lemma find_absent: "finite t \<Longrightarrow> find P (sorted_list_of_set t) = None \<longleftrightarrow> (\<forall>v \<in> t. \<not> P v)"
  by (auto simp: find_None_iff)

lemma good_state_ok: "good_state db h t \<Longrightarrow> state_ok t"
  using good_layers_state_ok by (auto simp: good_state_def)

lemma numbered_entry:
  assumes "numbered_state short t" "v \<in> t"
  obtains k e where "v = compress_state_event k e" "take 8 v = to_be_bytes k"
  using assms by (fastforce simp: numbered_state_def)

lemma range_next_state:
  assumes "finite t" "one_per_key t" "numbered_state short t"
  shows "range_next (compress_state_event k 0) (compress_state_event k (- 1)) t = Some v \<longleftrightarrow> (\<exists>e. v = compress_state_event k e \<and> v \<in> t)"
proof
  assume "range_next (compress_state_event k 0) (compress_state_event k (- 1)) t = Some v"
  then have v: "v \<in> t" "compress_state_event k 0 \<le> v \<and> v \<le> compress_state_event k (- 1)"
    unfolding range_next_def find_Some_iff using assms(1) by (metis nth_mem set_sorted_list_of_set)+
  obtain k' e where "v = compress_state_event k' e" using numbered_entry [OF assms(3) v(1)] by blast
  with v compress_range [of k k' e] show "\<exists>e. v = compress_state_event k e \<and> v \<in> t" by auto
next
  assume "\<exists>e. v = compress_state_event k e \<and> v \<in> t"
  then obtain e where v: "v = compress_state_event k e" "v \<in> t" by blast
  show "range_next (compress_state_event k 0) (compress_state_event k (- 1)) t = Some v"
    unfolding range_next_def
  proof (rule find_unique [OF assms(1) v(2)])
    show "compress_state_event k 0 \<le> v \<and> v \<le> compress_state_event k (- 1)" unfolding v(1) compress_range ..
    fix w assume w: "w \<in> t" "compress_state_event k 0 \<le> w \<and> w \<le> compress_state_event k (- 1)"
    obtain k' e' where w': "w = compress_state_event k' e'" using numbered_entry [OF assms(3) w(1)] by blast
    with w(2) compress_range [of k k' e'] have "take 8 w = take 8 v" by (simp add: v(1))
    with assms(2) w(1) v(2) show "w = v" unfolding one_per_key_def by blast
  qed
qed

lemma find_replaced_state:
  assumes "stack \<noteq> []" "top_state stack = t" "finite t" "one_per_key t"
  shows "find_replaced k stack = Some v \<longleftrightarrow> v \<in> t \<and> prefix (to_be_bytes k) v"
proof -
  have run: "find_replaced k stack = find (prefix (to_be_bytes k)) (sorted_list_of_set t)"
    using assms(1,2) by (simp add: find_replaced_def top_state_def)
  have same: "w = v" if "v \<in> t" "w \<in> t" "prefix (to_be_bytes k) v" "prefix (to_be_bytes k) w" for v w
  proof -
    have "take 8 v = take 8 w" using that(3,4) by (auto simp: prefix_def)
    with that(1,2) assms(4) show ?thesis unfolding one_per_key_def by metis
  qed
  show ?thesis
  proof
    assume "find_replaced k stack = Some v"
    then show "v \<in> t \<and> prefix (to_be_bytes k) v"
      unfolding run find_Some_iff using assms(3) by (metis nth_mem set_sorted_list_of_set)
  next
    assume "v \<in> t \<and> prefix (to_be_bytes k) v"
    then show "find_replaced k stack = Some v" unfolding run using same by (intro find_unique [OF assms(3)]) blast+
  qed
qed

section \<open>Numbers only grow\<close>

definition short_ext :: "short_data \<Rightarrow> short_data \<Rightarrow> bool" where
  "short_ext s s' \<longleftrightarrow> short_inv s' \<and> counter s \<le> counter s' \<and> get_shorteventid s \<subseteq>\<^sub>m get_shorteventid s'
     \<and> get_shortstatekey s \<subseteq>\<^sub>m get_shortstatekey s' \<and> get_shortstatehash s' = get_shortstatehash s"

lemma short_ext_trans: "short_ext a b \<Longrightarrow> short_ext b c \<Longrightarrow> short_ext a c"
  unfolding short_ext_def by (metis map_le_trans order_trans)

lemma short_ext_refl: "short_inv s \<Longrightarrow> short_ext s s"
  by (simp add: short_ext_def)

lemma ext_lookup:
  assumes "short_ext s s'"
  shows "get_shorteventid s e = Some i \<Longrightarrow> get_shorteventid s' e = Some i"
    "get_shortstatekey s k = Some i \<Longrightarrow> get_shortstatekey s' k = Some i"
  using assms unfolding short_ext_def map_le_def by (metis domI)+

lemma numbered_ext: "short_ext s s' \<Longrightarrow> numbered_state s t \<Longrightarrow> numbered_state s' t"
  unfolding numbered_state_def using ext_lookup by metis

lemma ids_left_counter: "ids_left s = Suc (ids_left s') \<Longrightarrow> counter s \<le> counter s'"
  by (simp add: ids_left_def word_le_def nat_eq_iff2)

lemma event_numbered:
  assumes "short_inv s" "0 < ids_left s" "get_or_create_shorteventid eid s = (e, s')"
  shows "short_ext s s'" "get_shorteventid s' eid = Some e" "ids_left s \<le> Suc (ids_left s')"
proof -
  show "get_shorteventid s' eid = Some e" using events.alloc_look [OF assms(1,2), of eid] assms(3) by simp
  show "ids_left s \<le> Suc (ids_left s')" using events.alloc_space [OF assms(1,2), of eid] assms(3) by simp
  show "short_ext s s'"
  proof (cases "get_shorteventid s eid")
    case (Some i)
    with events.found [OF Some] assms(1,3) show ?thesis by (simp add: short_ext_refl)
  next
    case None
    then have new: "create_shorteventid eid s = (e, s')" using assms(3) by (simp add: get_or_create_shorteventid_def)
    note spec = create_shorteventid_inv [OF assms(1,2) None new]
    have "get_shortstatekey s' = get_shortstatekey s" "get_shortstatehash s' = get_shortstatehash s"
      using new by (auto simp: create_shorteventid_def next_count_def get_shortstatekey_def get_shortstatehash_def Let_def fun_eq_iff)
    with spec None ids_left_counter [OF spec(3)] show ?thesis by (auto simp: short_ext_def map_le_def)
  qed
qed

lemma key_numbered:
  assumes "short_inv s" "0 < ids_left s" "get_or_create_shortstatekey key s = (k, s')"
  shows "short_ext s s'" "get_shortstatekey s' key = Some k" "ids_left s \<le> Suc (ids_left s')"
proof -
  show "get_shortstatekey s' key = Some k" using statekeys.alloc_look [OF assms(1,2), of key] assms(3) by simp
  show "ids_left s \<le> Suc (ids_left s')" using statekeys.alloc_space [OF assms(1,2), of key] assms(3) by simp
  show "short_ext s s'"
  proof (cases "get_shortstatekey s key")
    case (Some i)
    with statekeys.found [OF Some] assms(1,3) show ?thesis by (simp add: short_ext_refl)
  next
    case None
    note spec = get_or_create_shortstatekey_new [OF assms(1,2) None assms(3)]
    have "get_shorteventid s' = get_shorteventid s" "get_shortstatehash s' = get_shortstatehash s"
      using assms(3) None
      by (auto simp: get_or_create_shortstatekey_def next_count_def get_shorteventid_def get_shortstatehash_def Let_def fun_eq_iff)
    with spec None ids_left_counter [OF spec(3)] show ?thesis by (auto simp: short_ext_def map_le_def)
  qed
qed

lemma count_taken:
  assumes "short_inv s" "0 < ids_left s" "next_count s = (c, s')"
  shows "short_ext s s'" "counter s < c" "counter s' = c"
proof -
  note f = next_count_fresh [OF assms(2,3)]
  have le: "counter s \<le> c" using f(2) by simp
  have "short_inv s'" using assms(1) short_inv_counter [OF assms(1) le] by (simp add: f(1) short_inv_def)
  moreover have "get_shorteventid s' = get_shorteventid s" "get_shortstatekey s' = get_shortstatekey s"
    "get_shortstatehash s' = get_shortstatehash s"
    by (simp_all add: f(1) get_shorteventid_def get_shortstatekey_def get_shortstatehash_def fun_eq_iff)
  ultimately show "short_ext s s'" using le by (simp add: short_ext_def f(1))
  show "counter s < c" "counter s' = c" using f(1,2) by simp_all
qed

lemma key_not_zero: "short_inv s \<Longrightarrow> get_shortstatekey s key = Some k \<Longrightarrow> k \<noteq> 0"
  unfolding short_inv_def table_ok_def get_shortstatekey_def by (metis less_irrefl)

section \<open>The store under numbers and new states\<close>

lemma store_inv_ext:
  assumes "store_inv L sha256 s" "short_ext (comp_short s) short" "cache_coherent L (comp_diffs s) c"
  shows "store_inv L sha256 (s\<lparr>comp_short := short, comp_cache := c\<rparr>)"
  using assms by (auto simp: store_inv_def short_ext_def)

lemma store_inv_plain:
  assumes "store_inv L sha256 s" "short_ext (comp_short s) short" "cache_coherent L (comp_diffs s) c"
    "stored h t (comp_diffs s) db'" "counter (comp_short s) < h" "counter short = h"
  shows "store_inv L sha256 (s\<lparr>comp_short := short, comp_cache := c, comp_diffs := db'\<rparr>)"
proof -
  have fresh: "map_of (comp_diffs s) h = None" using assms(1,5) by (simp add: store_inv_def)
  note keep = stored_keeps [OF assms(4) fresh]
  have "map_of db' k = None" if "h < k" for k
    using that stored_keys [OF assms(4), of k] assms(1,5) by (auto simp: store_inv_def)
  moreover have "cache_coherent L db' c" using assms(3) keep unfolding cache_coherent_def by (rule lru_all_mono)
  moreover have "has_state sha256 db' hash k" if "get_shortstatehash short hash = Some k" for hash k
    using that assms(1,2) keep by (fastforce simp: store_inv_def has_state_def short_ext_def)
  ultimately show ?thesis using assms(2,6) by (simp add: store_inv_def short_ext_def)
qed

lemma good_state_stored: "stored h t db db' \<Longrightarrow> good_state db' h t"
  by (auto simp: stored_def good_state_def)

lemma good_state_keeps: "stored h t db db' \<Longrightarrow> map_of db h = None \<Longrightarrow> good_state db k u \<Longrightarrow> good_state db' k u"
  unfolding good_state_def using stored_keeps by metis

lemma room_state_keeps:
  assumes "room_state_ok short db k" "short_ext short short'" "\<And>k u. good_state db k u \<Longrightarrow> good_state db' k u"
  shows "room_state_ok short' db' k"
  using assms(1,3) numbered_ext [OF assms(2)] unfolding room_state_ok_def by blast

lemma load_good:
  assumes "lru_laws L" "cache_coherent L db c" "good_state db h t"
  obtains stack c' where "load_shortstatehash_info L db h c = Some (Inr stack, c')" "cache_coherent L db c'"
    "stack \<noteq> []" "top_state stack = t" "parents_ok db stack" "stack_of db h stack"
proof -
  obtain stack where st: "stack_of db h stack" "good_layers {} stack" "top_state stack = t"
    using assms(3) by (auto simp: good_state_def)
  obtain c' where "load_shortstatehash_info L db h c = Some (Inr stack, c')" "cache_coherent L db c'"
    using load_stack [OF assms(1,2) st(1)] by blast
  moreover have "parents_ok db stack" "stack \<noteq> []" using st stack_of_last [OF st(1)] by (simp_all add: parents_ok_def)
  ultimately show ?thesis using that st by blast
qed

section \<open>Reading an entry\<close>

lemma in_state_unique:
  assumes "short_inv short" "one_per_key t" "in_state short t key a" "in_state short t key b"
  shows "a = b"
proof -
  obtain k e f where kef: "get_shorteventid short a = Some e" "get_shorteventid short b = Some f"
    "compress_state_event k e \<in> t" "compress_state_event k f \<in> t"
    using assms(3,4) by (auto simp: in_state_def)
  then have "compress_state_event k e = compress_state_event k f" using assms(2) unfolding one_per_key_def by (metis compress_parts(1))
  with kef assms(1) show ?thesis by (auto simp: short_inv_def get_shorteventid_def intro: table_ok_inj)
qed

lemma state_get_id_spec:
  assumes "lru_laws L" "store_inv L sha256 (rs_comp s)" "good_state (comp_diffs (rs_comp s)) h t" "one_per_key t"
    "numbered_state (rs_short s) t"
  shows "\<exists>r s'. state_get_id L h key s = Some (r, s')
    \<and> (\<forall>eid. r = Inr eid \<longleftrightarrow> in_state (rs_short s) t key eid) \<and> (r = Inl StoreNotFound \<or> (\<exists>eid. r = Inr eid))"
proof (cases "get_shortstatekey (rs_short s) key")
  case None
  then show ?thesis by (auto simp: state_get_id_def state_get_shortid_def in_state_def)
next
  case (Some k)
  have inv: "short_inv (rs_short s)" "cache_coherent L (comp_diffs (rs_comp s)) (comp_cache (rs_comp s))"
    using assms(2) by (simp_all add: store_inv_def rs_short_def)
  obtain stack c where load: "load_shortstatehash_info L (comp_diffs (rs_comp s)) h (comp_cache (rs_comp s)) = Some (Inr stack, c)"
    "stack \<noteq> []" "top_state stack = t"
    using load_good [OF assms(1) inv(2) assms(3)] by metis
  have fin: "finite t" using good_state_ok [OF assms(3)] by (simp add: state_ok_def)
  note nxt = range_next_state [OF fin assms(4,5), of k]
  have full: "load_full_state L h s = Some (Inr t, set_cache c s)"
    using load by (simp add: load_full_state_def top_state_def)
  show ?thesis
  proof (cases "range_next (compress_state_event k 0) (compress_state_event k (- 1)) t")
    case none: None
    then have "\<not> in_state (rs_short s) t key eid" for eid
      using nxt Some by (auto simp: in_state_def)
    then show ?thesis using Some full none by (simp add: state_get_id_def state_get_shortid_def)
  next
    case v: (Some v)
    then obtain e where e: "v = compress_state_event k e" "v \<in> t" using nxt by blast
    then obtain eid where eid: "get_shorteventid (rs_short s) eid = Some e"
      using assms(5) unfolding numbered_state_def by fastforce
    then have name: "get_eventid_from_short (rs_short s) e = Some eid"
      using inv(1) by (auto simp: short_inv_def inverse_tables_def get_shorteventid_def get_eventid_from_short_def)
    from Some eid e have "in_state (rs_short s) t key eid" by (auto simp: in_state_def)
    then have sole: "in_state (rs_short s) t key x \<longleftrightarrow> x = eid" for x
      using in_state_unique [OF inv(1) assms(4)] by blast
    have "state_get_id L h key s = Some (Inr eid, set_cache c s)"
      using Some full v name by (simp add: state_get_id_def state_get_shortid_def e(1) rs_short_def set_cache_def)
    then show ?thesis using sole by auto
  qed
qed

section \<open>Appending to the state\<close>

lemma key_inj: "short_inv s \<Longrightarrow> get_shortstatekey s a = Some i \<Longrightarrow> get_shortstatekey s b = Some i \<Longrightarrow> a = b"
  unfolding short_inv_def get_shortstatekey_def by (blast intro: table_ok_inj)

lemma event_inj: "short_inv s \<Longrightarrow> get_shorteventid s a = Some i \<Longrightarrow> get_shorteventid s b = Some i \<Longrightarrow> a = b"
  unfolding short_inv_def get_shorteventid_def by (blast intro: table_ok_inj)

lemma in_state_ext:
  assumes "short_ext short short'" "numbered_state short t"
  shows "in_state short' t key eid \<longleftrightarrow> in_state short t key eid"
proof
  assume "in_state short' t key eid"
  then obtain k e where ke: "get_shortstatekey short' key = Some k" "get_shorteventid short' eid = Some e"
    "compress_state_event k e \<in> t" by (auto simp: in_state_def)
  then obtain key2 eid2 where old: "get_shortstatekey short key2 = Some k" "get_shorteventid short eid2 = Some e"
    using assms(2) unfolding numbered_state_def by fastforce
  have inv: "short_inv short'" using assms(1) by (simp add: short_ext_def)
  have "key2 = key" using key_inj [OF inv ext_lookup(2) [OF assms(1) old(1)] ke(1)] .
  moreover have "eid2 = eid" using event_inj [OF inv ext_lookup(1) [OF assms(1) old(2)] ke(2)] .
  ultimately show "in_state short t key eid" using old ke(3) by (auto simp: in_state_def)
next
  assume "in_state short t key eid"
  then show "in_state short' t key eid" unfolding in_state_def using ext_lookup [OF assms(1)] by blast
qed

definition appended :: "TypeStateKey \<Rightarrow> EventId \<Rightarrow> short_data \<Rightarrow> CompressedState \<Rightarrow> short_data \<Rightarrow> CompressedState \<Rightarrow> bool" where
  "appended key event short t short' t' \<longleftrightarrow> one_per_key t' \<and> numbered_state short' t'
     \<and> (\<forall>key' eid. in_state short' t' key' eid \<longleftrightarrow> (if key' = key then eid = event else in_state short t key' eid))"

lemma appendedI:
  assumes "short_ext short short'" "get_shortstatekey short' key = Some k" "get_shorteventid short' event = Some e"
    "one_per_key t" "numbered_state short t"
    "t' = insert (compress_state_event k e) {v \<in> t. take 8 v \<noteq> to_be_bytes k}"
  shows "appended key event short t short' t'"
proof -
  have inv: "short_inv short'" using assms(1) by (simp add: short_ext_def)
  have num: "numbered_state short' t" by (rule numbered_ext [OF assms(1,5)])
  have "one_per_key t'" using assms(4) by (auto simp: one_per_key_def assms(6))
  moreover have "numbered_state short' t'"
    unfolding numbered_state_def assms(6) using num [unfolded numbered_state_def] assms(2,3) by blast
  moreover have "in_state short' t' key' eid \<longleftrightarrow> (if key' = key then eid = event else in_state short t key' eid)" for key' eid
  proof (cases "key' = key")
    case True
    then have "in_state short' t' key' eid \<longleftrightarrow> get_shorteventid short' eid = Some e"
      using assms(2) by (auto simp: in_state_def assms(6))
    moreover have "get_shorteventid short' eid = Some e \<longleftrightarrow> eid = event"
      using event_inj [OF inv, of eid e event] assms(3) by blast
    ultimately show ?thesis using True by simp
  next
    case False
    then have "k' \<noteq> k" if "get_shortstatekey short' key' = Some k'" for k' using key_inj [OF inv that] assms(2) by blast
    then have "in_state short' t' key' eid \<longleftrightarrow> in_state short' t key' eid"
      by (auto simp: in_state_def assms(6) to_be_bytes_inject)
    then show ?thesis using False in_state_ext [OF assms(1,5)] by simp
  qed
  ultimately show ?thesis by (simp add: appended_def)
qed

definition layers_small :: "ShortStateInfo list \<Rightarrow> bool" where
  "layers_small stack \<longleftrightarrow> int (2 * (stack_size stack + 4) * (stack_size stack + 4)) \<le> 18446744073709551615"

lemma numbered_prefix:
  assumes "numbered_state short t" "v \<in> t"
  shows "prefix (to_be_bytes k) v \<longleftrightarrow> take 8 v = to_be_bytes k"
proof -
  obtain k' e where "v = compress_state_event k' e" using numbered_entry [OF assms] by blast
  then show ?thesis by (auto simp: prefix_def compress_state_event_def)
qed

text \<open>The entry that is replaced is the one with the same key, if there is one.\<close>

lemma replaced_entry:
  assumes "stack \<noteq> [] \<or> t = {}" "top_state stack = t" "finite t" "one_per_key t" "numbered_state short t"
  shows "set_option (find_replaced k stack) = {v \<in> t. take 8 v = to_be_bytes k}"
proof (cases "stack = []")
  case True
  with assms(1) show ?thesis by (auto simp: find_replaced_def)
next
  case False
  note found = find_replaced_state [OF False assms(2-4), of k]
  show ?thesis
  proof (intro set_eqI iffI)
    fix v assume "v \<in> set_option (find_replaced k stack)"
    then show "v \<in> {v \<in> t. take 8 v = to_be_bytes k}" using found [of v] numbered_prefix [OF assms(5), of v k] by simp
  next
    fix v assume "v \<in> {v \<in> t. take 8 v = to_be_bytes k}"
    then show "v \<in> set_option (find_replaced k stack)" using found [of v] numbered_prefix [OF assms(5)] by simp
  qed
qed

lemma entry_proper:
  assumes "state_ok t" "one_per_key t" "event_ok new" "new \<notin> t"
  shows "proper_diff t {new} {v \<in> t. take 8 v = take 8 new}" "card {v \<in> t. take 8 v = take 8 new} \<le> 1"
proof -
  have fin: "finite t" using assms(1) by (simp add: state_ok_def)
  then show "proper_diff t {new} {v \<in> t. take 8 v = take 8 new}" using assms by (auto simp: proper_diff_def state_ok_def)
  have "v = w" if "v \<in> t" "take 8 v = take 8 new" "w \<in> t" "take 8 w = take 8 new" for v w
  proof -
    have "take 8 v = take 8 w" using that(2,4) by simp
    with assms(2) that(1,3) show ?thesis unfolding one_per_key_def by blast
  qed
  then show "card {v \<in> t. take 8 v = take 8 new} \<le> 1"
    using fin card_le_Suc0_iff_eq [of "{v \<in> t. take 8 v = take 8 new}"] by auto
qed

definition keeps_states :: "statediffs \<Rightarrow> statediffs \<Rightarrow> bool" where
  "keeps_states db db' \<longleftrightarrow> (\<forall>k u. good_state db k u \<longrightarrow> good_state db' k u)"

lemma save_entry:
  assumes "store_inv L sha256 C" "short_ext (comp_short C) short2" "0 < ids_left short2" "next_count short2 = (h, short3)"
    "parents_ok (comp_diffs C) stack" "state_ok (top_state stack)" "one_per_key (top_state stack)" "layers_small stack"
    "event_ok new" "new \<notin> top_state stack" "cache_coherent L (comp_diffs C) c"
  shows "\<exists>db'. save_state_from_diff h {new} {v \<in> top_state stack. take 8 v = take 8 new} 2 stack (comp_diffs C) = Inr db'
    \<and> store_inv L sha256 (C\<lparr>comp_short := short3, comp_cache := c, comp_diffs := db'\<rparr>)
    \<and> good_state db' h (insert new {v \<in> top_state stack. take 8 v \<noteq> take 8 new}) \<and> keeps_states (comp_diffs C) db'
    \<and> short_ext (comp_short C) short3"
proof -
  let ?t = "top_state stack" and ?db = "comp_diffs C"
  let ?r = "{v \<in> ?t. take 8 v = take 8 new}"
  have inv2: "short_inv short2" using assms(2) by (simp add: short_ext_def)
  note cnt = count_taken [OF inv2 assms(3,4)]
  have ext: "short_ext (comp_short C) short3" by (rule short_ext_trans [OF assms(2) cnt(1)])
  have above: "counter (comp_short C) < h" using assms(2) cnt(2) by (auto simp: short_ext_def)
  then have fresh: "map_of ?db h = None" using assms(1) by (simp add: store_inv_def)
  have nz: "h \<noteq> 0" using above by auto
  note proper = entry_proper [OF assms(6,7,9,10)]
  let ?M = "stack_size stack + 4"
  have M: "stack_size stack + (card {new} + card ?r) \<le> ?M" "2 \<le> ?M" "int (2 * ?M * ?M) \<le> 18446744073709551615"
    using proper(2) assms(8) by (simp_all add: layers_small_def)
  obtain db' where db': "save_state_from_diff h {new} ?r 2 stack ?db = Inr db'"
    using save_state_from_diff_returns [OF assms(5) proper(1) M] by blast
  have "(?t \<union> {new}) - ?r = insert new {v \<in> ?t. take 8 v \<noteq> take 8 new}" using assms(10) by auto
  with save_state_from_diff_stored [OF assms(5) proper(1) fresh nz db']
  have st: "stored h (insert new {v \<in> ?t. take 8 v \<noteq> take 8 new}) ?db db'" by simp
  have "store_inv L sha256 (C\<lparr>comp_short := short3, comp_cache := c, comp_diffs := db'\<rparr>)"
    by (rule store_inv_plain [OF assms(1) ext assms(11) st above cnt(3)])
  moreover have "keeps_states ?db db'" using good_state_keeps [OF st fresh] by (simp add: keeps_states_def)
  ultimately show ?thesis using db' good_state_stored [OF st] ext by blast
qed

text \<open>What is read from the current state of a room.\<close>

definition room_entry :: "'c state_lru \<Rightarrow> 'c room_states \<Rightarrow> RoomId \<Rightarrow> TypeStateKey \<Rightarrow> (StoreError + EventId) option" where
  "room_entry L s room key = map_option fst (room_state_get_id L room key s)"

definition room_holds :: "'c room_states \<Rightarrow> RoomId \<Rightarrow> CompressedState \<Rightarrow> bool" where
  "room_holds s room t \<longleftrightarrow>
     (case get_room_shortstatehash s room of
        None \<Rightarrow> t = {}
      | Some h \<Rightarrow> good_state (comp_diffs (rs_comp s)) h t \<and> one_per_key t \<and> numbered_state (rs_short s) t)"

lemma room_holds_ex: "room_inv L sha256 s \<Longrightarrow> \<exists>t. room_holds s room t"
  by (cases "get_room_shortstatehash s room") (auto simp: room_holds_def room_inv_def room_state_ok_def)

lemma room_holds_parts:
  assumes "room_holds s room t"
  shows "state_ok t" "one_per_key t" "numbered_state (rs_short s) t"
  using assms good_state_ok
  by (auto simp: room_holds_def state_ok_def one_per_key_def numbered_state_def split: option.splits)

lemma room_entry_iff:
  assumes "lru_laws L" "room_inv L sha256 s" "room_holds s room t"
  shows "room_entry L s room key = Some (Inr eid) \<longleftrightarrow> in_state (rs_short s) t key eid"
    "room_entry L s room key = Some (Inl StoreNotFound) \<or> (\<exists>eid. room_entry L s room key = Some (Inr eid))"
proof -
  have "(room_entry L s room key = Some (Inr eid) \<longleftrightarrow> in_state (rs_short s) t key eid)
    \<and> (room_entry L s room key = Some (Inl StoreNotFound) \<or> (\<exists>eid. room_entry L s room key = Some (Inr eid)))"
  proof (cases "get_room_shortstatehash s room")
    case None
    with assms(3) show ?thesis by (simp add: room_entry_def room_state_get_id_def room_holds_def in_state_def)
  next
    case (Some h)
    have st: "store_inv L sha256 (rs_comp s)" "good_state (comp_diffs (rs_comp s)) h t"
      using assms(2,3) Some by (simp_all add: room_inv_def room_holds_def)
    from state_get_id_spec [OF assms(1) st room_holds_parts(2,3) [OF assms(3)], of key] obtain r s'
      where "state_get_id L h key s = Some (r, s')" "\<forall>eid. r = Inr eid \<longleftrightarrow> in_state (rs_short s) t key eid"
        "r = Inl StoreNotFound \<or> (\<exists>eid. r = Inr eid)" by blast
    then show ?thesis using Some by (auto simp: room_entry_def room_state_get_id_def)
  qed
  then show "room_entry L s room key = Some (Inr eid) \<longleftrightarrow> in_state (rs_short s) t key eid"
    "room_entry L s room key = Some (Inl StoreNotFound) \<or> (\<exists>eid. room_entry L s room key = Some (Inr eid))" by blast+
qed

lemma room_entry_eqI:
  assumes "lru_laws L" "room_inv L sha256 s" "room_holds s room t" "room_inv L sha256 s'" "room_holds s' room' t'"
    "\<And>eid. in_state (rs_short s) t key eid \<longleftrightarrow> in_state (rs_short s') t' key eid"
  shows "room_entry L s room key = room_entry L s' room' key"
proof -
  note a = room_entry_iff [OF assms(1-3), where key = key] and b = room_entry_iff [OF assms(1,4,5), where key = key]
  have "room_entry L s room key = Some (Inr eid) \<longleftrightarrow> room_entry L s' room' key = Some (Inr eid)" for eid
    using a(1) b(1) assms(6) by blast
  with a(2) b(2) show ?thesis by metis
qed

definition room_small :: "'c room_states \<Rightarrow> RoomId \<Rightarrow> bool" where
  "room_small s room \<longleftrightarrow> (\<forall>h stack. get_room_shortstatehash s room = Some h \<and> stack_of (comp_diffs (rs_comp s)) h stack
     \<longrightarrow> layers_small stack)"

lemma layers_loaded:
  assumes "lru_laws L" "cache_coherent L (comp_diffs (rs_comp s)) (comp_cache (rs_comp s))"
    "room_holds s room t" "room_small s room" "comp_diffs (rs_comp s') = comp_diffs (rs_comp s)"
    "comp_cache (rs_comp s') = comp_cache (rs_comp s)"
  obtains stack c where "load_room_layers L (get_room_shortstatehash s room) s' = Some (Inr stack, set_cache c s')"
    "cache_coherent L (comp_diffs (rs_comp s)) c" "parents_ok (comp_diffs (rs_comp s)) stack" "top_state stack = t"
    "layers_small stack" "stack = [] \<longleftrightarrow> get_room_shortstatehash s room = None"
proof (cases "get_room_shortstatehash s room")
  case None
  have "set_cache (comp_cache (rs_comp s)) s' = s'" by (simp add: set_cache_def assms(6) [symmetric])
  then show ?thesis using None assms(2,3)
    by (intro that [of "[]" "comp_cache (rs_comp s)"])
      (simp_all add: load_room_layers_def parents_ok_def top_state_def room_holds_def layers_small_def stack_size_def)
next
  case (Some h)
  then have good: "good_state (comp_diffs (rs_comp s)) h t" using assms(3) by (simp add: room_holds_def)
  obtain stack c where st: "load_shortstatehash_info L (comp_diffs (rs_comp s)) h (comp_cache (rs_comp s)) = Some (Inr stack, c)"
    "cache_coherent L (comp_diffs (rs_comp s)) c" "stack \<noteq> []" "top_state stack = t"
    "parents_ok (comp_diffs (rs_comp s)) stack" "stack_of (comp_diffs (rs_comp s)) h stack"
    by (rule load_good [OF assms(1,2) good])
  show ?thesis
  proof (rule that)
    show "load_room_layers L (get_room_shortstatehash s room) s' = Some (Inr stack, set_cache c s')"
      using st(1) Some by (simp add: load_room_layers_def assms(5,6))
    show "layers_small stack" using assms(4) Some st(6) by (auto simp: room_small_def)
  qed (use st Some in simp_all)
qed

lemma append_state_entry_spec:
  assumes "store_inv L sha256 (rs_comp s)" "2 \<le> ids_left (rs_short s)" "get_shorteventid (rs_short s) event = Some e"
    "parents_ok (comp_diffs (rs_comp s)) stack" "layers_small stack" "one_per_key (top_state stack)"
    "numbered_state (rs_short s) (top_state stack)" "stack = [] \<longleftrightarrow> previous = None"
    "\<And>p. previous = Some p \<Longrightarrow> good_state (comp_diffs (rs_comp s)) p (top_state stack)"
  shows "\<exists>h s' t'. append_state_entry previous event key stack s = (Inr h, s') \<and> store_inv L sha256 (rs_comp s')
    \<and> short_ext (rs_short s) (rs_short s') \<and> good_state (comp_diffs (rs_comp s')) h t'
    \<and> appended key event (rs_short s) (top_state stack) (rs_short s') t'
    \<and> keeps_states (comp_diffs (rs_comp s)) (comp_diffs (rs_comp s'))
    \<and> (\<exists>C. s' = s\<lparr>rs_comp := C\<rparr>)"
proof -
  let ?t = "top_state stack" and ?C = "rs_comp s"
  have inv: "short_inv (rs_short s)" "cache_coherent L (comp_diffs ?C) (comp_cache ?C)"
    using assms(1) by (simp_all add: store_inv_def rs_short_def)
  obtain k short1 where k: "get_or_create_shortstatekey key (rs_short s) = (k, short1)" by fastforce
  note key = key_numbered [OF inv(1) _ k]
  have ext1: "short_ext (rs_short s) short1" and kk: "get_shortstatekey short1 key = Some k" and left: "1 \<le> ids_left short1"
    using key assms(2) by auto
  have inv1: "short_inv short1" using ext1 by (simp add: short_ext_def)
  have ee: "get_shorteventid short1 event = Some e" using ext_lookup(1) [OF ext1 assms(3)] .
  let ?new = "compress_state_event k e"
  have new: "compress_one_state_event k event short1 = (?new, short1)"
    using events.found [OF ee] by (simp add: compress_one_state_event_def)
  have st: "state_ok ?t" using assms(4) good_layers_state_ok by (auto simp: parents_ok_def)
  then have fin: "finite ?t" by (simp add: state_ok_def)
  have rep: "set_option (find_replaced k stack) = {v \<in> ?t. take 8 v = to_be_bytes k}"
    by (rule replaced_entry [OF _ refl fin assms(6,7)]) (auto simp: top_state_def)
  show ?thesis
  proof (cases "Some ?new = find_replaced k stack")
    case True
    then have "find_replaced k stack = Some ?new" by simp
    with rep have sole: "{v \<in> ?t. take 8 v = to_be_bytes k} = {?new}" by (metis option.set(2))
    then have same: "?t = insert ?new {v \<in> ?t. take 8 v \<noteq> to_be_bytes k}" by blast
    have "find_replaced k [] = None" by (simp add: find_replaced_def)
    then have "stack \<noteq> []" using True by (metis option.distinct(1))
    then obtain p where p: "previous = Some p" using assms(8) by blast
    have run: "append_state_entry previous event key stack s = (Inr p, set_short short1 s)"
      using k new True p by (simp add: append_state_entry_def)
    have "store_inv L sha256 (rs_comp (set_short short1 s))"
      using store_inv_ext [OF assms(1), of short1 "comp_cache ?C"] ext1 inv(2) by (simp add: set_short_def rs_short_def)
    moreover have "appended key event (rs_short s) ?t short1 ?t"
      by (rule appendedI [OF ext1 kk ee assms(6,7) same])
    ultimately show ?thesis using run assms(9) [OF p] ext1
      by (intro exI [of _ p] exI [of _ "set_short short1 s"] exI [of _ ?t])
        (auto simp: set_short_def rs_short_def keeps_states_def)
  next
    case False
    have notin: "?new \<notin> ?t"
    proof
      assume "?new \<in> ?t"
      then have "?new \<in> set_option (find_replaced k stack)" unfolding rep by simp
      with False show False by (auto simp: elem_set)
    qed
    have nz: "event_ok ?new" by (rule compress_state_event_ok [OF key_not_zero [OF inv1 kk]])
    obtain h short3 where h: "next_count short1 = (h, short3)" by fastforce
    have ext1': "short_ext (comp_short ?C) short1" using ext1 by (simp add: rs_short_def)
    obtain db' where db': "save_state_from_diff h {?new} {v \<in> ?t. take 8 v = take 8 ?new} 2 stack (comp_diffs ?C) = Inr db'"
      "store_inv L sha256 (?C\<lparr>comp_short := short3, comp_cache := comp_cache ?C, comp_diffs := db'\<rparr>)"
      "good_state db' h (insert ?new {v \<in> ?t. take 8 v \<noteq> take 8 ?new})" "keeps_states (comp_diffs ?C) db'"
      "short_ext (comp_short ?C) short3"
      using save_entry [OF assms(1) ext1' _ h assms(4) st assms(6,5) nz notin inv(2)] left by auto
    have ext13: "short_ext short1 short3" using count_taken(1) [OF inv1 _ h] left by simp
    let ?s' = "set_diffs db' (set_short short3 s)"
    have run: "append_state_entry previous event key stack s = (Inr h, ?s')"
      using k new False h rep db'(1) by (simp add: append_state_entry_def set_short_def)
    have "appended key event (rs_short s) ?t short3 (insert ?new {v \<in> ?t. take 8 v \<noteq> to_be_bytes k})"
      by (rule appendedI [OF _ ext_lookup(2) [OF ext13 kk] ext_lookup(1) [OF ext13 ee] assms(6,7) refl])
        (use db'(5) in \<open>simp add: rs_short_def\<close>)
    then show ?thesis using run db'(2-5)
      by (intro exI [of _ h] exI [of _ ?s'] exI [of _ "insert ?new {v \<in> ?t. take 8 v \<noteq> to_be_bytes k}"])
        (auto simp: set_short_def set_diffs_def rs_short_def)
  qed
qed

lemma set_short_hashes [simp]: "shorteventid_shortstatehash (set_short short s) = shorteventid_shortstatehash s"
  by (simp add: set_short_def)

lemma room_holds_keeps:
  assumes "room_holds s room t" "short_ext (rs_short s) (rs_short s')"
    "keeps_states (comp_diffs (rs_comp s)) (comp_diffs (rs_comp s'))"
    "get_room_shortstatehash s' room = get_room_shortstatehash s room"
  shows "room_holds s' room t"
  using assms numbered_ext [OF assms(2)] by (auto simp: room_holds_def keeps_states_def split: option.splits)

text \<open>The states of a service that differ in what one room points to, after numbers and states were added.\<close>

lemma room_inv_moves:
  assumes "room_inv L sha256 s" "store_inv L sha256 (rs_comp s')" "short_ext (rs_short s) (rs_short s')"
    "keeps_states (comp_diffs (rs_comp s)) (comp_diffs (rs_comp s'))"
    "roomid_shortstatehash s' = roomid_shortstatehash s" "room_state_ok (rs_short s') (comp_diffs (rs_comp s')) h"
  shows "room_inv L sha256 (set_room_state room h s')"
proof -
  have "room_state_ok (rs_short s') (comp_diffs (rs_comp s')) k" if "get_room_shortstatehash s r = Some k" for r k
    by (rule room_state_keeps [where db = "comp_diffs (rs_comp s)", OF _ assms(3)])
      (use assms(1,4) that in \<open>auto simp: room_inv_def keeps_states_def\<close>)
  then show ?thesis using assms(2,5,6)
    by (auto simp: room_inv_def set_room_state_def get_room_shortstatehash_def rs_short_def)
qed

lemma append_to_state_run:
  assumes "lru_laws L" "room_inv L sha256 s" "3 \<le> ids_left (rs_short s)" "room_small s room" "room_holds s room t"
  shows "\<exists>h s' t' e. append_to_state L event (Some key) room s = Some (Inr h, s') \<and> store_inv L sha256 (rs_comp s')
    \<and> short_ext (rs_short s) (rs_short s') \<and> good_state (comp_diffs (rs_comp s')) h t'
    \<and> appended key event (rs_short s) t (rs_short s') t'
    \<and> keeps_states (comp_diffs (rs_comp s)) (comp_diffs (rs_comp s'))
    \<and> roomid_shortstatehash s' = roomid_shortstatehash s
    \<and> get_shorteventid (rs_short s') event = Some e
    \<and> map_of (shorteventid_shortstatehash s') =
        (case get_room_shortstatehash s room of
           None \<Rightarrow> map_of (shorteventid_shortstatehash s)
         | Some p \<Rightarrow> (map_of (shorteventid_shortstatehash s))(e \<mapsto> p))"
proof -
  let ?C = "rs_comp s" and ?previous = "get_room_shortstatehash s room"
  have store: "store_inv L sha256 ?C" using assms(2) by (simp add: room_inv_def)
  then have inv: "short_inv (rs_short s)" "cache_coherent L (comp_diffs ?C) (comp_cache ?C)"
    by (simp_all add: store_inv_def rs_short_def)
  obtain e short where e: "get_or_create_shorteventid event (rs_short s) = (e, short)" by fastforce
  note num = event_numbered [OF inv(1) _ e]
  have ext: "short_ext (rs_short s) short" and ee: "get_shorteventid short event = Some e" and left: "2 \<le> ids_left short"
    using num assms(3) by auto
  define s2 where "s2 = (case ?previous of None \<Rightarrow> set_short short s
    | Some p \<Rightarrow> (set_short short s)\<lparr>shorteventid_shortstatehash := hm_insert e p (shorteventid_shortstatehash s)\<rparr>)"
  have s2: "rs_comp s2 = ?C\<lparr>comp_short := short\<rparr>" "roomid_shortstatehash s2 = roomid_shortstatehash s"
    "map_of (shorteventid_shortstatehash s2) = (case ?previous of None \<Rightarrow> map_of (shorteventid_shortstatehash s)
       | Some p \<Rightarrow> (map_of (shorteventid_shortstatehash s))(e \<mapsto> p))"
    by (auto simp: s2_def set_short_def split: option.splits)
  obtain stack c where st: "load_room_layers L ?previous s2 = Some (Inr stack, set_cache c s2)"
    "cache_coherent L (comp_diffs ?C) c" "parents_ok (comp_diffs ?C) stack" "top_state stack = t"
    "layers_small stack" "stack = [] \<longleftrightarrow> ?previous = None"
    by (rule layers_loaded [OF assms(1) inv(2) assms(5,4), of s2]) (simp_all add: s2)
  let ?s3 = "set_cache c s2"
  have s3: "rs_comp ?s3 = ?C\<lparr>comp_short := short, comp_cache := c\<rparr>" "rs_short ?s3 = short"
    by (simp_all add: set_cache_def rs_short_def s2)
  have store3: "store_inv L sha256 (rs_comp ?s3)"
    unfolding s3 by (rule store_inv_ext [OF store _ st(2)]) (use ext in \<open>simp add: rs_short_def\<close>)
  note parts = room_holds_parts [OF assms(5)]
  have "good_state (comp_diffs ?C) p t" if "?previous = Some p" for p using assms(5) that by (simp add: room_holds_def)
  then obtain h s' t' C where run: "append_state_entry ?previous event key stack ?s3 = (Inr h, s')"
    "store_inv L sha256 (rs_comp s')" "short_ext short (rs_short s')" "good_state (comp_diffs (rs_comp s')) h t'"
    "appended key event short t (rs_short s') t'" "keeps_states (comp_diffs ?C) (comp_diffs (rs_comp s'))"
    "s' = ?s3\<lparr>rs_comp := C\<rparr>"
    using append_state_entry_spec [OF store3, of event e stack ?previous key] left ee st parts(2)
      numbered_ext [OF ext parts(3)] by (auto simp: s3)
  have "append_to_state L event (Some key) room s = Some (Inr h, s')"
    using e st(1) run(1) unfolding s2_def by (simp add: append_to_state_def Let_def cong: option.case_cong)
  moreover have "short_ext (rs_short s) (rs_short s')" by (rule short_ext_trans [OF ext run(3)])
  moreover have "appended key event (rs_short s) t (rs_short s') t'"
    using run(5) in_state_ext [OF ext parts(3)] by (simp add: appended_def)
  moreover have "roomid_shortstatehash s' = roomid_shortstatehash s"
    "shorteventid_shortstatehash s' = shorteventid_shortstatehash s2"
    using s2(2) by (simp_all add: run(7) set_cache_def)
  moreover have "get_shorteventid (rs_short s') event = Some e" by (rule ext_lookup(1) [OF run(3) ee])
  ultimately show ?thesis using run(2,4,6) s2(3) by metis
qed

definition appended_to_room :: "'c state_lru \<Rightarrow> (u8 list \<Rightarrow> u8 list) \<Rightarrow> EventId \<Rightarrow> TypeStateKey \<Rightarrow> RoomId \<Rightarrow> 'c room_states \<Rightarrow> 'c room_states \<Rightarrow> bool" where
  "appended_to_room L sha256 event key room s s' \<longleftrightarrow> room_inv L sha256 s'
     \<and> room_entry L s' room = (room_entry L s room)(key := Some (Inr event))
     \<and> (\<forall>room'. room' \<noteq> room \<longrightarrow> room_entry L s' room' = room_entry L s room')
     \<and> (\<forall>p. get_room_shortstatehash s room = Some p \<longrightarrow> pdu_shortstatehash s' event = Some p)"

text \<open>
  C20: A state event is appended to the state of its room by \<open>append_to_state\<close> and \<open>set_room_state\<close>.  When
  three numbers are left and the arithmetic on the sizes of the layers does not overflow, this succeeds and refines the update of a map: reading
  the event's key in the room gives the event, every other key and every other room read as before, the
  invariant of the store is kept, and the state before the event is recorded for the event.
\<close>
theorem append_to_state_correct:
  assumes "lru_laws L" "room_inv L sha256 s" "3 \<le> ids_left (rs_short s)" "room_small s room"
  shows "\<exists>h s'. append_to_state L event (Some key) room s = Some (Inr h, s')
    \<and> appended_to_room L sha256 event key room s (set_room_state room h s')"
proof -
  obtain t where t: "room_holds s room t" using room_holds_ex [OF assms(2)] by blast
  obtain h s' t' e where run: "append_to_state L event (Some key) room s = Some (Inr h, s')"
    "store_inv L sha256 (rs_comp s')" "short_ext (rs_short s) (rs_short s')" "good_state (comp_diffs (rs_comp s')) h t'"
    "appended key event (rs_short s) t (rs_short s') t'" "keeps_states (comp_diffs (rs_comp s)) (comp_diffs (rs_comp s'))"
    "roomid_shortstatehash s' = roomid_shortstatehash s" "get_shorteventid (rs_short s') event = Some e"
    "map_of (shorteventid_shortstatehash s') =
        (case get_room_shortstatehash s room of
           None \<Rightarrow> map_of (shorteventid_shortstatehash s)
         | Some p \<Rightarrow> (map_of (shorteventid_shortstatehash s))(e \<mapsto> p))"
    using append_to_state_run [OF assms t] by metis
  let ?s = "set_room_state room h s'"
  have same: "rs_comp ?s = rs_comp s'" "rs_short ?s = rs_short s'" "shorteventid_shortstatehash ?s = shorteventid_shortstatehash s'"
    by (simp_all add: set_room_state_def rs_short_def)
  have points: "get_room_shortstatehash ?s room = Some h"
    "room' \<noteq> room \<Longrightarrow> get_room_shortstatehash ?s room' = get_room_shortstatehash s room'" for room'
    using run(7) by (simp_all add: set_room_state_def get_room_shortstatehash_def)
  have t': "one_per_key t'" "numbered_state (rs_short s') t'" using run(5) by (simp_all add: appended_def)
  have entries: "in_state (rs_short s') t' key' eid \<longleftrightarrow> (if key' = key then eid = event else in_state (rs_short s) t key' eid)"
    for key' eid using run(5) unfolding appended_def by blast
  have inv: "room_inv L sha256 ?s"
    by (rule room_inv_moves [OF assms(2) run(2,3,6,7)]) (use run(4) t' in \<open>auto simp: room_state_ok_def\<close>)
  have holds: "room_holds ?s room t'" using run(4) t' points(1) by (simp add: room_holds_def same)
  have "room_entry L ?s room key' = ((room_entry L s room)(key := Some (Inr event))) key'" for key'
  proof (cases "key' = key")
    case True
    then show ?thesis using room_entry_iff(1) [OF assms(1) inv holds, of key event] by (simp add: entries same)
  next
    case False
    then show ?thesis using room_entry_eqI [OF assms(1,2) t inv holds, of key'] by (simp add: entries same)
  qed
  moreover have "room_entry L ?s room' = room_entry L s room'" if "room' \<noteq> room" for room'
  proof
    fix key'
    obtain u where u: "room_holds s room' u" using room_holds_ex [OF assms(2)] by blast
    have "room_holds ?s room' u" by (rule room_holds_keeps [OF u]) (use run(3,6) points(2) [OF that] in \<open>simp_all add: same\<close>)
    then show "room_entry L ?s room' key' = room_entry L s room' key'"
      using room_entry_eqI [OF assms(1,2) u inv, of room' u key'] in_state_ext [OF run(3) room_holds_parts(3) [OF u]]
      by (simp add: same)
  qed
  moreover have "pdu_shortstatehash ?s event = Some p" if "get_room_shortstatehash s room = Some p" for p
    using run(8,9) that by (simp add: pdu_shortstatehash_def same)
  ultimately have "appended_to_room L sha256 event key room s ?s" using inv by (auto simp: appended_to_room_def)
  with run(1) show ?thesis by blast
qed

definition demo_rooms :: "(u64 \<Rightarrow> ShortStateInfo list option) room_states" where
  "demo_rooms = \<lparr> rs_comp = \<lparr> comp_short = no_shorts, comp_diffs = [], comp_cache = (\<lambda>_. None) \<rparr>,
     shorteventid_shortstatehash = [], roomid_shortstatehash = [], roomid_pduleaves = [] \<rparr>"

lemma demo_rooms_ok: "room_inv map_cache (\<lambda>x. x) demo_rooms" "room_small demo_rooms room" "3 \<le> ids_left (rs_short demo_rooms)"
  using no_shorts_ok
  by (auto simp: room_inv_def room_small_def demo_rooms_def rs_short_def get_room_shortstatehash_def store_inv_def
      cache_coherent_def lru_all_def map_cache_def get_shortstatehash_def no_shorts_def)

lemma append_to_state_correct_witness:
  "\<exists>h s'. append_to_state map_cache ''$c'' (Some (RoomCreate, '''')) ''!r'' demo_rooms = Some (Inr h, s')
    \<and> appended_to_room map_cache (\<lambda>x. x) ''$c'' (RoomCreate, '''') ''!r'' demo_rooms (set_room_state ''!r'' h s')"
  using append_to_state_correct [OF map_cache_laws demo_rooms_ok(1,3,2)] by blast

end
