(* ===== verification/Reception.thy ===== *)
theory Reception
  imports EventAuth Timeline Sending
begin

text \<open>
  The reception of events from other servers up to their storage as outliers,
  \<^verbatim>\<open>src/service/rooms/event_handler/{parse_incoming_pdu,handle_outlier_pdu,fetch_and_handle_outliers}.rs\<close>.  An event is
  parsed, its size, signatures and room are checked, its auth events are looked up or fetched with their own
  auth events, and the event is stored when \<open>auth_check\<close> allows it on the state its auth events describe.
  The remote server is arbitrary: each request and each reading of the clock takes the next tick, and the
  answer may depend on it.  The two functions call each other to a depth the server decides; the model counts
  it down and returns \<^const>\<open>None\<close> when it is used up, and a theorem gives a depth that is enough.  The main
  theorem is an invariant of the store that holds whatever the server answers: the auth events of every
  known event are known.
\<close>

section \<open>JSON and the environment\<close>

datatype CanonicalJsonValue =
  JNull | JBool bool | JInt int | JString string | JArray "CanonicalJsonValue list"
| JObject "(string \<times> CanonicalJsonValue) list"

type_synonym CanonicalJsonObject = "(string, CanonicalJsonValue) hash_map"

datatype Verified = VerifiedAll | VerifiedSignatures

datatype ReceptionError =
  TooLarge | InvalidParam | PduBadJson | BadServerResponse | Forbidden | RoomUnknown | ReceptionPanic

text \<open>
  What the handler calls and this theory does not define:
  \<^item> \<open>rx_ruma\<close>: identifiers and contents, as everywhere;
  \<^item> \<open>json_len\<close>, \<open>json_bytes\<close>: the length and the bytes of \<open>serde_json::to_string\<close>; \<open>parse_object\<close>, \<open>parse_pdu\<close>: the parsers of
    texts; \<open>de_pdu\<close>: \<open>from_value\<close> at the type of events;
  \<^item> \<open>de_create_version\<close>: the room version in ruma's content of a create event; \<open>parse_version\<close>: \<open>RoomVersionId::from_str\<close>;
  \<^item> \<open>reference_hash\<close>, \<open>redact_json\<close>: the functions of ruma; \<open>verify_event\<close>: the service of server keys;
  \<^item> \<open>remote_event\<close>: what a server answers to a request for an event; \<open>time_at\<close>: the clock;
  \<^item> \<open>timeline_first\<close>: which of the two look-ups of \<open>get_pdu\<close> is faster.
\<close>

record event_env =
  rx_ruma :: ruma
  json_len :: "CanonicalJsonObject \<Rightarrow> nat option"
  json_bytes :: "CanonicalJsonObject \<Rightarrow> u8 list"
  parse_object :: "RawJson \<Rightarrow> CanonicalJsonObject option"
  parse_pdu :: "u8 list \<Rightarrow> Pdu option"
  de_pdu :: "CanonicalJsonObject \<Rightarrow> Pdu option"
  de_create_version :: "RawJson \<Rightarrow> RoomVersionId option"
  parse_version :: "string \<Rightarrow> RoomVersionId option"
  reference_hash :: "CanonicalJsonObject \<Rightarrow> RoomVersionId \<Rightarrow> string option"
  redact_json :: "CanonicalJsonObject \<Rightarrow> RoomVersionId \<Rightarrow> CanonicalJsonObject option"
  verify_event :: "nat \<Rightarrow> CanonicalJsonObject \<Rightarrow> RoomVersionId \<Rightarrow> Verified option"
  remote_event :: "nat \<Rightarrow> ServerName \<Rightarrow> EventId \<Rightarrow> RawJson option"
  time_at :: "nat \<Rightarrow> nat"
  timeline_first :: bool

text \<open>The state the handler works on: the store of events, the failed events with the time and number of tries.\<close>

record reception =
  rc_timeline :: timeline_data
  bad_event_ratelimiter :: "(EventId, nat \<times> nat) hash_map"
  rc_tick :: nat

section \<open>Parsing\<close>

fun as_str :: "CanonicalJsonValue \<Rightarrow> string option" where
  "as_str (JString s) = Some s"
| "as_str _ = None"

fun as_array :: "CanonicalJsonValue \<Rightarrow> CanonicalJsonValue list option" where
  "as_array (JArray vs) = Some vs"
| "as_array _ = None"

fun as_object :: "CanonicalJsonValue \<Rightarrow> CanonicalJsonObject option" where
  "as_object (JObject kvs) = Some kvs"
| "as_object _ = None"

definition gen_event_id :: "event_env \<Rightarrow> CanonicalJsonObject \<Rightarrow> RoomVersionId \<Rightarrow> ReceptionError + EventId" where
  "gen_event_id E value version =
     rbind (ok_or InvalidParam (reference_hash E value version)) (\<lambda>hash.
     if is_event_id (rx_ruma E) (CHR ''$'' # hash) then Inr (CHR ''$'' # hash) else Inl InvalidParam)"

definition gen_event_id_canonical_json ::
    "event_env \<Rightarrow> RawJson \<Rightarrow> RoomVersionId \<Rightarrow> ReceptionError + EventId \<times> CanonicalJsonObject" where
  "gen_event_id_canonical_json E pdu version =
     rbind (ok_or BadServerResponse (parse_object E pdu)) (\<lambda>value.
     rbind (gen_event_id E value version) (\<lambda>event. Inr (event, value)))"

definition extract_room_id :: "event_env \<Rightarrow> string \<Rightarrow> CanonicalJsonObject \<Rightarrow> ReceptionError + RoomId" where
  "extract_room_id E event_type pdu =
     (case Option.bind (map_of pdu ''room_id'') as_str of
        Some room \<Rightarrow> if is_room_id (rx_ruma E) room then Inr room else Inl PduBadJson
      | None \<Rightarrow>
          if event_type \<noteq> ''m.room.create'' \<or> map_of pdu ''state_key'' = None then Inl PduBadJson
          else
            rbind (ok_or InvalidParam (Option.bind (map_of pdu ''content'') as_object)) (\<lambda>c.
            rbind (ok_or PduBadJson (parse_version E
              (case Option.bind (map_of c ''room_version'') as_str of Some v \<Rightarrow> v | None \<Rightarrow> ''1''))) (\<lambda>version.
            if version \<in> {V1, V2, V3, V4, V5, V6, V7, V8, V9, V10, V11} then Inl PduBadJson
            else rbind (gen_event_id E pdu version) (\<lambda>event.
              let room = replace_char (CHR ''$'') (CHR ''!'') event
              in if is_room_id (rx_ruma E) room then Inr room else Inl ReceptionPanic))))"

fun event_id_items :: "event_env \<Rightarrow> CanonicalJsonValue list \<Rightarrow> ReceptionError + EventId list" where
  "event_id_items E [] = Inr []"
| "event_id_items E (v # vs) =
     rbind (ok_or PduBadJson (as_str v)) (\<lambda>s.
     if is_event_id (rx_ruma E) s then rbind (event_id_items E vs) (\<lambda>ids. Inr (s # ids)) else Inl PduBadJson)"

definition expect_event_id_array :: "event_env \<Rightarrow> CanonicalJsonObject \<Rightarrow> string \<Rightarrow> ReceptionError + EventId list" where
  "expect_event_id_array E value field =
     rbind (ok_or PduBadJson (map_of value field)) (\<lambda>v.
     rbind (ok_or PduBadJson (as_array v)) (event_id_items E))"

definition validate_pdu :: "event_env \<Rightarrow> CanonicalJsonObject \<Rightarrow> ReceptionError + unit" where
  "validate_pdu E pdu =
     rbind (expect_event_id_array E pdu ''auth_events'') (\<lambda>auths.
     if length auths > 10 then Inl PduBadJson
     else rbind (expect_event_id_array E pdu ''prev_events'') (\<lambda>prevs.
       if length prevs > 20 then Inl PduBadJson else Inr ()))"

text \<open>\<open>room_version\<close> is what the state of the room says; an unknown room counts as version 1.\<close>

definition parse_incoming_pdu ::
    "event_env \<Rightarrow> (RoomId \<Rightarrow> RoomVersionId option) \<Rightarrow> RawJson \<Rightarrow> ReceptionError + RoomId \<times> EventId \<times> CanonicalJsonObject" where
  "parse_incoming_pdu E room_version pdu =
     rbind (ok_or BadServerResponse (parse_object E pdu)) (\<lambda>value.
     rbind (ok_or InvalidParam (Option.bind (map_of value ''type'') as_str)) (\<lambda>event_type.
     rbind (extract_room_id E event_type value) (\<lambda>room.
     let version = (case room_version room of Some v \<Rightarrow> v | None \<Rightarrow> V1)
     in case gen_event_id_canonical_json E pdu version of
          Inl _ \<Rightarrow> Inl InvalidParam
        | Inr (event, value) \<Rightarrow> rbind (validate_pdu E value) (\<lambda>_. Inr (room, event, value)))))"

definition short_field :: "CanonicalJsonObject \<Rightarrow> string \<Rightarrow> bool" where
  "short_field obj field \<longleftrightarrow> (case map_of obj field of Some (JString s) \<Rightarrow> length s \<le> 255 | _ \<Rightarrow> True)"

definition pdu_fits :: "event_env \<Rightarrow> CanonicalJsonObject \<Rightarrow> bool" where
  "pdu_fits E obj \<longleftrightarrow>
     short_field obj ''room_id'' \<and> short_field obj ''event_id'' \<and> short_field obj ''sender'' \<and> short_field obj ''type''
     \<and> short_field obj ''state_key'' \<and> (case json_len E obj of Some n \<Rightarrow> n \<le> 65535 | None \<Rightarrow> False)"

definition check_room_id :: "RoomId \<Rightarrow> Pdu \<Rightarrow> ReceptionError + unit" where
  "check_room_id room pdu =
     (case room_id pdu of Some claimed \<Rightarrow> if claimed \<noteq> room then Inl InvalidParam else Inr () | None \<Rightarrow> Inr ())"

definition get_room_version_id :: "event_env \<Rightarrow> Pdu \<Rightarrow> ReceptionError + RoomVersionId" where
  "get_room_version_id E create_event = ok_or PduBadJson (de_create_version E (content create_event))"

definition to_room_version :: "RoomVersionId \<Rightarrow> ReceptionError + RoomVersion" where
  "to_room_version version = (case RoomVersion_new version of Inl _ \<Rightarrow> Inl ReceptionPanic | Inr v \<Rightarrow> Inr v)"

section \<open>Ticks and the back-off\<close>

definition rx_get_pdu :: "event_env \<Rightarrow> reception \<Rightarrow> EventId \<Rightarrow> Pdu option" where
  "rx_get_pdu E s event =
     (case get_pdu (timeline_first E) (parse_pdu E) (rc_timeline s) event of Inl _ \<Rightarrow> None | Inr pdu \<Rightarrow> Some pdu)"

definition rx_pdu_exists :: "event_env \<Rightarrow> reception \<Rightarrow> EventId \<Rightarrow> bool" where
  "rx_pdu_exists E s event \<longleftrightarrow> pdu_exists (timeline_first E) (rc_timeline s) event = Inr ()"

definition next_tick :: "reception \<Rightarrow> reception" where
  "next_tick s = s\<lparr>rc_tick := Suc (rc_tick s)\<rparr>"

definition back_off :: "event_env \<Rightarrow> EventId \<Rightarrow> reception \<Rightarrow> reception" where
  "back_off E event s =
     next_tick (s\<lparr>bad_event_ratelimiter := hm_insert event
       (time_at E (rc_tick s),
        case map_of (bad_event_ratelimiter s) event of None \<Rightarrow> 1 | Some (_, tries) \<Rightarrow> u32_saturating_inc tries)
       (bad_event_ratelimiter s)\<rparr>)"

definition backing_off :: "event_env \<Rightarrow> nat \<Rightarrow> nat \<Rightarrow> EventId \<Rightarrow> reception \<Rightarrow> bool \<times> reception" where
  "backing_off E mn mx event s =
     (case map_of (bad_event_ratelimiter s) event of
        None \<Rightarrow> (False, s)
      | Some (time, tries) \<Rightarrow>
          (continue_exponential_backoff_secs mn mx (time_at E (rc_tick s) - time) tries, next_tick s))"

section \<open>One outlier\<close>

text \<open>Steps 1 to 3: size, signatures and hash; an event whose hash is wrong is redacted, unless it is known.\<close>

definition verified_json ::
    "event_env \<Rightarrow> reception \<Rightarrow> RoomVersionId \<Rightarrow> EventId \<Rightarrow> CanonicalJsonObject \<Rightarrow> ReceptionError + CanonicalJsonObject" where
  "verified_json E s version event value =
     (case verify_event E (rc_tick s) value version of
        Some VerifiedAll \<Rightarrow> Inr value
      | Some VerifiedSignatures \<Rightarrow>
          rbind (ok_or InvalidParam (redact_json E value version)) (\<lambda>obj.
          if rx_pdu_exists E s event then Inl InvalidParam else Inr obj)
      | None \<Rightarrow> Inl InvalidParam)"

text \<open>The auth events that are known; one that claims another room is an error.\<close>

fun known_auth_events ::
    "event_env \<Rightarrow> reception \<Rightarrow> RoomId \<Rightarrow> EventId list \<Rightarrow> (EventId, Pdu) hash_map \<Rightarrow> ReceptionError + (EventId, Pdu) hash_map" where
  "known_auth_events E s room [] auths = Inr auths"
| "known_auth_events E s room (aid # aids) auths =
     (case rx_get_pdu E s aid of
        None \<Rightarrow> known_auth_events E s room aids auths
      | Some auth \<Rightarrow>
          rbind (check_room_id room auth) (\<lambda>_. known_auth_events E s room aids (hm_insert aid auth auths)))"

text \<open>The state the auth events describe; two of them for one key are an error.\<close>

fun auth_events_by_key ::
    "RoomId \<Rightarrow> (EventId, Pdu) hash_map \<Rightarrow> EventId list \<Rightarrow> (TypeStateKey, Pdu) hash_map
     \<Rightarrow> ReceptionError + (TypeStateKey, Pdu) hash_map" where
  "auth_events_by_key room auths [] m = Inr m"
| "auth_events_by_key room auths (aid # aids) m =
     rbind (ok_or ReceptionPanic (map_of auths aid)) (\<lambda>auth.
     rbind (check_room_id room auth) (\<lambda>_.
     rbind (ok_or ReceptionPanic (state_key auth)) (\<lambda>key.
     if map_of m (kind auth, key) \<noteq> None then Inl InvalidParam
     else auth_events_by_key room auths aids (hm_insert (kind auth, key) auth m))))"

text \<open>Step 6, and the storage of the event in step 7.\<close>

definition auth_verdict ::
    "event_env \<Rightarrow> RoomVersionId \<Rightarrow> Pdu \<Rightarrow> (TypeStateKey, Pdu) hash_map \<Rightarrow> Pdu \<Rightarrow> ReceptionError + unit" where
  "auth_verdict E version pdu m create_event =
     rbind (to_room_version version) (\<lambda>v.
     case auth_check (rx_ruma E) v pdu None (\<lambda>ty sk. map_of m (ty, sk)) create_event of
       Inl Panic \<Rightarrow> Inl ReceptionPanic
     | Inl _ \<Rightarrow> Inl Forbidden
     | Inr allowed \<Rightarrow> if allowed then Inr () else Inl Forbidden)"

definition admit ::
    "event_env \<Rightarrow> RoomVersionId \<Rightarrow> RoomId \<Rightarrow> Pdu \<Rightarrow> Pdu \<Rightarrow> CanonicalJsonObject \<Rightarrow> (EventId, Pdu) hash_map \<Rightarrow> reception
     \<Rightarrow> (ReceptionError + Pdu \<times> CanonicalJsonObject) \<times> reception" where
  "admit E version room create_event pdu incoming auths s =
     (if \<exists>aid \<in> set (auth_events pdu). map_of auths aid = None then (Inl InvalidParam, s)
      else case rbind (auth_events_by_key room auths (auth_events pdu) [])
                  (\<lambda>m. auth_verdict E version pdu m create_event) of
        Inl e \<Rightarrow> (Inl e, s)
      | Inr _ \<Rightarrow> (Inr (pdu, incoming),
          s\<lparr>rc_timeline := add_pdu_outlier (event_id pdu) (json_bytes E incoming) (rc_timeline s)\<rparr>))"

type_synonym fetcher =
  "EventId list \<Rightarrow> reception \<Rightarrow> ((ReceptionError + (Pdu \<times> CanonicalJsonObject option) list) \<times> reception) option"

text \<open>
  \<open>handle_outlier_pdu\<close>, with the function that fetches missing auth events as an argument.  With \<open>known\<close> set only
  those not found are fetched, otherwise all of them are.
\<close>

definition received_pdu ::
    "event_env \<Rightarrow> RoomId \<Rightarrow> EventId \<Rightarrow> CanonicalJsonObject \<Rightarrow> ReceptionError + Pdu \<times> CanonicalJsonObject" where
  "received_pdu E room event json =
     (let incoming = hm_insert ''event_id'' (JString event) json
      in rbind (ok_or PduBadJson (de_pdu E incoming)) (\<lambda>pdu.
         rbind (check_room_id room pdu) (\<lambda>_. Inr (pdu, incoming))))"

definition add_fetched :: "(Pdu \<times> CanonicalJsonObject option) list \<Rightarrow> (EventId, Pdu) hash_map \<Rightarrow> (EventId, Pdu) hash_map" where
  "add_fetched ps auths = fold (\<lambda>(p, _). hm_insert (event_id p) p) ps auths"

definition handle_outlier_pdu_with ::
    "event_env \<Rightarrow> fetcher \<Rightarrow> Pdu \<Rightarrow> EventId \<Rightarrow> RoomId \<Rightarrow> CanonicalJsonObject \<Rightarrow> bool \<Rightarrow> reception
     \<Rightarrow> ((ReceptionError + Pdu \<times> CanonicalJsonObject) \<times> reception) option" where
  "handle_outlier_pdu_with E fetch create_event event room value known s =
     (if \<not> pdu_fits E value then Some (Inl TooLarge, s)
      else case get_room_version_id E create_event of
        Inl e \<Rightarrow> Some (Inl e, s)
      | Inr version \<Rightarrow>
          (case rbind (verified_json E s version event (AList.delete ''unsigned'' value)) (received_pdu E room event) of
             Inl e \<Rightarrow> Some (Inl e, next_tick s)
           | Inr (pdu, incoming) \<Rightarrow>
               (case known_auth_events E s room (auth_events pdu) [] of
                  Inl e \<Rightarrow> Some (Inl e, next_tick s)
                | Inr auths \<Rightarrow>
                    (let missing = (if known then filter (\<lambda>aid. map_of auths aid = None) (auth_events pdu) else auth_events pdu)
                     in if missing \<noteq> [] \<or> \<not> known then
                          Option.bind (fetch missing (next_tick s)) (\<lambda>(r, s1).
                            case r of
                              Inl e \<Rightarrow> Some (Inl e, s1)
                            | Inr fetched \<Rightarrow>
                                Some (admit E version room create_event pdu incoming
                                  (add_fetched fetched auths) s1))
                        else Some (admit E version room create_event pdu incoming auths (next_tick s))))))"

section \<open>Fetching\<close>

text \<open>
  The auth events an event names are fetched breadth first, before any of them is handled, so that they are
  handled in the reverse order.  \<open>gather_turn\<close> is one turn of the loop: nothing when the event is backed off from,
  gathered or known, and a back-off when the answer cannot be used.  The id that the answer hashes to is
  computed, and a mismatch is only logged.
\<close>

definition auth_ids_of :: "event_env \<Rightarrow> CanonicalJsonObject \<Rightarrow> EventId list" where
  "auth_ids_of E value =
     (case Option.bind (map_of value ''auth_events'') as_array of
        None \<Rightarrow> []
      | Some vs \<Rightarrow> filter (is_event_id (rx_ruma E)) (List.map_filter as_str vs))"

definition gather_turn ::
    "event_env \<Rightarrow> ServerName \<Rightarrow> Pdu \<Rightarrow> EventId \<Rightarrow> (EventId \<times> CanonicalJsonObject) list \<Rightarrow> reception
     \<Rightarrow> CanonicalJsonObject option \<times> reception" where
  "gather_turn E server create_event next_id gathered s =
     (let (skip, s1) = backing_off E (60 * 2) (60 * 60 * 8) next_id s
      in if skip \<or> next_id \<in> fst ` set gathered \<or> rx_pdu_exists E s1 next_id then (None, s1)
         else
           let s2 = next_tick s1
           in case remote_event E (rc_tick s1) server next_id of
                None \<Rightarrow> (None, back_off E next_id s2)
              | Some raw \<Rightarrow>
                  (case rbind (get_room_version_id E create_event) (gen_event_id_canonical_json E raw) of
                     Inl _ \<Rightarrow> (None, back_off E next_id s2)
                   | Inr (calculated_event_id, value) \<Rightarrow> (Some value, s2)))"

partial_function (option) gather ::
    "event_env \<Rightarrow> ServerName \<Rightarrow> Pdu \<Rightarrow> EventId list \<Rightarrow> (EventId \<times> CanonicalJsonObject) list \<Rightarrow> reception
     \<Rightarrow> ((EventId \<times> CanonicalJsonObject) list \<times> reception) option" where
  "gather E server create_event todo gathered s =
     (case todo of
        [] \<Rightarrow> Some (gathered, s)
      | next_id # rest \<Rightarrow>
          (case gather_turn E server create_event next_id gathered s of
             (None, s') \<Rightarrow> gather E server create_event rest gathered s'
           | (Some value, s') \<Rightarrow>
               gather E server create_event (rest @ auth_ids_of E value) (gathered @ [(next_id, value)]) s'))"

fun gather_all ::
    "event_env \<Rightarrow> ServerName \<Rightarrow> Pdu \<Rightarrow> EventId list \<Rightarrow> reception
     \<Rightarrow> ((EventId \<times> Pdu option \<times> (EventId \<times> CanonicalJsonObject) list) list \<times> reception) option" where
  "gather_all E server create_event [] s = Some ([], s)"
| "gather_all E server create_event (event # events) s =
     (case rx_get_pdu E s event of
        Some local_pdu \<Rightarrow>
          Option.bind (gather_all E server create_event events s) (\<lambda>(xs, s').
          Some ((event, Some local_pdu, []) # xs, s'))
      | None \<Rightarrow>
          Option.bind (gather E server create_event [event] [] s) (\<lambda>(gathered, s1).
          Option.bind (gather_all E server create_event events s1) (\<lambda>(xs, s').
          Some ((event, None, gathered) # xs, s'))))"

type_synonym outlier_handler =
  "EventId \<Rightarrow> CanonicalJsonObject \<Rightarrow> reception \<Rightarrow> ((ReceptionError + Pdu \<times> CanonicalJsonObject) \<times> reception) option"

text \<open>The events of one request, oldest first; only the requested one is returned.\<close>

fun handle_fetched ::
    "event_env \<Rightarrow> outlier_handler \<Rightarrow> EventId \<Rightarrow> (EventId \<times> CanonicalJsonObject) list \<Rightarrow> reception
     \<Rightarrow> ((ReceptionError + (Pdu \<times> CanonicalJsonObject option) list) \<times> reception) option" where
  "handle_fetched E handle event [] s = Some (Inr [], s)"
| "handle_fetched E handle event ((next_id, value) # evs) s =
     (let (skip, s1) = backing_off E (5 * 60) (60 * 60 * 24) next_id s
      in if skip then handle_fetched E handle event evs s1
         else Option.bind (handle next_id value s1) (\<lambda>(r, s2).
           case r of
             Inl e \<Rightarrow> if e = ReceptionPanic then Some (Inl e, s2) else handle_fetched E handle event evs (back_off E next_id s2)
           | Inr (pdu, json) \<Rightarrow>
               Option.bind (handle_fetched E handle event evs s2) (\<lambda>(r', s3).
               Some (rbind r' (\<lambda>ps. Inr (if next_id = event then (pdu, Some json) # ps else ps)), s3))))"

fun handle_all ::
    "event_env \<Rightarrow> outlier_handler \<Rightarrow> (EventId \<times> Pdu option \<times> (EventId \<times> CanonicalJsonObject) list) list \<Rightarrow> reception
     \<Rightarrow> ((ReceptionError + (Pdu \<times> CanonicalJsonObject option) list) \<times> reception) option" where
  "handle_all E handle [] s = Some (Inr [], s)"
| "handle_all E handle ((event, local_pdu, gathered) # xs) s =
     Option.bind (handle_fetched E handle event (rev gathered) s) (\<lambda>(r, s1).
       case r of
         Inl e \<Rightarrow> Some (Inl e, s1)
       | Inr handled \<Rightarrow>
           Option.bind (handle_all E handle xs s1) (\<lambda>(r', s2).
           Some (rbind r' (\<lambda>ps. Inr ((case local_pdu of None \<Rightarrow> [] | Some p \<Rightarrow> [(p, None)]) @ handled @ ps)), s2)))"

text \<open>The depth counts how often the two functions may still call each other.\<close>

primrec fetch_and_handle_outliers ::
    "event_env \<Rightarrow> nat \<Rightarrow> ServerName \<Rightarrow> Pdu \<Rightarrow> RoomId \<Rightarrow> fetcher" where
  "fetch_and_handle_outliers E 0 server create_event room = (\<lambda>events s. None)"
| "fetch_and_handle_outliers E (Suc deep) server create_event room = (\<lambda>events s.
     Option.bind (gather_all E server create_event events s) (\<lambda>(found, s1).
     handle_all E (\<lambda>event value.
       handle_outlier_pdu_with E (fetch_and_handle_outliers E deep server create_event room) create_event event room value True)
       found s1))"

definition handle_outlier_pdu ::
    "event_env \<Rightarrow> nat \<Rightarrow> ServerName \<Rightarrow> Pdu \<Rightarrow> EventId \<Rightarrow> RoomId \<Rightarrow> CanonicalJsonObject \<Rightarrow> bool \<Rightarrow> reception
     \<Rightarrow> ((ReceptionError + Pdu \<times> CanonicalJsonObject) \<times> reception) option" where
  "handle_outlier_pdu E deep server create_event event room value known =
     handle_outlier_pdu_with E (fetch_and_handle_outliers E deep server create_event room) create_event event room value known"

section \<open>The store of events\<close>

text \<open>
  What reading back stored JSON gives: an event that was read from an object is read from its bytes too, under the
  id in the object.  This is how serde treats the event type.
\<close>

definition json_laws :: "event_env \<Rightarrow> bool" where
  "json_laws E \<longleftrightarrow>
     (\<forall>obj p. de_pdu E obj = Some p \<longrightarrow> parse_pdu E (json_bytes E obj) = Some p)
     \<and> (\<forall>obj p i. de_pdu E obj = Some p \<and> map_of obj ''event_id'' = Some (JString i) \<longrightarrow> event_id p = i)"

definition knows :: "event_env \<Rightarrow> reception \<Rightarrow> EventId \<Rightarrow> bool" where
  "knows E s event \<longleftrightarrow> rx_get_pdu E s event \<noteq> None"

definition auth_closed :: "event_env \<Rightarrow> reception \<Rightarrow> bool" where
  "auth_closed E s \<longleftrightarrow> (\<forall>event p. rx_get_pdu E s event = Some p \<longrightarrow> event_id p = event \<and> (\<forall>a \<in> set (auth_events p). knows E s a))"

definition store_grows :: "event_env \<Rightarrow> reception \<Rightarrow> reception \<Rightarrow> bool" where
  "store_grows E s s' \<longleftrightarrow> auth_closed E s' \<and> (\<forall>event. knows E s event \<longrightarrow> knows E s' event)"

lemma store_growsD: "store_grows E s s' \<Longrightarrow> auth_closed E s'" "store_grows E s s' \<Longrightarrow> knows E s event \<Longrightarrow> knows E s' event"
  by (simp_all add: store_grows_def)

lemma store_grows_refl: "auth_closed E s \<Longrightarrow> store_grows E s s"
  by (simp add: store_grows_def)

lemma store_grows_trans: "store_grows E a b \<Longrightarrow> store_grows E b c \<Longrightarrow> store_grows E a c"
  by (simp add: store_grows_def)

lemma same_store:
  assumes "rc_timeline s' = rc_timeline s"
  shows "rx_get_pdu E s' = rx_get_pdu E s" "auth_closed E s' = auth_closed E s" "knows E s' = knows E s" "store_grows E s s' = auth_closed E s"
  by (simp_all add: assms rx_get_pdu_def auth_closed_def knows_def store_grows_def fun_eq_iff)

lemma tick_store [simp]: "rc_timeline (next_tick s) = rc_timeline s" "rc_timeline (back_off E e s) = rc_timeline s"
  "backing_off E a b e s = (skip, s') \<Longrightarrow> rc_timeline s' = rc_timeline s"
  by (auto simp: next_tick_def back_off_def backing_off_def split: option.splits)

lemma gather_turn_store: "gather_turn E server cr e g s = (r, s') \<Longrightarrow> rc_timeline s' = rc_timeline s"
  by (auto simp: gather_turn_def Let_def dest: tick_store(3) split: prod.splits if_splits option.splits sum.splits)

lemma gather_keeps:
  assumes "gather E server cr todo g s = Some y"
  shows "rc_timeline (snd y) = rc_timeline s"
proof (rule gather.raw_induct [where P = "\<lambda>E server cr todo g s y. rc_timeline (snd y) = rc_timeline s", OF _ assms])
  fix run :: "event_env \<Rightarrow> ServerName \<Rightarrow> Pdu \<Rightarrow> EventId list \<Rightarrow> (EventId \<times> CanonicalJsonObject) list \<Rightarrow> reception
     \<Rightarrow> ((EventId \<times> CanonicalJsonObject) list \<times> reception) option" and E server cr todo g s y
  assume IH: "\<And>E server cr todo g s y. run E server cr todo g s = Some y \<Longrightarrow> rc_timeline (snd y) = rc_timeline s"
    and step: "(case todo of
        [] \<Rightarrow> Some (g, s)
      | next_id # rest \<Rightarrow>
          (case gather_turn E server cr next_id g s of
             (None, s') \<Rightarrow> run E server cr rest g s'
           | (Some value, s') \<Rightarrow> run E server cr (rest @ auth_ids_of E value) (g @ [(next_id, value)]) s')) = Some y"
  show "rc_timeline (snd y) = rc_timeline s"
  proof (cases todo)
    case Nil
    then show ?thesis using step by auto
  next
    case (Cons e rest)
    obtain r s1 where turn: "gather_turn E server cr e g s = (r, s1)" by fastforce
    have "rc_timeline (snd y) = rc_timeline s1" using step Cons turn by (cases r) (auto dest: IH)
    with gather_turn_store [OF turn] show ?thesis by simp
  qed
qed

lemma gather_store: "gather E server cr todo g s = Some (g', s') \<Longrightarrow> rc_timeline s' = rc_timeline s"
  using gather_keeps by fastforce

lemma gather_all_spec:
  assumes "gather_all E server cr events s = Some (xs, s')"
  shows "rc_timeline s' = rc_timeline s" "(event, Some p, g) \<in> set xs \<Longrightarrow> rx_get_pdu E s event = Some p"
proof -
  have "rc_timeline s' = rc_timeline s \<and> (\<forall>event p g. (event, Some p, g) \<in> set xs \<longrightarrow> rx_get_pdu E s event = Some p)"
    using assms
  proof (induction events arbitrary: s xs)
    case (Cons e events)
    show ?case
    proof (cases "rx_get_pdu E s e")
      case None
      with Cons.prems obtain g s1 ys where g: "gather E server cr [e] [] s = Some (g, s1)"
        "gather_all E server cr events s1 = Some (ys, s')" "xs = (e, None, g) # ys"
        by (auto split: Option.bind_splits)
      have "rc_timeline s1 = rc_timeline s" by (rule gather_store [OF g(1)])
      with Cons.IH [OF g(2)] g(3) show ?thesis by (simp add: same_store(1) [of s1 s])
    next
      case (Some q)
      with Cons.prems obtain ys where "gather_all E server cr events s = Some (ys, s')" "xs = (e, Some q, []) # ys"
        by (auto split: Option.bind_splits)
      with Cons.IH [of s ys] Some show ?thesis by simp
    qed
  qed simp
  then show "rc_timeline s' = rc_timeline s" "(event, Some p, g) \<in> set xs \<Longrightarrow> rx_get_pdu E s event = Some p" by blast+
qed

lemma stored_outlier:
  assumes "json_laws E" "de_pdu E obj = Some p"
    "s' = s\<lparr>rc_timeline := add_pdu_outlier e (json_bytes E obj) (rc_timeline s)\<rparr>"
  shows "e' \<noteq> e \<Longrightarrow> rx_get_pdu E s' e' = rx_get_pdu E s e'"
    "rx_get_pdu E s' e = Some p \<or> (rx_get_pdu E s' e \<noteq> None \<and> rx_get_pdu E s' e = rx_get_pdu E s e)"
proof -
  have parse: "parse_pdu E (json_bytes E obj) = Some p" using assms(1,2) by (simp add: json_laws_def)
  have placed: "get_non_outlier_pdu (parse_pdu E) (rc_timeline s') = get_non_outlier_pdu (parse_pdu E) (rc_timeline s)"
    by (simp add: assms(3) add_pdu_outlier_def get_non_outlier_pdu_def [abs_def] get_pdu_id_def get_pdu_from_id_def [abs_def])
  show "e' \<noteq> e \<Longrightarrow> rx_get_pdu E s' e' = rx_get_pdu E s e'"
    by (simp add: rx_get_pdu_def get_pdu_def placed) (simp add: assms(3) add_pdu_outlier_def get_pdu_outlier_def)
  have "get_pdu_outlier (parse_pdu E) (rc_timeline s') e = Inr p"
    using parse by (simp add: assms(3) add_pdu_outlier_def get_pdu_outlier_def)
  then show "rx_get_pdu E s' e = Some p \<or> (rx_get_pdu E s' e \<noteq> None \<and> rx_get_pdu E s' e = rx_get_pdu E s e)"
    by (auto simp: rx_get_pdu_def get_pdu_def select_ok_def Let_def placed split: sum.splits)
qed

lemma outlier_grows:
  assumes "json_laws E" "auth_closed E s" "de_pdu E obj = Some p" "\<And>a. a \<in> set (auth_events p) \<Longrightarrow> knows E s a"
    "s' = s\<lparr>rc_timeline := add_pdu_outlier (event_id p) (json_bytes E obj) (rc_timeline s)\<rparr>"
  shows "store_grows E s s'" "knows E s' (event_id p)"
proof -
  note new = stored_outlier [OF assms(1,3), OF assms(5)]
  show now: "knows E s' (event_id p)" using new(2) by (auto simp: knows_def)
  have keep: "knows E s' e" if "knows E s e" for e
    using that now new(1) [of e] by (cases "e = event_id p") (simp_all add: knows_def)
  have "event_id q = e \<and> (\<forall>a \<in> set (auth_events q). knows E s' a)" if q: "rx_get_pdu E s' e = Some q" for e q
  proof (cases "rx_get_pdu E s e = Some q")
    case True
    then show ?thesis using assms(2) keep by (auto simp: auth_closed_def)
  next
    case False
    then have "e = event_id p" using q new(1) [of e] by auto
    with False q new(2) have "q = p" by auto
    with \<open>e = event_id p\<close> show ?thesis using assms(4) keep by simp
  qed
  then show "store_grows E s s'" using keep by (auto simp: store_grows_def auth_closed_def)
qed

lemma admit_cases:
  assumes "admit E version room cr pdu incoming auths s = (r, s')"
  obtains e where "r = Inl e" "s' = s"
  | m where "r = Inr (pdu, incoming)" "\<forall>a \<in> set (auth_events pdu). map_of auths a \<noteq> None"
      "auth_events_by_key room auths (auth_events pdu) [] = Inr m" "auth_verdict E version pdu m cr = Inr ()"
      "s' = s\<lparr>rc_timeline := add_pdu_outlier (event_id pdu) (json_bytes E incoming) (rc_timeline s)\<rparr>"
proof (cases "\<exists>a \<in> set (auth_events pdu). map_of auths a = None")
  case True
  then show ?thesis using assms that(1) by (auto simp: admit_def)
next
  case False
  note all = this
  show ?thesis
  proof (cases "auth_events_by_key room auths (auth_events pdu) []")
    case (Inl e)
    then show ?thesis using assms all that(1) by (auto simp: admit_def)
  next
    case m: (Inr m)
    show ?thesis
    proof (cases "auth_verdict E version pdu m cr")
      case (Inl e)
      then show ?thesis using assms all m that(1) by (auto simp: admit_def)
    next
      case (Inr u)
      then have v: "auth_verdict E version pdu m cr = Inr ()" by simp
      have "admit E version room cr pdu incoming auths s = (Inr (pdu, incoming),
          s\<lparr>rc_timeline := add_pdu_outlier (event_id pdu) (json_bytes E incoming) (rc_timeline s)\<rparr>)"
        using all m v by (simp add: admit_def)
      with assms have "r = Inr (pdu, incoming)"
        "s' = s\<lparr>rc_timeline := add_pdu_outlier (event_id pdu) (json_bytes E incoming) (rc_timeline s)\<rparr>" by simp_all
      moreover have "\<forall>a \<in> set (auth_events pdu). map_of auths a \<noteq> None" using all by simp
      ultimately show ?thesis using that(2) m v by blast
    qed
  qed
qed

lemma admit_grows:
  assumes "json_laws E" "auth_closed E s" "de_pdu E incoming = Some pdu" "\<And>a q. map_of auths a = Some q \<Longrightarrow> knows E s a"
    "admit E version room cr pdu incoming auths s = (r, s')"
  shows "store_grows E s s' \<and> (\<forall>p j. r = Inr (p, j) \<longrightarrow> knows E s' (event_id p))"
  using assms(5)
proof (cases rule: admit_cases)
  case (1 e)
  with store_grows_refl [OF assms(2)] show ?thesis by simp
next
  case (2 m)
  have "knows E s a" if a: "a \<in> set (auth_events pdu)" for a
  proof -
    obtain q where "map_of auths a = Some q" using 2(2) a by blast
    then show ?thesis by (rule assms(4))
  qed
  from outlier_grows [OF assms(1-3) this 2(5)] 2(1) show ?thesis by simp
qed

lemma known_auth_events_known:
  assumes "known_auth_events E s room aids auths0 = Inr auths" "\<And>a q. map_of auths0 a = Some q \<Longrightarrow> knows E s a"
    "map_of auths a = Some q"
  shows "knows E s a"
  using assms
proof (induction aids arbitrary: auths0)
  case (Cons aid aids)
  show ?case
  proof (cases "rx_get_pdu E s aid")
    case None
    then show ?thesis using Cons by simp
  next
    case (Some p)
    with Cons.prems(1) have "known_auth_events E s room aids (hm_insert aid p auths0) = Inr auths"
      by (simp add: result_simps)
    then show ?thesis
    proof (rule Cons.IH [OF _ _ Cons.prems(3)])
      fix b q assume "map_of (hm_insert aid p auths0) b = Some q"
      then show "knows E s b" using Cons.prems(2) [of b q] Some by (cases "b = aid") (simp_all add: knows_def)
    qed
  qed
qed simp

lemma handle_outlier_cases:
  assumes "handle_outlier_pdu_with E f cr event room value k s = Some (r, s')"
  obtains e where "r = Inl e" "rc_timeline s' = rc_timeline s"
  | e missing where "r = Inl e" "f missing (next_tick s) = Some (Inl e, s')"
  | version json pdu incoming auths auths' s1 where "pdu_fits E value" "get_room_version_id E cr = Inr version"
      "verified_json E s version event (AList.delete ''unsigned'' value) = Inr json"
      "received_pdu E room event json = Inr (pdu, incoming)" "known_auth_events E s room (auth_events pdu) [] = Inr auths"
      "(auths' = auths \<and> s1 = next_tick s) \<or> (\<exists>missing ps. f missing (next_tick s) = Some (Inr ps, s1) \<and> auths' = add_fetched ps auths)"
      "admit E version room cr pdu incoming auths' s1 = (r, s')"
proof (cases "pdu_fits E value")
  case False
  then show ?thesis using assms that(1) by (auto simp: handle_outlier_pdu_with_def)
next
  case fits: True
  show ?thesis
  proof (cases "get_room_version_id E cr")
    case (Inl e)
    then show ?thesis using assms that(1) fits by (auto simp: handle_outlier_pdu_with_def)
  next
    case version: (Inr version)
    show ?thesis
    proof (cases "rbind (verified_json E s version event (AList.delete ''unsigned'' value)) (received_pdu E room event)")
      case (Inl e)
      then have "r = Inl e" "s' = next_tick s" using assms fits version by (simp_all add: handle_outlier_pdu_with_def)
      then show ?thesis using that(1) [of e] by simp
    next
      case parsed: (Inr x)
      obtain pdu incoming where x: "x = (pdu, incoming)" by fastforce
      from parsed obtain json where json: "verified_json E s version event (AList.delete ''unsigned'' value) = Inr json"
        "received_pdu E room event json = Inr (pdu, incoming)" unfolding x by (auto simp: result_simps)
      show ?thesis
      proof (cases "known_auth_events E s room (auth_events pdu) []")
        case (Inl e)
        then show ?thesis using assms that(1) fits version parsed x by (auto simp: handle_outlier_pdu_with_def)
      next
        case auths: (Inr auths)
        define missing where "missing = (if k then filter (\<lambda>aid. map_of auths aid = None) (auth_events pdu) else auth_events pdu)"
        have run: "(if missing \<noteq> [] \<or> \<not> k then
            Option.bind (f missing (next_tick s)) (\<lambda>(r, s1).
              case r of Inl e \<Rightarrow> Some (Inl e, s1)
              | Inr ps \<Rightarrow> Some (admit E version room cr pdu incoming (add_fetched ps auths) s1))
            else Some (admit E version room cr pdu incoming auths (next_tick s))) = Some (r, s')"
          using assms fits version parsed x auths
          by (simp add: handle_outlier_pdu_with_def missing_def [symmetric] Let_def split: if_splits)
        show ?thesis
        proof (cases "missing \<noteq> [] \<or> \<not> k")
          case False
          with run that(3) [OF fits version json auths, of auths "next_tick s"] show ?thesis by simp
        next
          case True
          with run obtain r1 s1 where f: "f missing (next_tick s) = Some (r1, s1)"
            and rest: "(case r1 of Inl e \<Rightarrow> Some (Inl e, s1)
              | Inr ps \<Rightarrow> Some (admit E version room cr pdu incoming (add_fetched ps auths) s1)) = Some (r, s')"
            by (auto split: Option.bind_splits)
          show ?thesis
          proof (cases r1)
            case (Inl e)
            with f rest that(2) show ?thesis by auto
          next
            case (Inr ps)
            with f rest that(3) [OF fits version json auths, of "add_fetched ps auths" s1] show ?thesis by auto
          qed
        qed
      qed
    qed
  qed
qed

definition fetch_ok :: "event_env \<Rightarrow> fetcher \<Rightarrow> bool" where
  "fetch_ok E f \<longleftrightarrow> (\<forall>ids s r s'. auth_closed E s \<and> f ids s = Some (r, s') \<longrightarrow>
     store_grows E s s' \<and> (\<forall>ps p j. r = Inr ps \<and> (p, j) \<in> set ps \<longrightarrow> knows E s' (event_id p)))"

definition handler_ok :: "event_env \<Rightarrow> outlier_handler \<Rightarrow> bool" where
  "handler_ok E h \<longleftrightarrow> (\<forall>e v s r s'. auth_closed E s \<and> h e v s = Some (r, s') \<longrightarrow>
     store_grows E s s' \<and> (\<forall>p j. r = Inr (p, j) \<longrightarrow> knows E s' (event_id p)))"

lemma fetch_okD:
  assumes "fetch_ok E f" "auth_closed E s" "f ids s = Some (r, s')"
  shows "store_grows E s s'" "r = Inr ps \<Longrightarrow> (p, j) \<in> set ps \<Longrightarrow> knows E s' (event_id p)"
  using assms unfolding fetch_ok_def by blast+

lemma handler_okD:
  assumes "handler_ok E h" "auth_closed E s" "h e v s = Some (r, s')"
  shows "store_grows E s s'" "r = Inr (p, j) \<Longrightarrow> knows E s' (event_id p)"
  using assms unfolding handler_ok_def by blast+

lemma add_fetched_keys:
  "map_of (add_fetched ps auths) a = Some q \<Longrightarrow> map_of auths a = Some q \<or> (\<exists>j. (q, j) \<in> set ps \<and> a = event_id q)"
proof (induction ps arbitrary: auths)
  case (Cons x ps)
  obtain p j where x: "x = (p, j)" by fastforce
  have "add_fetched (x # ps) auths = add_fetched ps (hm_insert (event_id p) p auths)" by (simp add: x add_fetched_def)
  with Cons.prems Cons.IH [of "hm_insert (event_id p) p auths"]
  have "map_of (hm_insert (event_id p) p auths) a = Some q \<or> (\<exists>j. (q, j) \<in> set ps \<and> a = event_id q)" by simp
  then show ?case by (cases "a = event_id p") (auto simp: x)
qed (simp add: add_fetched_def)

lemma handle_outlier_ok:
  assumes "json_laws E" "fetch_ok E f"
  shows "handler_ok E (\<lambda>event value. handle_outlier_pdu_with E f cr event room value k)"
  unfolding handler_ok_def
proof (intro allI impI, elim conjE)
  fix event v s r s'
  assume closed: "auth_closed E s" and run: "handle_outlier_pdu_with E f cr event room v k s = Some (r, s')"
  have tick: "auth_closed E (next_tick s)" using closed same_store(2) [OF tick_store(1)] by simp
  have step: "store_grows E s s1" if "store_grows E (next_tick s) s1" for s1
    using that same_store(3) [OF tick_store(1), of E s] by (simp add: store_grows_def)
  show "store_grows E s s' \<and> (\<forall>p j. r = Inr (p, j) \<longrightarrow> knows E s' (event_id p))"
    using run
  proof (cases rule: handle_outlier_cases)
    case (1 e)
    then show ?thesis using closed same_store(4) [OF 1(2)] by simp
  next
    case (2 e missing)
    then show ?thesis using step fetch_okD(1) [OF assms(2) tick 2(2)] by simp
  next
    case (3 version json pdu incoming auths auths' s1)
    have known: "knows E s a" if "map_of auths a = Some q" for a q
      using known_auth_events_known [OF 3(5) _ that] by simp
    have s1: "store_grows E s s1 \<and> (\<forall>a q. map_of auths' a = Some q \<longrightarrow> knows E s1 a)"
      using 3(6)
    proof (elim disjE exE conjE)
      assume "auths' = auths" "s1 = next_tick s"
      then show ?thesis using known closed same_store(3,4) [OF tick_store(1)] by auto
    next
      fix missing ps
      assume f: "f missing (next_tick s) = Some (Inr ps, s1)" and a': "auths' = add_fetched ps auths"
      note fo = fetch_okD [OF assms(2) tick f]
      have g: "store_grows E s s1" by (rule step [OF fo(1)])
      moreover have "knows E s1 a" if "map_of auths' a = Some q" for a q
        using add_fetched_keys [OF that [unfolded a']]
      proof (elim disjE exE conjE)
        assume "map_of auths a = Some q"
        then show ?thesis using store_growsD(2) [OF g] known by blast
      next
        fix j assume "(q, j) \<in> set ps" "a = event_id q"
        then show ?thesis using fo(2) by blast
      qed
      ultimately show ?thesis by blast
    qed
    have "de_pdu E incoming = Some pdu" using 3(4) by (auto simp: received_pdu_def Let_def result_simps)
    with admit_grows [OF assms(1) store_growsD(1) _ _ 3(7), of s] s1 show ?thesis using store_grows_trans by blast
  qed
qed

lemma back_off_grows:
  assumes "store_grows E s s'"
  shows "store_grows E s (next_tick s')" "store_grows E s (back_off E e s')"
  using assms same_store(2,3) [OF tick_store(1), of E s'] same_store(2,3) [OF tick_store(2), of E E e s']
  by (simp_all add: store_grows_def)

lemma handle_fetched_ok:
  assumes "handler_ok E h" "auth_closed E s" "handle_fetched E h event evs s = Some (r, s')"
  shows "store_grows E s s' \<and> (\<forall>ps p j. r = Inr ps \<and> (p, j) \<in> set ps \<longrightarrow> knows E s' (event_id p))"
  using assms(2,3)
proof (induction evs arbitrary: s r)
  case Nil
  then show ?case using store_grows_refl by auto
next
  case (Cons x evs)
  obtain e v where x: "x = (e, v)" by fastforce
  obtain skip s1 where b: "backing_off E (5 * 60) (60 * 60 * 24) e s = (skip, s1)" by fastforce
  have same: "rc_timeline s1 = rc_timeline s" using tick_store(3) [OF b] .
  have c1: "auth_closed E s1" and g1: "store_grows E s s1" using Cons.prems(1) same_store(2,4) [OF same] by simp_all
  show ?case
  proof (cases skip)
    case True
    then have "handle_fetched E h event evs s1 = Some (r, s')" using Cons.prems(2) x b by simp
    from Cons.IH [OF c1 this] show ?thesis using store_grows_trans [OF g1] by blast
  next
    case False
    with Cons.prems(2) x b obtain rh s2 where hd: "h e v s1 = Some (rh, s2)"
      and rest: "(case rh of
             Inl er \<Rightarrow> if er = ReceptionPanic then Some (Inl er, s2) else handle_fetched E h event evs (back_off E e s2)
           | Inr (pdu, json) \<Rightarrow>
               Option.bind (handle_fetched E h event evs s2) (\<lambda>(r', s3).
               Some (rbind r' (\<lambda>ps. Inr (if e = event then (pdu, Some json) # ps else ps)), s3))) = Some (r, s')"
      by (auto split: Option.bind_splits)
    note ok = handler_okD [OF assms(1) c1 hd]
    have g2: "store_grows E s s2" by (rule store_grows_trans [OF g1 ok(1)])
    show ?thesis
    proof (cases rh)
      case (Inl er)
      show ?thesis
      proof (cases "er = ReceptionPanic")
        case True
        then show ?thesis using rest Inl g2 by auto
      next
        case False
        have g3: "store_grows E s (back_off E e s2)" by (rule back_off_grows(2) [OF g2])
        have "handle_fetched E h event evs (back_off E e s2) = Some (r, s')" using rest Inl False by simp
        from Cons.IH [OF store_growsD(1) [OF g3] this] show ?thesis using store_grows_trans [OF g3] by blast
      qed
    next
      case (Inr y)
      obtain pdu json where y: "y = (pdu, json)" by fastforce
      from rest Inr y obtain r' where r': "handle_fetched E h event evs s2 = Some (r', s')"
        "r = rbind r' (\<lambda>ps. Inr (if e = event then (pdu, Some json) # ps else ps))"
        by (auto split: Option.bind_splits)
      note ih = Cons.IH [OF store_growsD(1) [OF g2] r'(1)]
      have k: "knows E s' (event_id pdu)" using ok(2) Inr y store_growsD(2) ih by blast
      have "knows E s' (event_id p)" if "r = Inr ps" "(p, j) \<in> set ps" for ps p j
      proof -
        from that(1) r'(2) obtain ps' where "r' = Inr ps'" "ps = (if e = event then (pdu, Some json) # ps' else ps')"
          by (auto simp: result_simps)
        with that(2) k ih show ?thesis by (auto split: if_splits)
      qed
      then show ?thesis using store_grows_trans [OF g2] ih by blast
    qed
  qed
qed

lemma handle_all_ok:
  assumes "handler_ok E h" "auth_closed E s" "handle_all E h xs s = Some (r, s')"
    "\<And>e p g. (e, Some p, g) \<in> set xs \<Longrightarrow> knows E s (event_id p)"
  shows "store_grows E s s' \<and> (\<forall>ps p j. r = Inr ps \<and> (p, j) \<in> set ps \<longrightarrow> knows E s' (event_id p))"
  using assms(2-4)
proof (induction xs arbitrary: s r)
  case Nil
  then show ?case using store_grows_refl by auto
next
  case (Cons x xs)
  obtain e l g where x: "x = (e, l, g)" by (cases x)
  from Cons.prems(2) x obtain r1 s1 where h: "handle_fetched E h e (rev g) s = Some (r1, s1)"
    and rest: "(case r1 of Inl er \<Rightarrow> Some (Inl er, s1) | Inr handled \<Rightarrow>
           Option.bind (handle_all E h xs s1) (\<lambda>(r', s2).
           Some (rbind r' (\<lambda>ps. Inr ((case l of None \<Rightarrow> [] | Some p \<Rightarrow> [(p, None)]) @ handled @ ps)), s2))) = Some (r, s')"
    by (auto split: Option.bind_splits)
  note one = handle_fetched_ok [OF assms(1) Cons.prems(1) h]
  show ?case
  proof (cases r1)
    case (Inl er)
    then show ?thesis using rest one by auto
  next
    case (Inr handled)
    from rest Inr obtain r' where r': "handle_all E h xs s1 = Some (r', s')"
      "r = rbind r' (\<lambda>ps. Inr ((case l of None \<Rightarrow> [] | Some p \<Rightarrow> [(p, None)]) @ handled @ ps))"
      by (auto split: Option.bind_splits)
    have g1: "store_grows E s s1" using one by blast
    have loc: "knows E s1 (event_id p)" if "(e', Some p, g') \<in> set (x # xs)" for e' p g'
      using store_growsD(2) [OF g1 Cons.prems(3) [OF that]] .
    have ih: "store_grows E s1 s' \<and> (\<forall>ps p j. r' = Inr ps \<and> (p, j) \<in> set ps \<longrightarrow> knows E s' (event_id p))"
      by (rule Cons.IH [OF store_growsD(1) [OF g1] r'(1)]) (use loc in auto)
    have up: "knows E s' a" if "knows E s1 a" for a using store_growsD(2) ih that by blast
    have "knows E s' (event_id p)" if "r = Inr ps" "(p, j) \<in> set ps" for ps p j
    proof -
      from that(1) r'(2) obtain ps' where ps': "r' = Inr ps'" "ps = (case l of None \<Rightarrow> [] | Some p \<Rightarrow> [(p, None)]) @ handled @ ps'"
        by (auto simp: result_simps)
      from that(2) ps'(2) consider "l = Some p" | "(p, j) \<in> set handled" | "(p, j) \<in> set ps'"
        by (auto split: option.splits)
      then show ?thesis
      proof cases
        case 1
        then show ?thesis using loc [of e p g] up x by simp
      next
        case 2
        then show ?thesis using one Inr up by blast
      next
        case 3
        then show ?thesis using ih ps'(1) by blast
      qed
    qed
    then show ?thesis using store_grows_trans [OF g1] ih by blast
  qed
qed

lemma fetch_and_handle_outliers_ok:
  assumes "json_laws E"
  shows "fetch_ok E (fetch_and_handle_outliers E deep server cr room)"
proof (induction deep)
  case 0
  then show ?case by (simp add: fetch_ok_def)
next
  case (Suc deep)
  let ?h = "\<lambda>event value. handle_outlier_pdu_with E (fetch_and_handle_outliers E deep server cr room) cr event room value True"
  have h: "handler_ok E ?h" by (rule handle_outlier_ok [OF assms Suc])
  show ?case
    unfolding fetch_ok_def
  proof (intro allI impI, elim conjE)
    fix ids s r s'
    assume closed: "auth_closed E s" and "fetch_and_handle_outliers E (Suc deep) server cr room ids s = Some (r, s')"
    then obtain xs s1 where all: "gather_all E server cr ids s = Some (xs, s1)" "handle_all E ?h xs s1 = Some (r, s')"
      by (auto split: Option.bind_splits)
    note ga = gather_all_spec [OF all(1)]
    have c1: "auth_closed E s1" using closed same_store(2) [OF ga(1)] by simp
    have loc: "knows E s1 (event_id p)" if "(e, Some p, g) \<in> set xs" for e p g
    proof -
      have found: "rx_get_pdu E s e = Some p" by (rule ga(2) [OF that])
      then have "event_id p = e" using closed unfolding auth_closed_def by blast
      with found show ?thesis using same_store(3) [OF ga(1), of E] by (simp add: knows_def)
    qed
    have res: "store_grows E s1 s' \<and> (\<forall>ps p j. r = Inr ps \<and> (p, j) \<in> set ps \<longrightarrow> knows E s' (event_id p))"
      by (rule handle_all_ok [OF h c1 all(2)]) (rule loc)
    have "store_grows E s s1" using closed same_store(4) [OF ga(1)] by simp
    with res show "store_grows E s s' \<and> (\<forall>ps p j. r = Inr ps \<and> (p, j) \<in> set ps \<longrightarrow> knows E s' (event_id p))"
      using store_grows_trans by blast
  qed
qed







text \<open>
  C18: Whatever another server answers, the store stays closed under auth events: after \<open>handle_outlier_pdu\<close>, successful or
  not, every known event has the id it is stored under and all its auth events are known, and no event gets lost.
\<close>

theorem outliers_closed:
  assumes "json_laws E" "auth_closed E s" "handle_outlier_pdu E deep server cr event room json k s = Some (r, s')"
  shows "auth_closed E s' \<and> (\<forall>e. knows E s e \<longrightarrow> knows E s' e)"
  using handler_okD(1) [OF handle_outlier_ok [OF assms(1) fetch_and_handle_outliers_ok [OF assms(1)]] assms(2)
      assms(3) [unfolded handle_outlier_pdu_def]]
  by (simp add: store_grows_def)

section \<open>Termination\<close>

text \<open>
  A server whose events form a finite acyclic graph: it knows finitely many events, and the auth events it
  gives for one have a smaller rank.  Its answers may change over time.
\<close>

definition answers :: "event_env \<Rightarrow> ServerName \<Rightarrow> EventId \<Rightarrow> CanonicalJsonObject \<Rightarrow> bool" where
  "answers E server e v \<longleftrightarrow> (\<exists>t raw. remote_event E t server e = Some raw \<and> parse_object E raw = Some v)"

definition acyclic_server :: "event_env \<Rightarrow> ServerName \<Rightarrow> RoomId \<Rightarrow> (EventId \<Rightarrow> nat) \<Rightarrow> bool" where
  "acyclic_server E server room rank \<longleftrightarrow>
     finite {e. \<exists>t. remote_event E t server e \<noteq> None}
     \<and> (\<forall>e v. answers E server e v \<longrightarrow>
          (\<forall>a \<in> set (auth_ids_of E v). rank a < rank e)
          \<and> (\<forall>s version json p obj. verified_json E s version e (AList.delete ''unsigned'' v) = Inr json
               \<and> received_pdu E room e json = Inr (p, obj) \<longrightarrow> (\<forall>a \<in> set (auth_events p). rank a < rank e)))"

lemma gather_turn_answers:
  assumes "gather_turn E server cr e g s = (Some v, s')"
  shows "answers E server e v" "e \<notin> fst ` set g" "\<exists>t. remote_event E t server e \<noteq> None"
  using assms
  by (auto simp: gather_turn_def answers_def gen_event_id_canonical_json_def Let_def result_simps
      split: prod.splits if_splits option.splits sum.splits)

lemma gather_returns:
  assumes "acyclic_server E server room rank" "\<forall>e \<in> set todo. rank e < n" "\<forall>(e, v) \<in> set g. answers E server e v \<and> rank e < n"
  shows "\<exists>g' s'. gather E server cr todo g s = Some (g', s') \<and> (\<forall>(e, v) \<in> set g'. answers E server e v \<and> rank e < n)"
  using assms(2,3)
proof (induction "(card ({e. \<exists>t. remote_event E t server e \<noteq> None} - fst ` set g), length todo)" arbitrary: todo g s
    rule: wf_induct_rule [OF wf_lex_prod [OF wf_less_than wf_less_than]])
  case 1
  note less = 1(1) and small = 1(2,3)
  let ?F = "{e. \<exists>t. remote_event E t server e \<noteq> None}"
  have fin: "finite ?F" using assms(1) by (simp add: acyclic_server_def)
  show ?case
  proof (cases todo)
    case Nil
    then show ?thesis using small(2) by (subst gather.simps) simp
  next
    case (Cons e rest)
    obtain r s1 where turn: "gather_turn E server cr e g s = (r, s1)" by fastforce
    show ?thesis
    proof (cases r)
      case None
      have "\<exists>g' s'. gather E server cr rest g s1 = Some (g', s') \<and> (\<forall>(e, v) \<in> set g'. answers E server e v \<and> rank e < n)"
        by (rule less) (use Cons small in auto)
      then show ?thesis using turn None Cons by (subst gather.simps) simp
    next
      case (Some v)
      note ans = gather_turn_answers [OF turn [unfolded Some]]
      have "card (?F - insert e (fst ` set g)) < card (?F - fst ` set g)"
        by (rule psubset_card_mono) (use fin ans(2,3) in auto)
      moreover have "\<forall>a \<in> set (auth_ids_of E v). rank a < n"
        using assms(1) ans(1) small(1) Cons unfolding acyclic_server_def by fastforce
      ultimately have "\<exists>g' s'. gather E server cr (rest @ auth_ids_of E v) (g @ [(e, v)]) s1 = Some (g', s')
          \<and> (\<forall>(e, v) \<in> set g'. answers E server e v \<and> rank e < n)"
        by (intro less) (use Cons small ans(1) in auto)
      then show ?thesis using turn Some Cons by (subst gather.simps) simp
    qed
  qed
qed

lemma gather_all_returns:
  assumes "acyclic_server E server room rank" "\<forall>e \<in> set ids. rank e < n"
  shows "\<exists>xs s'. gather_all E server cr ids s = Some (xs, s')
    \<and> (\<forall>(i, l, g) \<in> set xs. \<forall>(e, v) \<in> set g. answers E server e v \<and> rank e < n)"
  using assms(2)
proof (induction ids arbitrary: s)
  case (Cons e ids)
  show ?case
  proof (cases "rx_get_pdu E s e")
    case None
    obtain g s1 where g: "gather E server cr [e] [] s = Some (g, s1)" "\<forall>(e, v) \<in> set g. answers E server e v \<and> rank e < n"
      using gather_returns [OF assms(1), of "[e]" n "[]" cr s] Cons.prems by auto
    obtain xs s' where "gather_all E server cr ids s1 = Some (xs, s')"
      "\<forall>(i, l, g) \<in> set xs. \<forall>(e, v) \<in> set g. answers E server e v \<and> rank e < n"
      using Cons.IH [of s1] Cons.prems by auto
    then show ?thesis using None g by auto
  next
    case (Some p)
    obtain xs s' where "gather_all E server cr ids s = Some (xs, s')"
      "\<forall>(i, l, g) \<in> set xs. \<forall>(e, v) \<in> set g. answers E server e v \<and> rank e < n"
      using Cons.IH [of s] Cons.prems by auto
    then show ?thesis using Some by auto
  qed
qed simp

lemma handle_fetched_returns:
  assumes "\<And>e v s. (e, v) \<in> set evs \<Longrightarrow> h e v s \<noteq> None"
  shows "handle_fetched E h event evs s \<noteq> None"
  using assms
proof (induction evs arbitrary: s)
  case (Cons x evs)
  obtain e v where x: "x = (e, v)" by fastforce
  obtain skip s1 where b: "backing_off E 300 86400 e s = (skip, s1)" by fastforce
  have rec: "handle_fetched E h event evs s' \<noteq> None" for s' using Cons.IH Cons.prems by simp
  obtain r s2 where hd: "h e v s1 = Some (r, s2)" using Cons.prems [of e v s1] x by auto
  obtain r3 s3 where r3: "handle_fetched E h event evs s2 = Some (r3, s3)" using rec [of s2] by auto
  show ?case using rec hd r3 by (cases skip; cases r) (auto simp: x b)
qed simp

lemma handle_all_returns:
  assumes "\<And>i l g e v s. (i, l, g) \<in> set xs \<Longrightarrow> (e, v) \<in> set g \<Longrightarrow> h e v s \<noteq> None"
  shows "handle_all E h xs s \<noteq> None"
  using assms
proof (induction xs arbitrary: s)
  case (Cons x xs)
  obtain i l g where x: "x = (i, l, g)" by (cases x)
  have "handle_fetched E h i (rev g) s \<noteq> None"
    by (rule handle_fetched_returns) (use Cons.prems [of i l g] x in simp)
  then obtain r s1 where r: "handle_fetched E h i (rev g) s = Some (r, s1)" by auto
  obtain r' s2 where r': "handle_all E h xs s1 = Some (r', s2)" using Cons.IH [of s1] Cons.prems by fastforce
  show ?case using r r' by (cases r) (simp_all add: x)
qed simp

lemma handle_outlier_returns:
  assumes "\<And>version json p obj missing. verified_json E s version event (AList.delete ''unsigned'' v) = Inr json \<Longrightarrow>
      received_pdu E room event json = Inr (p, obj) \<Longrightarrow> missing \<noteq> [] \<Longrightarrow> set missing \<subseteq> set (auth_events p) \<Longrightarrow>
      f missing (next_tick s) \<noteq> None"
  shows "handle_outlier_pdu_with E f cr event room v True s \<noteq> None"
proof (cases "pdu_fits E v")
  case False
  then show ?thesis by (simp add: handle_outlier_pdu_with_def)
next
  case fits: True
  show ?thesis
  proof (cases "get_room_version_id E cr")
    case (Inl e)
    then show ?thesis using fits by (simp add: handle_outlier_pdu_with_def)
  next
    case version: (Inr version)
    show ?thesis
    proof (cases "rbind (verified_json E s version event (AList.delete ''unsigned'' v)) (received_pdu E room event)")
      case (Inl e)
      then show ?thesis using fits version by (simp add: handle_outlier_pdu_with_def)
    next
      case parsed: (Inr x)
      obtain p obj where x: "x = (p, obj)" by fastforce
      from parsed obtain json where json: "verified_json E s version event (AList.delete ''unsigned'' v) = Inr json"
        "received_pdu E room event json = Inr (p, obj)" unfolding x by (auto simp: result_simps)
      show ?thesis
      proof (cases "known_auth_events E s room (auth_events p) []")
        case (Inl e)
        then show ?thesis using fits version parsed x by (simp add: handle_outlier_pdu_with_def)
      next
        case auths: (Inr auths)
        define missing where "missing = filter (\<lambda>aid. map_of auths aid = None) (auth_events p)"
        have run: "handle_outlier_pdu_with E f cr event room v True s = (if missing \<noteq> [] then
            Option.bind (f missing (next_tick s)) (\<lambda>(r, s1).
              case r of Inl e \<Rightarrow> Some (Inl e, s1)
              | Inr fetched \<Rightarrow> Some (admit E version room cr p obj (add_fetched fetched auths) s1))
            else Some (admit E version room cr p obj auths (next_tick s)))"
          using fits version parsed x auths
          by (simp add: handle_outlier_pdu_with_def missing_def [symmetric] Let_def)
        have "f missing (next_tick s) \<noteq> None" if "missing \<noteq> []"
          by (rule assms [OF json that]) (auto simp: missing_def)
        then show ?thesis unfolding run by (auto split: sum.splits)
      qed
    qed
  qed
qed

text \<open>
  C19: Fetching missing events returns when the server's events form a finite acyclic graph, whatever it answers
  otherwise and however the clock runs: the nesting of the two handlers is at most the rank of the requested
  events.
\<close>

theorem fetch_outliers_returns:
  assumes "acyclic_server E server room rank" "\<forall>e \<in> set ids. rank e < deep" "0 < deep"
  shows "\<exists>r s'. fetch_and_handle_outliers E deep server cr room ids s = Some (r, s')"
  using assms(2,3)
proof (induction deep arbitrary: ids s)
  case (Suc deep)
  let ?h = "\<lambda>event value. handle_outlier_pdu_with E (fetch_and_handle_outliers E deep server cr room) cr event room value True"
  obtain xs s1 where xs: "gather_all E server cr ids s = Some (xs, s1)"
    "\<forall>(i, l, g) \<in> set xs. \<forall>(e, v) \<in> set g. answers E server e v \<and> rank e < Suc deep"
    using gather_all_returns [OF assms(1) Suc.prems(1)] by blast
  have hd: "?h e v s' \<noteq> None" if ev: "(i, l, g) \<in> set xs" "(e, v) \<in> set g" for i l g e v s'
  proof (rule handle_outlier_returns)
    fix version json p obj missing
    assume m: "verified_json E s' version e (AList.delete ''unsigned'' v) = Inr json"
      "received_pdu E room e json = Inr (p, obj)" "missing \<noteq> []" "set missing \<subseteq> set (auth_events p)"
    have ans: "answers E server e v" "rank e < Suc deep" using xs(2) ev by auto
    have "\<forall>a \<in> set (auth_events p). rank a < rank e"
      using assms(1) ans(1) m(1,2) unfolding acyclic_server_def by blast
    then have small: "\<forall>a \<in> set missing. rank a < deep" using m(4) ans(2) by fastforce
    then have "0 < deep" using m(3) by (cases missing) auto
    from Suc.IH [OF small this] show "fetch_and_handle_outliers E deep server cr room missing (next_tick s') \<noteq> None" by force
  qed
  have "handle_all E ?h xs s1 \<noteq> None" by (rule handle_all_returns) (rule hd)
  then show ?case using xs(1) by auto
qed simp

text \<open>The loop by the shape of its queue, for evaluation.\<close>

declare gather.simps [code del]

lemma gather_code [code]:
  "gather E server cr [] g s = Some (g, s)"
  "gather E server cr (e # rest) g s =
     (case gather_turn E server cr e g s of
        (None, s') \<Rightarrow> gather E server cr rest g s'
      | (Some v, s') \<Rightarrow> gather E server cr (rest @ auth_ids_of E v) (g @ [(e, v)]) s')"
  by (subst gather.simps, simp)+

section \<open>Small networks\<close>

text \<open>
  A server for the witnesses that knows two events, \<open>$0\<close> and \<open>$1\<close>; \<open>net\<close> gives them.  The JSON of an event holds the ids of its
  auth events and, once received, its own id, and the events are numbered in the store.
\<close>

definition net_env :: "(EventId \<Rightarrow> Pdu option) \<Rightarrow> event_env" where
  "net_env net = \<lparr> rx_ruma = demo_ruma, json_len = (\<lambda>_. Some 100),
     json_bytes = (\<lambda>obj. if map_of obj ''event_id'' = Some (JString ''$0'') then [0] else [1]),
     parse_object = (\<lambda>raw. map_option (\<lambda>p. [(''auth_events'', JArray (map JString (auth_events p)))]) (net raw)),
     parse_pdu = (\<lambda>bytes. if bytes = [0] then net ''$0'' else net ''$1''),
     de_pdu = (\<lambda>obj. case map_of obj ''event_id'' of Some (JString i) \<Rightarrow> net i | _ \<Rightarrow> None),
     de_create_version = (\<lambda>_. Some V11), parse_version = (\<lambda>_. None), reference_hash = (\<lambda>_ _. Some ''h''),
     redact_json = (\<lambda>_ _. None), verify_event = (\<lambda>_ _ _. Some VerifiedAll),
     remote_event = (\<lambda>_ _ e. if net e = None then None else Some e), time_at = (\<lambda>n. n), timeline_first = True \<rparr>"

definition room_net :: "EventId \<Rightarrow> Pdu option" where
  "room_net e = (if e = ''$0'' then Some demo_create else if e = ''$1'' then Some (demo_join ''@a'' ''$1'') else None)"

definition cyclic_net :: "EventId \<Rightarrow> Pdu option" where
  "cyclic_net e =
     (if e = ''$0'' then Some (demo_event ''$0'' RoomMember ''@a'' ''@a'' ''join'' [] [''$1''])
      else if e = ''$1'' then Some (demo_event ''$1'' RoomMember ''@a'' ''@a'' ''join'' [] [''$0'']) else None)"

definition no_reception :: reception where
  "no_reception = \<lparr> rc_timeline = no_events no_shorts, bad_event_ratelimiter = [], rc_tick = 0 \<rparr>"

lemma room_net_laws: "json_laws (net_env room_net)"
  by (auto simp: json_laws_def net_env_def room_net_def demo_create_def demo_join_def demo_event_def
      split: option.splits CanonicalJsonValue.splits if_splits)

lemma no_reception_closed: "auth_closed E no_reception"
  by (simp add: auth_closed_def no_reception_def no_events_def rx_get_pdu_def get_pdu_def get_non_outlier_pdu_def get_pdu_id_def
      get_pdu_outlier_def select_ok_def Let_def)

lemma nothing_known:
  assumes "rc_timeline s = no_events no_shorts" "bad_event_ratelimiter s = []"
  shows "rx_get_pdu E s e = None" "\<not> rx_pdu_exists E s e" "backing_off E mn mx e s = (False, s)"
  using assms by (simp_all add: no_events_def rx_get_pdu_def get_pdu_def get_non_outlier_pdu_def get_pdu_id_def backing_off_def
      get_pdu_outlier_def select_ok_def Let_def rx_pdu_exists_def pdu_exists_def non_outlier_pdu_exists_def outlier_pdu_exists_def)

lemma net_simps:
  "pdu_fits (net_env net) []" "pdu_fits (net_env net) [(''auth_events'', JArray vs)]"
  "get_room_version_id (net_env net) cr = Inr V11"
  "verified_json (net_env net) s version e v = Inr v"
  by (simp_all add: pdu_fits_def short_field_def net_env_def get_room_version_id_def verified_json_def)

lemma net_turn:
  assumes "rc_timeline s = no_events no_shorts" "bad_event_ratelimiter s = []" "net e = Some p" "e \<notin> fst ` set g"
  shows "gather_turn (net_env net) server cr e g s = (Some [(''auth_events'', JArray (map JString (auth_events p)))], next_tick s)"
proof -
  note nk = nothing_known [OF assms(1,2)]
  have raw: "remote_event (net_env net) (rc_tick s) server e = Some e"
    "gen_event_id_canonical_json (net_env net) e V11 = Inr (''$h'', [(''auth_events'', JArray (map JString (auth_events p)))])"
    by (simp_all add: net_env_def gen_event_id_canonical_json_def gen_event_id_def demo_ruma_def assms(3))
  show ?thesis unfolding gather_turn_def nk(3) net_simps(3) using nk(2) assms(4) raw by simp
qed

text \<open>The join is received, its auth event, the create event, is fetched and stored, and then the join is.\<close>

definition room_store :: reception where
  "room_store = \<lparr> rc_timeline = add_pdu_outlier ''$0'' [0] (no_events no_shorts), bad_event_ratelimiter = [], rc_tick = 3 \<rparr>"

lemma room_net_create:
  "handle_outlier_pdu_with (net_env room_net) f demo_create ''$0'' ''!r'' [(''auth_events'', JArray [])] True
     (no_reception\<lparr>rc_tick := 2\<rparr>)
   = Some (Inr (demo_create, [(''auth_events'', JArray []), (''event_id'', JString ''$0'')]), room_store)"
proof -
  have parts: "received_pdu (net_env room_net) ''!r'' ''$0'' [(''auth_events'', JArray [])]
      = Inr (demo_create, [(''auth_events'', JArray []), (''event_id'', JString ''$0'')])" "auth_events demo_create = []"
    by code_simp+
  have "auth_check demo_ruma RoomVersion_V11 demo_create None (\<lambda>ty sk. None) demo_create = Inr True" by code_simp
  then have adm: "admit (net_env room_net) V11 ''!r'' demo_create demo_create
      [(''auth_events'', JArray []), (''event_id'', JString ''$0'')] [] (next_tick (no_reception\<lparr>rc_tick := 2\<rparr>))
    = (Inr (demo_create, [(''auth_events'', JArray []), (''event_id'', JString ''$0'')]), room_store)"
    using parts(2) by (simp add: admit_def auth_verdict_def to_room_version_def next_tick_def no_reception_def room_store_def)
      (simp add: net_env_def demo_create_def demo_event_def)
  show ?thesis using parts adm by (simp add: handle_outlier_pdu_with_def net_simps)
qed

lemma room_net_fetch:
  "fetch_and_handle_outliers (net_env room_net) 1 ''hs'' demo_create ''!r'' [''$0''] (no_reception\<lparr>rc_tick := 1\<rparr>)
   = Some (Inr [(demo_create, Some [(''auth_events'', JArray []), (''event_id'', JString ''$0'')])], room_store)"
proof -
  have st: "rc_timeline (no_reception\<lparr>rc_tick := n\<rparr>) = no_events no_shorts" "bad_event_ratelimiter (no_reception\<lparr>rc_tick := n\<rparr>) = []" for n
    by (simp_all add: no_reception_def)
  have "room_net ''$0'' = Some demo_create" "auth_events demo_create = []"
    "auth_ids_of (net_env room_net) [(''auth_events'', JArray [])] = []"
    by code_simp+
  then have "gather (net_env room_net) ''hs'' demo_create [''$0''] [] (no_reception\<lparr>rc_tick := 1\<rparr>)
    = Some ([(''$0'', [(''auth_events'', JArray [])])], no_reception\<lparr>rc_tick := 2\<rparr>)"
    using net_turn [OF st(1,2), of room_net "''$0''" demo_create "[]"] by (simp add: gather_code next_tick_def no_reception_def)
  then show ?thesis using nothing_known [OF st] room_net_create by simp
qed

lemma room_net_run:
  "\<exists>s'. handle_outlier_pdu (net_env room_net) 1 ''hs'' demo_create ''$1'' ''!r'' [] True no_reception
     = Some (Inr (demo_join ''@a'' ''$1'', [(''event_id'', JString ''$1'')]), s')"
proof -
  have parts: "received_pdu (net_env room_net) ''!r'' ''$1'' [] = Inr (demo_join ''@a'' ''$1'', [(''event_id'', JString ''$1'')])"
    "auth_events (demo_join ''@a'' ''$1'') = [''$0'']" "next_tick no_reception = no_reception\<lparr>rc_tick := 1\<rparr>"
    "fst (admit (net_env room_net) V11 ''!r'' demo_create (demo_join ''@a'' ''$1'') [(''event_id'', JString ''$1'')]
       (add_fetched [(demo_create, Some [(''auth_events'', JArray []), (''event_id'', JString ''$0'')])] []) room_store)
     = Inr (demo_join ''@a'' ''$1'', [(''event_id'', JString ''$1'')])"
    by code_simp+
  have "rx_get_pdu (net_env room_net) no_reception ''$0'' = None" by (rule nothing_known(1)) (simp_all add: no_reception_def)
  then have kn: "known_auth_events (net_env room_net) no_reception ''!r'' [''$0''] [] = Inr []" by simp
  with parts
  obtain s' where "admit (net_env room_net) V11 ''!r'' demo_create (demo_join ''@a'' ''$1'') [(''event_id'', JString ''$1'')]
       (add_fetched [(demo_create, Some [(''auth_events'', JArray []), (''event_id'', JString ''$0'')])] []) room_store
     = (Inr (demo_join ''@a'' ''$1'', [(''event_id'', JString ''$1'')]), s')" by (metis prod.collapse)
  with parts(1-3) kn have "handle_outlier_pdu (net_env room_net) 1 ''hs'' demo_create ''$1'' ''!r'' [] True no_reception
     = Some (Inr (demo_join ''@a'' ''$1'', [(''event_id'', JString ''$1'')]), s')"
    using room_net_fetch by (simp add: handle_outlier_pdu_def handle_outlier_pdu_with_def net_simps del: fetch_and_handle_outliers.simps One_nat_def)
  then show ?thesis by blast
qed


lemma outliers_closed_witness:
  "\<exists>r s'. handle_outlier_pdu (net_env room_net) 1 ''hs'' demo_create ''$1'' ''!r'' [] True no_reception = Some (r, s')
     \<and> auth_closed (net_env room_net) s'"
proof -
  obtain s' where "handle_outlier_pdu (net_env room_net) 1 ''hs'' demo_create ''$1'' ''!r'' [] True no_reception
     = Some (Inr (demo_join ''@a'' ''$1'', [(''event_id'', JString ''$1'')]), s')" using room_net_run by blast
  with outliers_closed [OF room_net_laws no_reception_closed this] show ?thesis by blast
qed

definition room_rank :: "EventId \<Rightarrow> nat" where
  "room_rank e = (if e = ''$0'' then 0 else 1)"

lemma room_net_acyclic: "acyclic_server (net_env room_net) server room room_rank"
proof -
  have "{e. \<exists>t. remote_event (net_env room_net) t server e \<noteq> None} \<subseteq> {''$0'', ''$1''}"
    by (auto simp: net_env_def room_net_def split: if_splits)
  then have fin: "finite {e. \<exists>t. remote_event (net_env room_net) t server e \<noteq> None}" using finite_subset by blast
  have auth: "\<forall>a \<in> set (auth_events p). room_rank a < room_rank e" if "room_net e = Some p" for e p
    using that by (auto simp: room_net_def room_rank_def demo_create_def demo_join_def demo_event_def split: if_splits)
  have ans: "\<exists>p. room_net e = Some p \<and> v = [(''auth_events'', JArray (map JString (auth_events p)))]"
    if "answers (net_env room_net) server e v" for e v
    using that by (auto simp: answers_def net_env_def split: if_splits)
  have "\<forall>a \<in> set (auth_ids_of (net_env room_net) v). room_rank a < room_rank e" if "answers (net_env room_net) server e v" for e v
    using ans [OF that] auth by (auto simp: auth_ids_of_def map_filter_def)
  moreover have "\<forall>a \<in> set (auth_events p). room_rank a < room_rank e"
    if "received_pdu (net_env room_net) room e json = Inr (p, obj)" for e p json obj
    using that auth by (auto simp: received_pdu_def Let_def result_simps net_env_def)
  ultimately show ?thesis using fin unfolding acyclic_server_def by blast
qed

lemma fetch_outliers_returns_witness:
  "\<exists>r s'. fetch_and_handle_outliers (net_env room_net) 2 ''hs'' demo_create ''!r'' [''$1''] no_reception = Some (r, s')"
  by (rule fetch_outliers_returns [OF room_net_acyclic]) (simp_all add: room_rank_def)

lemma cyclic_facts:
  "cyclic_net ''$0'' = Some (demo_event ''$0'' RoomMember ''@a'' ''@a'' ''join'' [] [''$1''])"
  "cyclic_net ''$1'' = Some (demo_event ''$1'' RoomMember ''@a'' ''@a'' ''join'' [] [''$0''])"
  "auth_events (demo_event eid ty key sndr c prev auth) = auth"
  "auth_ids_of (net_env net) [(''auth_events'', JArray [JString ''$0''])] = [''$0'']"
  "auth_ids_of (net_env net) [(''auth_events'', JArray [JString ''$1''])] = [''$1'']"
  by (simp_all add: cyclic_net_def demo_event_def auth_ids_of_def net_env_def demo_ruma_def map_filter_def)

text \<open>
  A server that answers two requests with events that name each other as their only auth events, the second of which
  passes the checks of size, signatures and room.
\<close>

definition circular_answers ::
    "event_env \<Rightarrow> ServerName \<Rightarrow> Pdu \<Rightarrow> RoomId \<Rightarrow> EventId \<Rightarrow> EventId \<Rightarrow> bool" where
  "circular_answers E server cr room a b \<longleftrightarrow>
     a \<noteq> b \<and> (\<exists>version va vb pdu incoming. get_room_version_id E cr = Inr version
       \<and> (\<forall>t. \<exists>raw i. remote_event E t server a = Some raw \<and> gen_event_id_canonical_json E raw version = Inr (i, va))
       \<and> (\<forall>t. \<exists>raw i. remote_event E t server b = Some raw \<and> gen_event_id_canonical_json E raw version = Inr (i, vb))
       \<and> auth_ids_of E va = [b] \<and> auth_ids_of E vb = [a] \<and> pdu_fits E vb
       \<and> (\<forall>t. verify_event E t (AList.delete ''unsigned'' vb) version = Some VerifiedAll)
       \<and> received_pdu E room b (AList.delete ''unsigned'' vb) = Inr (pdu, incoming) \<and> auth_events pdu = [a])"

text \<open>An event that was never stored and is not backed off from.\<close>

definition untouched :: "event_env \<Rightarrow> EventId \<Rightarrow> reception \<Rightarrow> bool" where
  "untouched E e s \<longleftrightarrow> \<not> rx_pdu_exists E s e \<and> rx_get_pdu E s e = None \<and> map_of (bad_event_ratelimiter s) e = None"

lemma untouched_tick [simp]: "untouched E e (next_tick s) = untouched E e s"
  by (simp add: untouched_def next_tick_def rx_pdu_exists_def rx_get_pdu_def)

lemma untouched_backing_off: "untouched E e s \<Longrightarrow> backing_off E mn mx e s = (False, s)"
  by (simp add: untouched_def backing_off_def)

lemma untouched_turn:
  assumes "untouched E e s" "e \<notin> fst ` set g" "get_room_version_id E cr = Inr version"
    "\<forall>t. \<exists>raw i. remote_event E t server e = Some raw \<and> gen_event_id_canonical_json E raw version = Inr (i, v)"
  shows "gather_turn E server cr e g s = (Some v, next_tick s)"
proof -
  obtain raw i where raw: "remote_event E (rc_tick s) server e = Some raw" "gen_event_id_canonical_json E raw version = Inr (i, v)"
    using assms(4) by blast
  show ?thesis
    unfolding gather_turn_def untouched_backing_off [OF assms(1)]
    using assms(1,2,3) raw by (simp add: untouched_def)
qed

text \<open>
  C25: When a server answers with two events that name each other as auth events, and the second passes the checks of size,
  signatures and room, then fetching the first, while neither is stored nor backed off from, keeps the two
  handlers calling each other without end: there is no depth at which the fetch returns. The comment at the
  loop says that gathering the auth chain first avoids a stack overflow; it does not here, since the ids
  computed from the answers are not compared with the requested ones and the answers can be circular.
\<close>

theorem cyclic_auth_events_diverge:
  assumes "circular_answers E server cr room a b" "untouched E a s" "untouched E b s"
  shows "fetch_and_handle_outliers E deep server cr room [a] s = None"
proof -
  from assms(1) obtain version va vb pdu incoming where ab: "a \<noteq> b" and version: "get_room_version_id E cr = Inr version"
    and ra: "\<forall>t. \<exists>raw i. remote_event E t server a = Some raw \<and> gen_event_id_canonical_json E raw version = Inr (i, va)"
    and rb: "\<forall>t. \<exists>raw i. remote_event E t server b = Some raw \<and> gen_event_id_canonical_json E raw version = Inr (i, vb)"
    and auth: "auth_ids_of E va = [b]" "auth_ids_of E vb = [a]" and fits: "pdu_fits E vb"
    and verify: "\<forall>t. verify_event E t (AList.delete ''unsigned'' vb) version = Some VerifiedAll"
    and received: "received_pdu E room b (AList.delete ''unsigned'' vb) = Inr (pdu, incoming)" "auth_events pdu = [a]"
    unfolding circular_answers_def by (elim conjE exE)
  show ?thesis using assms(2,3)
  proof (induction deep arbitrary: s)
    case (Suc deep)
    let ?s2 = "next_tick (next_tick s)"
    have ta: "untouched E a (next_tick s)" "untouched E b (next_tick s)" using Suc.prems by simp_all
    have t0: "gather_turn E server cr a [] s = (Some va, next_tick s)"
      using untouched_turn [OF Suc.prems(1) _ version ra] by simp
    have t1: "gather_turn E server cr b [(a, va)] (next_tick s) = (Some vb, ?s2)"
      using untouched_turn [OF ta(2) _ version rb] ab by simp
    have t2: "gather_turn E server cr a [(a, va), (b, vb)] ?s2 = (None, ?s2)"
      unfolding gather_turn_def using untouched_backing_off [of E a ?s2] Suc.prems by simp
    have gather: "gather E server cr [a] [] s = Some ([(a, va), (b, vb)], ?s2)"
      using t0 t1 t2 by (simp add: gather_code auth)
    have "handle_outlier_pdu_with E (fetch_and_handle_outliers E deep server cr room) cr b room vb True ?s2 = None"
    proof -
      have "verified_json E ?s2 version b (AList.delete ''unsigned'' vb) = Inr (AList.delete ''unsigned'' vb)"
        using verify by (simp add: verified_json_def)
      moreover have "known_auth_events E ?s2 room [a] [] = Inr []"
        using Suc.prems(1) by (simp add: untouched_def rx_get_pdu_def next_tick_def)
      moreover have "fetch_and_handle_outliers E deep server cr room [a] (next_tick ?s2) = None"
        using Suc.IH [of "next_tick ?s2"] Suc.prems by simp
      ultimately show ?thesis using fits version received by (simp add: handle_outlier_pdu_with_def)
    qed
    moreover have "backing_off E mn mx b ?s2 = (False, ?s2)" for mn mx
      using untouched_backing_off [of E b ?s2] Suc.prems by simp
    moreover have "rx_get_pdu E s a = None" using Suc.prems(1) by (simp add: untouched_def)
    ultimately show ?case using gather by simp
  qed simp
qed

lemma cyclic_circular: "circular_answers (net_env cyclic_net) server cr ''!r'' ''$0'' ''$1''"
proof -
  let ?N = "net_env cyclic_net" and ?a = "[(''auth_events'', JArray [JString ''$1''])]"
    and ?b = "[(''auth_events'', JArray [JString ''$0''])]"
  have "received_pdu ?N ''!r'' ''$1'' ?b = Inr (demo_event ''$1'' RoomMember ''@a'' ''@a'' ''join'' [] [''$0''],
      [(''auth_events'', JArray [JString ''$0'']), (''event_id'', JString ''$1'')])"
    by (simp add: received_pdu_def net_env_def cyclic_net_def check_room_id_def demo_event_def)
  moreover have "\<exists>raw i. remote_event ?N t server ''$0'' = Some raw \<and> gen_event_id_canonical_json ?N raw V11 = Inr (i, ?a)"
    "\<exists>raw i. remote_event ?N t server ''$1'' = Some raw \<and> gen_event_id_canonical_json ?N raw V11 = Inr (i, ?b)" for t
    by (simp_all add: net_env_def gen_event_id_canonical_json_def gen_event_id_def demo_ruma_def cyclic_facts)
  moreover have "\<forall>t. verify_event ?N t (AList.delete ''unsigned'' ?b) V11 = Some VerifiedAll" by (simp add: net_env_def)
  ultimately show ?thesis
    unfolding circular_answers_def using net_simps(2,3) cyclic_facts(3-5)
    by (intro conjI exI [of _ V11] exI [of _ ?a] exI [of _ ?b]) auto
qed

theorem cyclic_auth_events_diverge_witness:
  "fetch_and_handle_outliers (net_env cyclic_net) 1000 ''hs'' demo_create ''!r'' [''$0''] no_reception = None"
  by (rule cyclic_auth_events_diverge [OF cyclic_circular])
    (simp_all add: untouched_def nothing_known no_reception_def)

lemma event_id_items_Inr:
  "event_id_items E vs = Inr ids \<longleftrightarrow> vs = map JString ids \<and> (\<forall>i \<in> set ids. is_event_id (rx_ruma E) i)"
proof (induction vs arbitrary: ids)
  case (Cons v vs)
  show ?case by (cases v; cases ids) (auto simp: Cons result_simps)
qed auto

text \<open>
  C24: What \<open>parse_incoming_pdu\<close> returns is well typed: the room and the event have valid ids, the id of the event is its
  reference hash at the version of the room, its auth events are an array of at most ten event ids, which are
  the ones the fetch follows, and its previous events an array of at most twenty.
\<close>

theorem parsed_pdu_typed:
  assumes "parse_incoming_pdu E room_version raw = Inr (room, event, v)"
  shows "is_room_id (rx_ruma E) room \<and> is_event_id (rx_ruma E) event
    \<and> map_option (Cons (CHR ''$'')) (reference_hash E v (case room_version room of Some w \<Rightarrow> w | None \<Rightarrow> V1)) = Some event
    \<and> (\<exists>auths. map_of v ''auth_events'' = Some (JArray (map JString auths)) \<and> length auths \<le> 10
        \<and> list_all (is_event_id (rx_ruma E)) auths \<and> auth_ids_of E v = auths)
    \<and> (\<exists>prevs. map_of v ''prev_events'' = Some (JArray (map JString prevs)) \<and> length prevs \<le> 20
        \<and> list_all (is_event_id (rx_ruma E)) prevs)"
proof -
  let ?version = "case room_version room of Some w \<Rightarrow> w | None \<Rightarrow> V1"
  from assms obtain w ty rm where w: "extract_room_id E ty w = Inr rm"
    "(case gen_event_id_canonical_json E raw (case room_version rm of Some w \<Rightarrow> w | None \<Rightarrow> V1) of
        Inl _ \<Rightarrow> Inl InvalidParam
      | Inr (e, u) \<Rightarrow> rbind (validate_pdu E u) (\<lambda>_. Inr (rm, e, u))) = Inr (room, event, v)"
    unfolding parse_incoming_pdu_def Let_def by (auto simp: result_simps simp del: sum.case_eq_if)
  have x: "rm = room \<and> gen_event_id_canonical_json E raw ?version = Inr (event, v) \<and> validate_pdu E v = Inr ()"
  proof (cases "gen_event_id_canonical_json E raw (case room_version rm of Some w \<Rightarrow> w | None \<Rightarrow> V1)")
    case (Inr y)
    then show ?thesis using w(2) by (cases y) (auto simp: result_simps)
  qed (use w(2) in simp)
  have room: "is_room_id (rx_ruma E) room"
    using w(1) x by (auto simp: extract_room_id_def Let_def result_simps split: option.splits if_splits)
  have event: "is_event_id (rx_ruma E) event" "map_option (Cons (CHR ''$'')) (reference_hash E v ?version) = Some event"
    using x by (auto simp: gen_event_id_canonical_json_def gen_event_id_def result_simps split: if_splits)
  from x obtain auths prevs where ids: "expect_event_id_array E v ''auth_events'' = Inr auths" "length auths \<le> 10"
    "expect_event_id_array E v ''prev_events'' = Inr prevs" "length prevs \<le> 20"
    by (auto simp: validate_pdu_def result_simps split: if_splits)
  have arr: "map_of v field = Some (JArray (map JString xs)) \<and> list_all (is_event_id (rx_ruma E)) xs"
    if "expect_event_id_array E v field = Inr xs" for field xs
    using that by (auto simp: expect_event_id_array_def result_simps event_id_items_Inr list_all_iff elim: as_array.elims)
  have "auth_ids_of E v = auths"
    using arr [OF ids(1)] by (auto simp: auth_ids_of_def map_filter_def comp_def list_all_iff)
  with room event arr [OF ids(1)] arr [OF ids(3)] ids(2,4) show ?thesis by blast
qed

definition message_json :: CanonicalJsonObject where
  "message_json = [(''type'', JString ''m.room.message''), (''room_id'', JString ''!r''),
     (''auth_events'', JArray [JString ''$0'']), (''prev_events'', JArray [])]"

lemma parsed_pdu_typed_witness:
  "\<exists>auths. map_of message_json ''auth_events'' = Some (JArray (map JString auths)) \<and> length auths \<le> 10
     \<and> list_all (is_event_id demo_ruma) auths"
proof -
  let ?E = "(net_env room_net)\<lparr>parse_object := (\<lambda>_. Some message_json)\<rparr>"
  have "parse_incoming_pdu ?E (\<lambda>_. None) ''raw'' = Inr (''!r'', ''$h'', message_json)"
    by (simp add: parse_incoming_pdu_def message_json_def extract_room_id_def gen_event_id_canonical_json_def gen_event_id_def
        validate_pdu_def expect_event_id_array_def net_env_def demo_ruma_def)
  from parsed_pdu_typed [OF this] show ?thesis by (auto simp: net_env_def)
qed

end
