(* ===== verification/Visibility.thy ===== *)
theory Visibility
  imports RoomState Timeline Membership EventAuth
begin

text \<open>
  Who may see an event, \<^verbatim>\<open>src/service/rooms/state_accessor/{server_can,user_can}.rs\<close>, with the readers of event contents in
  \<^verbatim>\<open>state.rs\<close> and \<^verbatim>\<open>room_state.rs\<close>.  An event is judged by the state of the room before it: its history visibility and
  the memberships in it.  The answers are computed by reads through the cache of states, so that the state of
  the service is threaded through; the theorem says that they are the rule for the abstract state, whatever
  is in the cache.
\<close>

section \<open>Operations\<close>

datatype HistoryVisibility = HvInvited | HvJoined | HvShared | HvWorldReadable | HvCustom string

text \<open>
  Contents are parsed by ruma: \<open>de_history\<close> the content of a history visibility event, \<open>power_levels_allow\<close> whether power
  levels allow a user to redact the events of others and their own.
\<close>

record access_env =
  ae_ruma :: ruma
  ae_ids :: id_checks
  ae_user_server :: "u8 list \<Rightarrow> u8 list"
  ae_string :: "u8 list \<Rightarrow> string"
  de_history :: "RawJson \<Rightarrow> HistoryVisibility option"
  de_create_redact :: "RawJson \<Rightarrow> (RoomVersionId \<times> UserId list option) option"
  redact_other :: "RoomPowerLevelsEventContent \<Rightarrow> UserId \<Rightarrow> bool"
  redact_own :: "RoomPowerLevelsEventContent \<Rightarrow> UserId \<Rightarrow> bool"
  ae_parse :: "u8 list \<Rightarrow> Pdu option"
  ae_first :: bool

record 'c accessor =
  ax_rooms :: "'c room_states"
  ax_timeline :: timeline_data
  ax_cache :: cache_data

definition ax_get_pdu :: "access_env \<Rightarrow> 'c accessor \<Rightarrow> EventId \<Rightarrow> StoreError + Pdu" where
  "ax_get_pdu E s event =
     (case get_pdu (ae_first E) (ae_parse E) (ax_timeline s) event of Inl _ \<Rightarrow> Inl StoreNotFound | Inr pdu \<Rightarrow> Inr pdu)"

definition state_get :: "'c state_lru \<Rightarrow> access_env \<Rightarrow> u64 \<Rightarrow> TypeStateKey \<Rightarrow> 'c accessor \<Rightarrow> ((StoreError + Pdu) \<times> 'c accessor) option" where
  "state_get L E h key s =
     map_option (\<lambda>(r, rooms). (rbind r (ax_get_pdu E s), s\<lparr>ax_rooms := rooms\<rparr>)) (state_get_id L h key (ax_rooms s))"

definition state_get_content ::
    "'c state_lru \<Rightarrow> access_env \<Rightarrow> (RawJson \<Rightarrow> 'v option) \<Rightarrow> u64 \<Rightarrow> TypeStateKey \<Rightarrow> 'c accessor \<Rightarrow> ((StoreError + 'v) \<times> 'c accessor) option" where
  "state_get_content L E de h key s =
     map_option (\<lambda>(r, s'). (rbind r (\<lambda>pdu. ok_or StoreNotFound (de (content pdu))), s')) (state_get L E h key s)"

definition room_state_get :: "'c state_lru \<Rightarrow> access_env \<Rightarrow> RoomId \<Rightarrow> TypeStateKey \<Rightarrow> 'c accessor \<Rightarrow> ((StoreError + Pdu) \<times> 'c accessor) option" where
  "room_state_get L E room key s =
     (case get_room_shortstatehash (ax_rooms s) room of
        None \<Rightarrow> Some (Inl StoreNotFound, s)
      | Some h \<Rightarrow> state_get L E h key s)"

definition room_state_get_content ::
    "'c state_lru \<Rightarrow> access_env \<Rightarrow> (RawJson \<Rightarrow> 'v option) \<Rightarrow> RoomId \<Rightarrow> TypeStateKey \<Rightarrow> 'c accessor \<Rightarrow> ((StoreError + 'v) \<times> 'c accessor) option" where
  "room_state_get_content L E de room key s =
     map_option (\<lambda>(r, s'). (rbind r (\<lambda>pdu. ok_or StoreNotFound (de (content pdu))), s')) (room_state_get L E room key s)"

definition membership_at :: "'c state_lru \<Rightarrow> access_env \<Rightarrow> u64 \<Rightarrow> UserId \<Rightarrow> 'c accessor \<Rightarrow> (MembershipState \<times> 'c accessor) option" where
  "membership_at L E h user s =
     map_option (\<lambda>(r, s'). (case r of Inl _ \<Rightarrow> Leave | Inr m \<Rightarrow> m, s'))
       (state_get_content L E (de_member_content (ae_ruma E)) h (RoomMember, user) s)"

definition user_was_joined :: "'c state_lru \<Rightarrow> access_env \<Rightarrow> u64 \<Rightarrow> UserId \<Rightarrow> 'c accessor \<Rightarrow> (bool \<times> 'c accessor) option" where
  "user_was_joined L E h user s = map_option (\<lambda>(m, s'). (m = Join, s')) (membership_at L E h user s)"

definition user_was_invited :: "'c state_lru \<Rightarrow> access_env \<Rightarrow> u64 \<Rightarrow> UserId \<Rightarrow> 'c accessor \<Rightarrow> (bool \<times> 'c accessor) option" where
  "user_was_invited L E h user s = map_option (\<lambda>(m, s'). (m = Join \<or> m = Invite, s')) (membership_at L E h user s)"

definition visibility_key :: TypeStateKey where
  "visibility_key = (OtherType ''m.room.history_visibility'', '''')"

definition visibility_or_shared :: "StoreError + HistoryVisibility \<Rightarrow> HistoryVisibility" where
  "visibility_or_shared r = (case r of Inl _ \<Rightarrow> HvShared | Inr v \<Rightarrow> v)"

text \<open>The members of a room are asked one after the other until one of them was there.\<close>

fun any_was :: "(UserId \<Rightarrow> 'c accessor \<Rightarrow> (bool \<times> 'c accessor) option) \<Rightarrow> UserId list \<Rightarrow> 'c accessor \<Rightarrow> (bool \<times> 'c accessor) option" where
  "any_was was [] s = Some (False, s)"
| "any_was was (user # users) s =
     Option.bind (was user s) (\<lambda>(b, s'). if b then Some (True, s') else any_was was users s')"

definition members_of_server :: "access_env \<Rightarrow> u8 list \<Rightarrow> u8 list \<Rightarrow> 'c accessor \<Rightarrow> UserId list" where
  "members_of_server E server room s =
     map (ae_string E) (filter (\<lambda>user. ae_user_server E user = server) (room_members (ae_ids E) (ax_cache s) room))"

definition server_can_see_event ::
    "'c state_lru \<Rightarrow> access_env \<Rightarrow> u8 list \<Rightarrow> u8 list \<Rightarrow> EventId \<Rightarrow> 'c accessor \<Rightarrow> (bool \<times> 'c accessor) option" where
  "server_can_see_event L E server room event s =
     (case pdu_shortstatehash (ax_rooms s) event of
        None \<Rightarrow> Some (False, s)
      | Some h \<Rightarrow>
          Option.bind (state_get_content L E (de_history E) h visibility_key s) (\<lambda>(r, s1).
          case visibility_or_shared r of
            HvInvited \<Rightarrow> any_was (user_was_invited L E h) (members_of_server E server room s1) s1
          | HvJoined \<Rightarrow> any_was (user_was_joined L E h) (members_of_server E server room s1) s1
          | _ \<Rightarrow> Some (True, s1)))"

definition user_can_see_event ::
    "'c state_lru \<Rightarrow> access_env \<Rightarrow> u8 list \<Rightarrow> u8 list \<Rightarrow> EventId \<Rightarrow> 'c accessor \<Rightarrow> (bool \<times> 'c accessor) option" where
  "user_can_see_event L E user room event s =
     (case pdu_shortstatehash (ax_rooms s) event of
        None \<Rightarrow> Some (True, s)
      | Some h \<Rightarrow>
          Option.bind (state_get_content L E (de_history E) h visibility_key s) (\<lambda>(r, s1).
          case visibility_or_shared r of
            HvInvited \<Rightarrow> user_was_invited L E h (ae_string E user) s1
          | HvJoined \<Rightarrow> user_was_joined L E h (ae_string E user) s1
          | HvWorldReadable \<Rightarrow> Some (True, s1)
          | _ \<Rightarrow> Some (is_joined (ax_cache s) user room, s1)))"

definition user_can_see_state_events ::
    "'c state_lru \<Rightarrow> access_env \<Rightarrow> u8 list \<Rightarrow> u8 list \<Rightarrow> 'c accessor \<Rightarrow> (bool \<times> 'c accessor) option" where
  "user_can_see_state_events L E user room s =
     (if is_joined (ax_cache s) user room then Some (True, s)
      else
        map_option (\<lambda>(r, s1).
          (case visibility_or_shared r of
             HvInvited \<Rightarrow> is_invited (ax_cache s1) user room
           | HvWorldReadable \<Rightarrow> True
           | _ \<Rightarrow> False, s1))
          (room_state_get_content L E (de_history E) (ae_string E room) visibility_key s))"

datatype RedactError = RedactForbidden | RedactNotFound | RedactBadContent

definition redact_allowed :: "access_env \<Rightarrow> StoreError + Pdu \<Rightarrow> Pdu \<Rightarrow> UserId \<Rightarrow> bool \<Rightarrow> StoreError + RoomPowerLevelsEventContent \<Rightarrow> bool" where
  "redact_allowed E redacting room_create user federation levels =
     (case levels of
        Inr pl \<Rightarrow>
          redact_other E pl user
          \<or> redact_own E pl user
            \<and> (case redacting of
                 Inr ev \<Rightarrow> if federation then user_server_name (ae_ruma E) (sender ev) = user_server_name (ae_ruma E) user
                           else sender ev = user
               | Inl _ \<Rightarrow> False)
      | Inl _ \<Rightarrow> sender room_create = user \<or> (case redacting of Inr ev \<Rightarrow> sender ev = user | Inl _ \<Rightarrow> False))"

definition user_can_redact ::
    "'c state_lru \<Rightarrow> access_env \<Rightarrow> EventId \<Rightarrow> UserId \<Rightarrow> RoomId \<Rightarrow> bool \<Rightarrow> 'c accessor \<Rightarrow> ((RedactError + bool) \<times> 'c accessor) option" where
  "user_can_redact L E redacted user room federation s =
     (let redacting = ax_get_pdu E s redacted
      in if (case redacting of Inr ev \<Rightarrow> kind ev \<in> {RoomCreate, OtherType ''m.room.server_acl''} | Inl _ \<Rightarrow> False)
         then Some (Inl RedactForbidden, s)
         else Option.bind (room_state_get L E room (RoomCreate, '''') s) (\<lambda>(r, s1).
           case r of
             Inl _ \<Rightarrow> Some (Inl RedactNotFound, s1)
           | Inr room_create \<Rightarrow>
               (case de_create_redact E (content room_create) of
                  None \<Rightarrow> Some (Inl RedactBadContent, s1)
                | Some (version, additional) \<Rightarrow>
                    (case RoomVersion_new version of
                       Inl _ \<Rightarrow> Some (Inl RedactBadContent, s1)
                     | Inr features \<Rightarrow>
                         if explicitly_privilege_room_creators features
                            \<and> (user = sender room_create \<or> (case additional of None \<Rightarrow> False | Some cs \<Rightarrow> user \<in> set cs))
                         then Some (Inr True, s1)
                         else map_option (\<lambda>(levels, s2). (Inr (redact_allowed E redacting room_create user federation levels), s2))
                           (room_state_get_content L E (de_power_levels (ae_ruma E)) room (RoomPowerLevels, '''') s1)))))"

section \<open>The rule on the abstract state\<close>

text \<open>
  A stored state as a map from keys to events, and what is read from it; \<open>state_known\<close> says that the state \<open>h\<close> of the service
  is the map \<open>f\<close>.
\<close>

definition state_map :: "short_data \<Rightarrow> CompressedState \<Rightarrow> (TypeStateKey \<Rightarrow> EventId option) \<Rightarrow> bool" where
  "state_map short t f \<longleftrightarrow> (\<forall>key eid. f key = Some eid \<longleftrightarrow> in_state short t key eid)"

definition state_known ::
    "'c state_lru \<Rightarrow> (u8 list \<Rightarrow> u8 list) \<Rightarrow> 'c accessor \<Rightarrow> u64 \<Rightarrow> (TypeStateKey \<Rightarrow> EventId option) \<Rightarrow> bool" where
  "state_known L sha256 s h f \<longleftrightarrow> store_inv L sha256 (rs_comp (ax_rooms s))
     \<and> (\<exists>t. good_state (comp_diffs (rs_comp (ax_rooms s))) h t \<and> one_per_key t \<and> numbered_state (rs_short (ax_rooms s)) t
          \<and> state_map (rs_short (ax_rooms s)) t f)"

definition content_at :: "access_env \<Rightarrow> 'c accessor \<Rightarrow> (TypeStateKey \<Rightarrow> EventId option) \<Rightarrow> (RawJson \<Rightarrow> 'v option) \<Rightarrow> TypeStateKey \<Rightarrow> 'v option" where
  "content_at E s f de key =
     Option.bind (f key) (\<lambda>eid. case ax_get_pdu E s eid of Inl _ \<Rightarrow> None | Inr pdu \<Rightarrow> de (content pdu))"

definition member_at :: "access_env \<Rightarrow> 'c accessor \<Rightarrow> (TypeStateKey \<Rightarrow> EventId option) \<Rightarrow> UserId \<Rightarrow> MembershipState" where
  "member_at E s f user =
     (case content_at E s f (de_member_content (ae_ruma E)) (RoomMember, user) of None \<Rightarrow> Leave | Some m \<Rightarrow> m)"

definition visibility_at :: "access_env \<Rightarrow> 'c accessor \<Rightarrow> (TypeStateKey \<Rightarrow> EventId option) \<Rightarrow> HistoryVisibility" where
  "visibility_at E s f = (case content_at E s f (de_history E) visibility_key of None \<Rightarrow> HvShared | Some v \<Rightarrow> v)"

definition server_rule :: "access_env \<Rightarrow> 'c accessor \<Rightarrow> (TypeStateKey \<Rightarrow> EventId option) \<Rightarrow> UserId list \<Rightarrow> bool" where
  "server_rule E s f members \<longleftrightarrow>
     (case visibility_at E s f of
        HvInvited \<Rightarrow> list_ex (\<lambda>user. member_at E s f user \<in> {Join, Invite}) members
      | HvJoined \<Rightarrow> list_ex (\<lambda>user. member_at E s f user = Join) members
      | _ \<Rightarrow> True)"

definition user_rule :: "access_env \<Rightarrow> 'c accessor \<Rightarrow> (TypeStateKey \<Rightarrow> EventId option) \<Rightarrow> UserId \<Rightarrow> bool \<Rightarrow> bool" where
  "user_rule E s f user joined \<longleftrightarrow>
     (case visibility_at E s f of
        HvInvited \<Rightarrow> member_at E s f user \<in> {Join, Invite}
      | HvJoined \<Rightarrow> member_at E s f user = Join
      | HvWorldReadable \<Rightarrow> True
      | _ \<Rightarrow> joined)"

text \<open>A read changes the cache only.\<close>

definition only_cache :: "'c state_lru \<Rightarrow> 'c accessor \<Rightarrow> 'c accessor \<Rightarrow> bool" where
  "only_cache L s s' \<longleftrightarrow>
     (\<exists>c. s' = s\<lparr>ax_rooms := set_cache c (ax_rooms s)\<rparr> \<and> cache_coherent L (comp_diffs (rs_comp (ax_rooms s))) c)"

lemma only_cacheD:
  assumes "only_cache L s s'"
  shows "state_known L sha256 s h f \<Longrightarrow> state_known L sha256 s' h f" "content_at E s' f de key = content_at E s f de key"
    "member_at E s' f user = member_at E s f user" "visibility_at E s' f = visibility_at E s f"
    "members_of_server E server room s' = members_of_server E server room s" "ax_cache s' = ax_cache s"
proof -
  obtain c where c: "s' = s\<lparr>ax_rooms := set_cache c (ax_rooms s)\<rparr>" "cache_coherent L (comp_diffs (rs_comp (ax_rooms s))) c"
    using assms by (auto simp: only_cache_def)
  have pdu: "ax_get_pdu E s' = ax_get_pdu E s" for E by (simp add: c(1) ax_get_pdu_def fun_eq_iff)
  show content: "content_at E s' f de key = content_at E s f de key" for de :: "RawJson \<Rightarrow> 'b option" and key
    by (simp add: content_at_def pdu)
  show "member_at E s' f user = member_at E s f user" "visibility_at E s' f = visibility_at E s f"
    by (simp_all add: member_at_def visibility_at_def content_at_def pdu)
  show "members_of_server E server room s' = members_of_server E server room s" "ax_cache s' = ax_cache s"
    by (simp_all add: members_of_server_def c(1))
  show "state_known L sha256 s' h f" if "state_known L sha256 s h f"
    using that c(2) by (auto simp: state_known_def c(1) set_cache_def rs_short_def store_inv_def)
qed

lemma only_cache_trans: "only_cache L a b \<Longrightarrow> only_cache L b c \<Longrightarrow> only_cache L a c"
  by (auto simp: only_cache_def set_cache_def)

lemma state_get_reads:
  assumes "lru_laws L" "state_known L sha256 s h f"
  obtains s' where "state_get L E h key s = Some (case f key of None \<Rightarrow> Inl StoreNotFound | Some eid \<Rightarrow> ax_get_pdu E s eid, s')"
    "only_cache L s s'"
proof -
  obtain t where st: "store_inv L sha256 (rs_comp (ax_rooms s))" "good_state (comp_diffs (rs_comp (ax_rooms s))) h t"
    "one_per_key t" "numbered_state (rs_short (ax_rooms s)) t" "state_map (rs_short (ax_rooms s)) t f"
    using assms(2) by (auto simp: state_known_def)
  have coh: "cache_coherent L (comp_diffs (rs_comp (ax_rooms s))) (comp_cache (rs_comp (ax_rooms s)))"
    using st(1) by (simp add: store_inv_def)
  obtain stack c where load: "load_shortstatehash_info L (comp_diffs (rs_comp (ax_rooms s))) h (comp_cache (rs_comp (ax_rooms s))) = Some (Inr stack, c)"
    "cache_coherent L (comp_diffs (rs_comp (ax_rooms s))) c"
    using load_good [OF assms(1) coh st(2)] by metis
  obtain r s1 where run: "state_get_id L h key (ax_rooms s) = Some (r, s1)"
    "\<forall>eid. r = Inr eid \<longleftrightarrow> in_state (rs_short (ax_rooms s)) t key eid" "r = Inl StoreNotFound \<or> (\<exists>eid. r = Inr eid)"
    using state_get_id_spec [OF assms(1) st(1-4), of key] by blast
  have fk: "f key = Some eid \<longleftrightarrow> r = Inr eid" for eid using st(5) run(2) unfolding state_map_def by blast
  have r: "r = (case f key of None \<Rightarrow> Inl StoreNotFound | Some eid \<Rightarrow> Inr eid)"
  proof (cases "f key")
    case None
    with fk run(3) show ?thesis by auto
  next
    case (Some eid)
    with fk [of eid] show ?thesis by simp
  qed
  have "\<exists>c'. s1 = set_cache c' (ax_rooms s) \<and> cache_coherent L (comp_diffs (rs_comp (ax_rooms s))) c'"
  proof (cases "get_shortstatekey (rs_short (ax_rooms s)) key")
    case None
    then have "s1 = ax_rooms s" using run(1) by (simp add: state_get_id_def state_get_shortid_def)
    then show ?thesis using coh by (intro exI [of _ "comp_cache (rs_comp (ax_rooms s))"]) (simp add: set_cache_def)
  next
    case (Some k)
    then show ?thesis using run(1) load
      by (auto simp: state_get_id_def state_get_shortid_def load_full_state_def)
  qed
  then have "only_cache L s (s\<lparr>ax_rooms := s1\<rparr>)" by (auto simp: only_cache_def)
  moreover have "state_get L E h key s = Some (case f key of None \<Rightarrow> Inl StoreNotFound | Some eid \<Rightarrow> ax_get_pdu E s eid, s\<lparr>ax_rooms := s1\<rparr>)"
    using run(1) by (simp add: state_get_def r split: option.splits)
  ultimately show ?thesis by (intro that)
qed

lemma content_reads:
  assumes "lru_laws L" "state_known L sha256 s h f"
  obtains s' r where "state_get_content L E de h key s = Some (r, s')" "only_cache L s s'"
    "r = (case content_at E s f de key of None \<Rightarrow> Inl StoreNotFound | Some v \<Rightarrow> Inr v)"
proof -
  obtain s' where s': "state_get L E h key s = Some (case f key of None \<Rightarrow> Inl StoreNotFound | Some eid \<Rightarrow> ax_get_pdu E s eid, s')"
    "only_cache L s s'" by (rule state_get_reads [OF assms])
  have e: "e = StoreNotFound" if "ax_get_pdu E s eid = Inl e" for eid e
    using that by (auto simp: ax_get_pdu_def split: sum.splits)
  let ?r = "rbind (case f key of None \<Rightarrow> Inl StoreNotFound | Some eid \<Rightarrow> ax_get_pdu E s eid) (\<lambda>pdu. ok_or StoreNotFound (de (content pdu)))"
  have "?r = (case content_at E s f de key of None \<Rightarrow> Inl StoreNotFound | Some v \<Rightarrow> Inr v)"
  proof (cases "f key")
    case None
    then show ?thesis by (simp add: content_at_def)
  next
    case (Some eid)
    show ?thesis
    proof (cases "ax_get_pdu E s eid")
      case (Inl er)
      then show ?thesis using Some e by (simp add: content_at_def)
    next
      case (Inr p)
      then show ?thesis using Some by (cases "de (content p)") (simp_all add: content_at_def)
    qed
  qed
  moreover have "state_get_content L E de h key s = Some (?r, s')" using s'(1) by (simp add: state_get_content_def)
  ultimately show ?thesis using that s'(2) by blast
qed

lemma membership_reads:
  assumes "lru_laws L" "state_known L sha256 s h f"
  obtains s' where "membership_at L E h user s = Some (member_at E s f user, s')" "only_cache L s s'"
proof -
  obtain s' r where r: "state_get_content L E (de_member_content (ae_ruma E)) h (RoomMember, user) s = Some (r, s')" "only_cache L s s'"
    "r = (case content_at E s f (de_member_content (ae_ruma E)) (RoomMember, user) of None \<Rightarrow> Inl StoreNotFound | Some v \<Rightarrow> Inr v)"
    by (rule content_reads [OF assms])
  then show ?thesis using that by (simp add: membership_at_def member_at_def split: option.splits)
qed

lemma any_was_reads:
  assumes "lru_laws L" "state_known L sha256 s h f"
    "\<And>user s. state_known L sha256 s h f \<Longrightarrow> \<exists>s'. was user s = Some (P (member_at E s f user), s') \<and> only_cache L s s'"
    "only_cache L s0 s"
  shows "\<exists>s'. any_was was users s = Some (list_ex (\<lambda>user. P (member_at E s f user)) users, s') \<and> only_cache L s0 s'"
  using assms(2,4)
proof (induction users arbitrary: s)
  case (Cons user users)
  obtain s1 where s1: "was user s = Some (P (member_at E s f user), s1)" "only_cache L s s1"
    using assms(3) [OF Cons.prems(1)] by blast
  note keep = only_cacheD [OF s1(2)]
  show ?case
  proof (cases "P (member_at E s f user)")
    case True
    then show ?thesis using s1 only_cache_trans [OF Cons.prems(2)] by auto
  next
    case False
    have "\<exists>s'. any_was was users s1 = Some (list_ex (\<lambda>user. P (member_at E s1 f user)) users, s') \<and> only_cache L s0 s'"
      by (rule Cons.IH [OF keep(1) [OF Cons.prems(1)] only_cache_trans [OF Cons.prems(2) s1(2)]])
    then show ?thesis using s1 False by (simp add: keep(3))
  qed
qed simp

lemma visibility_reads:
  assumes "lru_laws L" "state_known L sha256 s h f"
  obtains s' r where "state_get_content L E (de_history E) h visibility_key s = Some (r, s')" "only_cache L s s'"
    "visibility_or_shared r = visibility_at E s f"
proof -
  obtain s' r where "state_get_content L E (de_history E) h visibility_key s = Some (r, s')" "only_cache L s s'"
    "r = (case content_at E s f (de_history E) visibility_key of None \<Rightarrow> Inl StoreNotFound | Some v \<Rightarrow> Inr v)"
    by (rule content_reads [OF assms])
  then show ?thesis using that by (simp add: visibility_at_def visibility_or_shared_def split: option.splits)
qed

lemma was_reads:
  assumes "lru_laws L" "state_known L sha256 s h f"
  shows "\<exists>s'. user_was_joined L E h user s = Some (member_at E s f user = Join, s') \<and> only_cache L s s'"
    "\<exists>s'. user_was_invited L E h user s = Some (member_at E s f user \<in> {Join, Invite}, s') \<and> only_cache L s s'"
proof -
  obtain s' where "membership_at L E h user s = Some (member_at E s f user, s')" "only_cache L s s'"
    by (rule membership_reads [OF assms])
  then show "\<exists>s'. user_was_joined L E h user s = Some (member_at E s f user = Join, s') \<and> only_cache L s s'"
    "\<exists>s'. user_was_invited L E h user s = Some (member_at E s f user \<in> {Join, Invite}, s') \<and> only_cache L s s'"
    by (auto simp: user_was_joined_def user_was_invited_def)
qed

text \<open>
  C16: For an event with a recorded state before it, what may be seen is decided by that state, whatever the
  cache holds: a server may see the event when the history is not restricted, or one of its current members
  was joined (or, for the visibility \<open>invited\<close>, at least invited) in that state. For a user it is their own
  membership that counts: joined (or at least invited) in that state, and for shared history joined now. The
  comments inside \<open>user_can_see_event\<close> speak of any member of the requesting server, as in
  \<open>server_can_see_event\<close>; the code asks for the user alone. The checks change nothing but the cache.
\<close>

theorem visibility_rules:
  assumes "lru_laws L" "pdu_shortstatehash (ax_rooms s) event = Some h" "state_known L sha256 s h f"
  shows "(\<exists>s'. server_can_see_event L E server room event s
        = Some (server_rule E s f (members_of_server E server room s), s') \<and> only_cache L s s')
    \<and> (\<exists>s'. user_can_see_event L E user room event s
        = Some (user_rule E s f (ae_string E user) (is_joined (ax_cache s) user room), s') \<and> only_cache L s s')"
proof -
  obtain s1 r where r: "state_get_content L E (de_history E) h visibility_key s = Some (r, s1)" "only_cache L s s1"
    "visibility_or_shared r = visibility_at E s f" by (rule visibility_reads [OF assms(1,3)])
  note keep = only_cacheD [OF r(2)]
  have k1: "state_known L sha256 s1 h f" by (rule keep(1) [OF assms(3)])
  note any = any_was_reads [OF assms(1) k1 _ r(2), of _ _ E]
  have "\<exists>s'. any_was (user_was_joined L E h) us s1 = Some (list_ex (\<lambda>user. member_at E s1 f user = Join) us, s') \<and> only_cache L s s'"
    "\<exists>s'. any_was (user_was_invited L E h) us s1 = Some (list_ex (\<lambda>user. member_at E s1 f user \<in> {Join, Invite}) us, s') \<and> only_cache L s s'" for us
    by (rule any; rule was_reads [OF assms(1)], assumption)+
  then have "\<exists>s'. server_can_see_event L E server room event s
        = Some (server_rule E s f (members_of_server E server room s), s') \<and> only_cache L s s'"
    using assms(2) r by (cases "visibility_at E s f") (simp_all add: server_can_see_event_def server_rule_def keep(3,5))
  moreover have "\<exists>s'. user_can_see_event L E user room event s
        = Some (user_rule E s f (ae_string E user) (is_joined (ax_cache s) user room), s') \<and> only_cache L s s'"
  proof -
    obtain s2 s3 where "user_was_joined L E h (ae_string E user) s1 = Some (member_at E s1 f (ae_string E user) = Join, s2)"
      "only_cache L s1 s2"
      "user_was_invited L E h (ae_string E user) s1 = Some (member_at E s1 f (ae_string E user) \<in> {Join, Invite}, s3)"
      "only_cache L s1 s3"
      using was_reads [OF assms(1) k1] by blast
    moreover from this have "only_cache L s s2" "only_cache L s s3" using only_cache_trans [OF r(2)] by blast+
    ultimately show ?thesis using assms(2) r
      by (cases "visibility_at E s f") (simp_all add: user_can_see_event_def user_rule_def keep(3))
  qed
  ultimately show ?thesis ..
qed

section \<open>A room with a restricted history\<close>

text \<open>The state before the event \<open>$m\<close> holds one event \<open>$v\<close>, which restricts the history to joined members.\<close>

definition vis_short :: short_data where
  "vis_short = (comp_short demo_compressor)\<lparr>eventid_shorteventid := [(''$v'', 2), (''$m'', 1)],
     shorteventid_eventid := [(2, ''$v''), (1, ''$m'')], statekey_shortstatekey := [(visibility_key, 1)],
     shortstatekey_statekey := [(1, visibility_key)]\<rparr>"

definition vis_accessor :: "(u64 \<Rightarrow> ShortStateInfo list option) accessor" where
  "vis_accessor = \<lparr> ax_rooms = \<lparr> rs_comp = demo_compressor\<lparr>comp_short := vis_short\<rparr>,
       shorteventid_shortstatehash = [(1, 3)], roomid_shortstatehash = [], roomid_pduleaves = [] \<rparr>,
     ax_timeline = add_pdu_outlier ''$v'' [0] (no_events vis_short), ax_cache = joined_by [ann] \<rparr>"

definition vis_env :: access_env where
  "vis_env = \<lparr> ae_ruma = demo_ruma, ae_ids = ascii_ids, ae_user_server = (\<lambda>_. [0x73]), ae_string = (\<lambda>_. ''@a''),
     de_history = (\<lambda>c. if c = ''joined'' then Some HvJoined else None), de_create_redact = (\<lambda>_. None),
     redact_other = (\<lambda>_ _. False), redact_own = (\<lambda>_ _. False),
     ae_parse = (\<lambda>_. Some (EventAuth.demo_event ''$v'' (OtherType ''m.room.history_visibility'') [] ''@a'' ''joined'' [] [])),
     ae_first = True \<rparr>"

lemma vis_short_ok: "short_ext (comp_short demo_compressor) vis_short"
  by (auto simp: short_ext_def vis_short_def demo_compressor_def no_shorts_def short_inv_def table_ok_def inverse_tables_def
      inj_on_def get_shorteventid_def get_shortstatekey_def get_shortstatehash_def map_le_def split: if_splits)

lemma vis_known: "state_known map_cache (\<lambda>x. x) vis_accessor 3 [visibility_key \<mapsto> ''$v'']"
proof -
  let ?t = "{StateCompressor.demo_event}"
  have coh: "cache_coherent map_cache (comp_diffs demo_compressor) (\<lambda>_. None)"
    by (simp add: cache_coherent_def lru_all_def map_cache_def)
  have "demo_compressor\<lparr>comp_short := vis_short, comp_cache := (\<lambda>_. None)\<rparr> = demo_compressor\<lparr>comp_short := vis_short\<rparr>"
    by (simp add: demo_compressor_def)
  with store_inv_ext [OF demo_store_inv vis_short_ok coh]
  have inv: "store_inv map_cache (\<lambda>x. x) (rs_comp (ax_rooms vis_accessor))" by (simp add: vis_accessor_def)
  have good: "good_state (comp_diffs (rs_comp (ax_rooms vis_accessor))) 3 ?t"
    unfolding good_state_def using demo_stack by (intro exI [of _ "[base_layer 3 demo_diff]"]) (simp add: vis_accessor_def)
  have keys: "get_shortstatekey vis_short key = (if key = visibility_key then Some 1 else None)"
    "get_shorteventid vis_short eid = (if eid = ''$v'' then Some 2 else if eid = ''$m'' then Some 1 else None)" for key eid
    by (simp_all add: vis_short_def get_shortstatekey_def get_shorteventid_def)
  have "get_shortstatekey vis_short visibility_key = Some 1" "get_shorteventid vis_short ''$v'' = Some 2" by (simp_all add: keys)
  then have "numbered_state vis_short ?t" unfolding numbered_state_def StateCompressor.demo_event_def by blast
  moreover have "state_map vis_short ?t [visibility_key \<mapsto> ''$v'']"
    unfolding state_map_def in_state_def keys StateCompressor.demo_event_def by (auto split: if_splits)
  ultimately show ?thesis using inv good unfolding state_known_def
    by (intro conjI exI [of _ ?t]) (simp_all add: one_per_key_def vis_accessor_def rs_short_def)
qed

lemma visibility_rules_witness:
  "\<exists>s1 s2. server_can_see_event map_cache vis_env [0x73] lobby ''$m'' vis_accessor = Some (False, s1)
     \<and> user_can_see_event map_cache vis_env ann lobby ''$m'' vis_accessor = Some (False, s2)"
proof -
  have h: "pdu_shortstatehash (ax_rooms vis_accessor) ''$m'' = Some 3"
    by (simp add: pdu_shortstatehash_def vis_accessor_def rs_short_def vis_short_def get_shorteventid_def)
  have found: "ax_get_pdu vis_env vis_accessor ''$v''
      = Inr (EventAuth.demo_event ''$v'' (OtherType ''m.room.history_visibility'') [] ''@a'' ''joined'' [] [])"
    by (simp add: ax_get_pdu_def vis_env_def vis_accessor_def get_pdu_def get_pdu_outlier_def get_non_outlier_pdu_def
        get_pdu_id_def add_pdu_outlier_def no_events_def select_ok_def)
  have vis: "visibility_at vis_env vis_accessor [visibility_key \<mapsto> ''$v''] = HvJoined"
    unfolding visibility_at_def content_at_def using found by (simp add: vis_env_def EventAuth.demo_event_def)
  have mem: "member_at vis_env vis_accessor [visibility_key \<mapsto> ''$v''] u = Leave" for u
    by (simp add: member_at_def content_at_def visibility_key_def)
  show ?thesis
    using visibility_rules [OF map_cache_laws h vis_known, of vis_env "[0x73]" lobby ann]
    by (auto simp: server_rule_def user_rule_def vis mem list_ex_iff)
qed

end
