(* ===== verification/Acceptance.thy ===== *)
theory Acceptance
  imports Reception Visibility StateRes AuthChain
begin

text \<open>
  From an outlier to an event of the timeline, \<^verbatim>\<open>src/service/rooms/event_handler/upgrade_outlier_pdu.rs\<close> with the functions it
  calls: the state before the event (\<^verbatim>\<open>state_at_incoming.rs\<close>, \<^verbatim>\<open>fetch_state.rs\<close>), the auth events in the current state
  (\<^verbatim>\<open>state/mod.rs\<close>), the new state of the room (\<^verbatim>\<open>resolve_state.rs\<close>, \<open>force_state\<close>) and the timeline
  (\<^verbatim>\<open>timeline/append.rs\<close>, \<^verbatim>\<open>redact.rs\<close>).  This theory composes the components of the others over one state: the short ids
  are those of the state compressor and are handed to the auth chains and the timeline for each call.  An
  action may fail with an error, after it has changed the state, and may not return (\<^const>\<open>None\<close>).
\<close>

section \<open>State, environment and actions\<close>

datatype AcceptError =
  AcceptStore StoreError | AcceptChain ChainError | AcceptReception ReceptionError | AcceptCache CacheError
| AcceptRedact RedactError | AcceptTimeline TimelineError | AcceptForbidden | AcceptSoftFailed | AcceptDatabase
| AcceptContent | AcceptResolution Error | AcceptPanic

record ('c, 'd) server =
  sv_access :: "'c accessor"
  sv_authchains :: "(u64, u8 list) hash_map"
  sv_chain_cache :: 'd
  sv_bad_events :: "(EventId, nat \<times> nat) hash_map"
  sv_tick :: nat
  referencedevents :: "(RoomId \<times> EventId) list"
  softfailedeventids :: "EventId list"

text \<open>
  The environments of the components, the caches and the depth of fetches, and what else comes from outside: the
  answers of the other server (\<open>state_ids_answer\<close>) and of the policy server, ruma's parsers and JSON conversions, and the
  push rules, which say whom an event notifies.
\<close>

record ('c, 'd) accept_env =
  ac_events :: event_env
  ac_access :: access_env
  ac_members :: cache_env
  ac_states :: "'c state_lru"
  ac_chains :: "'d chain_lru"
  ac_sha256 :: "u8 list \<Rightarrow> u8 list"
  ac_depth :: nat
  ac_bytes :: "string \<Rightarrow> u8 list"
  state_ids_answer :: "nat \<Rightarrow> ServerName \<Rightarrow> RoomId \<Rightarrow> EventId \<Rightarrow> EventId list option"
  policy_answer :: "nat \<Rightarrow> Pdu \<Rightarrow> RoomId \<Rightarrow> bool option"
  de_redacts :: "RawJson \<Rightarrow> EventId option option"
  member_event_of :: "Pdu \<Rightarrow> member_event"
  with_prev_content :: "Pdu option \<Rightarrow> CanonicalJsonObject \<Rightarrow> CanonicalJsonObject option"
  notified :: "Pdu \<Rightarrow> RoomId \<Rightarrow> u8 list list \<times> u8 list list"
  body_ok :: "RawJson \<Rightarrow> bool"
  redacted_bytes :: "RoomVersionId \<Rightarrow> Pdu \<Rightarrow> Pdu \<Rightarrow> u8 list option"

type_synonym ('s, 'a) action = "'s \<Rightarrow> ((AcceptError + 'a) \<times> 's) option"

definition return :: "'a \<Rightarrow> ('s, 'a) action" where
  "return a s = Some (Inr a, s)"

definition fail :: "AcceptError \<Rightarrow> ('s, 'a) action" where
  "fail e s = Some (Inl e, s)"

definition andthen :: "('s, 'a) action \<Rightarrow> ('a \<Rightarrow> ('s, 'b) action) \<Rightarrow> ('s, 'b) action" where
  "andthen m f s = Option.bind (m s) (\<lambda>(r, s'). case r of Inl e \<Rightarrow> Some (Inl e, s') | Inr a \<Rightarrow> f a s')"

definition of_result :: "AcceptError + 'a \<Rightarrow> ('s, 'a) action" where
  "of_result r s = Some (r, s)"

definition gets :: "('s \<Rightarrow> 'a) \<Rightarrow> ('s, 'a) action" where
  "gets f s = Some (Inr (f s), s)"

definition change :: "('s \<Rightarrow> 's) \<Rightarrow> ('s, unit) action" where
  "change f s = Some (Inr (), f s)"

fun each :: "('a \<Rightarrow> ('s, 'b) action) \<Rightarrow> 'a list \<Rightarrow> ('s, 'b list) action" where
  "each f [] = return []"
| "each f (x # xs) = andthen (f x) (\<lambda>y. andthen (each f xs) (\<lambda>ys. return (y # ys)))"

definition err :: "('e \<Rightarrow> AcceptError) \<Rightarrow> 'e + 'a \<Rightarrow> AcceptError + 'a" where
  "err g r = (case r of Inl e \<Rightarrow> Inl (g e) | Inr a \<Rightarrow> Inr a)"

section \<open>The components on the common state\<close>

definition sv_rooms :: "('c, 'd) server \<Rightarrow> 'c room_states" where
  "sv_rooms s = ax_rooms (sv_access s)"

definition sv_timeline :: "('c, 'd) server \<Rightarrow> timeline_data" where
  "sv_timeline s = ax_timeline (sv_access s)"

definition set_rooms :: "'c room_states \<Rightarrow> ('c, 'd) server \<Rightarrow> ('c, 'd) server" where
  "set_rooms rooms s = s\<lparr>sv_access := (sv_access s)\<lparr>ax_rooms := rooms\<rparr>\<rparr>"

definition set_timeline :: "timeline_data \<Rightarrow> ('c, 'd) server \<Rightarrow> ('c, 'd) server" where
  "set_timeline t s = s\<lparr>sv_access := (sv_access s)\<lparr>ax_timeline := t\<rparr>\<rparr>"

definition set_members :: "cache_data \<Rightarrow> ('c, 'd) server \<Rightarrow> ('c, 'd) server" where
  "set_members c s = s\<lparr>sv_access := (sv_access s)\<lparr>ax_cache := c\<rparr>\<rparr>"

definition sv_get_pdu :: "('c, 'd) accept_env \<Rightarrow> ('c, 'd) server \<Rightarrow> EventId \<Rightarrow> Pdu option" where
  "sv_get_pdu V s event =
     (case get_pdu (timeline_first (ac_events V)) (parse_pdu (ac_events V)) (sv_timeline s) event of
        Inl _ \<Rightarrow> None | Inr pdu \<Rightarrow> Some pdu)"

definition sv_pdu_exists :: "('c, 'd) accept_env \<Rightarrow> ('c, 'd) server \<Rightarrow> EventId \<Rightarrow> bool" where
  "sv_pdu_exists V s event \<longleftrightarrow> pdu_exists (timeline_first (ac_events V)) (sv_timeline s) event = Inr ()"

definition with_rooms :: "('c room_states \<Rightarrow> ((AcceptError + 'a) \<times> 'c room_states) option) \<Rightarrow> (('c, 'd) server, 'a) action" where
  "with_rooms f s = map_option (\<lambda>(r, rooms). (r, set_rooms rooms s)) (f (sv_rooms s))"

definition with_access :: "('c accessor \<Rightarrow> ((AcceptError + 'a) \<times> 'c accessor) option) \<Rightarrow> (('c, 'd) server, 'a) action" where
  "with_access f s = map_option (\<lambda>(r, acc). (r, s\<lparr>sv_access := acc\<rparr>)) (f (sv_access s))"

definition with_short :: "(short_data \<Rightarrow> 'a \<times> short_data) \<Rightarrow> (('c, 'd) server, 'a) action" where
  "with_short f s = (let (a, short) = f (rs_short (sv_rooms s)) in Some (Inr a, set_rooms (set_short short (sv_rooms s)) s))"

definition short_statekey :: "TypeStateKey \<Rightarrow> (('c, 'd) server, u64) action" where
  "short_statekey key = with_short (get_or_create_shortstatekey key)"

definition auth_chain_of ::
    "('c, 'd) accept_env \<Rightarrow> RoomId \<Rightarrow> EventId list \<Rightarrow> (('c, 'd) server, EventId list) action" where
  "auth_chain_of V room events s =
     map_option (\<lambda>(r, d). (err AcceptChain r,
         set_rooms (set_short (chain_short d) (sv_rooms s)) s\<lparr>sv_authchains := shorteventid_authchain d, sv_chain_cache := auth_chain_cache d\<rparr>))
       (event_ids_iter (ac_chains V) (sv_get_pdu V s) room events
         \<lparr> chain_short = rs_short (sv_rooms s), shorteventid_authchain = sv_authchains s, auth_chain_cache = sv_chain_cache s \<rparr>)"

definition fetch_outliers ::
    "('c, 'd) accept_env \<Rightarrow> ServerName \<Rightarrow> Pdu \<Rightarrow> RoomId \<Rightarrow> EventId list
     \<Rightarrow> (('c, 'd) server, (Pdu \<times> CanonicalJsonObject option) list) action" where
  "fetch_outliers V server create_event room events s =
     map_option (\<lambda>(r, rc). (err AcceptReception r,
         set_timeline (rc_timeline rc) s\<lparr>sv_bad_events := bad_event_ratelimiter rc, sv_tick := rc_tick rc\<rparr>))
       (fetch_and_handle_outliers (ac_events V) (ac_depth V) server create_event room events
         \<lparr> rc_timeline = sv_timeline s, bad_event_ratelimiter = sv_bad_events s, rc_tick = sv_tick s \<rparr>)"

definition state_ids_at :: "('c, 'd) accept_env \<Rightarrow> u64 \<Rightarrow> (('c, 'd) server, (u64, EventId) hash_map) action" where
  "state_ids_at V h =
     with_rooms (\<lambda>rooms. map_option (\<lambda>(ids, rooms'). (Inr (hm_extend ids []), rooms')) (state_full_ids (ac_states V) h rooms))"

text \<open>The state after an event: its entry is put in place.\<close>

definition after_event :: "Pdu \<Rightarrow> EventId \<Rightarrow> (u64, EventId) hash_map \<Rightarrow> (('c, 'd) server, (u64, EventId) hash_map) action" where
  "after_event pdu event state =
     (case state_key pdu of
        None \<Rightarrow> return state
      | Some key \<Rightarrow> andthen (short_statekey (kind pdu, key)) (\<lambda>k. return (hm_insert k event state)))"

section \<open>The state before the event\<close>

definition state_at_incoming_degree_one ::
    "('c, 'd) accept_env \<Rightarrow> Pdu \<Rightarrow> (('c, 'd) server, (u64, EventId) hash_map option) action" where
  "state_at_incoming_degree_one V pdu =
     (case prev_events pdu of
        [] \<Rightarrow> fail AcceptPanic
      | prev_event # _ \<Rightarrow>
          andthen (gets (\<lambda>s. pdu_shortstatehash (sv_rooms s) prev_event)) (\<lambda>found.
          case found of
            None \<Rightarrow> return None
          | Some h \<Rightarrow>
              andthen (state_ids_at V h) (\<lambda>state.
              andthen (gets (\<lambda>s. sv_get_pdu V s prev_event)) (\<lambda>prev_pdu.
              case prev_pdu of
                None \<Rightarrow> fail AcceptDatabase
              | Some prev_pdu \<Rightarrow> andthen (after_event prev_pdu prev_event state) (\<lambda>after. return (Some after))))))"

text \<open>
  The states after the previous events, when all of these and the states before them are known.  They are
  collected in a map from states to events, so that of two events with the same state before them one is lost.
\<close>

definition extremity_sstatehashes ::
    "('c, 'd) accept_env \<Rightarrow> ('c, 'd) server \<Rightarrow> EventId list \<Rightarrow> (u64, Pdu) hash_map option" where
  "extremity_sstatehashes V s prevs =
     fold (\<lambda>prev m. Option.bind m (\<lambda>m.
         Option.bind (sv_get_pdu V s prev) (\<lambda>pdu.
         map_option (\<lambda>h. hm_insert h pdu m) (pdu_shortstatehash (sv_rooms s) prev)))) prevs (Some [])"

definition name_state :: "('c, 'd) server \<Rightarrow> (u64, EventId) hash_map \<Rightarrow> EventId state_map" where
  "name_state s state =
     hm_extend (List.map_filter (\<lambda>(k, eid). map_option (\<lambda>key. (key, eid)) (get_statekey_from_short (rs_short (sv_rooms s)) k)) state) []"

definition state_at_incoming_fork ::
    "('c, 'd) accept_env \<Rightarrow> RoomId \<Rightarrow> u64 \<times> Pdu \<Rightarrow> (('c, 'd) server, EventId state_map \<times> EventId list) action" where
  "state_at_incoming_fork V room fork =
     andthen (state_ids_at V (fst fork)) (\<lambda>leaf_state.
     andthen (after_event (snd fork) (event_id (snd fork)) leaf_state) (\<lambda>leaf_state.
     andthen (auth_chain_of V room (map snd leaf_state)) (\<lambda>chain.
     andthen (gets (\<lambda>s. name_state s leaf_state)) (\<lambda>fork_state. return (fork_state, chain)))))"

definition state_resolution ::
    "('c, 'd) accept_env \<Rightarrow> RoomVersionId \<Rightarrow> EventId state_map list \<Rightarrow> EventId list list \<Rightarrow> (('c, 'd) server, EventId state_map) action" where
  "state_resolution V version forks chain_sets s =
     map_option (\<lambda>r. (err AcceptResolution r, s))
       (resolve (rx_ruma (ac_events V)) version forks chain_sets (sv_get_pdu V s) (sv_pdu_exists V s))"

definition number_state :: "EventId state_map \<Rightarrow> (('c, 'd) server, (u64 \<times> EventId) list) action" where
  "number_state state = each (\<lambda>(key, eid). andthen (short_statekey key) (\<lambda>k. return (k, eid))) state"

text \<open>A failed resolution counts as an unknown state, a panic does not.\<close>

definition catch :: "('s, 'a) action \<Rightarrow> ('s, 'a option) action" where
  "catch m s =
     map_option (\<lambda>(r, s'). (case r of
         Inl e \<Rightarrow> if e = AcceptResolution Panic then Inl e else Inr None
       | Inr a \<Rightarrow> Inr (Some a), s')) (m s)"

definition state_at_incoming_resolved ::
    "('c, 'd) accept_env \<Rightarrow> Pdu \<Rightarrow> RoomId \<Rightarrow> RoomVersionId \<Rightarrow> (('c, 'd) server, (u64, EventId) hash_map option) action" where
  "state_at_incoming_resolved V pdu room version =
     andthen (gets (\<lambda>s. extremity_sstatehashes V s (prev_events pdu))) (\<lambda>found.
     case found of
       None \<Rightarrow> return None
     | Some extremities \<Rightarrow>
         andthen (each (state_at_incoming_fork V room) extremities) (\<lambda>forks.
         andthen (catch (state_resolution V version (map fst forks) (map snd forks))) (\<lambda>resolved.
         case resolved of
           None \<Rightarrow> return None
         | Some new_state \<Rightarrow> andthen (number_state new_state) (\<lambda>state. return (Some (hm_extend state []))))))"

text \<open>\<open>fetch_state\<close> asks the origin for the state; two events for one key are an error, and so is another create event.\<close>

fun add_state_events ::
    "(Pdu \<times> CanonicalJsonObject option) list \<Rightarrow> (u64, EventId) hash_map \<Rightarrow> (('c, 'd) server, (u64, EventId) hash_map) action" where
  "add_state_events [] state = return state"
| "add_state_events ((pdu, _) # ps) state =
     (case state_key pdu of
        None \<Rightarrow> fail AcceptDatabase
      | Some key \<Rightarrow>
          andthen (short_statekey (kind pdu, key)) (\<lambda>k.
          if map_of state k \<noteq> None then fail AcceptDatabase else add_state_events ps (hm_insert k (event_id pdu) state)))"

definition fetch_state ::
    "('c, 'd) accept_env \<Rightarrow> ServerName \<Rightarrow> Pdu \<Rightarrow> RoomId \<Rightarrow> EventId \<Rightarrow> (('c, 'd) server, (u64, EventId) hash_map) action" where
  "fetch_state V server create_event room event =
     andthen (gets (\<lambda>s. state_ids_answer V (sv_tick s) server room event)) (\<lambda>answer.
     andthen (change (\<lambda>s. s\<lparr>sv_tick := Suc (sv_tick s)\<rparr>)) (\<lambda>_.
     case answer of
       None \<Rightarrow> fail AcceptDatabase
     | Some ids \<Rightarrow>
         andthen (fetch_outliers V server create_event room ids) (\<lambda>ps.
         andthen (add_state_events ps []) (\<lambda>state.
         andthen (gets (\<lambda>s. get_shortstatekey (rs_short (sv_rooms s)) (RoomCreate, ''''))) (\<lambda>create_key.
         case create_key of
           None \<Rightarrow> fail AcceptDatabase
         | Some k \<Rightarrow> if map_of state k \<noteq> Some (event_id create_event) then fail AcceptDatabase else return state)))))"

definition state_at_incoming ::
    "('c, 'd) accept_env \<Rightarrow> ServerName \<Rightarrow> Pdu \<Rightarrow> RoomId \<Rightarrow> RoomVersionId \<Rightarrow> Pdu \<Rightarrow> (('c, 'd) server, (u64, EventId) hash_map) action" where
  "state_at_incoming V server create_event room version pdu =
     andthen (if length (prev_events pdu) = 1 then state_at_incoming_degree_one V pdu
              else state_at_incoming_resolved V pdu room version) (\<lambda>found.
     case found of
       Some state \<Rightarrow> return state
     | None \<Rightarrow> fetch_state V server create_event room (event_id pdu))"

section \<open>The auth checks\<close>

text \<open>The auth events of an event in the current state of the room.\<close>

definition get_auth_events ::
    "('c, 'd) accept_env \<Rightarrow> RoomId \<Rightarrow> Pdu \<Rightarrow> RoomVersion \<Rightarrow> (('c, 'd) server, (TypeStateKey, Pdu) hash_map) action" where
  "get_auth_events V room pdu v =
     andthen (gets (\<lambda>s. get_room_shortstatehash (sv_rooms s) room)) (\<lambda>current.
     case current of
       None \<Rightarrow> return []
     | Some h \<Rightarrow>
         andthen (of_result (err AcceptResolution
           (auth_types_for_event (rx_ruma (ac_events V)) (kind pdu) (sender pdu) (state_key pdu) (content pdu) v))) (\<lambda>types.
         andthen (gets (\<lambda>s. hm_extend (List.map_filter (\<lambda>key. map_option (\<lambda>k. (k, key)) (get_shortstatekey (rs_short (sv_rooms s)) key)) types) [])) (\<lambda>wanted.
         andthen (with_rooms (\<lambda>rooms. map_option (\<lambda>(r, rooms'). (Inr (case r of Inl _ \<Rightarrow> [] | Inr ids \<Rightarrow> ids), rooms'))
           (state_full_shortids (ac_states V) h rooms))) (\<lambda>ids.
         gets (\<lambda>s. hm_extend (List.map_filter (\<lambda>(k, e).
           Option.bind (map_of wanted k) (\<lambda>key.
           Option.bind (get_eventid_from_short (rs_short (sv_rooms s)) e) (\<lambda>eid.
           map_option (Pair key) (sv_get_pdu V s eid)))) ids) [])))))"

text \<open>An error of the check and a panic are told apart; everything else is a verdict.\<close>

definition auth_result :: "Error + bool \<Rightarrow> AcceptError + bool" where
  "auth_result r = (case r of Inl Panic \<Rightarrow> Inl AcceptPanic | Inl _ \<Rightarrow> Inl AcceptForbidden | Inr b \<Rightarrow> Inr b)"

definition state_lookup ::
    "('c, 'd) accept_env \<Rightarrow> ('c, 'd) server \<Rightarrow> (u64, EventId) hash_map \<Rightarrow> EventType \<Rightarrow> StateKey \<Rightarrow> Pdu option" where
  "state_lookup V s state ty key =
     Option.bind (get_shortstatekey (rs_short (sv_rooms s)) (ty, key)) (\<lambda>k.
     Option.bind (map_of state k) (sv_get_pdu V s))"

definition check_at_state ::
    "('c, 'd) accept_env \<Rightarrow> RoomVersion \<Rightarrow> Pdu \<Rightarrow> (u64, EventId) hash_map \<Rightarrow> Pdu \<Rightarrow> (('c, 'd) server, bool) action" where
  "check_at_state V v pdu state create_event s =
     Some (auth_result (auth_check (rx_ruma (ac_events V)) v pdu None (state_lookup V s state) create_event), s)"

definition redacts_id :: "('c, 'd) accept_env \<Rightarrow> RoomVersionId \<Rightarrow> Pdu \<Rightarrow> EventId option" where
  "redacts_id V version pdu =
     (if kind pdu \<noteq> RoomRedaction then None
      else if version \<in> {V1, V2, V3, V4, V5, V6, V7, V8, V9, V10} then redacts pdu
      else Option.bind (de_redacts V (content pdu)) id)"

definition soft_fail_check ::
    "('c, 'd) accept_env \<Rightarrow> RoomVersionId \<Rightarrow> Pdu \<Rightarrow> RoomId \<Rightarrow> bool \<Rightarrow> (('c, 'd) server, bool) action" where
  "soft_fail_check V version pdu room allowed =
     (if \<not> allowed then return True
      else case redacts_id V version pdu of
        None \<Rightarrow> return False
      | Some redact_id \<Rightarrow>
          andthen (with_access (\<lambda>acc. map_option (\<lambda>(r, acc'). (err AcceptRedact r, acc'))
            (user_can_redact (ac_states V) (ac_access V) redact_id (sender pdu) room True acc))) (\<lambda>can. return (\<not> can)))"

section \<open>The new state of the room\<close>

definition resolve_state ::
    "('c, 'd) accept_env \<Rightarrow> RoomId \<Rightarrow> RoomVersionId \<Rightarrow> (u64, EventId) hash_map \<Rightarrow> (('c, 'd) server, CompressedState) action" where
  "resolve_state V room version incoming_state =
     andthen (gets (\<lambda>s. get_room_shortstatehash (sv_rooms s) room)) (\<lambda>current.
     case current of
       None \<Rightarrow> fail AcceptDatabase
     | Some h \<Rightarrow>
         andthen (state_ids_at V h) (\<lambda>current_state.
         andthen (each (\<lambda>state. auth_chain_of V room (map snd state)) [current_state, incoming_state]) (\<lambda>chain_sets.
         andthen (gets (\<lambda>s. map (name_state s) [current_state, incoming_state])) (\<lambda>forks.
         andthen (state_resolution V version forks chain_sets) (\<lambda>state.
         andthen (number_state state) (\<lambda>numbered.
         andthen (with_short (compress_state_events numbered)) (\<lambda>compressed. return (set compressed))))))))"

text \<open>
  \<open>force_state\<close> updates the memberships for the events that are new in the state, without counting in between, and then
  sets the state of the room.  The cache of space hierarchies is left out.
\<close>

definition update_member :: "('c, 'd) accept_env \<Rightarrow> RoomId \<Rightarrow> StateKey \<Rightarrow> Pdu \<Rightarrow> bool \<Rightarrow> (('c, 'd) server, unit) action" where
  "update_member V room user pdu counts s =
     (case update_membership (ac_members V) (ac_bytes V room) (ac_bytes V user) (member_event_of V pdu) counts (ax_cache (sv_access s)) of
        (Inl e, c) \<Rightarrow> Some (Inl (AcceptCache e), set_members c s)
      | (Inr _, c) \<Rightarrow> Some (Inr (), set_members c s))"

definition force_member :: "('c, 'd) accept_env \<Rightarrow> RoomId \<Rightarrow> CompressedStateEvent \<Rightarrow> (('c, 'd) server, unit) action" where
  "force_member V room v =
     andthen (gets (\<lambda>s. Option.bind (get_eventid_from_short (rs_short (sv_rooms s)) (snd (parse_compressed_state_event v))) (sv_get_pdu V s))) (\<lambda>found.
     case found of
       None \<Rightarrow> return ()
     | Some pdu \<Rightarrow>
         (case state_key pdu of
            None \<Rightarrow> return ()
          | Some user \<Rightarrow>
              if kind pdu = RoomMember \<and> is_user_id (rx_ruma (ac_events V)) user then update_member V room user pdu False
              else return ()))"

definition force_state ::
    "('c, 'd) accept_env \<Rightarrow> RoomId \<Rightarrow> u64 \<Rightarrow> CompressedState \<Rightarrow> (('c, 'd) server, unit) action" where
  "force_state V room h statediffnew =
     andthen (each (force_member V room) (sorted_list_of_set statediffnew)) (\<lambda>_.
     change (\<lambda>s. set_rooms (set_room_state room h (sv_rooms s))
       (set_members (update_joined_count (ac_members V) (ac_bytes V room) (ax_cache (sv_access s))) s)))"

definition derive_room_state ::
    "('c, 'd) accept_env \<Rightarrow> RoomId \<Rightarrow> RoomVersionId \<Rightarrow> Pdu \<Rightarrow> (u64, EventId) hash_map \<Rightarrow> (('c, 'd) server, unit) action" where
  "derive_room_state V room version pdu state =
     (if state_key pdu = None then return ()
      else
        andthen (after_event pdu (event_id pdu) state) (\<lambda>state_after.
        andthen (resolve_state V room version state_after) (\<lambda>new_room_state.
        andthen (with_rooms (\<lambda>rooms. map_option (\<lambda>(r, comp). (err AcceptStore r, rooms\<lparr>rs_comp := comp\<rparr>))
          (save_state (ac_states V) (ac_sha256 V) (get_room_shortstatehash rooms room) new_room_state (rs_comp rooms)))) (\<lambda>saved.
        force_state V room (new_shortstatehash saved) (state_added saved)))))"

section \<open>The timeline\<close>

definition mark_as_referenced :: "RoomId \<Rightarrow> EventId list \<Rightarrow> ('c, 'd) server \<Rightarrow> ('c, 'd) server" where
  "mark_as_referenced room events s = s\<lparr>referencedevents := fold (\<lambda>e. hs_insert (room, e)) events (referencedevents s)\<rparr>"

definition is_event_referenced :: "('c, 'd) server \<Rightarrow> RoomId \<Rightarrow> EventId \<Rightarrow> bool" where
  "is_event_referenced s room event \<longleftrightarrow> (room, event) \<in> set (referencedevents s)"

definition mark_event_soft_failed :: "EventId \<Rightarrow> ('c, 'd) server \<Rightarrow> ('c, 'd) server" where
  "mark_event_soft_failed event s = s\<lparr>softfailedeventids := hs_insert event (softfailedeventids s)\<rparr>"

definition is_event_soft_failed :: "('c, 'd) server \<Rightarrow> EventId \<Rightarrow> bool" where
  "is_event_soft_failed s event \<longleftrightarrow> event \<in> set (softfailedeventids s)"

text \<open>
  A redaction replaces the stored event by its redacted form; an event that is not in the timeline is left alone.
  The version is the one of the room of the redacted event.
\<close>

definition room_version_of :: "('c, 'd) accept_env \<Rightarrow> RoomId \<Rightarrow> (('c, 'd) server, RoomVersionId) action" where
  "room_version_of V room =
     with_access (\<lambda>acc. map_option (\<lambda>(r, acc'). (err AcceptStore r, acc'))
       (room_state_get_content (ac_states V) (ac_access V) (de_create_version (ac_events V)) room (RoomCreate, '''') acc))"

definition replace_stored :: "RawId \<Rightarrow> u8 list \<Rightarrow> (('c, 'd) server, unit) action" where
  "replace_stored pdu_id json =
     andthen (gets (\<lambda>s. replace_pdu pdu_id json (sv_timeline s))) (\<lambda>r.
     case r of Inl e \<Rightarrow> fail (AcceptTimeline e) | Inr t \<Rightarrow> change (set_timeline t))"

definition redact_pdu :: "('c, 'd) accept_env \<Rightarrow> EventId \<Rightarrow> Pdu \<Rightarrow> (('c, 'd) server, unit) action" where
  "redact_pdu V event reason =
     andthen (gets (\<lambda>s. get_pdu_id (sv_timeline s) event)) (\<lambda>found.
     case found of
       Inl _ \<Rightarrow> return ()
     | Inr pdu_id \<Rightarrow>
         andthen (gets (\<lambda>s. get_pdu_from_id (parse_pdu (ac_events V)) (sv_timeline s) pdu_id)) (\<lambda>read.
         case read of
           Inl e \<Rightarrow> fail AcceptDatabase
         | Inr pdu \<Rightarrow>
             andthen (of_result (err AcceptResolution (room_id_or_hash (rx_ruma (ac_events V)) pdu))) (\<lambda>room.
             andthen (room_version_of V room) (\<lambda>version.
             case redacted_bytes V version reason pdu of
               None \<Rightarrow> fail AcceptDatabase
             | Some json \<Rightarrow> replace_stored pdu_id json))))"

definition apply_redaction :: "('c, 'd) accept_env \<Rightarrow> Pdu \<Rightarrow> RoomId \<Rightarrow> (('c, 'd) server, unit) action" where
  "apply_redaction V pdu room =
     andthen (room_version_of V room) (\<lambda>version.
     andthen (of_result
       (if version \<in> {V1, V2, V3, V4, V5, V6, V7, V8, V9, V10} then Inr (redacts pdu)
        else case de_redacts V (content pdu) of None \<Rightarrow> Inl AcceptContent | Some r \<Rightarrow> Inr r)) (\<lambda>redacted.
     case redacted of
       None \<Rightarrow> return ()
     | Some redact_id \<Rightarrow>
         andthen (with_access (\<lambda>acc. map_option (\<lambda>(r, acc'). (err AcceptRedact r, acc'))
           (user_can_redact (ac_states V) (ac_access V) redact_id (sender pdu) room False acc))) (\<lambda>can.
         if can then redact_pdu V redact_id pdu else return ())))"

text \<open>
  \<open>append_pdu\<close> on the tables of this development: the references, the forward extremities, the unread counts and the event itself,
  then what the event means for redactions and memberships.  Four counts are taken, of which the last becomes the
  place of the event.  Read receipts, push notifications, the search index, threads, relations and appservices are
  not followed.
\<close>

definition previous_state_event :: "('c, 'd) accept_env \<Rightarrow> Pdu \<Rightarrow> (('c, 'd) server, Pdu option) action" where
  "previous_state_event V pdu =
     (case state_key pdu of
        None \<Rightarrow> return None
      | Some key \<Rightarrow>
          with_access (\<lambda>acc.
            case pdu_shortstatehash (ax_rooms acc) (event_id pdu) of
              None \<Rightarrow> Some (Inr None, acc)
            | Some h \<Rightarrow> map_option (\<lambda>(r, acc'). (Inr (case r of Inl _ \<Rightarrow> None | Inr p \<Rightarrow> Some p), acc'))
                (state_get (ac_states V) (ac_access V) h (kind pdu, key) acc)))"

definition take_count :: "(('c, 'd) server, u64) action" where
  "take_count = with_short next_count"

definition reset_notification_counts :: "('c, 'd) accept_env \<Rightarrow> UserId \<Rightarrow> RoomId \<Rightarrow> ('c, 'd) server \<Rightarrow> ('c, 'd) server" where
  "reset_notification_counts V user room s =
     (let key = ac_bytes V user @ SEP # ac_bytes V room; t = sv_timeline s
      in set_timeline (t\<lparr>userroomid_highlightcount := db_insert key (to_be_bytes 0) (userroomid_highlightcount t),
           userroomid_notificationcount := db_insert key (to_be_bytes 0) (userroomid_notificationcount t)\<rparr>) s)"

definition store_pdu ::
    "('c, 'd) accept_env \<Rightarrow> Pdu \<Rightarrow> CanonicalJsonObject \<Rightarrow> EventId list \<Rightarrow> RoomId \<Rightarrow> (('c, 'd) server, RawId) action" where
  "store_pdu V pdu json leaves room =
     andthen (gets (\<lambda>s. get_shortroomid (rs_short (sv_rooms s)) room)) (\<lambda>found.
     case found of
       None \<Rightarrow> fail AcceptDatabase
     | Some shortroom \<Rightarrow>
         andthen (previous_state_event V pdu) (\<lambda>prev_state.
         case (if state_key pdu = None then Some json else with_prev_content V prev_state json) of
           None \<Rightarrow> fail AcceptDatabase
         | Some json \<Rightarrow>
             andthen (change (mark_as_referenced room (prev_events pdu))) (\<lambda>_.
             andthen (change (\<lambda>s. set_rooms (set_forward_extremities room leaves (sv_rooms s)) s)) (\<lambda>_.
             andthen take_count (\<lambda>count1.
             andthen take_count (\<lambda>privateread.
             andthen (change (reset_notification_counts V (sender pdu) room)) (\<lambda>_.
             andthen take_count (\<lambda>lastread.
             andthen take_count (\<lambda>count2.
             let pdu_id = raw_from_id \<lparr>shortroomid = shortroom, shorteventid = Normal count2\<rparr>
             in andthen (change (\<lambda>s. set_timeline (tl_append_pdu pdu_id (event_id pdu) (json_bytes (ac_events V) json) (sv_timeline s)) s)) (\<lambda>_.
                return pdu_id))))))))))"

definition append_pdu ::
    "('c, 'd) accept_env \<Rightarrow> Pdu \<Rightarrow> CanonicalJsonObject \<Rightarrow> EventId list \<Rightarrow> RoomId \<Rightarrow> (('c, 'd) server, RawId) action" where
  "append_pdu V pdu json leaves room =
     andthen (store_pdu V pdu json leaves room) (\<lambda>pdu_id.
     if kind pdu = RoomMember \<and> (case state_key pdu of None \<Rightarrow> False | Some u \<Rightarrow> \<not> is_user_id (rx_ruma (ac_events V)) u)
     then fail AcceptContent
     else
       andthen (change (\<lambda>s. set_timeline (increment_notification_counts (ac_bytes V room)
         (fst (notified V pdu room)) (snd (notified V pdu room)) (sv_timeline s)) s)) (\<lambda>_.
       andthen
         (if kind pdu = RoomRedaction then apply_redaction V pdu room
          else if kind pdu = RoomMember then
            (case state_key pdu of None \<Rightarrow> return () | Some user \<Rightarrow> update_member V room user pdu True)
          else if kind pdu = OtherType ''m.room.message'' \<and> \<not> body_ok V (content pdu) then fail AcceptContent
          else return ()) (\<lambda>_.
       return pdu_id)))"

definition append_incoming_pdu ::
    "('c, 'd) accept_env \<Rightarrow> Pdu \<Rightarrow> CanonicalJsonObject \<Rightarrow> EventId list \<Rightarrow> CompressedState \<Rightarrow> bool \<Rightarrow> RoomId
     \<Rightarrow> (('c, 'd) server, RawId option) action" where
  "append_incoming_pdu V pdu json leaves state_ids soft_fail room =
     andthen (with_rooms (\<lambda>rooms. map_option (\<lambda>(r, rooms'). (err AcceptStore r, rooms'))
       (set_event_state (ac_states V) (ac_sha256 V) (event_id pdu) room state_ids rooms))) (\<lambda>_.
     if soft_fail then andthen (change (mark_as_referenced room (prev_events pdu))) (\<lambda>_. return None)
     else andthen (append_pdu V pdu json leaves room) (\<lambda>pdu_id. return (Some pdu_id)))"


section \<open>The upgrade\<close>

text \<open>The extremities after the event: those it does not build on and nobody has built on, and the event.\<close>

definition new_extremities :: "RoomId \<Rightarrow> Pdu \<Rightarrow> ('c, 'd) server \<Rightarrow> EventId list" where
  "new_extremities room pdu s =
     filter (\<lambda>e. e \<notin> set (prev_events pdu) \<and> \<not> is_event_referenced s room e) (get_forward_extremities (sv_rooms s) room)
     @ [event_id pdu]"

text \<open>An event that is not a state event is shown to the policy server, whose silence is consent.\<close>

definition policy_check :: "('c, 'd) accept_env \<Rightarrow> RoomVersionId \<Rightarrow> Pdu \<Rightarrow> RoomId \<Rightarrow> bool \<Rightarrow> (('c, 'd) server, bool) action" where
  "policy_check V version pdu room soft_fail =
     (if soft_fail then return True
      else
        andthen (gets (\<lambda>s. state_key pdu = None \<and> policy_answer V (sv_tick s) pdu room = Some False)) (\<lambda>spam.
        andthen (change (\<lambda>s. s\<lparr>sv_tick := Suc (sv_tick s)\<rparr>)) (\<lambda>_.
        gets (\<lambda>s. spam \<or> (case redacts_id V version pdu of None \<Rightarrow> False | Some redact_id \<Rightarrow> is_event_soft_failed s redact_id)))))"

definition finish_upgrade ::
    "('c, 'd) accept_env \<Rightarrow> Pdu \<Rightarrow> CanonicalJsonObject \<Rightarrow> EventId list \<Rightarrow> CompressedState \<Rightarrow> RoomId \<Rightarrow> bool
     \<Rightarrow> (('c, 'd) server, RawId option) action" where
  "finish_upgrade V pdu val extremities state_ids room soft_fail =
     (if soft_fail then
        andthen (append_incoming_pdu V pdu val extremities state_ids True room) (\<lambda>_.
        andthen (change (mark_event_soft_failed (event_id pdu))) (\<lambda>_. fail AcceptSoftFailed))
      else append_incoming_pdu V pdu val (extremities @ [event_id pdu]) state_ids False room)"

definition upgrade_checked ::
    "('c, 'd) accept_env \<Rightarrow> Pdu \<Rightarrow> CanonicalJsonObject \<Rightarrow> Pdu \<Rightarrow> RoomId \<Rightarrow> RoomVersionId \<Rightarrow> RoomVersion \<Rightarrow> (u64, EventId) hash_map
     \<Rightarrow> (('c, 'd) server, RawId option) action" where
  "upgrade_checked V pdu val create_event room version v state =
     andthen (get_auth_events V room pdu v) (\<lambda>auth_events.
     andthen (of_result (auth_result (auth_check (rx_ruma (ac_events V)) v pdu None (\<lambda>ty key. map_of auth_events (ty, key)) create_event))) (\<lambda>allowed.
     andthen (soft_fail_check V version pdu room allowed) (\<lambda>soft_fail.
     andthen (gets (new_extremities room pdu)) (\<lambda>extremities.
     andthen (with_short (compress_state_events state)) (\<lambda>compressed.
     andthen (derive_room_state V room version pdu state) (\<lambda>_.
     andthen (policy_check V version pdu room soft_fail) (\<lambda>soft_fail.
     finish_upgrade V pdu val extremities (set compressed) room soft_fail)))))))"

definition upgrade_outlier_to_timeline_pdu ::
    "('c, 'd) accept_env \<Rightarrow> Pdu \<Rightarrow> CanonicalJsonObject \<Rightarrow> Pdu \<Rightarrow> ServerName \<Rightarrow> RoomId \<Rightarrow> (('c, 'd) server, RawId option) action" where
  "upgrade_outlier_to_timeline_pdu V pdu val create_event server room s =
     (case get_pdu_id (sv_timeline s) (event_id pdu) of
        Inr pdu_id \<Rightarrow> Some (Inr (Some pdu_id), s)
      | Inl _ \<Rightarrow>
          if is_event_soft_failed s (event_id pdu) then Some (Inl AcceptSoftFailed, s)
          else
            andthen (of_result (err AcceptReception (get_room_version_id (ac_events V) create_event))) (\<lambda>version.
            andthen (state_at_incoming V server create_event room version pdu) (\<lambda>state.
            andthen (of_result (err AcceptReception (to_room_version version))) (\<lambda>v.
            andthen (check_at_state V v pdu state create_event) (\<lambda>allowed.
            if \<not> allowed then fail AcceptForbidden
            else upgrade_checked V pdu val create_event room version v state)))) s)"

section \<open>What an action may change\<close>

lemma andthen_Some:
  "andthen m f s = Some (r, s') \<longleftrightarrow>
     (\<exists>e. m s = Some (Inl e, s') \<and> r = Inl e) \<or> (\<exists>a s1. m s = Some (Inr a, s1) \<and> f a s1 = Some (r, s'))"
  by (auto simp: andthen_def split: Option.bind_splits sum.splits)

lemmas action_defs = return_def fail_def of_result_def gets_def change_def

definition keeps :: "('s \<Rightarrow> 's \<Rightarrow> bool) \<Rightarrow> ('s, 'a) action \<Rightarrow> bool" where
  "keeps R m \<longleftrightarrow> (\<forall>s r s'. m s = Some (r, s') \<longrightarrow> R s s')"

lemma keepsI: "(\<And>s r s'. m s = Some (r, s') \<Longrightarrow> R s s') \<Longrightarrow> keeps R m"
  by (simp add: keeps_def)

lemma keepsD: "keeps R m \<Longrightarrow> m s = Some (r, s') \<Longrightarrow> R s s'"
  by (simp add: keeps_def)

lemma keeps_mono: "keeps R m \<Longrightarrow> (\<And>s s'. R s s' \<Longrightarrow> Q s s') \<Longrightarrow> keeps Q m"
  by (simp add: keeps_def)

named_theorems keeps_intros \<open>actions that stay within a relation of states\<close>

text \<open>A relation of states that a composed action stays within when its parts do.\<close>

locale effect =
  fixes R :: "'s \<Rightarrow> 's \<Rightarrow> bool"
  assumes stays: "R s s" and follows: "R a b \<Longrightarrow> R b c \<Longrightarrow> R a c"
begin

lemma keeps_andthen [keeps_intros]:
  assumes "keeps R m" "\<And>a. keeps R (f a)"
  shows "keeps R (andthen m f)"
proof (rule keepsI)
  fix s r s' assume "andthen m f s = Some (r, s')"
  then consider e where "m s = Some (Inl e, s')" | a s1 where "m s = Some (Inr a, s1)" "f a s1 = Some (r, s')"
    by (auto simp: andthen_Some)
  then show "R s s'"
  proof cases
    case 1
    then show ?thesis using assms(1) keepsD by metis
  next
    case 2
    then show ?thesis using keepsD [OF assms(1)] keepsD [OF assms(2)] follows by metis
  qed
qed

lemma keeps_basic [keeps_intros]:
  "keeps R (return a)" "keeps R (fail e)" "keeps R (of_result x)" "keeps R (gets g)"
  by (auto simp: keeps_def action_defs stays)

lemma keeps_each [keeps_intros]: "(\<And>x. keeps R (f x)) \<Longrightarrow> keeps R (each f xs)"
  by (induction xs) (auto intro!: keeps_andthen keeps_basic)

lemma keeps_cases [keeps_intros]:
  "(b \<Longrightarrow> keeps R m) \<Longrightarrow> (\<not> b \<Longrightarrow> keeps R m') \<Longrightarrow> keeps R (if b then m else m')"
  "keeps R n \<Longrightarrow> (\<And>a. keeps R (g a)) \<Longrightarrow> keeps R (case opt of None \<Rightarrow> n | Some a \<Rightarrow> g a)"
  "(\<And>e. keeps R (p e)) \<Longrightarrow> (\<And>a. keeps R (q a)) \<Longrightarrow> keeps R (case res of Inl e \<Rightarrow> p e | Inr a \<Rightarrow> q a)"
  "(\<And>a b. keeps R (h a b)) \<Longrightarrow> keeps R (case pair of (a, b) \<Rightarrow> h a b)"
  by (simp_all split: option.splits sum.splits prod.splits)

end

lemma keeps_change: "(\<And>s. R s (h s)) \<Longrightarrow> keeps R (change h)"
  by (auto simp: keeps_def action_defs)

lemma keeps_catch [keeps_intros]: "keeps R m \<Longrightarrow> keeps R (catch m)"
  by (auto simp: keeps_def catch_def)

text \<open>
  The graph of a room is what the timeline holds, the forward extremities, the references and the soft failures.
  The checks leave it as it is; an event that is appended leaves the places of all others.
\<close>

definition undisturbed :: "('c, 'd) server \<Rightarrow> ('c, 'd) server \<Rightarrow> bool" where
  "undisturbed s s' \<longleftrightarrow> eventid_pduid (sv_timeline s') = eventid_pduid (sv_timeline s)
     \<and> pduid_pdu (sv_timeline s') = pduid_pdu (sv_timeline s) \<and> softfailedeventids s' = softfailedeventids s
     \<and> referencedevents s' = referencedevents s \<and> roomid_pduleaves (sv_rooms s') = roomid_pduleaves (sv_rooms s)"

definition others_kept :: "EventId \<Rightarrow> ('c, 'd) server \<Rightarrow> ('c, 'd) server \<Rightarrow> bool" where
  "others_kept event s s' \<longleftrightarrow> softfailedeventids s' = softfailedeventids s
     \<and> (\<forall>e. e \<noteq> event \<longrightarrow> map_of (eventid_pduid (sv_timeline s')) e = map_of (eventid_pduid (sv_timeline s)) e)"

definition places_kept :: "('c, 'd) server \<Rightarrow> ('c, 'd) server \<Rightarrow> bool" where
  "places_kept s s' \<longleftrightarrow> roomid_pduleaves (sv_rooms s') = roomid_pduleaves (sv_rooms s)
     \<and> eventid_pduid (sv_timeline s') = eventid_pduid (sv_timeline s) \<and> softfailedeventids s' = softfailedeventids s"

interpretation quiet: effect undisturbed
  by unfold_locales (simp_all add: undisturbed_def)

interpretation others: effect "others_kept event" for event
  by unfold_locales (simp_all add: others_kept_def)

interpretation places: effect places_kept
  by unfold_locales (simp_all add: places_kept_def)

lemma undisturbed_weaken: "undisturbed s s' \<Longrightarrow> others_kept event s s'" "undisturbed s s' \<Longrightarrow> places_kept s s'"
  by (simp_all add: undisturbed_def others_kept_def places_kept_def)

lemmas server_defs = sv_timeline_def sv_rooms_def set_rooms_def set_members_def set_timeline_def

lemma quiet_rooms:
  "(\<And>r rooms'. f (sv_rooms s) = Some (r, rooms') \<Longrightarrow> roomid_pduleaves rooms' = roomid_pduleaves (sv_rooms s))
     \<Longrightarrow> with_rooms f s = Some (r, s') \<Longrightarrow> undisturbed s s'"
  by (auto simp: with_rooms_def undisturbed_def server_defs)

lemma quiet_with_rooms:
  "(\<And>rooms r rooms'. f rooms = Some (r, rooms') \<Longrightarrow> roomid_pduleaves rooms' = roomid_pduleaves rooms) \<Longrightarrow> keeps undisturbed (with_rooms f)"
  by (rule keepsI, rule quiet_rooms) auto

lemma quiet_short [keeps_intros]: "keeps undisturbed (with_short g)"
  by (auto simp: keeps_def with_short_def undisturbed_def server_defs set_short_def split: prod.splits)

lemma quiet_reads [keeps_intros]:
  "keeps undisturbed (state_resolution V version forks chain_sets)" "keeps undisturbed (check_at_state V v pdu state cr)"
  by (auto simp: keeps_def state_resolution_def check_at_state_def quiet.stays)

lemma quiet_chain [keeps_intros]: "keeps undisturbed (auth_chain_of V room events)"
  by (auto simp: keeps_def auth_chain_of_def undisturbed_def server_defs set_short_def)

lemma quiet_members [keeps_intros]: "keeps undisturbed (update_member V room user pdu counts)"
  by (auto simp: keeps_def update_member_def undisturbed_def server_defs split: sum.splits prod.splits)

section \<open>The fetch of outliers keeps the timeline\<close>

definition rx_placed :: "reception \<Rightarrow> (EventId, u8 list) hash_map \<times> db_map" where
  "rx_placed s = (eventid_pduid (rc_timeline s), pduid_pdu (rc_timeline s))"

lemma rx_placed_timeline: "rc_timeline s' = rc_timeline s \<Longrightarrow> rx_placed s' = rx_placed s"
  by (simp add: rx_placed_def)

lemma admit_placed: "admit E version room cr pdu incoming auths s = (r, s') \<Longrightarrow> rx_placed s' = rx_placed s"
  by (erule admit_cases) (simp_all add: rx_placed_def add_pdu_outlier_def)

lemma handle_outlier_placed:
  assumes "\<And>missing s r s'. f missing s = Some (r, s') \<Longrightarrow> rx_placed s' = rx_placed s"
    "handle_outlier_pdu_with E f cr event room v k s = Some (r, s')"
  shows "rx_placed s' = rx_placed s"
  using assms(2)
proof (cases rule: handle_outlier_cases)
  case (2 e missing)
  then show ?thesis using assms(1) [of missing "next_tick s"] by (simp add: rx_placed_def)
next
  case (3 version json pdu incoming auths auths' s1)
  then have "rx_placed s1 = rx_placed s" using assms(1) [of _ "next_tick s" _ s1] by (auto simp: rx_placed_def)
  then show ?thesis using admit_placed [OF 3(7)] by simp
qed (rule rx_placed_timeline)

lemma handle_fetched_placed:
  assumes "\<And>e v s r s'. handle e v s = Some (r, s') \<Longrightarrow> rx_placed s' = rx_placed s"
  shows "handle_fetched E handle event evs s = Some (r, s') \<Longrightarrow> rx_placed s' = rx_placed s"
proof (induction evs arbitrary: s r)
  case (Cons x evs)
  obtain e v where x: "x = (e, v)" by fastforce
  obtain skip s1 where b: "backing_off E (5 * 60) (60 * 60 * 24) e s = (skip, s1)" by fastforce
  have s1: "rx_placed s1 = rx_placed s" using tick_store(3) [OF b] by (rule rx_placed_timeline)
  show ?case
  proof (cases "skip")
    case True
    then show ?thesis using Cons.prems Cons.IH [of s1 r] s1 b by (simp add: x)
  next
    case False
    with Cons.prems b obtain r1 s2 where h: "handle e v s1 = Some (r1, s2)" by (auto simp: x split: Option.bind_splits)
    have s2: "rx_placed s2 = rx_placed s" using assms [OF h] s1 by simp
    have off: "rx_placed (back_off E e s2) = rx_placed s" using s2 by (simp add: rx_placed_def)
    show ?thesis
    proof (cases r1)
      case (Inl er)
      then show ?thesis using Cons.prems b False h Cons.IH [of "back_off E e s2" r] s2 off by (auto simp: x split: if_splits)
    next
      case (Inr pj)
      obtain p j where pj: "pj = (p, j)" by fastforce
      with Inr Cons.prems b False h obtain r2 where "handle_fetched E handle event evs s2 = Some (r2, s')"
        by (auto simp: x split: Option.bind_splits)
      from Cons.IH [OF this] s2 show ?thesis by simp
    qed
  qed
qed simp

lemma handle_all_placed:
  assumes "\<And>e v s r s'. handle e v s = Some (r, s') \<Longrightarrow> rx_placed s' = rx_placed s"
  shows "handle_all E handle xs s = Some (r, s') \<Longrightarrow> rx_placed s' = rx_placed s"
proof (induction xs arbitrary: s r)
  case (Cons x xs)
  obtain e lp g where x: "x = (e, lp, g)" by (cases x)
  with Cons.prems obtain r1 s1 where h: "handle_fetched E handle e (rev g) s = Some (r1, s1)"
    by (auto split: Option.bind_splits)
  have s1: "rx_placed s1 = rx_placed s" by (rule handle_fetched_placed [OF _ h]) (rule assms)
  show ?case
  proof (cases r1)
    case (Inr ps)
    with Cons.prems h x obtain r2 where "handle_all E handle xs s1 = Some (r2, s')" by (auto split: Option.bind_splits)
    from Cons.IH [OF this] s1 show ?thesis by simp
  qed (use Cons.prems h x s1 in simp)
qed simp

lemma fetch_placed: "fetch_and_handle_outliers E deep server cr room events s = Some (r, s') \<Longrightarrow> rx_placed s' = rx_placed s"
proof (induction deep arbitrary: events s r s')
  case (Suc deep)
  then obtain found s1 where g: "gather_all E server cr events s = Some (found, s1)"
    and h: "handle_all E (\<lambda>event value. handle_outlier_pdu_with E (fetch_and_handle_outliers E deep server cr room) cr event room value True)
        found s1 = Some (r, s')"
    by (auto split: Option.bind_splits)
  have "rx_placed s1 = rx_placed s" using gather_all_spec(1) [OF g] by (rule rx_placed_timeline)
  moreover have "rx_placed s' = rx_placed s1"
    by (rule handle_all_placed [OF _ h]) (rule handle_outlier_placed [OF Suc.IH])
  ultimately show ?case by simp
qed simp

lemma quiet_fetch [keeps_intros]: "keeps undisturbed (fetch_outliers V server cr room events)"
proof (rule keepsI)
  fix s r s' assume "fetch_outliers V server cr room events s = Some (r, s')"
  then obtain r0 rc where f: "fetch_and_handle_outliers (ac_events V) (ac_depth V) server cr room events
         \<lparr> rc_timeline = sv_timeline s, bad_event_ratelimiter = sv_bad_events s, rc_tick = sv_tick s \<rparr> = Some (r0, rc)"
    "s' = set_timeline (rc_timeline rc) s\<lparr>sv_bad_events := bad_event_ratelimiter rc, sv_tick := rc_tick rc\<rparr>"
    by (auto simp: fetch_outliers_def)
  from fetch_placed [OF f(1)] f(2) show "undisturbed s s'"
    by (simp add: rx_placed_def undisturbed_def server_defs)
qed

section \<open>The checks leave the graph alone\<close>

lemma load_leaves:
  "load_full_state L h rooms = Some (r, rooms') \<Longrightarrow> roomid_pduleaves rooms' = roomid_pduleaves rooms"
  by (auto simp: load_full_state_def set_cache_def)

lemma readers_leaves:
  "state_full_shortids L h rooms = Some (r, rooms') \<Longrightarrow> roomid_pduleaves rooms' = roomid_pduleaves rooms"
  "state_full_ids L h rooms = Some (x, rooms') \<Longrightarrow> roomid_pduleaves rooms' = roomid_pduleaves rooms"
  "state_get_id L h key rooms = Some (y, rooms') \<Longrightarrow> roomid_pduleaves rooms' = roomid_pduleaves rooms"
  by (auto simp: state_full_ids_def state_full_shortids_def state_get_id_def state_get_shortid_def dest!: load_leaves split: option.splits)

lemma save_event_state_leaves:
  assumes "save_event_state L previous h state rooms = Some (r, rooms')"
  shows "roomid_pduleaves rooms' = roomid_pduleaves rooms"
proof -
  obtain r1 rooms1 where load: "load_room_layers L previous rooms = Some (r1, rooms1)"
    using assms by (auto simp: save_event_state_def split: Option.bind_splits)
  then have "roomid_pduleaves rooms1 = roomid_pduleaves rooms"
    by (auto simp: load_room_layers_def set_cache_def split: option.splits)
  moreover have "roomid_pduleaves rooms' = roomid_pduleaves rooms1"
    using assms load by (cases r1) (auto simp: save_event_state_def Let_def set_diffs_def split: prod.splits sum.splits)
  ultimately show ?thesis by simp
qed

lemma set_event_state_leaves:
  assumes "set_event_state L sha256 event room state rooms = Some (r, rooms')"
  shows "roomid_pduleaves rooms' = roomid_pduleaves rooms"
proof -
  obtain e short1 where e: "get_or_create_shorteventid event (rs_short rooms) = (e, short1)" by fastforce
  obtain h ex short2 where h: "get_or_create_shortstatehash (calculate_hash sha256 state) short1 = ((h, ex), short2)"
    by (cases "get_or_create_shortstatehash (calculate_hash sha256 state) short1") auto
  let ?s1 = "set_short short2 rooms"
  have s1: "roomid_pduleaves ?s1 = roomid_pduleaves rooms" by (simp add: set_short_def)
  let ?saved = "if ex then Some (Inr (), ?s1) else save_event_state L (get_room_shortstatehash rooms room) h state ?s1"
  have run: "Option.bind ?saved (\<lambda>(r, s2). case r of
       Inl e \<Rightarrow> Some (Inl e, s2)
     | Inr () \<Rightarrow> Some (Inr h, s2\<lparr>shorteventid_shortstatehash := hm_insert e h (shorteventid_shortstatehash s2)\<rparr>)) = Some (r, rooms')"
    using assms unfolding set_event_state_def e h Let_def prod.case .
  then obtain r1 s2 where saved: "?saved = Some (r1, s2)" by (cases ?saved) auto
  have "roomid_pduleaves s2 = roomid_pduleaves rooms"
  proof (cases ex)
    case True
    then show ?thesis using saved s1 by auto
  next
    case False
    with saved have "save_event_state L (get_room_shortstatehash rooms room) h state ?s1 = Some (r1, s2)" by simp
    from save_event_state_leaves [OF this] s1 show ?thesis by simp
  qed
  note leaves = this
  have final: "(case r1 of Inl e \<Rightarrow> Some (Inl e, s2)
     | Inr () \<Rightarrow> Some (Inr h, s2\<lparr>shorteventid_shortstatehash := hm_insert e h (shorteventid_shortstatehash s2)\<rparr>)) = Some (r, rooms')"
    using run unfolding saved Option.bind.simps prod.case .
  show ?thesis
  proof (cases r1)
    case (Inl x)
    with final have "rooms' = s2" by simp
    with leaves show ?thesis by simp
  next
    case (Inr u)
    then have r1: "r1 = Inr ()" by simp
    from final have "rooms' = s2\<lparr>shorteventid_shortstatehash := hm_insert e h (shorteventid_shortstatehash s2)\<rparr>"
      unfolding r1 sum.case unit.case by simp
    with leaves show ?thesis by simp
  qed
qed

lemma reads_quiet:
  "state_get L E h key acc = Some (r, acc') \<Longrightarrow> ax_timeline acc' = ax_timeline acc \<and> roomid_pduleaves (ax_rooms acc') = roomid_pduleaves (ax_rooms acc)"
  "room_state_get L E room key acc = Some (r, acc') \<Longrightarrow> ax_timeline acc' = ax_timeline acc \<and> roomid_pduleaves (ax_rooms acc') = roomid_pduleaves (ax_rooms acc)"
  "room_state_get_content L E de room key acc = Some (c, acc') \<Longrightarrow> ax_timeline acc' = ax_timeline acc \<and> roomid_pduleaves (ax_rooms acc') = roomid_pduleaves (ax_rooms acc)"
proof -
  show *: "state_get L E h key acc = Some (r, acc') \<Longrightarrow> ax_timeline acc' = ax_timeline acc \<and> roomid_pduleaves (ax_rooms acc') = roomid_pduleaves (ax_rooms acc)" for h r acc'
    by (auto simp: state_get_def dest: readers_leaves(3))
  show **: "room_state_get L E room key acc = Some (r, acc') \<Longrightarrow> ax_timeline acc' = ax_timeline acc \<and> roomid_pduleaves (ax_rooms acc') = roomid_pduleaves (ax_rooms acc)" for r acc'
    by (auto simp: room_state_get_def dest: * split: option.splits)
  show "room_state_get_content L E de room key acc = Some (c, acc') \<Longrightarrow> ax_timeline acc' = ax_timeline acc \<and> roomid_pduleaves (ax_rooms acc') = roomid_pduleaves (ax_rooms acc)"
    by (auto simp: room_state_get_content_def dest: **)
qed

lemma redact_check_quiet:
  assumes "user_can_redact L E redacted user room federation acc = Some (r, acc')"
  shows "ax_timeline acc' = ax_timeline acc \<and> roomid_pduleaves (ax_rooms acc') = roomid_pduleaves (ax_rooms acc)"
  using assms unfolding user_can_redact_def Let_def
  by (auto dest!: reads_quiet(2,3) split: if_splits Option.bind_splits sum.splits option.splits)

lemma quiet_access:
  assumes "\<And>acc r acc'. f acc = Some (r, acc') \<Longrightarrow> ax_timeline acc' = ax_timeline acc \<and> roomid_pduleaves (ax_rooms acc') = roomid_pduleaves (ax_rooms acc)"
  shows "keeps undisturbed (with_access f)"
  by (auto simp: keeps_def with_access_def undisturbed_def server_defs dest!: assms)

lemma quiet_redact_check [keeps_intros]:
  "keeps undisturbed (with_access (\<lambda>acc. map_option (\<lambda>(r, acc'). (err AcceptRedact r, acc'))
     (user_can_redact L E redacted user room federation acc)))"
  by (rule quiet_access) (auto dest: redact_check_quiet)

lemma quiet_version [keeps_intros]: "keeps undisturbed (room_version_of V room)"
  unfolding room_version_of_def by (rule quiet_access) (auto dest: reads_quiet(3))

lemma quiet_previous [keeps_intros]: "keeps undisturbed (previous_state_event V pdu)"
  unfolding previous_state_event_def
  by (intro keeps_intros quiet_access) (auto dest: reads_quiet(1) split: option.splits)

lemma quiet_small [keeps_intros]:
  "keeps undisturbed (short_statekey key)" "keeps undisturbed take_count"
  by (simp_all add: short_statekey_def take_count_def quiet_short)

lemma quiet_state_ids [keeps_intros]: "keeps undisturbed (state_ids_at V h)"
  unfolding state_ids_at_def by (rule quiet_with_rooms) (auto dest: readers_leaves)

lemma quiet_full_shortids [keeps_intros]:
  "keeps undisturbed (with_rooms (\<lambda>rooms. map_option (\<lambda>(r, rooms'). (Inr (case r of Inl _ \<Rightarrow> [] | Inr ids \<Rightarrow> ids), rooms'))
     (state_full_shortids L h rooms)))"
  by (rule quiet_with_rooms) (auto dest: readers_leaves)

lemma quiet_save [keeps_intros]:
  "keeps undisturbed (with_rooms (\<lambda>rooms. map_option (\<lambda>(r, comp). (err AcceptStore r, rooms\<lparr>rs_comp := comp\<rparr>)) (f rooms)))"
  by (rule quiet_with_rooms) auto

lemma quiet_set_event_state [keeps_intros]:
  "keeps undisturbed (with_rooms (\<lambda>rooms. map_option (\<lambda>(r, rooms'). (err AcceptStore r, rooms'))
       (set_event_state L sha256 event room state rooms)))"
  by (rule quiet_with_rooms) (auto dest: set_event_state_leaves)

lemma quiet_after_event [keeps_intros]: "keeps undisturbed (after_event pdu event state)"
  unfolding after_event_def by (intro keeps_intros)

lemma quiet_number_state [keeps_intros]: "keeps undisturbed (number_state state)"
  unfolding number_state_def by (intro keeps_intros)

lemma quiet_add_state_events [keeps_intros]: "keeps undisturbed (add_state_events ps state)"
proof (induction ps arbitrary: state)
  case (Cons p ps)
  show ?case by (cases p) (auto intro!: keeps_intros Cons)
qed (auto intro: keeps_intros)

lemma quiet_tick [keeps_intros]: "keeps undisturbed (change (\<lambda>s. s\<lparr>sv_tick := Suc (sv_tick s)\<rparr>))"
  by (rule keeps_change) (simp add: undisturbed_def server_defs)

lemma quiet_state_at_incoming [keeps_intros]: "keeps undisturbed (state_at_incoming V server cr room version pdu)"
proof -
  have "keeps undisturbed (state_at_incoming_degree_one V pdu)"
    unfolding state_at_incoming_degree_one_def by (cases "prev_events pdu") (auto intro!: keeps_intros)
  moreover have "keeps undisturbed (state_at_incoming_resolved V pdu room version)"
    unfolding state_at_incoming_resolved_def state_at_incoming_fork_def by (intro keeps_intros)
  moreover have "keeps undisturbed (fetch_state V server cr room (event_id pdu))"
    unfolding fetch_state_def by (intro keeps_intros)
  ultimately show ?thesis unfolding state_at_incoming_def by (intro keeps_intros)
qed

lemma quiet_checks [keeps_intros]:
  "keeps undisturbed (get_auth_events V room pdu v)" "keeps undisturbed (soft_fail_check V version pdu room allowed)"
  "keeps undisturbed (policy_check V version pdu room soft_fail)"
  unfolding get_auth_events_def soft_fail_check_def policy_check_def by (intro keeps_intros)+

lemma quiet_derive [keeps_intros]: "keeps undisturbed (derive_room_state V room version pdu state)"
proof -
  have member: "keeps undisturbed (force_member V room v)" for v unfolding force_member_def by (intro keeps_intros)
  have "undisturbed s (set_rooms (set_room_state room h (sv_rooms s)) (set_members c s))" for h c s
    by (simp add: undisturbed_def server_defs set_room_state_def)
  then have "keeps undisturbed (force_state V room h new)" for h new
    unfolding force_state_def using member by (intro keeps_intros keeps_change)
  then show ?thesis unfolding derive_room_state_def resolve_state_def by (intro keeps_intros)
qed

end
