(* ===== verification/AcceptanceSafety.thy ===== *)
theory AcceptanceSafety
  imports Acceptance
begin

text \<open>
  What an upgrade does to the graph of a room.  The checks leave it alone, so that it changes only where the event is
  appended or soft-failed: an event enters the timeline only after both auth checks have allowed it, a soft
  failure is for good, and the forward extremities of the room are what they should be.  The last section
  runs an upgrade in a small room.
\<close>

section \<open>What an appended event changes\<close>

lemma quiet_weaken: "keeps undisturbed m \<Longrightarrow> keeps (others_kept event) m" "keeps undisturbed m \<Longrightarrow> keeps places_kept m"
  by (erule keeps_mono, rule undisturbed_weaken, assumption)+

lemma places_others: "places_kept s s' \<Longrightarrow> others_kept event s s'"
  by (simp add: places_kept_def others_kept_def)

lemma places_replace [keeps_intros]: "keeps places_kept (replace_stored pdu_id json)"
  by (auto simp: keeps_def replace_stored_def andthen_Some action_defs replace_pdu_def places_kept_def server_defs split: if_splits)

lemma places_redact [keeps_intros]: "keeps places_kept (redact_pdu V event reason)"
  unfolding redact_pdu_def by (intro keeps_intros quiet_weaken(2) [OF quiet_version])

definition after_store :: "('c, 'd) accept_env \<Rightarrow> Pdu \<Rightarrow> RoomId \<Rightarrow> RawId \<Rightarrow> (('c, 'd) server, RawId) action" where
  "after_store V pdu room pdu_id =
     (if kind pdu = RoomMember \<and> (case state_key pdu of None \<Rightarrow> False | Some u \<Rightarrow> \<not> is_user_id (rx_ruma (ac_events V)) u)
     then fail AcceptContent
     else
       andthen (change (\<lambda>s. set_timeline (increment_notification_counts (ac_bytes V room)
         (fst (notified V pdu room)) (snd (notified V pdu room)) (sv_timeline s)) s)) (\<lambda>_.
       andthen
         (if kind pdu = RoomRedaction then apply_redaction V pdu room
          else if kind pdu = RoomMember then
            (case state_key pdu of None \<Rightarrow> return () | Some user \<Rightarrow> update_member V room user pdu True)
          else if kind pdu = OtherType ''m.room.message'' \<and> \<not> body_ok V (content pdu) then fail AcceptContent
          else return ()) (\<lambda>_.
       return pdu_id)))"

lemma append_pdu_parts: "append_pdu V pdu json leaves room = andthen (store_pdu V pdu json leaves room) (after_store V pdu room)"
  by (simp add: append_pdu_def after_store_def [abs_def])

lemma places_after_store: "keeps places_kept (after_store V pdu room pdu_id)"
proof -
  have "keeps places_kept (apply_redaction V pdu room)" unfolding apply_redaction_def
    by (intro keeps_intros quiet_weaken(2) [OF quiet_version] quiet_weaken(2) [OF quiet_redact_check])
  moreover have "places_kept s (set_timeline (increment_notification_counts r n h (sv_timeline s)) s)" for s r n h
    by (simp add: places_kept_def server_defs increment_notification_counts_def)
  ultimately show ?thesis unfolding after_store_def
    by (intro keeps_intros keeps_change quiet_weaken(2) [OF quiet_members])
qed

lemma others_store: "keeps (others_kept (event_id pdu)) (store_pdu V pdu json leaves room)"
  unfolding store_pdu_def Let_def
  by (intro keeps_intros keeps_change quiet_weaken(1) [OF quiet_previous] quiet_weaken(1) [OF quiet_small(2)])
    (simp_all add: others_kept_def server_defs mark_as_referenced_def reset_notification_counts_def set_forward_extremities_def
      tl_append_pdu_def Let_def)

lemma others_append: "keeps (others_kept (event_id pdu)) (append_incoming_pdu V pdu json leaves state_ids False room)"
proof -
  have "keeps (others_kept (event_id pdu)) (append_pdu V pdu json leaves room)"
    unfolding append_pdu_parts
    by (intro keeps_intros others_store keeps_mono [OF places_after_store]) (rule places_others)
  then show ?thesis unfolding append_incoming_pdu_def
    by (intro keeps_intros quiet_weaken(1) [OF quiet_set_event_state]) simp
qed

lemma store_pdu_spec:
  assumes "store_pdu V pdu json leaves room s = Some (r, s')"
  shows "(\<exists>e. r = Inl e \<and> undisturbed s s')
    \<or> (\<exists>id. r = Inr id \<and> get_pdu_id (sv_timeline s') (event_id pdu) = Inr id
        \<and> roomid_pduleaves (sv_rooms s') = roomid_pduleaves (set_forward_extremities room leaves (sv_rooms s)))"
proof -
  consider (error) e where "r = Inl e" "undisturbed s s'"
    | (stored) shortroom prev_state s1 json' where "previous_state_event V pdu s = Some (Inr prev_state, s1)"
        "andthen (change (mark_as_referenced room (prev_events pdu))) (\<lambda>_.
             andthen (change (\<lambda>s. set_rooms (set_forward_extremities room leaves (sv_rooms s)) s)) (\<lambda>_.
             andthen take_count (\<lambda>count1.
             andthen take_count (\<lambda>privateread.
             andthen (change (reset_notification_counts V (sender pdu) room)) (\<lambda>_.
             andthen take_count (\<lambda>lastread.
             andthen take_count (\<lambda>count2.
             let pdu_id = raw_from_id \<lparr>shortroomid = shortroom, shorteventid = Normal count2\<rparr>
             in andthen (change (\<lambda>s. set_timeline (tl_append_pdu pdu_id (event_id pdu) (json_bytes (ac_events V) json') (sv_timeline s)) s)) (\<lambda>_.
                return pdu_id)))))))) s1 = Some (r, s')"
    using assms keepsD [OF quiet_previous, of V pdu s] unfolding store_pdu_def
    by (auto simp: andthen_Some action_defs quiet.stays split: option.splits)
  then show ?thesis
  proof cases
    case stored
    have keep: "roomid_pduleaves (sv_rooms s1) = roomid_pduleaves (sv_rooms s)"
      using keepsD [OF quiet_previous stored(1)] by (simp add: undisturbed_def)
    have count: "take_count a = Some (x, b) \<Longrightarrow> roomid_pduleaves (sv_rooms b) = roomid_pduleaves (sv_rooms a) \<and> (\<exists>n. x = Inr n)" for a x b
      using keepsD [OF quiet_small(2), of a x b] by (auto simp: undisturbed_def take_count_def with_short_def split: prod.splits)
    have other: "roomid_pduleaves (sv_rooms (mark_as_referenced room es a)) = roomid_pduleaves (sv_rooms a)"
      "roomid_pduleaves (sv_rooms (reset_notification_counts V u room a)) = roomid_pduleaves (sv_rooms a)" for es u a
      by (simp_all add: mark_as_referenced_def reset_notification_counts_def server_defs Let_def)
    from stored(2) obtain s2 s3 s4 s5 n1 n2 n3 n4 where steps:
      "take_count (set_rooms (set_forward_extremities room leaves (sv_rooms (mark_as_referenced room (prev_events pdu) s1)))
         (mark_as_referenced room (prev_events pdu) s1)) = Some (Inr n1, s2)"
      "take_count s2 = Some (Inr n2, s3)" "take_count (reset_notification_counts V (sender pdu) room s3) = Some (Inr n3, s4)"
      "take_count s4 = Some (Inr n4, s5)" "r = Inr (raw_from_id \<lparr>shortroomid = shortroom, shorteventid = Normal n4\<rparr>)"
      "s' = set_timeline (tl_append_pdu (raw_from_id \<lparr>shortroomid = shortroom, shorteventid = Normal n4\<rparr>) (event_id pdu)
         (json_bytes (ac_events V) json') (sv_timeline s5)) s5"
      by (auto simp: andthen_Some action_defs Let_def dest: count)
    have "get_pdu_id (sv_timeline s') (event_id pdu) = Inr (raw_from_id \<lparr>shortroomid = shortroom, shorteventid = Normal n4\<rparr>)"
      by (simp add: steps(6) get_pdu_id_def tl_append_pdu_def server_defs raw_from_as_bytes)
    moreover have "roomid_pduleaves (sv_rooms s') = roomid_pduleaves (sv_rooms s5)" by (simp add: steps(6) server_defs)
    then have "roomid_pduleaves (sv_rooms s') = roomid_pduleaves (set_forward_extremities room leaves (sv_rooms s))"
      using count [OF steps(1)] count [OF steps(2)] count [OF steps(3)] count [OF steps(4)] other keep
      by (simp add: server_defs set_forward_extremities_def)
    ultimately show ?thesis using steps(5) by blast
  qed blast
qed

lemma places_get: "places_kept s s' \<Longrightarrow> get_pdu_id (sv_timeline s') e = get_pdu_id (sv_timeline s) e"
  "undisturbed s s' \<Longrightarrow> get_pdu_id (sv_timeline s') e = get_pdu_id (sv_timeline s) e"
  "others_kept event s s' \<Longrightarrow> e \<noteq> event \<Longrightarrow> get_pdu_id (sv_timeline s') e = get_pdu_id (sv_timeline s) e"
  by (simp_all add: places_kept_def undisturbed_def others_kept_def get_pdu_id_def)

lemma append_incoming_spec:
  assumes "append_incoming_pdu V pdu json leaves state_ids False room s = Some (Inr r, s')"
  obtains id where "r = Some id" "get_pdu_id (sv_timeline s') (event_id pdu) = Inr id"
    "roomid_pduleaves (sv_rooms s') = roomid_pduleaves (set_forward_extremities room leaves (sv_rooms s))"
proof -
  from assms obtain h s1 id where one: "with_rooms (\<lambda>rooms. map_option (\<lambda>(r, rooms'). (err AcceptStore r, rooms'))
       (set_event_state (ac_states V) (ac_sha256 V) (event_id pdu) room state_ids rooms)) s = Some (Inr h, s1)"
    "append_pdu V pdu json leaves room s1 = Some (Inr id, s')" "r = Some id"
    by (auto simp: append_incoming_pdu_def andthen_Some action_defs)
  from one(2) obtain id0 s2 where two: "store_pdu V pdu json leaves room s1 = Some (Inr id0, s2)" "after_store V pdu room id0 s2 = Some (Inr id, s')"
    by (auto simp: append_pdu_parts andthen_Some)
  have kept: "places_kept s2 s'" by (rule keepsD [OF places_after_store two(2)])
  have id0: "id0 = id" using two(2) by (auto simp: after_store_def andthen_Some action_defs split: if_splits)
  have "roomid_pduleaves (sv_rooms s1) = roomid_pduleaves (sv_rooms s)"
    using keepsD [OF quiet_set_event_state one(1)] by (simp add: undisturbed_def)
  then have "roomid_pduleaves (sv_rooms s') = roomid_pduleaves (set_forward_extremities room leaves (sv_rooms s))"
    using store_pdu_spec [OF two(1)] kept by (auto simp: places_kept_def set_forward_extremities_def)
  moreover have "get_pdu_id (sv_timeline s') (event_id pdu) = Inr id"
    using store_pdu_spec [OF two(1)] places_get(1) [OF kept] id0 by auto
  ultimately show ?thesis using that one(3) by blast
qed

section \<open>Accepted events are authorised\<close>

text \<open>
  The event is allowed by \<open>auth_check\<close> twice, on the state before it and on the auth events in the current state of the
  room, and as a redaction it is one its sender may make, of an event that has not been soft-failed.
\<close>

definition authorised :: "('c, 'd) accept_env \<Rightarrow> ServerName \<Rightarrow> Pdu \<Rightarrow> RoomId \<Rightarrow> Pdu \<Rightarrow> ('c, 'd) server \<Rightarrow> bool" where
  "authorised V server create_event room pdu s \<longleftrightarrow>
     (\<exists>version v state s1 auths s2.
        get_room_version_id (ac_events V) create_event = Inr version \<and> RoomVersion_new version = Inr v
        \<and> state_at_incoming V server create_event room version pdu s = Some (Inr state, s1)
        \<and> auth_check (rx_ruma (ac_events V)) v pdu None (state_lookup V s1 state) create_event = Inr True
        \<and> get_auth_events V room pdu v s1 = Some (Inr auths, s2)
        \<and> auth_check (rx_ruma (ac_events V)) v pdu None (\<lambda>ty key. map_of auths (ty, key)) create_event = Inr True
        \<and> (case redacts_id V version pdu of
             None \<Rightarrow> True
           | Some redact_id \<Rightarrow> \<not> is_event_soft_failed s redact_id
               \<and> map_option fst (user_can_redact (ac_states V) (ac_access V) redact_id (sender pdu) room True (sv_access s2)) = Some (Inr True)))"

lemma auth_result_True: "auth_result r = Inr b \<longleftrightarrow> r = Inr b"
  by (cases r) (auto simp: auth_result_def split: Error.splits)

lemma err_Inr: "err g r = Inr a \<longleftrightarrow> r = Inr a"
  by (cases r) (auto simp: err_def)

lemma soft_fail_check_passed:
  assumes "soft_fail_check V version pdu room allowed s = Some (Inr False, s')"
  shows "allowed" "redacts_id V version pdu = Some redact_id \<Longrightarrow>
     map_option fst (user_can_redact (ac_states V) (ac_access V) redact_id (sender pdu) room True (sv_access s)) = Some (Inr True)"
  using assms by (auto simp: soft_fail_check_def andthen_Some action_defs with_access_def err_Inr split: if_splits option.splits)

lemma policy_check_passed:
  assumes "policy_check V version pdu room soft_fail s = Some (Inr False, s')"
  shows "\<not> soft_fail" "redacts_id V version pdu = Some redact_id \<Longrightarrow> \<not> is_event_soft_failed s redact_id"
  using assms by (auto simp: policy_check_def andthen_Some action_defs is_event_soft_failed_def split: if_splits)

lemma quiet_step:
  assumes "andthen m f s = Some (r, s')" "keeps undisturbed m" "undisturbed s0 s"
  obtains (stop) e where "r = Inl e" "undisturbed s0 s'"
  | (go) a s1 where "m s = Some (Inr a, s1)" "undisturbed s0 s1" "f a s1 = Some (r, s')"
proof -
  consider e where "m s = Some (Inl e, s')" "r = Inl e" | a s1 where "m s = Some (Inr a, s1)" "f a s1 = Some (r, s')"
    using assms(1) by (auto simp: andthen_Some)
  then show ?thesis
  proof cases
    case 1
    then show ?thesis using stop quiet.follows [OF assms(3) keepsD [OF assms(2) 1(1)]] by blast
  next
    case 2
    then show ?thesis using go quiet.follows [OF assms(3) keepsD [OF assms(2) 2(1)]] by blast
  qed
qed

text \<open>The chain of the checks, up to the verdict on the event.\<close>

lemma upgrade_checked_cases:
  assumes "upgrade_checked V pdu val cr room version v state s1 = Some (r, s')" "undisturbed s s1"
  obtains (stop) e where "r = Inl e" "undisturbed s s'"
  | (go) auths s2 allowed sf s3 compressed s5 sf' s6 where "get_auth_events V room pdu v s1 = Some (Inr auths, s2)"
      "auth_check (rx_ruma (ac_events V)) v pdu None (\<lambda>ty key. map_of auths (ty, key)) cr = Inr allowed"
      "soft_fail_check V version pdu room allowed s2 = Some (Inr sf, s3)" "undisturbed s s3" "undisturbed s s5"
      "policy_check V version pdu room sf s5 = Some (Inr sf', s6)" "undisturbed s s6"
      "finish_upgrade V pdu val (new_extremities room pdu s3) (set compressed) room sf' s6 = Some (r, s')"
proof -
  show ?thesis using assms(1) unfolding upgrade_checked_def
  proof (rule quiet_step [OF _ quiet_checks(1) assms(2)])
    fix auths s2 assume auths: "get_auth_events V room pdu v s1 = Some (Inr auths, s2)" and q2: "undisturbed s s2"
    assume "andthen (of_result (auth_result (auth_check (rx_ruma (ac_events V)) v pdu None (\<lambda>ty key. map_of auths (ty, key)) cr))) (\<lambda>allowed.
       andthen (soft_fail_check V version pdu room allowed) (\<lambda>soft_fail.
       andthen (gets (new_extremities room pdu)) (\<lambda>extremities.
       andthen (with_short (compress_state_events state)) (\<lambda>compressed.
       andthen (derive_room_state V room version pdu state) (\<lambda>_.
       andthen (policy_check V version pdu room soft_fail) (\<lambda>soft_fail.
       finish_upgrade V pdu val extremities (set compressed) room soft_fail)))))) s2 = Some (r, s')"
    then consider e where "r = Inl e" "s' = s2"
      | allowed where "auth_check (rx_ruma (ac_events V)) v pdu None (\<lambda>ty key. map_of auths (ty, key)) cr = Inr allowed"
        "andthen (soft_fail_check V version pdu room allowed) (\<lambda>soft_fail.
         andthen (gets (new_extremities room pdu)) (\<lambda>extremities.
         andthen (with_short (compress_state_events state)) (\<lambda>compressed.
         andthen (derive_room_state V room version pdu state) (\<lambda>_.
         andthen (policy_check V version pdu room soft_fail) (\<lambda>soft_fail.
         finish_upgrade V pdu val extremities (set compressed) room soft_fail))))) s2 = Some (r, s')"
      unfolding andthen_Some [of "of_result _"] by (auto simp: of_result_def auth_result_True)
    then show ?thesis
    proof cases
      case 1
      then show ?thesis using stop q2 by blast
    next
      case (2 allowed)
      show ?thesis using 2(2)
      proof (rule quiet_step [OF _ quiet_checks(2) q2])
        fix sf s3 assume sf: "soft_fail_check V version pdu room allowed s2 = Some (Inr sf, s3)" and q3: "undisturbed s s3"
        assume "andthen (gets (new_extremities room pdu)) (\<lambda>extremities.
           andthen (with_short (compress_state_events state)) (\<lambda>compressed.
           andthen (derive_room_state V room version pdu state) (\<lambda>_.
           andthen (policy_check V version pdu room sf) (\<lambda>soft_fail.
           finish_upgrade V pdu val extremities (set compressed) room soft_fail)))) s3 = Some (r, s')"
        then have "andthen (with_short (compress_state_events state)) (\<lambda>compressed.
           andthen (derive_room_state V room version pdu state) (\<lambda>_.
           andthen (policy_check V version pdu room sf) (\<lambda>soft_fail.
           finish_upgrade V pdu val (new_extremities room pdu s3) (set compressed) room soft_fail))) s3 = Some (r, s')"
          unfolding andthen_Some [of "gets _"] by (simp add: gets_def)
        then show ?thesis
          by (elim quiet_step [OF _ quiet_short q3] quiet_step [where ?s0.0 = s, OF _ quiet_derive] quiet_step [where ?s0.0 = s, OF _ quiet_checks(3)])
            (assumption | (rule stop, assumption, assumption) | (rule go [OF auths 2(1) sf q3], assumption+))+
      qed (rule stop)
    qed
  qed (rule stop)
qed

text \<open>The three ways an upgrade can go: nothing happens to the graph, the event is soft-failed, or it is appended.\<close>

lemma upgrade_cases:
  assumes "upgrade_outlier_to_timeline_pdu V pdu val cr server room s = Some (r, s')"
  obtains (known) id where "get_pdu_id (sv_timeline s) (event_id pdu) = Inr id" "r = Inr (Some id)" "s' = s"
  | (error) e where "r = Inl e" "undisturbed s s'"
  | (soft) e0 s1 state_ids leaves where "get_pdu_id (sv_timeline s) (event_id pdu) = Inl e0" "\<not> is_event_soft_failed s (event_id pdu)"
      "undisturbed s s1" "finish_upgrade V pdu val leaves state_ids room True s1 = Some (r, s')"
  | (append) e0 s1 s2 state_ids where "get_pdu_id (sv_timeline s) (event_id pdu) = Inl e0" "\<not> is_event_soft_failed s (event_id pdu)"
      "authorised V server cr room pdu s" "undisturbed s s1" "undisturbed s s2"
      "append_incoming_pdu V pdu val (new_extremities room pdu s1 @ [event_id pdu]) state_ids False room s2 = Some (r, s')"
proof (cases "get_pdu_id (sv_timeline s) (event_id pdu)")
  case (Inr id)
  with assms have "r = Inr (Some id)" "s' = s" by (simp_all add: upgrade_outlier_to_timeline_pdu_def)
  with Inr show ?thesis by (rule known)
next
  case new: (Inl e0)
  show ?thesis
  proof (cases "is_event_soft_failed s (event_id pdu)")
    case True
    with assms new have "r = Inl AcceptSoftFailed" "s' = s" by (simp_all add: upgrade_outlier_to_timeline_pdu_def)
    then show ?thesis using error quiet.stays by blast
  next
    case fresh: False
    let ?A = "ac_events V" and ?q = undisturbed
    let ?check = "\<lambda>v f. auth_check (rx_ruma ?A) v pdu None f cr"
    consider (stop) e where "r = Inl e" "?q s s'"
      | (go) version v state s1 where "get_room_version_id ?A cr = Inr version" "to_room_version version = Inr v"
          "state_at_incoming V server cr room version pdu s = Some (Inr state, s1)" "?check v (state_lookup V s1 state) = Inr True"
          "upgrade_checked V pdu val cr room version v state s1 = Some (r, s')"
      using assms new fresh keepsD [OF quiet_state_at_incoming, of V server cr room _ pdu s]
      by (auto simp: upgrade_outlier_to_timeline_pdu_def andthen_Some action_defs check_at_state_def auth_result_True err_Inr
          quiet.stays split: if_splits)
    then show ?thesis
    proof cases
      case stop
      then show ?thesis by (rule error)
    next
      case go
      have v: "RoomVersion_new version = Inr v" using go(2) by (auto simp: to_room_version_def split: sum.splits)
      have q1: "?q s s1" by (rule keepsD [OF quiet_state_at_incoming go(3)])
      from go(5) q1 show ?thesis
      proof (cases rule: upgrade_checked_cases)
        case stop
        then show ?thesis by (rule error)
      next
        case checked: (go auths s2 allowed sf s3 compressed s5 sf' s6)
        show ?thesis
        proof (cases sf')
          case True
          with checked(8) show ?thesis using soft [OF new fresh checked(7)] by simp
        next
          case False
          then have sf': "sf' = False" by simp
          note passed = policy_check_passed [OF checked(6) [unfolded sf']]
          have sf: "sf = False" using passed(1) by simp
          note sane = soft_fail_check_passed [OF checked(3) [unfolded sf]]
          have allowed: "allowed = True" using sane(1) by simp
          have "\<not> is_event_soft_failed s e" if "redacts_id V version pdu = Some e" for e
            using passed(2) [OF that] checked(5) by (simp add: undisturbed_def is_event_soft_failed_def)
          then have "case redacts_id V version pdu of
              None \<Rightarrow> True
            | Some redact_id \<Rightarrow> \<not> is_event_soft_failed s redact_id
                \<and> map_option fst (user_can_redact (ac_states V) (ac_access V) redact_id (sender pdu) room True (sv_access s2)) = Some (Inr True)"
            using sane(2) by (simp split: option.split)
          then have "authorised V server cr room pdu s" unfolding authorised_def
            using go(1) v go(3,4) checked(1) checked(2) [unfolded allowed] by blast
          moreover have "append_incoming_pdu V pdu val (new_extremities room pdu s3 @ [event_id pdu]) (set compressed) False room s6 = Some (r, s')"
            using checked(8) False by (simp add: finish_upgrade_def)
          ultimately show ?thesis using append [OF new fresh _ checked(4,7)] by blast
        qed
      qed
    qed
  qed
qed

lemma finish_soft:
  assumes "finish_upgrade V pdu val leaves state_ids room True s = Some (r, s')"
  shows "undisturbed s s' \<or> (\<exists>s1. undisturbed s s1 \<and> r = Inl AcceptSoftFailed
    \<and> s' = mark_event_soft_failed (event_id pdu) (mark_as_referenced room (prev_events pdu) s1))"
proof -
  let ?set = "with_rooms (\<lambda>rooms. map_option (\<lambda>(r, rooms'). (err AcceptStore r, rooms'))
    (set_event_state (ac_states V) (ac_sha256 V) (event_id pdu) room state_ids rooms))"
  consider e where "?set s = Some (Inl e, s')"
    | h s1 where "?set s = Some (Inr h, s1)" "r = Inl AcceptSoftFailed"
        "s' = mark_event_soft_failed (event_id pdu) (mark_as_referenced room (prev_events pdu) s1)"
    using assms by (auto simp: finish_upgrade_def append_incoming_pdu_def andthen_Some action_defs)
  then show ?thesis
  proof cases
    case 1
    then show ?thesis using keepsD [OF quiet_set_event_state] by blast
  next
    case 2
    then show ?thesis using keepsD [OF quiet_set_event_state 2(1)] by blast
  qed
qed

lemma soft_places:
  assumes "finish_upgrade V pdu val leaves state_ids room True s1 = Some (r, s')" "undisturbed s s1"
  shows "get_pdu_id (sv_timeline s') e = get_pdu_id (sv_timeline s) e"
proof -
  have "eventid_pduid (sv_timeline s') = eventid_pduid (sv_timeline s1)"
    using finish_soft [OF assms(1)] by (auto simp: undisturbed_def mark_event_soft_failed_def mark_as_referenced_def server_defs)
  with assms(2) show ?thesis by (simp add: get_pdu_id_def undisturbed_def)
qed

lemma upgrade_others:
  assumes "upgrade_outlier_to_timeline_pdu V pdu val cr server room s = Some (r, s')" "e \<noteq> event_id pdu"
  shows "get_pdu_id (sv_timeline s') e = get_pdu_id (sv_timeline s) e"
  using assms(1)
proof (cases rule: upgrade_cases)
  case (soft e0 s1 state_ids leaves)
  show ?thesis by (rule soft_places [OF soft(4,3)])
next
  case (append e0 s1 s2 state_ids)
  with places_get(3) [OF keepsD [OF others_append append(6)] assms(2)] show ?thesis by (simp add: places_get(2))
qed (simp_all add: places_get(2))

text \<open>
  C13: An upgrade puts no event into the timeline but the incoming one, and that only after \<open>auth_check\<close> has allowed it
  on the state before it and on the auth events in the current state of the room; an event that was soft-failed
  stays out, and so does a redaction of one.
\<close>

theorem timeline_only_authorised:
  assumes "upgrade_outlier_to_timeline_pdu V pdu val cr server room s = Some (r, s')"
    "get_pdu_id (sv_timeline s') e \<noteq> get_pdu_id (sv_timeline s) e"
  shows "e = event_id pdu \<and> authorised V server cr room pdu s \<and> \<not> is_event_soft_failed s e \<and> softfailedeventids s' = softfailedeventids s"
proof -
  have e: "e = event_id pdu" using upgrade_others [OF assms(1)] assms(2) by blast
  from assms(1) show ?thesis
  proof (cases rule: upgrade_cases)
    case (soft e0 s1 state_ids leaves)
    show ?thesis using soft_places [OF soft(4,3)] assms(2) by simp
  next
    case (append e0 s1 s2 state_ids)
    have "softfailedeventids s' = softfailedeventids s"
      using keepsD [OF others_append append(6)] append(5) by (simp add: others_kept_def undisturbed_def)
    with append(2,3) e show ?thesis by blast
  qed (use assms(2) in \<open>simp_all add: places_get(2)\<close>)
qed

section \<open>Soft failures\<close>

text \<open>The room over time: upgrades of any events from any servers, in any order.\<close>

inductive accept_step :: "('c, 'd) accept_env \<Rightarrow> ('c, 'd) server \<Rightarrow> ('c, 'd) server \<Rightarrow> bool" for V where
  upgrade: "upgrade_outlier_to_timeline_pdu V pdu val cr server room s = Some (r, s') \<Longrightarrow> accept_step V s s'"

definition soft_failed_out :: "('c, 'd) server \<Rightarrow> bool" where
  "soft_failed_out s \<longleftrightarrow> (\<forall>e \<in> set (softfailedeventids s). \<exists>err. get_pdu_id (sv_timeline s) e = Inl err)"

lemma soft_failed_step:
  assumes "accept_step V s s'" "soft_failed_out s"
  shows "soft_failed_out s' \<and> set (softfailedeventids s) \<subseteq> set (softfailedeventids s')"
  using assms(1)
proof (cases rule: accept_step.cases)
  case (upgrade pdu val cr server room r)
  from upgrade show ?thesis
  proof (cases rule: upgrade_cases)
    case (soft e0 s1 state_ids leaves)
    show ?thesis
    proof (cases "undisturbed s1 s'")
      case True
      with soft(3) assms(2) show ?thesis by (simp add: soft_failed_out_def undisturbed_def get_pdu_id_def)
    next
      case False
      with finish_soft [OF soft(4)] obtain s2 where s2: "undisturbed s1 s2"
        "s' = mark_event_soft_failed (event_id pdu) (mark_as_referenced room (prev_events pdu) s2)" by blast
      have "softfailedeventids s' = hs_insert (event_id pdu) (softfailedeventids s)"
        "eventid_pduid (sv_timeline s') = eventid_pduid (sv_timeline s)"
        using s2 soft(3) by (simp_all add: mark_event_soft_failed_def mark_as_referenced_def server_defs undisturbed_def)
      with assms(2) soft(1) show ?thesis by (auto simp: soft_failed_out_def set_hs_insert get_pdu_id_def)
    qed
  next
    case (append e0 s1 s2 state_ids)
    have same: "softfailedeventids s' = softfailedeventids s"
      using keepsD [OF others_append append(6)] append(5) by (simp add: others_kept_def undisturbed_def)
    have "get_pdu_id (sv_timeline s') e = get_pdu_id (sv_timeline s) e" if "e \<in> set (softfailedeventids s)" for e
      using upgrade_others [OF upgrade] that append(2) by (cases "e = event_id pdu") (simp_all add: is_event_soft_failed_def)
    with same assms(2) show ?thesis by (simp add: soft_failed_out_def)
  qed (use assms(2) in \<open>simp_all add: soft_failed_out_def undisturbed_def get_pdu_id_def\<close>)
qed

text \<open>
  C15: Soft failure is for good: whatever events are upgraded in whatever order, an event that was soft-failed is never
  in the timeline and never forgotten as soft-failed.
\<close>

theorem soft_failed_never_placed:
  assumes "(accept_step V)\<^sup>*\<^sup>* s s'" "soft_failed_out s"
  shows "soft_failed_out s' \<and> set (softfailedeventids s) \<subseteq> set (softfailedeventids s')"
  using assms
proof (induction rule: rtranclp_induct)
  case (step t u)
  with soft_failed_step [OF step.hyps(2)] show ?case by blast
qed simp

section \<open>Forward extremities\<close>

lemma extremities_of_leaves: "roomid_pduleaves t = roomid_pduleaves s \<Longrightarrow> get_forward_extremities t room = get_forward_extremities s room"
  by (simp add: get_forward_extremities_def)

lemma set_extremities:
  "set (get_forward_extremities (set_forward_extremities room events s) room) = set events"
proof -
  let ?m = "filter (\<lambda>((r, _), _). r \<noteq> room) (roomid_pduleaves s)"
  have "fst ` set (fold (\<lambda>event. hm_insert (room, event) event) es m) = Pair room ` set es \<union> fst ` set m"
    for es :: "EventId list" and m by (induction es arbitrary: m) auto
  from this [of events ?m] have "set (map fst (roomid_pduleaves (set_forward_extremities room events s))) = Pair room ` set events \<union> fst ` set ?m"
    by (simp add: set_forward_extremities_def)
  moreover have "set (get_forward_extremities t room) = snd ` {x \<in> set (map fst (roomid_pduleaves t)). fst x = room}" for t :: "'a room_states"
    by (auto simp: get_forward_extremities_def)
  moreover have "{x \<in> Pair room ` set events \<union> fst ` set ?m. fst x = room} = Pair room ` set events" by auto
  ultimately show ?thesis by (simp add: image_image)
qed

lemma other_extremities:
  assumes "other \<noteq> room"
  shows "get_forward_extremities (set_forward_extremities room events s) other = get_forward_extremities s other"
proof -
  let ?of = "\<lambda>m :: (RoomId \<times> EventId, EventId) hash_map. filter (\<lambda>(r, _). r = other) (map fst m)"
  have "?of (fold (\<lambda>event. hm_insert (room, event) event) es m) = ?of m" for es m
    using assms by (induction es arbitrary: m) (auto simp: update_keys)
  moreover have "?of (filter (\<lambda>((r, _), _). r \<noteq> room) m) = ?of m" for m
    using assms by (induction m) auto
  ultimately show ?thesis by (simp add: get_forward_extremities_def set_forward_extremities_def)
qed

text \<open>
  C14: When an upgrade accepts a new event, the event is found under the id that is returned, the forward extremities of
  its room are the event and those earlier ones that neither the event nor any other event builds on, and
  the other rooms keep theirs.
\<close>

theorem accepted_extremities:
  assumes "upgrade_outlier_to_timeline_pdu V pdu val cr server room s = Some (Inr r, s')"
    "get_pdu_id (sv_timeline s) (event_id pdu) = Inl e0"
  shows "(\<exists>id. r = Some id \<and> get_pdu_id (sv_timeline s') (event_id pdu) = Inr id)
    \<and> set (get_forward_extremities (sv_rooms s') room)
        = insert (event_id pdu) {e \<in> set (get_forward_extremities (sv_rooms s) room). e \<notin> set (prev_events pdu) \<and> \<not> is_event_referenced s room e}
    \<and> (\<forall>other. other \<noteq> room \<longrightarrow> get_forward_extremities (sv_rooms s') other = get_forward_extremities (sv_rooms s) other)"
  using assms(1)
proof (cases rule: upgrade_cases)
  case (known id)
  then show ?thesis using assms(2) by simp
next
  case (error e)
  then show ?thesis by simp
next
  case (soft e0 s1 state_ids leaves)
  then show ?thesis by (auto simp: finish_upgrade_def andthen_Some action_defs)
next
  case (append e0 s1 s2 state_ids)
  let ?leaves = "new_extremities room pdu s1 @ [event_id pdu]"
  obtain id where id: "r = Some id" "get_pdu_id (sv_timeline s') (event_id pdu) = Inr id"
    "roomid_pduleaves (sv_rooms s') = roomid_pduleaves (set_forward_extremities room ?leaves (sv_rooms s2))"
    using append_incoming_spec [OF append(6)] by metis
  note now = extremities_of_leaves [OF id(3)]
  have same: "get_forward_extremities (sv_rooms s1) = get_forward_extremities (sv_rooms s)"
    "get_forward_extremities (sv_rooms s2) = get_forward_extremities (sv_rooms s)" "referencedevents s1 = referencedevents s"
    using append(4,5) by (simp_all add: undisturbed_def get_forward_extremities_def fun_eq_iff)
  have "set ?leaves = insert (event_id pdu) {e \<in> set (get_forward_extremities (sv_rooms s) room). e \<notin> set (prev_events pdu) \<and> \<not> is_event_referenced s room e}"
    using same by (auto simp: new_extremities_def is_event_referenced_def)
  with id(1,2) show ?thesis unfolding now set_extremities
    by (simp add: other_extremities same)
qed

section \<open>An event in a new room\<close>

text \<open>
  A room without events, a server that knows nothing else, and a policy server with one verdict; the event is of the
  create type without a state key, which the checks let through on an empty state.
\<close>

definition lone_event :: Pdu where
  "lone_event = demo_create\<lparr>state_key := None\<rparr>"

definition lone_server :: "(u64 \<Rightarrow> ShortStateInfo list option, u64 list \<Rightarrow> u64 list option) server" where
  "lone_server = \<lparr> sv_access = \<lparr> ax_rooms = set_short (no_shorts\<lparr>counter := 7, roomid_shortroomid := [(''!r'', 7)]\<rparr>) demo_rooms,
       ax_timeline = no_events no_shorts, ax_cache = joined_by [] \<rparr>,
     sv_authchains = [], sv_chain_cache = (\<lambda>_. None), sv_bad_events = [], sv_tick = 0, referencedevents = [], softfailedeventids = [] \<rparr>"

definition lone_env :: "bool option \<Rightarrow> (u64 \<Rightarrow> ShortStateInfo list option, u64 list \<Rightarrow> u64 list option) accept_env" where
  "lone_env verdict = \<lparr> ac_events = net_env room_net, ac_access = vis_env, ac_members = example_env, ac_states = map_cache,
     ac_chains = map_cache, ac_sha256 = (\<lambda>x. x), ac_depth = 0, ac_bytes = (\<lambda>_. lobby),
     state_ids_answer = (\<lambda>_ _ _ _. None), policy_answer = (\<lambda>_ _ _. verdict), de_redacts = (\<lambda>_. None),
     member_event_of = (\<lambda>_. \<lparr>me_membership = None, me_sender = [], me_json = [], me_stripped = []\<rparr>),
     with_prev_content = (\<lambda>_. Some), notified = (\<lambda>_ _. ([], [])), body_ok = (\<lambda>_. True), redacted_bytes = (\<lambda>_ _ _. None) \<rparr>"

lemma lone_checks:
  "state_at_incoming (lone_env b) server demo_create ''!r'' V11 lone_event lone_server = Some (Inr [], lone_server)"
  by (simp add: state_at_incoming_def state_at_incoming_resolved_def lone_event_def demo_create_def EventAuth.demo_event_def
      andthen_def action_defs extremity_sstatehashes_def catch_def state_resolution_def resolve_def separate_def separate_entries_def number_state_def hm_extend_def err_def)

lemma lone_auth: "auth_check demo_ruma RoomVersion_V11 lone_event None (\<lambda>ty key. None) demo_create = Inr True"
  by code_simp

lemma lone_fields:
  "kind lone_event = RoomCreate" "state_key lone_event = None" "prev_events lone_event = []" "event_id lone_event = ''$0''" "sender lone_event = ''@a''"
  "redacts_id V version lone_event = None"
  by (simp_all add: lone_event_def demo_create_def EventAuth.demo_event_def redacts_id_def)

lemma lone_run:
  "upgrade_outlier_to_timeline_pdu (lone_env verdict) lone_event [] demo_create ''hs'' ''!r'' lone_server
   = finish_upgrade (lone_env verdict) lone_event [] [''$0''] {} ''!r'' (verdict = Some False) (lone_server\<lparr>sv_tick := 1\<rparr>)"
proof -
  have auth: "auth_check (rx_ruma (ac_events (lone_env verdict))) RoomVersion_V11 lone_event None (\<lambda>ty key. None) demo_create = Inr True"
    using lone_auth by (simp add: lone_env_def net_env_def)
  have lookup: "state_lookup (lone_env verdict) lone_server [] = (\<lambda>ty key. None)"
    by (simp add: state_lookup_def fun_eq_iff split: Option.bind_splits)
  have "get_room_version_id (ac_events (lone_env verdict)) demo_create = Inr V11" by (simp add: lone_env_def net_simps)
  moreover have "to_room_version V11 = Inr RoomVersion_V11" by (simp add: to_room_version_def)
  moreover have "get_pdu_id (sv_timeline lone_server) ''$0'' = Inl PduNotFound" "\<not> is_event_soft_failed lone_server ''$0''"
    by (simp_all add: lone_server_def sv_timeline_def no_events_def get_pdu_id_def is_event_soft_failed_def)
  ultimately have "upgrade_outlier_to_timeline_pdu (lone_env verdict) lone_event [] demo_create ''hs'' ''!r'' lone_server
    = upgrade_checked (lone_env verdict) lone_event [] demo_create ''!r'' V11 RoomVersion_V11 [] lone_server"
    using lone_checks [of verdict "''hs''"] auth
    by (simp add: upgrade_outlier_to_timeline_pdu_def lone_fields andthen_def of_result_def err_def check_at_state_def lookup auth_result_def)
  also have "\<dots> = finish_upgrade (lone_env verdict) lone_event [] [''$0''] {} ''!r'' (verdict = Some False) (lone_server\<lparr>sv_tick := 1\<rparr>)"
  proof -
    have "get_auth_events (lone_env verdict) ''!r'' lone_event RoomVersion_V11 lone_server = Some (Inr [], lone_server)"
      by (simp add: get_auth_events_def andthen_def action_defs lone_server_def sv_rooms_def demo_rooms_def set_short_def get_room_shortstatehash_def)
    moreover have "new_extremities ''!r'' lone_event lone_server = [''$0'']"
      by (simp add: new_extremities_def lone_fields get_forward_extremities_def lone_server_def sv_rooms_def demo_rooms_def set_short_def)
    moreover have "with_short (compress_state_events []) lone_server = Some (Inr [], lone_server)"
      by (simp add: with_short_def lone_server_def sv_rooms_def set_rooms_def demo_rooms_def set_short_def rs_short_def compress_state_events_def multi_get_or_create_shorteventid_def)
    moreover have "policy_check (lone_env verdict) V11 lone_event ''!r'' False lone_server = Some (Inr (verdict = Some False), lone_server\<lparr>sv_tick := 1\<rparr>)"
      by (simp add: policy_check_def andthen_def action_defs lone_fields lone_env_def) (simp add: lone_server_def)
    ultimately show ?thesis using auth
      by (simp add: upgrade_checked_def andthen_def of_result_def gets_def return_def auth_result_def soft_fail_check_def lone_fields derive_room_state_def)
  qed
  finally show ?thesis .
qed

lemma lone_state:
  "\<exists>h rooms. set_event_state map_cache (\<lambda>x. x) ''$0'' ''!r'' {} (sv_rooms lone_server) = Some (Inr h, rooms)
     \<and> get_shortroomid (rs_short rooms) ''!r'' = Some 7"
proof -
  have save: "save_state_from_diff h {} {} 1000000 [] db = Inr (save_statediff h \<lparr> diff_parent = None, diff_added = {}, diff_removed = {} \<rparr> db)" for h db
    by (simp add: save_state_from_diff.simps [of h "{}" "{}"] checked_usize_def)
  have add: "u64_checked_add 7 1 = Some 8" "u64_checked_add 8 1 = Some 9" by code_simp+
  let ?short = "no_shorts\<lparr>counter := 9, roomid_shortroomid := [(''!r'', 7)], eventid_shorteventid := [(''$0'', 8)],
    shorteventid_eventid := [(8, ''$0'')], statehash_shortstatehash := [(calculate_hash (\<lambda>x. x) {}, 9)]\<rparr>"
  have rooms: "rs_short (sv_rooms lone_server) = no_shorts\<lparr>counter := 7, roomid_shortroomid := [(''!r'', 7)]\<rparr>"
    "get_room_shortstatehash (sv_rooms lone_server) ''!r'' = None"
    by (simp_all add: lone_server_def sv_rooms_def set_short_def rs_short_def demo_rooms_def get_room_shortstatehash_def)
  have numbers: "get_or_create_shorteventid ''$0'' (rs_short (sv_rooms lone_server))
      = (8, no_shorts\<lparr>counter := 8, roomid_shortroomid := [(''!r'', 7)], eventid_shorteventid := [(''$0'', 8)], shorteventid_eventid := [(8, ''$0'')]\<rparr>)"
    "get_or_create_shortstatehash (calculate_hash (\<lambda>x. x) {})
       (no_shorts\<lparr>counter := 8, roomid_shortroomid := [(''!r'', 7)], eventid_shorteventid := [(''$0'', 8)], shorteventid_eventid := [(8, ''$0'')]\<rparr>)
     = ((9, False), ?short)"
    by (simp_all add: rooms(1) get_or_create_shorteventid_def create_shorteventid_def get_or_create_shortstatehash_def next_count_def
        get_shorteventid_def get_shortstatehash_def no_shorts_def add Let_def)
  have "\<exists>db. save_event_state map_cache None 9 {} (set_short ?short (sv_rooms lone_server)) = Some (Inr (), set_diffs db (set_short ?short (sv_rooms lone_server)))"
    by (simp add: save_event_state_def load_room_layers_def diff_to_parent_def save) blast
  then obtain db where db: "save_event_state map_cache None 9 {} (set_short ?short (sv_rooms lone_server))
      = Some (Inr (), set_diffs db (set_short ?short (sv_rooms lone_server)))" ..
  let ?rooms = "set_diffs db (set_short ?short (sv_rooms lone_server))"
  have "set_event_state map_cache (\<lambda>x. x) ''$0'' ''!r'' {} (sv_rooms lone_server)
      = Some (Inr 9, ?rooms\<lparr>shorteventid_shortstatehash := hm_insert 8 9 (shorteventid_shortstatehash ?rooms)\<rparr>)"
    unfolding set_event_state_def numbers Let_def prod.case rooms(2) if_False db Option.bind.simps sum.case unit.case ..
  then show ?thesis by (auto simp: set_diffs_def set_short_def rs_short_def get_shortroomid_def)
qed

lemma lone_set_state:
  obtains h s1 where "with_rooms (\<lambda>rooms. map_option (\<lambda>(r, rooms'). (err AcceptStore r, rooms'))
       (set_event_state (ac_states (lone_env b)) (ac_sha256 (lone_env b)) ''$0'' ''!r'' {} rooms)) (lone_server\<lparr>sv_tick := 1\<rparr>) = Some (Inr h, s1)"
    "get_shortroomid (rs_short (sv_rooms s1)) ''!r'' = Some 7"
proof -
  obtain h rooms where "set_event_state map_cache (\<lambda>x. x) ''$0'' ''!r'' {} (sv_rooms lone_server) = Some (Inr h, rooms)"
    "get_shortroomid (rs_short rooms) ''!r'' = Some 7" using lone_state by blast
  moreover have "sv_rooms (lone_server\<lparr>sv_tick := 1\<rparr>) = sv_rooms lone_server" by (simp add: sv_rooms_def)
  ultimately show ?thesis using that by (auto simp: with_rooms_def lone_env_def err_def server_defs)
qed

definition succeeds :: "('s, 'a) action \<Rightarrow> bool" where
  "succeeds m \<longleftrightarrow> (\<forall>s. \<exists>a s'. m s = Some (Inr a, s'))"

lemma succeeds_andthen: "succeeds m \<Longrightarrow> (\<And>a. succeeds (f a)) \<Longrightarrow> succeeds (andthen m f)"
  unfolding succeeds_def by (metis andthen_Some)

lemma succeeds_basic: "succeeds (return a)" "succeeds (gets g)" "succeeds (change h)" "succeeds take_count"
  by (auto simp: succeeds_def action_defs take_count_def with_short_def split: prod.splits)

lemma andthen_Inr: "m s = Some (Inr a, s1) \<Longrightarrow> andthen m f s = f a s1"
  by (simp add: andthen_def)

lemma lone_accepted:
  "\<exists>id s'. upgrade_outlier_to_timeline_pdu (lone_env None) lone_event [] demo_create ''hs'' ''!r'' lone_server = Some (Inr (Some id), s')"
proof -
  obtain h s1 where one: "with_rooms (\<lambda>rooms. map_option (\<lambda>(r, rooms'). (err AcceptStore r, rooms'))
       (set_event_state (ac_states (lone_env None)) (ac_sha256 (lone_env None)) ''$0'' ''!r'' {} rooms)) (lone_server\<lparr>sv_tick := 1\<rparr>) = Some (Inr h, s1)"
    "get_shortroomid (rs_short (sv_rooms s1)) ''!r'' = Some 7" by (rule lone_set_state)
  let ?tail = "\<lambda>leaves. andthen (change (mark_as_referenced ''!r'' [])) (\<lambda>_.
             andthen (change (\<lambda>s. set_rooms (set_forward_extremities ''!r'' leaves (sv_rooms s)) s)) (\<lambda>_.
             andthen take_count (\<lambda>count1.
             andthen take_count (\<lambda>privateread.
             andthen (change (reset_notification_counts (lone_env None) ''@a'' ''!r'')) (\<lambda>_.
             andthen take_count (\<lambda>lastread.
             andthen take_count (\<lambda>count2.
             let pdu_id = raw_from_id \<lparr>shortroomid = 7, shorteventid = Normal count2\<rparr>
             in andthen (change (\<lambda>s. set_timeline (tl_append_pdu pdu_id ''$0'' (json_bytes (ac_events (lone_env None)) []) (sv_timeline s)) s)) (\<lambda>_.
                return pdu_id))))))))"
  let ?leaves = "[''$0''] @ [''$0'']"
  have "succeeds (?tail ?leaves)" unfolding Let_def by (intro succeeds_andthen succeeds_basic)
  then obtain id s2 where "?tail ?leaves s1 = Some (Inr id, s2)" unfolding succeeds_def by blast
  moreover have "store_pdu (lone_env None) lone_event [] ?leaves ''!r'' s1 = ?tail ?leaves s1"
    using one(2) by (simp add: store_pdu_def andthen_Inr gets_def return_def previous_state_event_def lone_fields)
  ultimately have store: "store_pdu (lone_env None) lone_event [] ?leaves ''!r'' s1 = Some (Inr id, s2)" by simp
  have "succeeds (after_store (lone_env None) lone_event ''!r'' id)"
    unfolding after_store_def by (simp add: lone_fields) (intro succeeds_andthen succeeds_basic)
  then obtain id' s' where "after_store (lone_env None) lone_event ''!r'' id s2 = Some (Inr id', s')" unfolding succeeds_def by blast
  then have "append_pdu (lone_env None) lone_event [] ?leaves ''!r'' s1 = Some (Inr id', s')"
    unfolding append_pdu_parts by (simp only: andthen_Inr [where m = "store_pdu (lone_env None) lone_event [] ?leaves ''!r''", OF store])
  then have "append_incoming_pdu (lone_env None) lone_event [] ?leaves {} False ''!r'' (lone_server\<lparr>sv_tick := 1\<rparr>) = Some (Inr (Some id'), s')"
    using one(1) by (simp add: append_incoming_pdu_def lone_fields andthen_Inr return_def)
  then show ?thesis unfolding lone_run by (simp add: finish_upgrade_def lone_fields)
qed

lemma lone_soft_failed:
  "\<exists>s'. upgrade_outlier_to_timeline_pdu (lone_env (Some False)) lone_event [] demo_create ''hs'' ''!r'' lone_server = Some (Inl AcceptSoftFailed, s')
     \<and> softfailedeventids s' = [''$0'']"
proof -
  obtain h s1 where one: "with_rooms (\<lambda>rooms. map_option (\<lambda>(r, rooms'). (err AcceptStore r, rooms'))
       (set_event_state (ac_states (lone_env (Some False))) (ac_sha256 (lone_env (Some False))) ''$0'' ''!r'' {} rooms)) (lone_server\<lparr>sv_tick := 1\<rparr>) = Some (Inr h, s1)"
    by (rule lone_set_state)
  have "softfailedeventids s1 = []"
    using keepsD [OF quiet_set_event_state one] by (simp add: undisturbed_def lone_server_def)
  with one show ?thesis unfolding lone_run
    by (simp add: finish_upgrade_def append_incoming_pdu_def andthen_def action_defs lone_fields mark_event_soft_failed_def
        mark_as_referenced_def hs_insert_def)
qed

lemma lone_new: "get_pdu_id (sv_timeline lone_server) ''$0'' = Inl PduNotFound"
  by (simp add: lone_server_def sv_timeline_def no_events_def get_pdu_id_def)

theorem accepted_extremities_witness:
  "\<exists>id s'. upgrade_outlier_to_timeline_pdu (lone_env None) lone_event [] demo_create ''hs'' ''!r'' lone_server = Some (Inr (Some id), s')
     \<and> get_pdu_id (sv_timeline s') ''$0'' = Inr id \<and> set (get_forward_extremities (sv_rooms s') ''!r'') = {''$0''}"
proof -
  obtain id s' where run: "upgrade_outlier_to_timeline_pdu (lone_env None) lone_event [] demo_create ''hs'' ''!r'' lone_server = Some (Inr (Some id), s')"
    using lone_accepted by blast
  have "get_forward_extremities (sv_rooms lone_server) ''!r'' = []"
    by (simp add: get_forward_extremities_def lone_server_def sv_rooms_def demo_rooms_def set_short_def)
  with accepted_extremities [OF run, unfolded lone_fields, OF lone_new] run show ?thesis by auto
qed

theorem timeline_only_authorised_witness:
  "authorised (lone_env None) ''hs'' demo_create ''!r'' lone_event lone_server"
proof -
  obtain id s' where run: "upgrade_outlier_to_timeline_pdu (lone_env None) lone_event [] demo_create ''hs'' ''!r'' lone_server = Some (Inr (Some id), s')"
    using lone_accepted by blast
  from run show ?thesis
  proof (cases rule: upgrade_cases)
    case (append e0 s1 s2 state_ids)
    obtain i where "get_pdu_id (sv_timeline s') ''$0'' = Inr i"
      using append_incoming_spec [OF append(6)] by (metis lone_fields(4))
    then have "get_pdu_id (sv_timeline s') ''$0'' \<noteq> get_pdu_id (sv_timeline lone_server) ''$0''" by (simp add: lone_new)
    from timeline_only_authorised [OF run this] show ?thesis by blast
  next
    case (soft e0 s1 state_ids leaves)
    then show ?thesis by (auto simp: finish_upgrade_def andthen_Some action_defs)
  qed (simp_all add: lone_fields lone_new)
qed

theorem soft_failed_never_placed_witness:
  "\<exists>s'. accept_step (lone_env (Some False)) lone_server s' \<and> softfailedeventids s' = [''$0''] \<and> soft_failed_out s'"
proof -
  obtain s' where run: "upgrade_outlier_to_timeline_pdu (lone_env (Some False)) lone_event [] demo_create ''hs'' ''!r'' lone_server = Some (Inl AcceptSoftFailed, s')"
    "softfailedeventids s' = [''$0'']" using lone_soft_failed by blast
  have step: "accept_step (lone_env (Some False)) lone_server s'" by (rule accept_step.upgrade [OF run(1)])
  have "soft_failed_out lone_server" by (simp add: soft_failed_out_def lone_server_def)
  with soft_failed_never_placed [OF r_into_rtranclp, OF step] step run(2) show ?thesis by blast
qed

end
