(* ===== verification/Spec2Isabelle.thy ===== *)
theory Spec2Isabelle
  imports PduId RoomVersion Events EventAuth TopoSort AuthGraph StateRes ShortIds StateCompressor AuthChain
    DbCodec DbMap Sending SenderMachine AccountData StateCache Membership Timeline RoomState
    Reception Visibility Acceptance AcceptanceSafety
begin

text \<open>
  A verification of the core of \<^emph>\<open>continuwuity\<close>, a Matrix homeserver in Rust.  Paths are relative to the
  repository's \<^verbatim>\<open>src\<close> directory.

  \<^bold>\<open>The program.\<close>  Rooms are replicated event graphs.  An event names the events that authorise it; an
  event is accepted when \<open>auth_check\<close> allows it against the room state, and when the graph forks the states
  of the branches are merged by \<open>resolve\<close> (\<^verbatim>\<open>core/matrix/state_res\<close>), which sorts the conflicting events
  (\<open>lexicographical_topological_sort\<close>, \<open>mainline_sort\<close>), checks them one after the other and adds what the
  branches agree on.  The services store the result: event ids and state keys get short numbers
  (\<^verbatim>\<open>service/rooms/short\<close>), a room state is a stack of differences of pairs of numbers
  (\<^verbatim>\<open>service/rooms/state_compressor\<close>), the ancestors of an event over its auth events are searched and
  cached (\<^verbatim>\<open>service/rooms/auth_chain\<close>).  Everything lives in columns of a key-value database
  (\<^verbatim>\<open>database\<close>), with keys built by its serialiser.  New events are queued for other servers,
  appservices and push gateways in two columns and sent by a worker (\<^verbatim>\<open>service/sending\<close>).

  \<^bold>\<open>Theories.\<close>
  \<^item> \<open>Prelude\<close>: results as sums, hash maps and sets as association lists in one iteration order, saturating and
    checked arithmetic, the contract of an LRU cache (\<open>lru_laws\<close>) and an instance of it.
  \<^item> \<open>PduId\<close>: \<^verbatim>\<open>core/matrix/pdu/{count,id,raw_id}.rs\<close>.  Counts and the keys of the timeline column: round trip,
    order of the bytes, the ends of the range.
  \<^item> \<open>RoomVersion\<close>, \<open>Events\<close>: the feature flags of \<^verbatim>\<open>room_version.rs\<close>, the event record of \<^verbatim>\<open>pdu.rs\<close>, the
    contents of power levels (\<^verbatim>\<open>power_levels.rs\<close>).  The record \<open>ruma\<close> gathers the third-party parsers.
  \<^item> \<open>EventAuth\<close>: \<^verbatim>\<open>event_auth.rs\<close> rule by rule.  No accepted event raises a level above its sender's,
    memberships follow the rules for joins, invites, knocks and removals, removals need power, the check reads only the state that
    \<open>auth_types_for_event\<close> names and does not panic in reachable states from version 11 on.
  \<^item> \<open>TopoSort\<close>, \<open>AuthGraph\<close>, \<open>StateRes\<close>: \<^verbatim>\<open>state_res/mod.rs\<close>.  The sorts are correct and do not depend on the
    iteration order of the hash maps, the conflicted subgraph is the set of events on paths between
    conflicted events, \<open>resolve\<close> returns on finite acyclic stores, keeps what the branches agree on and is otherwise
    the result of two runs of checks (\<open>auth_run\<close>), in each of which an event is checked against the state the
    run has reached.  Two fetches of state resolution take their results in the order in which they complete;
    this order is arbitrary in the model (\<open>unordered\<close>, with the choice in the record \<open>ruma\<close>), so that the sorted
    order is not kept by the checks.
  \<^item> \<open>ShortIds\<close>: the numberings of \<^verbatim>\<open>rooms/short\<close> with the counter of \<^verbatim>\<open>globals\<close>.  A locale states the
    contract of one numbering and is interpreted on the four tables; batches and round trips.
  \<^item> \<open>StateCompressor\<close>: layers, differences, the cache and \<open>save_state\<close>, which refines the assignment of one state
    in a map from numbers to states and keeps stacks within four layers.
  \<^item> \<open>AuthChain\<close>: the search with its room check, the buckets and both caches; the result is the set of
    ancestors from any coherent cache.
  \<^item> \<open>DbCodec\<close>, \<open>DbMap\<close>: \<^verbatim>\<open>database/{ser,de}.rs\<close> and \<^verbatim>\<open>database/map\<close>.  Tuples are read back, strings hold no
    separator since it is not UTF-8, and a scan by leading fields is exact.
  \<^item> \<open>Sending\<close>, \<open>SenderMachine\<close>: \<^verbatim>\<open>service/sending\<close>.  Destinations, queue columns, selection of ephemeral data, the
    handlers, and the worker as an inductive step relation over them: no panic (given the receipts the client handlers
    store), no loss after start-up, draining in batches, limits; with \<open>startup_netburst\<close> on.

  \<^item> \<open>AccountData\<close>: \<^verbatim>\<open>service/account_data\<close>.  An update refines the assignment of one entry in a map, and
    the changes since a count are the entries written after it.
  \<^item> \<open>StateCache\<close>, \<open>Membership\<close>: \<^verbatim>\<open>rooms/state_cache\<close>.  A locale for columns of pairs of identifiers, interpreted on
    users, rooms and servers; in reachable states memberships exclude each other and mirrored columns
    agree, also after an update that fails halfway, the servers of a room are those of its members, and the rooms
    two users share are found when no other user's id extends theirs.

  \<^item> \<open>Timeline\<close>: \<^verbatim>\<open>rooms/timeline/data.rs\<close> and \<^verbatim>\<open>rooms/outlier\<close>.  One list of events per room, which is appended to, prepended
    to, replaced in place and paged through in both directions, and the race of its look-ups with those of the outliers.
  \<^item> \<open>RoomState\<close>: \<^verbatim>\<open>rooms/state\<close> and the readers of \<^verbatim>\<open>rooms/state_accessor\<close>.  Appending a state event refines the update
    of one entry of a map, over the numberings, the layers and the cache of the theories above.
  \<^item> \<open>Reception\<close>: \<^verbatim>\<open>rooms/event_handler\<close> up to the storage of outliers.  An event is stored only after all checks, the
    store stays closed under auth events whatever the other server answers, and fetching returns on
    acyclic events and does not on cyclic ones.
  \<^item> \<open>Visibility\<close>: \<^verbatim>\<open>rooms/state_accessor/{server_can,user_can}.rs\<close>.  Who may see an event, computed through the cache of states,
    is the rule on the abstract state before the event; who may redact an event.
  \<^item> \<open>Acceptance\<close>, \<open>AcceptanceSafety\<close>: \<^verbatim>\<open>rooms/event_handler/upgrade_outlier_pdu.rs\<close> and what it calls, over one state that joins
    those of the theories above.  A locale for relations that composed actions stay within is interpreted three
    times; an event enters the timeline only after both auth checks, a soft failure is for good in every
    sequence of upgrades, and the forward extremities after an acceptance are those nothing builds on.

  \<^bold>\<open>Conventions.\<close>  Panics and errors are constructors of error types on the left of a sum.  Asynchronous
  fetches are functions, concurrent streams run in their order except for the two fetches of state resolution above, and
  a handler is one step.  Loops that may
  not end on arbitrary stores (\<open>topo_loop\<close>, \<open>subgraph_loop\<close>, \<open>mainline_loop\<close>, \<open>auth_graph_loop\<close>,
  \<open>load_shortstatehash_info\<close>, \<open>auth_chain_loop\<close>) are partial functions into options, and theorems show that they
  return: on any store where a visited set bounds them, and on well-founded stores otherwise.  The mutual
  recursion of \<open>fetch_and_handle_outliers\<close> and \<open>handle_outlier_pdu\<close> counts a depth down, and a theorem gives a
  depth that is enough on acyclic events; \<open>drain\<close> counts the answers of a destination. Numbers
  are words of their width where they can wrap or saturate (\<open>u64\<close> counts, \<open>i64\<close>
  levels as integers within bounds), durations are nanoseconds bounded by \<open>duration_max\<close>.
  Third-party code is a parameter: ruma and serde (\<open>ruma\<close>, \<open>id_checks\<close>,
  \<open>json_ok\<close>), sha256, the LRU cache, what other services deliver to the sender
  (\<open>edu_sources\<close>). RocksDB is an ordered map of bytes.

  \<^bold>\<open>Not modelled.\<close>  The HTTP interface, admin commands, configuration, logging, the database engine and its
  threads, media, presence, push rules and signatures: input and output, or third-party formats.  The
  contents of the requests the worker sends are its environment, and one worker stands for all, since
  destinations are sharded.  Of the event handler, the access list of a room, the previous events of an incoming
  one and the request to the policy server, whose answer is an argument; of the timeline, the building of
  local events and what follows an appended one outside its room (push notifications, search index, threads,
  appservices).  Key backups, registration tokens, interactive authentication, typing, receipts and
  aliases are tables over the database maps that no modelled component reads.
\<close>

end
